(* ===== verification/Prelude.thy ===== *)
theory Prelude
  imports Main "HOL-Library.Word"
begin

text \<open>
  The vocabulary shared by every component of the ServerCore development: the error
  codes and results of \<^verbatim>\<open>Core/Error.h\<close>, bytes and spans, the bounded \<^verbatim>\<open>size_t\<close>
  constant, overwriting a region of storage (\<^verbatim>\<open>memcpy\<close>, \<^verbatim>\<open>memmove\<close>), and the
  generic lemmas on lists, characters and words that the component theories use.

  A \<^verbatim>\<open>Core::Status\<close> is its error code: the human-readable message it may carry is
  diagnostic text that no code of the library branches on. A \<^verbatim>\<open>Core::Result<T>\<close> is the
  sum of an error code (\<open>Inl\<close>) and a value (\<open>Inr\<close>). \<^verbatim>\<open>std::byte\<close> is an
  8-bit word, \<^verbatim>\<open>std::string\<close> is a list of 8-bit characters, and a \<^verbatim>\<open>std::size_t\<close>
  that counts elements of a container is a natural number; where the code guards against
  wrap-around of a \<^verbatim>\<open>size_t\<close> the guard is kept, against \<open>SIZE_MAX\<close>.
\<close>

unbundle bit_operations_syntax

named_theorems inv_simps \<open>definitions of representation invariants\<close>
named_theorems abs_simps \<open>definitions of abstraction functions\<close>
named_theorems op_defs \<open>definitions of non-recursive operations\<close>

section \<open>Error codes, results and bytes\<close>

datatype ErrorCode =
    Ok | InvalidArgument | InvalidFormat | TooLarge | NotFound | AlreadyExists | Closed
  | WouldBlock | PlatformError | Unimplemented | UnknownType | Timeout | Cancelled

type_synonym status = ErrorCode
type_synonym 'a result = "ErrorCode + 'a"
type_synonym byte = "8 word"

definition SIZE_MAX :: nat where
  "SIZE_MAX = 2 ^ 64 - 1"

definition UINT32_MAX :: nat where
  "UINT32_MAX = 2 ^ 32 - 1"

lemma SIZE_MAX_eval: "SIZE_MAX = 18446744073709551615"
  by (simp add: SIZE_MAX_def)

lemma UINT32_MAX_eval: "UINT32_MAX = 4294967295"
  by (simp add: UINT32_MAX_def)

section \<open>Overwriting a region of storage\<close>

text \<open>
  \<^verbatim>\<open>memcpy(storage + off, src, n)\<close>, and \<^verbatim>\<open>memmove\<close> of bytes read beforehand: the region
  that starts at \<open>off\<close> is replaced by \<open>ys\<close> and everything else is kept.
\<close>

definition store_at :: "'a list \<Rightarrow> nat \<Rightarrow> 'a list \<Rightarrow> 'a list" where
  "store_at xs off ys = take off xs @ ys @ drop (off + length ys) xs"

text \<open>The elements of the half-open region from \<open>lo\<close> to \<open>hi\<close>: a sub-span.\<close>

definition region :: "'a list \<Rightarrow> nat \<Rightarrow> nat \<Rightarrow> 'a list" where
  "region xs lo hi = take (hi - lo) (drop lo xs)"

lemma length_store_at [simp]:
  "off + length ys \<le> length xs \<Longrightarrow> length (store_at xs off ys) = length xs"
  by (simp add: store_at_def)

lemma length_region [simp]: "hi \<le> length xs \<Longrightarrow> length (region xs lo hi) = hi - lo"
  by (auto simp: region_def)

lemma region_same [simp]: "region xs lo lo = []"
  by (simp add: region_def)

lemma region_store_end:
  assumes "lo \<le> off" "off + length ys \<le> length xs"
  shows "region (store_at xs off ys) lo (off + length ys) = region xs lo off @ ys"
  using assms by (simp add: region_def store_at_def drop_take)

lemma region_store_start:
  assumes "length ys \<le> length xs"
  shows "region (store_at xs 0 ys) 0 (length ys) = ys"
  using assms by (simp add: region_def store_at_def drop_take)

lemma region_drop: "lo + n \<le> hi \<Longrightarrow> region xs (lo + n) hi = drop n (region xs lo hi)"
  by (simp add: region_def drop_take add.commute)

lemma region_prefix:
  "lo + n \<le> hi \<Longrightarrow> region xs lo (lo + n) = take n (region xs lo hi)"
  by (simp add: region_def min_def)

lemma region_inner:
  "lo + k + n \<le> hi \<Longrightarrow> region xs (lo + k) (lo + k + n) = take n (drop k (region xs lo hi))"
  by (simp add: region_def drop_take min_def add.commute)

section \<open>Characters and bit fields\<close>

text \<open>\<^verbatim>\<open>static_cast<unsigned char>(c)\<close> as a number, and the character with a given code.\<close>

abbreviation uchar :: "char \<Rightarrow> nat" where
  "uchar c \<equiv> of_char c"

lemma uchar_less [simp]: "uchar c < 256"
  by (cases c) simp

lemma uchar_char_of: "n < 256 \<Longrightarrow> uchar (char_of n) = n"
  by simp

lemma uchar_eq_iff: "uchar c = uchar d \<longleftrightarrow> c = d"
  by simp

named_theorems bit_nat \<open>bit fields of naturals as arithmetic\<close>

lemma and_mask_nat [bit_nat]:
  "(v::nat) AND 3 = v mod 4" "v AND 7 = v mod 8" "v AND 15 = v mod 16" "v AND 31 = v mod 32"
  "v AND 63 = v mod 64" "v AND 127 = v mod 128" "v AND 255 = v mod 256"
  using take_bit_eq_mask [of 2 v] take_bit_eq_mask [of 3 v] take_bit_eq_mask [of 4 v]
    take_bit_eq_mask [of 5 v] take_bit_eq_mask [of 6 v] take_bit_eq_mask [of 7 v]
    take_bit_eq_mask [of 8 v]
  by (simp_all add: take_bit_eq_mod mask_eq_exp_minus_1)

lemma or_disjoint_nat:
  assumes "(b::nat) < 2 ^ n"
  shows "push_bit n a OR b = a * 2 ^ n + b"
proof -
  have "take_bit n b = b" using assms by (simp add: take_bit_nat_eq_self)
  then have "bit b k \<Longrightarrow> k < n" for k by (metis bit_take_bit_iff)
  then have "push_bit n a AND b = 0" by (fastforce simp: bit_eq_iff bit_simps)
  then show ?thesis by (simp add: disjunctive_add_eq_or [symmetric] push_bit_eq_mult)
qed

lemma and_push_bit_nat: "(v::nat) AND push_bit n m = push_bit n (drop_bit n v AND m)"
  by (auto simp: bit_eq_iff bit_simps)

lemma and_high_mask_nat [bit_nat]:
  "(v::nat) AND 192 = v div 64 mod 4 * 64" "v AND 224 = v div 32 mod 8 * 32"
  "v AND 240 = v div 16 mod 16 * 16" "v AND 248 = v div 8 mod 32 * 8"
  using and_push_bit_nat [of v 6 3] and_push_bit_nat [of v 5 7] and_push_bit_nat [of v 4 15]
    and_push_bit_nat [of v 3 31]
  by (simp_all add: push_bit_eq_mult drop_bit_eq_div and_mask_nat)

section \<open>Bytes of machine words\<close>

lemma unat32_less: "unat (w::32 word) < 4294967296"
  using unsigned_less [of w, where 'a = nat] by simp

lemma unat64_less: "unat (w::64 word) < 18446744073709551616"
  using unsigned_less [of w, where 'a = nat] by simp

lemma ucast_low_byte: "(ucast (w AND 0xFF) :: byte) = ucast (w :: 'a::len word)"
proof (rule bit_word_eqI)
  fix n
  have "w AND 0xFF = take_bit 8 w"
    using take_bit_eq_mask [of 8 w] by (simp add: mask_eq_exp_minus_1)
  then show "n < LENGTH(8) \<Longrightarrow> bit (ucast (w AND 0xFF) :: byte) n = bit (ucast w :: byte) n"
    by (auto simp: bit_simps)
qed

lemma word32_from_bytes:
  "(ucast (ucast v :: byte) :: 32 word) OR push_bit 8 (ucast (ucast (drop_bit 8 v) :: byte)) OR
     push_bit 16 (ucast (ucast (drop_bit 16 v) :: byte)) OR
     push_bit 24 (ucast (ucast (drop_bit 24 v) :: byte)) = v" (is "?w = v")
proof (rule bit_word_eqI)
  fix n
  assume "n < LENGTH(32)"
  then consider "n < 8" | "8 \<le> n" "n < 16" | "16 \<le> n" "n < 24" | "24 \<le> n" "n < 32"
    by (auto; linarith)
  then show "bit ?w n = bit v n" by cases (auto simp: bit_simps)
qed

end
