(* ===== verification/ByteBuffer.thy ===== *)
theory ByteBuffer
  imports Prelude
begin

text \<open>
  \<^verbatim>\<open>Core::ByteBuffer\<close> (\<^verbatim>\<open>src/Core/ByteBuffer.cpp\<close>): the non-wrapping receive buffer that
  keeps its live bytes contiguous between a read and a write position and compacts only
  when the tail is too short for a write. It is shown to be a bounded FIFO of bytes.
\<close>

section \<open>The buffer\<close>

record ByteBuffer =
  mStorage :: "byte list"
  mReadPos :: nat
  mWritePos :: nat

text \<open>The constructor asserts a non-zero capacity; \<open>None\<close> is the failed assertion.\<close>

definition ByteBuffer_create :: "nat \<Rightarrow> ByteBuffer option" where
  "ByteBuffer_create capacity =
     (if capacity = 0 then None
      else Some \<lparr>mStorage = replicate capacity 0, mReadPos = 0, mWritePos = 0\<rparr>)"

definition Write_compact :: "ByteBuffer \<Rightarrow> ByteBuffer" where
  "Write_compact b =
     (let liveCount = mWritePos b - mReadPos b;
          live = region (mStorage b) (mReadPos b) (mWritePos b)
      in b\<lparr>mStorage := (if liveCount \<noteq> 0 then store_at (mStorage b) 0 live else mStorage b),
           mReadPos := 0, mWritePos := liveCount\<rparr>)"

definition Write :: "ByteBuffer \<Rightarrow> byte list \<Rightarrow> nat \<times> ByteBuffer" where
  "Write b bytes =
     (if bytes = [] then (0, b)
      else
        let b1 = (if length (mStorage b) - mWritePos b < length bytes \<and> mReadPos b \<noteq> 0
                  then Write_compact b else b);
            writableCount = min (length bytes) (length (mStorage b1) - mWritePos b1)
        in if writableCount = 0 then (0, b1)
           else (writableCount,
                 b1\<lparr>mStorage := store_at (mStorage b1) (mWritePos b1) (take writableCount bytes),
                    mWritePos := mWritePos b1 + writableCount\<rparr>))"

definition Peek :: "ByteBuffer \<Rightarrow> byte list" where
  "Peek b = region (mStorage b) (mReadPos b) (mWritePos b)"

definition Size :: "ByteBuffer \<Rightarrow> nat" where
  "Size b = mWritePos b - mReadPos b"

definition Empty :: "ByteBuffer \<Rightarrow> bool" where
  "Empty b \<longleftrightarrow> mWritePos b = mReadPos b"

definition Capacity :: "ByteBuffer \<Rightarrow> nat" where
  "Capacity b = length (mStorage b)"

text \<open>\<open>None\<close> is the assertion that no more is consumed than is held.\<close>

definition Consume :: "ByteBuffer \<Rightarrow> nat \<Rightarrow> ByteBuffer option" where
  "Consume b byteCount =
     (if byteCount \<le> Size b then
        let r = mReadPos b + byteCount
        in Some (if r = mWritePos b then b\<lparr>mReadPos := 0, mWritePos := 0\<rparr>
                 else b\<lparr>mReadPos := r\<rparr>)
      else None)"

section \<open>The interface: a bounded FIFO\<close>

text \<open>
  What a transport relies on: bytes come out in the order they went in, a write accepts
  exactly the prefix that fits, and the capacity never changes.
\<close>

locale bounded_fifo =
  fixes invar :: "'q \<Rightarrow> bool"
    and contents :: "'q \<Rightarrow> 'a list"
    and capacity :: "'q \<Rightarrow> nat"
    and put :: "'q \<Rightarrow> 'a list \<Rightarrow> nat \<times> 'q"
    and discard :: "'q \<Rightarrow> nat \<Rightarrow> 'q option"
  assumes invar_bound: "invar q \<Longrightarrow> length (contents q) \<le> capacity q"
    and invar_write: "invar q \<Longrightarrow> put q xs = (n, q') \<Longrightarrow> invar q'"
    and write_count: "invar q \<Longrightarrow> put q xs = (n, q') \<Longrightarrow>
          n = min (length xs) (capacity q - length (contents q))"
    and write_contents: "invar q \<Longrightarrow> put q xs = (n, q') \<Longrightarrow>
          contents q' = contents q @ take n xs"
    and write_capacity: "invar q \<Longrightarrow> put q xs = (n, q') \<Longrightarrow> capacity q' = capacity q"
    and consume_defined: "invar q \<Longrightarrow> (discard q k \<noteq> None) = (k \<le> length (contents q))"
    and invar_consume: "invar q \<Longrightarrow> discard q k = Some q' \<Longrightarrow> invar q'"
    and consume_contents: "invar q \<Longrightarrow> discard q k = Some q' \<Longrightarrow>
          contents q' = drop k (contents q)"
    and consume_capacity: "invar q \<Longrightarrow> discard q k = Some q' \<Longrightarrow> capacity q' = capacity q"
begin

text \<open>
  A producer that offers a list of pieces and a consumer that takes everything after each
  piece: as long as each piece fits the capacity, nothing is lost or reordered.
\<close>

fun relay :: "'q \<Rightarrow> 'a list list \<Rightarrow> ('a list \<times> 'q) option" where
  "relay q [] = Some ([], q)"
| "relay q (p # ps) =
     (case put q p of (n, q1) \<Rightarrow>
        (case discard q1 (length (contents q1)) of
           None \<Rightarrow> None
         | Some q2 \<Rightarrow> map_option (\<lambda>(out, q3). (contents q1 @ out, q3)) (relay q2 ps)))"

lemma consume_all:
  assumes "invar q"
  obtains q' where "discard q (length (contents q)) = Some q'" "invar q'" "contents q' = []"
    "capacity q' = capacity q"
proof -
  have "discard q (length (contents q)) \<noteq> None"
    using consume_defined [OF assms, of "length (contents q)"] by simp
  then obtain q' where q': "discard q (length (contents q)) = Some q'" by blast
  show ?thesis
    using that [OF q'] invar_consume [OF assms q'] consume_contents [OF assms q']
      consume_capacity [OF assms q'] by simp
qed

lemma relay_lossless:
  assumes "invar q" "contents q = []" "\<forall>p \<in> set ps. length p \<le> capacity q"
  shows "\<exists>q'. relay q ps = Some (concat ps, q') \<and> invar q' \<and> contents q' = [] \<and>
           capacity q' = capacity q"
  using assms
proof (induction ps arbitrary: q)
  case Nil
  then show ?case by simp
next
  case (Cons p ps)
  obtain n q1 where w: "put q p = (n, q1)" by (cases "put q p") auto
  have inv1: "invar q1" using invar_write [OF Cons.prems(1) w] .
  have n: "n = length p" using write_count [OF Cons.prems(1) w] Cons.prems by simp
  have c1: "contents q1 = p" using write_contents [OF Cons.prems(1) w] Cons.prems(2) n by simp
  obtain q2 where q2: "discard q1 (length (contents q1)) = Some q2" "invar q2"
      "contents q2 = []" "capacity q2 = capacity q1"
    by (rule consume_all [OF inv1])
  have cap: "capacity q2 = capacity q" using q2(4) write_capacity [OF Cons.prems(1) w] by simp
  obtain q' where "relay q2 ps = Some (concat ps, q')" "invar q'" "contents q' = []"
      "capacity q' = capacity q2"
    using Cons.IH [OF q2(2,3)] Cons.prems(3) cap by auto
  then show ?case using w q2 c1 cap by auto
qed

end

section \<open>The buffer is a bounded FIFO\<close>

definition ByteBuffer_inv :: "ByteBuffer \<Rightarrow> bool" where
  [inv_simps]: "ByteBuffer_inv b \<longleftrightarrow>
     mReadPos b \<le> mWritePos b \<and> mWritePos b \<le> length (mStorage b)"

lemma Write_compact_props:
  assumes "ByteBuffer_inv b"
  shows "ByteBuffer_inv (Write_compact b)" "Peek (Write_compact b) = Peek b"
    "Capacity (Write_compact b) = Capacity b" "mReadPos (Write_compact b) = 0"
    "mWritePos (Write_compact b) = Size b"
  using assms region_store_start [of "region (mStorage b) (mReadPos b) (mWritePos b)" "mStorage b"]
  by (auto simp: inv_simps Write_compact_def Let_def Peek_def Capacity_def Size_def)

lemma Size_Peek: "ByteBuffer_inv b \<Longrightarrow> length (Peek b) = Size b"
  by (simp add: inv_simps Peek_def Size_def)

lemma Write_append:
  fixes b :: ByteBuffer
  defines "b' \<equiv> \<lambda>n xs. b\<lparr>mStorage := store_at (mStorage b) (mWritePos b) xs,
             mWritePos := mWritePos b + n\<rparr>"
  assumes "ByteBuffer_inv b" "n \<le> length (mStorage b) - mWritePos b" "length xs = n"
  shows "ByteBuffer_inv (b' n xs)" "Peek (b' n xs) = Peek b @ xs" "Capacity (b' n xs) = Capacity b"
  using assms region_store_end [of "mReadPos b" "mWritePos b" xs "mStorage b"]
  by (auto simp: inv_simps Peek_def Capacity_def)

lemma Write_props:
  assumes inv: "ByteBuffer_inv b" and w: "Write b bytes = (n, b')"
  shows "ByteBuffer_inv b' \<and> n = min (length bytes) (Capacity b - length (Peek b)) \<and>
         Peek b' = Peek b @ take n bytes \<and> Capacity b' = Capacity b"
proof (cases "bytes = []")
  case True
  with inv w show ?thesis by (simp add: Write_def)
next
  case False
  define b1 where "b1 = (if length (mStorage b) - mWritePos b < length bytes \<and> mReadPos b \<noteq> 0
                  then Write_compact b else b)"
  define m where "m = min (length bytes) (length (mStorage b1) - mWritePos b1)"
  have b1: "ByteBuffer_inv b1" "Peek b1 = Peek b" "Capacity b1 = Capacity b"
    using inv Write_compact_props [OF inv] by (auto simp: b1_def)
  have m: "m = min (length bytes) (Capacity b - length (Peek b))"
    using inv Write_compact_props [OF inv] Size_Peek [OF inv]
    by (auto simp: m_def b1_def Capacity_def Size_def inv_simps)
  have eq: "(n, b') = (if m = 0 then (0, b1)
           else (m, b1\<lparr>mStorage := store_at (mStorage b1) (mWritePos b1) (take m bytes),
                    mWritePos := mWritePos b1 + m\<rparr>))"
    using w False unfolding Write_def Let_def b1_def m_def by (simp only: if_False)
  show ?thesis
  proof (cases "m = 0")
    case True
    with eq b1 m show ?thesis by simp
  next
    case nz: False
    have "m \<le> length (mStorage b1) - mWritePos b1" "length (take m bytes) = m"
      by (auto simp: m_def)
    from Write_append [OF b1(1) this] eq nz b1 m show ?thesis by simp
  qed
qed

lemma Consume_props:
  assumes "ByteBuffer_inv b" "Consume b k = Some b'"
  shows "ByteBuffer_inv b' \<and> Peek b' = drop k (Peek b) \<and> Capacity b' = Capacity b"
  using assms region_drop [of "mReadPos b" k "mWritePos b" "mStorage b"]
  by (auto simp: Consume_def Let_def inv_simps Peek_def Size_def Capacity_def split: if_splits)

interpretation bb: bounded_fifo ByteBuffer_inv Peek Capacity Write Consume
proof unfold_locales
  fix q :: ByteBuffer and k
  assume inv: "ByteBuffer_inv q"
  show "length (Peek q) \<le> Capacity q"
    using inv by (auto simp: inv_simps Peek_def Capacity_def)
  show "(Consume q k \<noteq> None) = (k \<le> length (Peek q))"
    using Size_Peek [OF inv] by (simp add: Consume_def Let_def)
qed (use Write_props Consume_props in blast)+

lemma ByteBuffer_create_props:
  "ByteBuffer_create c = Some b \<Longrightarrow> ByteBuffer_inv b \<and> Peek b = [] \<and> Capacity b = c"
  by (auto simp: ByteBuffer_create_def inv_simps Peek_def Capacity_def split: if_splits)

section \<open>Properties\<close>

text \<open>
  A write to a receive buffer in a consistent state stores exactly the prefix of the
  input that fits the free capacity behind the bytes already held, whether or not it had to
  compact: the bytes held afterwards are the old ones followed by that prefix, the count
  returned is its length, and the capacity and the consistency are kept.
\<close>

theorem Write_stores_prefix_that_fits:
  assumes "ByteBuffer_inv b"
  shows "\<exists>b'. Write b bytes = (min (length bytes) (Capacity b - Size b), b') \<and>
           Peek b' = Peek b @ take (Capacity b - Size b) bytes \<and>
           Capacity b' = Capacity b \<and> ByteBuffer_inv b'"
proof -
  obtain n b' where w: "Write b bytes = (n, b')" by (cases "Write b bytes") auto
  show ?thesis using Write_props [OF assms w] w Size_Peek [OF assms] by (auto simp: min_def)
qed

definition sample_buffer :: ByteBuffer where
  "sample_buffer = \<lparr>mStorage = [1, 2, 3, 4], mReadPos = 2, mWritePos = 3\<rparr>"

theorem Write_stores_prefix_that_fits_witness:
  "ByteBuffer_inv sample_buffer \<and>
   (\<exists>b'. Write sample_buffer [7, 8, 9, 10] = (3, b') \<and> Peek b' = [3, 7, 8, 9])"
proof -
  have inv: "ByteBuffer_inv sample_buffer" by (simp add: inv_simps sample_buffer_def)
  show ?thesis
    using inv Write_stores_prefix_that_fits [OF inv, of "[7, 8, 9, 10]"]
    by (auto simp: sample_buffer_def Peek_def region_def Capacity_def Size_def numeral_3_eq_3)
qed



end
