(* ===== verification/WireCodec.thy ===== *)
theory WireCodec
  imports Prelude
begin

text \<open>
  The contract of a self-delimiting encoding: a value that was put in front of arbitrary bytes
  is read back together with exactly those bytes. Sequences of such values can then be written
  one after another and read back, and no encoding is a prefix of another. The integer, boolean,
  length-prefixed and UTF-8 fields of the binary protocol are instances.
\<close>

locale wire_codec =
  fixes ok :: "'a \<Rightarrow> bool"
    and put :: "'a \<Rightarrow> 'b list"
    and get :: "'b list \<Rightarrow> ('a \<times> 'b list) option"
  assumes get_put: "ok x \<Longrightarrow> get (put x @ rest) = Some (x, rest)"
begin

lemma get_put_end: "ok x \<Longrightarrow> get (put x) = Some (x, [])"
  using get_put [of x "[]"] by simp

lemma put_prefix_free: "ok x \<Longrightarrow> ok y \<Longrightarrow> put x @ r = put y @ s \<Longrightarrow> x = y \<and> r = s"
  by (metis get_put option.inject prod.inject)

lemma put_inject: "ok x \<Longrightarrow> ok y \<Longrightarrow> put x = put y \<Longrightarrow> x = y"
  using put_prefix_free [of x y "[]" "[]"] by simp

fun get_many :: "nat \<Rightarrow> 'b list \<Rightarrow> ('a list \<times> 'b list) option" where
  "get_many 0 bs = Some ([], bs)"
| "get_many (Suc n) bs =
     (case get bs of
        None \<Rightarrow> None
      | Some (x, bs') \<Rightarrow> map_option (\<lambda>(xs, r). (x # xs, r)) (get_many n bs'))"

lemma get_many_put: "list_all ok xs \<Longrightarrow>
  get_many (length xs) (concat (map put xs) @ rest) = Some (xs, rest)"
  by (induction xs) (simp_all add: get_put)

end

section \<open>Loading and storing the bytes of a word\<close>

text \<open>
  Byte \<open>i\<close> of an encoding of \<open>width\<close> bytes carries the eight bits from position \<open>at i\<close>; the two
  byte orders are two choices of \<open>at\<close>. An encoding loses nothing below \<open>8 * width\<close>.
\<close>

definition load_bytes :: "(nat \<Rightarrow> nat) \<Rightarrow> nat \<Rightarrow> byte list \<Rightarrow> 'a::len word" where
  "load_bytes at width bytes =
     foldl (\<lambda>value i. value OR push_bit (at i) (ucast (bytes ! i))) 0 [0..<width]"

definition store_bytes :: "(nat \<Rightarrow> nat) \<Rightarrow> nat \<Rightarrow> 'a::len word \<Rightarrow> byte list" where
  "store_bytes at width value = map (\<lambda>i. ucast (drop_bit (at i) value AND 255)) [0..<width]"

lemma length_store_bytes [simp]: "length (store_bytes at width v) = width"
  by (simp add: store_bytes_def)

lemma bit_foldl_or:
  "bit (foldl (\<lambda>v i. v OR f i) a xs) n \<longleftrightarrow> bit a n \<or> (\<exists>i \<in> set xs. bit (f i :: 'a::len word) n)"
  by (induction xs arbitrary: a) (auto simp: bit_simps)

lemma bit_load_bytes:
  "bit (load_bytes at width bytes :: 'a::len word) n \<longleftrightarrow>
     n < LENGTH('a) \<and> (\<exists>i < width. at i \<le> n \<and> bit (bytes ! i) (n - at i))"
  by (auto simp: load_bytes_def bit_foldl_or bit_simps)

lemma nth_store_bytes: "i < width \<Longrightarrow> store_bytes at width v ! i = ucast (drop_bit (at i) v)"
  using ucast_low_byte [of "drop_bit (at i) v"] by (simp add: store_bytes_def)

text \<open>An order covers the first \<open>width\<close> bytes when every bit has a byte that carries it.\<close>

definition covers :: "(nat \<Rightarrow> nat) \<Rightarrow> nat \<Rightarrow> bool" where
  "covers at width \<longleftrightarrow> (\<forall>n < 8 * width. \<exists>i < width. at i \<le> n \<and> n - at i < 8) \<and>
     (\<forall>i < width. at i + 8 \<le> 8 * width)"

lemma covers_little: "covers (\<lambda>i. 8 * i) width"
  unfolding covers_def
proof (intro conjI allI impI)
  fix n assume "n < 8 * width"
  then show "\<exists>i < width. 8 * i \<le> n \<and> n - 8 * i < 8"
    by (intro exI [of _ "n div 8"]) auto
qed simp

lemma covers_big: "covers (\<lambda>i. 8 * (width - i - 1)) width"
  unfolding covers_def
proof (intro conjI allI impI)
  fix n assume "n < 8 * width"
  then have "n div 8 < width" by auto
  then show "\<exists>i < width. 8 * (width - i - 1) \<le> n \<and> n - 8 * (width - i - 1) < 8"
    by (intro exI [of _ "width - 1 - n div 8"]) auto
qed auto

lemma load_store_bytes:
  assumes "covers at width"
  shows "(load_bytes at width (store_bytes at width v @ rest) :: 'a::len word) = take_bit (8 * width) v"
proof (rule bit_word_eqI)
  fix n assume n: "n < LENGTH('a)"
  have *: "(store_bytes at width v @ rest) ! i = ucast (drop_bit (at i) v)" if "i < width" for i
    using that by (simp add: nth_append nth_store_bytes)
  have ld: "bit (load_bytes at width (store_bytes at width v @ rest) :: 'a word) n \<longleftrightarrow>
      (\<exists>i < width. at i \<le> n \<and> bit (ucast (drop_bit (at i) v) :: byte) (n - at i))"
    using n * by (auto simp only: bit_load_bytes)
  show "bit (load_bytes at width (store_bytes at width v @ rest) :: 'a word) n = bit (take_bit (8 * width) v) n"
  proof (cases "n < 8 * width")
    case True
    then obtain i where "i < width" "at i \<le> n" "n - at i < 8" using assms by (auto simp: covers_def)
    then have "bit v n \<Longrightarrow> \<exists>i < width. at i \<le> n \<and> bit (ucast (drop_bit (at i) v) :: byte) (n - at i)"
      by (intro exI [of _ i]) (simp add: bit_simps)
    moreover have "at i \<le> n \<Longrightarrow> bit (ucast (drop_bit (at i) v) :: byte) (n - at i) \<Longrightarrow> bit v n" for i
      by (simp add: bit_simps)
    ultimately show ?thesis using True by (auto simp only: ld bit_take_bit_iff)
  next
    case False
    have "\<not> n - at i < 8" if "i < width" for i
      using that assms False unfolding covers_def by fastforce
    then have "\<not> bit (ucast (drop_bit (at i) v) :: byte) (n - at i)" if "i < width" for i
      using that by (simp add: bit_simps)
    then show ?thesis using False by (auto simp only: ld bit_take_bit_iff)
  qed
qed

lemma load_bytes_append:
  "width \<le> length bytes \<Longrightarrow> load_bytes at width (bytes @ rest) = load_bytes at width bytes"
  unfolding load_bytes_def by (rule foldl_cong) (simp_all add: nth_append)

text \<open>Storing what was loaded gives the bytes back, when the word has room for them.\<close>

lemma store_load_bytes:
  assumes "at = (\<lambda>i. 8 * i)" "8 * width \<le> LENGTH('a::len)" "length bytes = width"
  shows "store_bytes at width (load_bytes at width bytes :: 'a word) = bytes"
proof (rule nth_equalityI)
  fix i assume "i < length (store_bytes at width (load_bytes at width bytes :: 'a word))"
  then have i: "i < width" by simp
  show "store_bytes at width (load_bytes at width bytes :: 'a word) ! i = bytes ! i"
  proof (rule bit_word_eqI)
    fix n assume n: "n < LENGTH(8)"
    have "8 * i + n < 8 * width" using i n by simp
    moreover have "8 * j \<le> 8 * i + n \<and> bit (bytes ! j) (8 * i + n - 8 * j) \<longleftrightarrow>
        j = i \<and> bit (bytes ! i) n" if "j < width" for j
    proof (cases "j = i")
      case False
      have "\<not> (8 * j \<le> 8 * i + n \<and> 8 * i + n - 8 * j < 8)" using False n by auto
      then show ?thesis using False by (auto dest: bit_imp_le_length)
    qed simp
    moreover from this have "(\<exists>j < width. 8 * j \<le> 8 * i + n \<and> bit (bytes ! j) (8 * i + n - 8 * j)) \<longleftrightarrow>
        bit (bytes ! i) n"
      using i by blast
    ultimately show "bit (store_bytes at width (load_bytes at width bytes :: 'a word) ! i) n = bit (bytes ! i) n"
      using assms n i by (simp add: nth_store_bytes bit_simps bit_load_bytes)
  qed
qed (simp add: assms)

end
