(* ===== verification/Utf8.thy ===== *)
theory Utf8
  imports Prelude
begin

text \<open>
  UTF-8 validation (\<^verbatim>\<open>src/Core/Utf8.cpp\<close>) and the encoder the JSON parser uses for
  \<^verbatim>\<open>\uXXXX\<close> escapes (\<^verbatim>\<open>AppendUtf8\<close> of \<^verbatim>\<open>src/Protocol/Json.cpp\<close>). The validator
  accepts exactly the concatenations of encodings of Unicode scalar values.
\<close>

section \<open>The validator\<close>

text \<open>
  The lead byte gives the number of continuation bytes, the first bits of the code point
  and the smallest code point this length may encode; \<open>None\<close> is an invalid lead byte.
\<close>

definition utf8_lead :: "nat \<Rightarrow> (nat \<times> nat \<times> nat) option" where
  "utf8_lead lead =
     (if lead < 0x80 then Some (0, lead, 0)
      else if lead AND 0xE0 = 0xC0 then Some (1, lead AND 0x1F, 0x80)
      else if lead AND 0xF0 = 0xE0 then Some (2, lead AND 0x0F, 0x800)
      else if lead AND 0xF8 = 0xF0 then Some (3, lead AND 0x07, 0x10000)
      else None)"

fun utf8_continue :: "nat \<Rightarrow> string \<Rightarrow> nat option" where
  "utf8_continue codePoint [] = Some codePoint"
| "utf8_continue codePoint (c # cs) =
     (if uchar c AND 0xC0 \<noteq> 0x80 then None
      else utf8_continue (push_bit 6 codePoint OR (uchar c AND 0x3F)) cs)"

definition utf8_in_range :: "nat \<Rightarrow> nat \<Rightarrow> bool" where
  "utf8_in_range codePoint smallest \<longleftrightarrow>
     \<not> (codePoint < smallest \<or> (codePoint \<ge> 0xD800 \<and> codePoint \<le> 0xDFFF) \<or> codePoint > 0x10FFFF)"

fun IsValidUtf8 :: "string \<Rightarrow> bool" where
  "IsValidUtf8 [] = True"
| "IsValidUtf8 (lead # rest) =
     (case utf8_lead (uchar lead) of
        None \<Rightarrow> False
      | Some (continuationCount, codePoint, smallest) \<Rightarrow>
          if continuationCount > 0 \<and> continuationCount \<ge> Suc (length rest) then False
          else (case utf8_continue codePoint (take continuationCount rest) of
                  None \<Rightarrow> False
                | Some cp \<Rightarrow>
                    if utf8_in_range cp smallest then IsValidUtf8 (drop continuationCount rest)
                    else False))"

section \<open>The encoder\<close>

definition AppendUtf8 :: "nat \<Rightarrow> string" where
  "AppendUtf8 codePoint =
     (if codePoint \<le> 0x7F then [char_of codePoint]
      else if codePoint \<le> 0x7FF then
        [char_of (0xC0 OR drop_bit 6 codePoint), char_of (0x80 OR (codePoint AND 0x3F))]
      else if codePoint \<le> 0xFFFF then
        [char_of (0xE0 OR drop_bit 12 codePoint), char_of (0x80 OR (drop_bit 6 codePoint AND 0x3F)),
         char_of (0x80 OR (codePoint AND 0x3F))]
      else
        [char_of (0xF0 OR drop_bit 18 codePoint), char_of (0x80 OR (drop_bit 12 codePoint AND 0x3F)),
         char_of (0x80 OR (drop_bit 6 codePoint AND 0x3F)), char_of (0x80 OR (codePoint AND 0x3F))])"

text \<open>A Unicode scalar value: a code point that is not a surrogate.\<close>

definition scalar_value :: "nat \<Rightarrow> bool" where
  "scalar_value cp \<longleftrightarrow> cp \<le> 0x10FFFF \<and> \<not> (0xD800 \<le> cp \<and> cp \<le> 0xDFFF)"

section \<open>Bit patterns as ranges\<close>

lemma div_interval:
  fixes d v q :: nat
  assumes "0 < d"
  shows "(v div d * d = q * d) = (q * d \<le> v \<and> v < q * d + d)"
proof -
  have "(v div d = q) = (q * d \<le> v \<and> v < q * d + d)"
  proof
    assume "v div d = q"
    then show "q * d \<le> v \<and> v < q * d + d"
      using assms by (auto simp: dividend_less_div_times add.commute)
  next
    assume "q * d \<le> v \<and> v < q * d + d"
    then show "v div d = q" by (intro div_nat_eqI) (auto simp: algebra_simps)
  qed
  then show ?thesis using assms by simp
qed

lemma lead_ranges:
  assumes "v < 256"
  shows "(v AND 0xE0 = 0xC0) = (192 \<le> v \<and> v < 224)" "(v AND 0xF0 = 0xE0) = (224 \<le> v \<and> v < 240)"
    "(v AND 0xF8 = 0xF0) = (240 \<le> v \<and> v < 248)" "(v AND 0xC0 = 0x80) = (128 \<le> v \<and> v < (192::nat))"
proof -
  have m: "v div 32 mod 8 = v div 32" "v div 16 mod 16 = v div 16" "v div 8 mod 32 = v div 8"
    "v div 64 mod 4 = v div 64"
    using assms by (simp_all add: less_mult_imp_div_less)
  show "(v AND 0xE0 = 0xC0) = (192 \<le> v \<and> v < 224)"
    using div_interval [of 32 v 6] unfolding and_high_mask_nat m by simp
  show "(v AND 0xF0 = 0xE0) = (224 \<le> v \<and> v < 240)"
    using div_interval [of 16 v 14] unfolding and_high_mask_nat m by simp
  show "(v AND 0xF8 = 0xF0) = (240 \<le> v \<and> v < 248)"
    using div_interval [of 8 v 30] unfolding and_high_mask_nat m by simp
  show "(v AND 0xC0 = 0x80) = (128 \<le> v \<and> v < 192)"
    using div_interval [of 64 v 2] unfolding and_high_mask_nat m by simp
qed

lemma mod_nat_interval:
  fixes q d v :: nat
  assumes "q * d \<le> v" "v < q * d + d"
  shows "v mod d = v - q * d"
proof -
  obtain r where r: "v = q * d + r" using assms(1) le_Suc_ex by blast
  with assms(2) show ?thesis by simp
qed

lemmas lead_remainders =
  mod_nat_interval [of 6 32, simplified] mod_nat_interval [of 14 16, simplified]
  mod_nat_interval [of 30 8, simplified] mod_nat_interval [of 2 64, simplified]

lemma utf8_lead_arith:
  "v < 256 \<Longrightarrow> utf8_lead v =
     (if v < 128 then Some (0, v, 0)
      else if 192 \<le> v \<and> v < 224 then Some (1, v - 192, 128)
      else if 224 \<le> v \<and> v < 240 then Some (2, v - 224, 2048)
      else if 240 \<le> v \<and> v < 248 then Some (3, v - 240, 65536) else None)"
  unfolding utf8_lead_def by (simp only: lead_ranges) (auto simp: bit_nat lead_remainders)

lemma utf8_continue_arith:
  "utf8_continue cp (c # cs) =
     (if 128 \<le> uchar c \<and> uchar c < 192 then utf8_continue (cp * 64 + (uchar c - 128)) cs else None)"
proof -
  have join: "push_bit 6 cp OR (uchar c AND 0x3F) = cp * 64 + uchar c mod 64"
    using or_disjoint_nat [of "uchar c mod 64" 6 cp] by (simp add: and_mask_nat)
  have "128 \<le> uchar c \<Longrightarrow> uchar c < 192 \<Longrightarrow> uchar c mod 64 = uchar c - 128"
    by (rule lead_remainders(4))
  then show ?thesis by (simp add: join lead_ranges)
qed

declare utf8_continue.simps(2) [simp del]

lemma or_high_bits:
  "a < 64 \<Longrightarrow> 128 OR a = 128 + (a::nat)" "a < 32 \<Longrightarrow> 192 OR a = 192 + (a::nat)"
  "a < 16 \<Longrightarrow> 224 OR a = 224 + (a::nat)" "a < 8 \<Longrightarrow> 240 OR a = 240 + (a::nat)"
  using or_disjoint_nat [of a 6 2] or_disjoint_nat [of a 5 6] or_disjoint_nat [of a 4 14]
    or_disjoint_nat [of a 3 30] by (simp_all add: push_bit_eq_mult)

lemma AppendUtf8_arith:
  assumes "cp \<le> 0x10FFFF"
  shows "AppendUtf8 cp =
     (if cp < 128 then [char_of cp]
      else if cp < 2048 then [char_of (192 + cp div 64), char_of (128 + cp mod 64)]
      else if cp < 65536 then [char_of (224 + cp div 4096), char_of (128 + cp div 64 mod 64),
          char_of (128 + cp mod 64)]
      else [char_of (240 + cp div 262144), char_of (128 + cp div 4096 mod 64),
          char_of (128 + cp div 64 mod 64), char_of (128 + cp mod 64)])"
  using assms by (auto simp: AppendUtf8_def bit_nat drop_bit_eq_div or_high_bits)

section \<open>Validation and encoding agree\<close>

lemma IsValidUtf8_1: "a < (128::nat) \<Longrightarrow> IsValidUtf8 (char_of a # s) = IsValidUtf8 s"
  by (simp add: utf8_lead_arith utf8_in_range_def)

lemma IsValidUtf8_2:
  "a < (32::nat) \<Longrightarrow> b < (64::nat) \<Longrightarrow>
   IsValidUtf8 (char_of (192 + a) # char_of (128 + b) # s) =
     (utf8_in_range (a * 64 + b) 128 \<and> IsValidUtf8 s)"
  by (simp add: utf8_lead_arith utf8_continue_arith)

lemma IsValidUtf8_3:
  "a < (16::nat) \<Longrightarrow> b < (64::nat) \<Longrightarrow> c < (64::nat) \<Longrightarrow>
   IsValidUtf8 (char_of (224 + a) # char_of (128 + b) # char_of (128 + c) # s) =
     (utf8_in_range ((a * 64 + b) * 64 + c) 2048 \<and> IsValidUtf8 s)"
  by (simp add: utf8_lead_arith utf8_continue_arith)

lemma IsValidUtf8_4:
  "a < (8::nat) \<Longrightarrow> b < (64::nat) \<Longrightarrow> c < (64::nat) \<Longrightarrow> d < (64::nat) \<Longrightarrow>
   IsValidUtf8 (char_of (240 + a) # char_of (128 + b) # char_of (128 + c) # char_of (128 + d) # s) =
     (utf8_in_range (((a * 64 + b) * 64 + c) * 64 + d) 65536 \<and> IsValidUtf8 s)"
  by (simp add: utf8_lead_arith utf8_continue_arith)

lemma split64:
  "(cp::nat) div 64 * 64 + cp mod 64 = cp"
  "(cp div 4096 * 64 + cp div 64 mod 64) * 64 + cp mod 64 = cp"
  "((cp div 262144 * 64 + cp div 4096 mod 64) * 64 + cp div 64 mod 64) * 64 + cp mod 64 = cp"
proof -
  have d: "cp div 4096 = cp div 64 div 64" "cp div 262144 = cp div 4096 div 64"
    by (simp_all add: div_mult2_eq [symmetric])
  show 1: "cp div 64 * 64 + cp mod 64 = cp" by simp
  show 2: "(cp div 4096 * 64 + cp div 64 mod 64) * 64 + cp mod 64 = cp"
    unfolding d(1) by (metis div_mult_mod_eq)
  show "((cp div 262144 * 64 + cp div 4096 mod 64) * 64 + cp div 64 mod 64) * 64 + cp mod 64 = cp"
    using 2 unfolding d(2) by (metis div_mult_mod_eq)
qed

lemma IsValidUtf8_encode:
  assumes "scalar_value cp"
  shows "IsValidUtf8 (AppendUtf8 cp @ s) = IsValidUtf8 s"
proof -
  have le: "cp \<le> 0x10FFFF" using assms by (simp add: scalar_value_def)
  have small: "cp < 2048 \<Longrightarrow> cp div 64 < 32" "cp < 65536 \<Longrightarrow> cp div 4096 < 16" "cp div 262144 < 8"
    using le by (simp_all add: less_mult_imp_div_less)
  note e2 = IsValidUtf8_2 [of "cp div 64" "cp mod 64" s, unfolded split64]
    and e3 = IsValidUtf8_3 [of "cp div 4096" "cp div 64 mod 64" "cp mod 64" s, unfolded split64]
    and e4 = IsValidUtf8_4 [of "cp div 262144" "cp div 4096 mod 64" "cp div 64 mod 64" "cp mod 64" s,
        unfolded split64]
  show ?thesis
    using small assms e2 e3 e4
    by (simp add: AppendUtf8_arith [OF le] IsValidUtf8_1 utf8_in_range_def scalar_value_def
        del: IsValidUtf8.simps)
qed

text \<open>Conversely, every accepted text starts with the encoding of a scalar value.\<close>

lemma digits64:
  "b < 64 \<Longrightarrow> (a * 64 + b) div 64 = (a::nat)" "b < 64 \<Longrightarrow> (a * 64 + b) mod 64 = b"
  "b < 64 \<Longrightarrow> c < 64 \<Longrightarrow> ((a * 64 + b) * 64 + c) div 4096 = a"
  "b < 64 \<Longrightarrow> c < 64 \<Longrightarrow> d < 64 \<Longrightarrow> (((a * 64 + b) * 64 + c) * 64 + d) div 4096 = a * 64 + b"
  "b < 64 \<Longrightarrow> c < 64 \<Longrightarrow> d < 64 \<Longrightarrow> (((a * 64 + b) * 64 + c) * 64 + d) div 262144 = a"
proof -
  have q: "y < 64 \<Longrightarrow> (x * 64 + y) div 64 = x" for x y :: nat by (intro div_nat_eqI) auto
  have split: "(x::nat) div 4096 = x div 64 div 64" "x div 262144 = x div 64 div 64 div 64" for x
    by (simp_all add: div_mult2_eq [symmetric])
  show "b < 64 \<Longrightarrow> (a * 64 + b) div 64 = a" by (rule q)
  show "b < 64 \<Longrightarrow> (a * 64 + b) mod 64 = b" by simp
  show "b < 64 \<Longrightarrow> c < 64 \<Longrightarrow> ((a * 64 + b) * 64 + c) div 4096 = a" by (simp only: split q)
  show "b < 64 \<Longrightarrow> c < 64 \<Longrightarrow> d < 64 \<Longrightarrow> (((a * 64 + b) * 64 + c) * 64 + d) div 4096 = a * 64 + b"
    by (simp only: split q)
  show "b < 64 \<Longrightarrow> c < 64 \<Longrightarrow> d < 64 \<Longrightarrow> (((a * 64 + b) * 64 + c) * 64 + d) div 262144 = a"
    by (simp only: split q)
qed

lemma AppendUtf8_compose:
  "a < 128 \<Longrightarrow> AppendUtf8 a = [char_of a]"
  "b < 64 \<Longrightarrow> 128 \<le> a * 64 + b \<Longrightarrow> a * 64 + b < 2048 \<Longrightarrow>
     AppendUtf8 (a * 64 + b) = [char_of (192 + a), char_of (128 + b)]"
  "b < 64 \<Longrightarrow> c < 64 \<Longrightarrow> 2048 \<le> (a * 64 + b) * 64 + c \<Longrightarrow> (a * 64 + b) * 64 + c < 65536 \<Longrightarrow>
     AppendUtf8 ((a * 64 + b) * 64 + c) = [char_of (224 + a), char_of (128 + b), char_of (128 + c)]"
  "b < 64 \<Longrightarrow> c < 64 \<Longrightarrow> d < 64 \<Longrightarrow> 65536 \<le> ((a * 64 + b) * 64 + c) * 64 + d \<Longrightarrow>
     ((a * 64 + b) * 64 + c) * 64 + d \<le> 0x10FFFF \<Longrightarrow>
     AppendUtf8 (((a * 64 + b) * 64 + c) * 64 + d) =
       [char_of (240 + a), char_of (128 + b), char_of (128 + c), char_of (128 + d)]"
  by (simp_all only: AppendUtf8_arith digits64) (simp_all add: digits64)

text \<open>A character read as a lead or continuation byte plus its payload bits.\<close>

lemma char_as_offset: "k \<le> uchar c \<Longrightarrow> c = char_of (k + (uchar c - k))"
  by simp

lemma IsValidUtf8_decode:
  assumes "IsValidUtf8 (lead # rest)"
  obtains cp s where "lead # rest = AppendUtf8 cp @ s" "scalar_value cp" "IsValidUtf8 s"
proof -
  obtain n h m where l: "utf8_lead (uchar lead) = Some (n, h, m)"
    using assms by (cases "utf8_lead (uchar lead)") auto
  then consider "n = 0" "h = uchar lead" "m = 0" "uchar lead < 128"
    | "n = 1" "h = uchar lead - 192" "m = 128" "192 \<le> uchar lead" "uchar lead < 224"
    | "n = 2" "h = uchar lead - 224" "m = 2048" "224 \<le> uchar lead" "uchar lead < 240"
    | "n = 3" "h = uchar lead - 240" "m = 65536" "240 \<le> uchar lead" "uchar lead < 248"
    by (auto simp: utf8_lead_arith split: if_splits)
  then show ?thesis
  proof cases
    case 1
    then have "lead # rest = AppendUtf8 (uchar lead) @ rest" "scalar_value (uchar lead)"
      "IsValidUtf8 rest"
      using assms l by (auto simp: AppendUtf8_compose scalar_value_def split: if_splits)
    then show ?thesis by (rule that)
  next
    case 2
    then obtain x s where r: "rest = x # s" using assms l by (cases rest) auto
    let ?b = "uchar x - 128"
    have v: "128 \<le> uchar x" "uchar x < 192" "utf8_in_range (h * 64 + ?b) 128" "IsValidUtf8 s"
      using assms l 2 r by (auto simp: utf8_continue_arith split: if_splits)
    have "lead # rest = AppendUtf8 (h * 64 + ?b) @ s"
      using v 2 r by (subst AppendUtf8_compose(2)) (auto simp: utf8_in_range_def)
    then show ?thesis using v by (intro that) (auto simp: utf8_in_range_def scalar_value_def)
  next
    case 3
    then obtain x y s where r: "rest = x # y # s"
      using assms l by (cases rest; cases "tl rest") auto
    let ?b = "uchar x - 128" and ?c = "uchar y - 128"
    have u: "128 \<le> uchar x" "uchar x < 192" "128 \<le> uchar y" "uchar y < 192"
      using assms l 3 r by (auto simp: utf8_continue_arith split: if_splits)
    have "IsValidUtf8 (char_of (224 + h) # char_of (128 + ?b) # char_of (128 + ?c) # s)"
      using assms 3 r u by (simp del: IsValidUtf8.simps)
    then have v: "utf8_in_range ((h * 64 + ?b) * 64 + ?c) 2048" "IsValidUtf8 s"
      using u 3 by (subst (asm) IsValidUtf8_3; simp)+
    have "lead # rest = AppendUtf8 ((h * 64 + ?b) * 64 + ?c) @ s"
      using u v 3 r by (subst AppendUtf8_compose(3)) (auto simp: utf8_in_range_def)
    then show ?thesis using v by (intro that) (auto simp: utf8_in_range_def scalar_value_def)
  next
    case 4
    then obtain x y z s where r: "rest = x # y # z # s"
      using assms l by (cases rest; cases "tl rest"; cases "tl (tl rest)") auto
    let ?b = "uchar x - 128" and ?c = "uchar y - 128" and ?d = "uchar z - 128"
    have u: "128 \<le> uchar x" "uchar x < 192" "128 \<le> uchar y" "uchar y < 192" "128 \<le> uchar z"
        "uchar z < 192"
      using assms l 4 r by (auto simp: utf8_continue_arith split: if_splits)
    have "IsValidUtf8 (char_of (240 + h) # char_of (128 + ?b) # char_of (128 + ?c) #
        char_of (128 + ?d) # s)"
      using assms 4 r u by (simp del: IsValidUtf8.simps)
    then have v: "utf8_in_range (((h * 64 + ?b) * 64 + ?c) * 64 + ?d) 65536" "IsValidUtf8 s"
      using u 4 by (subst (asm) IsValidUtf8_4; simp)+
    have "lead # rest = AppendUtf8 (((h * 64 + ?b) * 64 + ?c) * 64 + ?d) @ s"
      using u v 4 r by (subst AppendUtf8_compose(4)) (auto simp: utf8_in_range_def)
    then show ?thesis using v by (intro that) (auto simp: utf8_in_range_def scalar_value_def)
  qed
qed

lemma AppendUtf8_nonempty [simp]: "AppendUtf8 cp \<noteq> []"
  by (simp add: AppendUtf8_def)

lemma IsValidUtf8_concat:
  "\<forall>cp \<in> set cps. scalar_value cp \<Longrightarrow> IsValidUtf8 (concat (map AppendUtf8 cps) @ s) = IsValidUtf8 s"
  by (induction cps) (simp_all add: IsValidUtf8_encode del: IsValidUtf8.simps(2))

lemma IsValidUtf8_scalars:
  "IsValidUtf8 s \<Longrightarrow> \<exists>cps. (\<forall>cp \<in> set cps. scalar_value cp) \<and> s = concat (map AppendUtf8 cps)"
proof (induction s rule: length_induct)
  case (1 s)
  show ?case
  proof (cases s)
    case Nil
    then show ?thesis by (intro exI [of _ "[]"]) simp
  next
    case (Cons lead rest)
    then obtain cp t where t: "s = AppendUtf8 cp @ t" "scalar_value cp" "IsValidUtf8 t"
      using 1 IsValidUtf8_decode by blast
    then have "length t < length s" by (simp add: AppendUtf8_def)
    with 1 t obtain cps where "\<forall>cp \<in> set cps. scalar_value cp" "t = concat (map AppendUtf8 cps)"
      by blast
    with t show ?thesis by (intro exI [of _ "cp # cps"]) simp
  qed
qed

section \<open>Properties\<close>

text \<open>Validity of a concatenation, and induction over the characters of a valid string.\<close>

lemma IsValidUtf8_append: "IsValidUtf8 s \<Longrightarrow> IsValidUtf8 (s @ t) = IsValidUtf8 t"
  using IsValidUtf8_scalars [of s] IsValidUtf8_concat by auto

lemma IsValidUtf8_ascii: "uchar c < 128 \<Longrightarrow> IsValidUtf8 (c # s) = IsValidUtf8 s"
  using IsValidUtf8_1 [of "uchar c" s] by simp

lemma AppendUtf8_low: "cp < 128 \<Longrightarrow> AppendUtf8 cp = [char_of cp]"
  by (rule AppendUtf8_compose)

lemma AppendUtf8_high:
  assumes "scalar_value cp" "128 \<le> cp" "c \<in> set (AppendUtf8 cp)"
  shows "128 \<le> uchar c"
proof -
  have le: "cp \<le> 0x10FFFF" using assms(1) by (simp add: scalar_value_def)
  have small: "cp div 64 mod 64 < 64" "cp div 4096 mod 64 < 64" "cp mod 64 < 64"
      "cp < 2048 \<Longrightarrow> cp div 64 < 32" "cp < 65536 \<Longrightarrow> cp div 4096 < 16" "cp div 262144 < 8"
    using le by (simp_all add: less_mult_imp_div_less)
  have "uchar (char_of n) = n" if "n < 256" for n :: nat using that by (rule uchar_char_of)
  then show ?thesis
    using assms(2,3) small unfolding AppendUtf8_arith [OF le]
    by (auto split: if_splits)
qed

lemma valid_utf8_induct [consumes 1, case_names Nil ascii multi]:
  assumes "IsValidUtf8 s" "P []"
    and "\<And>c s. uchar c < 128 \<Longrightarrow> IsValidUtf8 s \<Longrightarrow> P s \<Longrightarrow> P (c # s)"
    and "\<And>b s. \<forall>c \<in> set b. 128 \<le> uchar c \<Longrightarrow> IsValidUtf8 b \<Longrightarrow> IsValidUtf8 s \<Longrightarrow> P s \<Longrightarrow> P (b @ s)"
  shows "P s"
proof -
  obtain cps where "\<forall>cp \<in> set cps. scalar_value cp" "s = concat (map AppendUtf8 cps)"
    using IsValidUtf8_scalars [OF assms(1)] by auto
  then show ?thesis
  proof (induction cps arbitrary: s)
    case (Cons cp cps)
    let ?t = "concat (map AppendUtf8 cps)"
    have t: "IsValidUtf8 ?t" "P ?t" using Cons IsValidUtf8_concat [of cps "[]"] by auto
    show ?case
    proof (cases "cp < 128")
      case True
      then show ?thesis using Cons.prems(2) t assms(3) [of "char_of cp" ?t] AppendUtf8_low [OF True] by simp
    next
      case False
      have "IsValidUtf8 (AppendUtf8 cp)" using Cons.prems(1) IsValidUtf8_encode [of cp "[]"] by simp
      then show ?thesis
        using Cons.prems t False assms(4) [of "AppendUtf8 cp" ?t] AppendUtf8_high [of cp] by simp
    qed
  qed (simp add: assms(2))
qed

text \<open>
  C2. The UTF-8 validator accepts a byte string exactly when it is a concatenation of
  encodings of Unicode scalar values: no overlong form, surrogate, truncated sequence or
  value above U+10FFFF is accepted, and no well-formed text is refused.
\<close>

theorem IsValidUtf8_iff_scalar_encoding:
  "IsValidUtf8 s \<longleftrightarrow>
     (\<exists>cps. list_all scalar_value cps \<and> s = concat (map AppendUtf8 cps))"
  using IsValidUtf8_scalars [of s] IsValidUtf8_concat [where s = "[]"]
  by (auto simp: list_all_iff)

end
