(* ===== verification/BinaryIO.thy ===== *)
theory BinaryIO
  imports WireCodec Utf8
begin

text \<open>
  The bounded binary reader and writer, version negotiation and the typed binary envelope
  (\<^verbatim>\<open>src/Protocol/BinaryIO.cpp\<close>, \<^verbatim>\<open>include/ServerCore/Protocol/BinaryIO.h\<close>,
  \<^verbatim>\<open>src/Protocol/BinaryMessage.cpp\<close>). Integers are 64-bit words; a \<^verbatim>\<open>float\<close> or \<^verbatim>\<open>double\<close> is
  its bit pattern, which is all that \<^verbatim>\<open>std::bit_cast\<close> sees. A span handed to the writer is either
  foreign memory or a view that starts inside the writer's own vector, the case that the code
  recognises by comparing addresses. \<open>alloc n\<close> tells whether the vector can grow to \<open>n\<close> bytes.
\<close>

section \<open>Byte orders and widths\<close>

datatype ByteOrder = BigEndian | LittleEndian

definition MaximumBinaryBuffer :: nat where
  "MaximumBinaryBuffer = 64 * 1024 * 1024"

definition Width :: "nat \<Rightarrow> bool" where
  "Width width \<longleftrightarrow> width = 1 \<or> width = 2 \<or> width = 4 \<or> width = 8"

text \<open>The shift of byte \<open>i\<close>, as both loops compute it.\<close>

definition byte_shift :: "ByteOrder \<Rightarrow> nat \<Rightarrow> nat \<Rightarrow> nat" where
  "byte_shift order width i = 8 * (if order = BigEndian then width - i - 1 else i)"

definition Store :: "64 word \<Rightarrow> nat \<Rightarrow> ByteOrder \<Rightarrow> byte list" where
  "Store value width order = store_bytes (byte_shift order width) width value"

section \<open>The reader\<close>

record BinaryReader =
  brInput :: "byte list"
  brOrder :: ByteOrder
  brPosition :: nat

definition BinaryReader_Create :: "byte list \<Rightarrow> ByteOrder \<Rightarrow> nat \<Rightarrow> BinaryReader result" where
  "BinaryReader_Create input order maximumBytes =
     (if maximumBytes = 0 \<or> maximumBytes > MaximumBinaryBuffer then Inl InvalidArgument
      else if length input > maximumBytes then Inl TooLarge
      else Inr \<lparr>brInput = input, brOrder = order, brPosition = 0\<rparr>)"

definition Remaining :: "BinaryReader \<Rightarrow> nat" where
  "Remaining r = length (brInput r) - brPosition r"

definition ReadUnsigned :: "nat \<Rightarrow> BinaryReader \<Rightarrow> 64 word result \<times> BinaryReader" where
  "ReadUnsigned width r =
     (if \<not> Width width then (Inl InvalidArgument, r)
      else if width > Remaining r then (Inl InvalidFormat, r)
      else (Inr (load_bytes (byte_shift (brOrder r) width) width (drop (brPosition r) (brInput r))),
            r\<lparr>brPosition := brPosition r + width\<rparr>))"

definition ReadSigned :: "nat \<Rightarrow> BinaryReader \<Rightarrow> 64 word result \<times> BinaryReader" where
  "ReadSigned width r =
     (case ReadUnsigned width r of
        (Inl e, r') \<Rightarrow> (Inl e, r')
      | (Inr bits, r') \<Rightarrow>
          (Inr (if width < 8 \<and> bits AND push_bit (width * 8 - 1) 1 \<noteq> 0
                then bits OR NOT (push_bit (width * 8) 1 - 1) else bits), r'))"

definition ReadBool :: "BinaryReader \<Rightarrow> bool result \<times> BinaryReader" where
  "ReadBool r =
     (if Remaining r = 0 \<or> unat (brInput r ! brPosition r) > 1 then (Inl InvalidFormat, r)
      else (Inr (brInput r ! brPosition r = 1), r\<lparr>brPosition := brPosition r + 1\<rparr>))"

definition ReadFloat32 :: "BinaryReader \<Rightarrow> 32 word result \<times> BinaryReader" where
  "ReadFloat32 r =
     (case ReadUnsigned 4 r of (Inl e, r') \<Rightarrow> (Inl e, r') | (Inr bits, r') \<Rightarrow> (Inr (ucast bits), r'))"

definition ReadFloat64 :: "BinaryReader \<Rightarrow> 64 word result \<times> BinaryReader" where
  "ReadFloat64 r = ReadUnsigned 8 r"

definition ReadBytes :: "nat \<Rightarrow> BinaryReader \<Rightarrow> byte list result \<times> BinaryReader" where
  "ReadBytes len r =
     (if len > Remaining r then (Inl InvalidFormat, r)
      else (Inr (region (brInput r) (brPosition r) (brPosition r + len)),
            r\<lparr>brPosition := brPosition r + len\<rparr>))"

definition ReadLengthPrefixed :: "nat \<Rightarrow> BinaryReader \<Rightarrow> byte list result \<times> BinaryReader" where
  "ReadLengthPrefixed maximumLength r =
     (case ReadUnsigned 4 r of
        (Inl e, _) \<Rightarrow> (Inl e, r)
      | (Inr len, saved) \<Rightarrow>
          if unat len > maximumLength then (Inl TooLarge, r)
          else case ReadBytes (unat len) saved of
                 (Inl e, _) \<Rightarrow> (Inl e, r)
               | (Inr bytes, saved') \<Rightarrow> (Inr bytes, saved'))"

definition chars_of :: "byte list \<Rightarrow> string" where
  "chars_of bytes = map (\<lambda>b. char_of (unat b)) bytes"

definition bytes_of :: "string \<Rightarrow> byte list" where
  "bytes_of text = map (\<lambda>c. word_of_nat (uchar c)) text"

definition ReadUtf8 :: "nat \<Rightarrow> BinaryReader \<Rightarrow> string result \<times> BinaryReader" where
  "ReadUtf8 maximumLength r =
     (case ReadLengthPrefixed maximumLength r of
        (Inl e, _) \<Rightarrow> (Inl e, r)
      | (Inr bytes, saved) \<Rightarrow>
          let view = chars_of bytes
          in if \<not> IsValidUtf8 view then (Inl InvalidFormat, r) else (Inr view, saved))"

definition Skip :: "nat \<Rightarrow> BinaryReader \<Rightarrow> status \<times> BinaryReader" where
  "Skip len r =
     (if len > Remaining r then (InvalidFormat, r)
      else (Ok, r\<lparr>brPosition := brPosition r + len\<rparr>))"

section \<open>The writer\<close>

record BinaryWriter =
  bwBytes :: "byte list"
  bwLimit :: nat
  bwOrder :: ByteOrder

definition BinaryWriter_Create :: "nat \<Rightarrow> ByteOrder \<Rightarrow> BinaryWriter result" where
  "BinaryWriter_Create maximumBytes order =
     (if maximumBytes = 0 \<or> maximumBytes > MaximumBinaryBuffer then Inl InvalidArgument
      else Inr \<lparr>bwBytes = [], bwLimit = maximumBytes, bwOrder = order\<rparr>)"

text \<open>A span argument: foreign bytes, or an offset and a length in the writer's own vector.\<close>

datatype Span = Foreign "byte list" | SelfView nat nat

fun span_size :: "Span \<Rightarrow> nat" where
  "span_size (Foreign bytes) = length bytes"
| "span_size (SelfView offset len) = len"

text \<open>
  \<^verbatim>\<open>Append\<close>. After the vector has grown, a self view is read again at its offset, and every
  foreign one from where it was. A non-empty self view that starts past the end is no view of
  the vector: the code would read memory it does not own, and the model has no value for it.
\<close>

definition BinaryWriter_Append ::
    "(nat \<Rightarrow> bool) \<Rightarrow> Span \<Rightarrow> bool \<Rightarrow> BinaryWriter \<Rightarrow> (status \<times> BinaryWriter) option" where
  "BinaryWriter_Append alloc value prefix w =
     (let header = (if prefix then 4 else 0);
          size = span_size value;
          old = length (bwBytes w)
      in if header > bwLimit w - old \<or> size > bwLimit w - old - header then Some (TooLarge, w)
         else
           let aliased = (case value of Foreign _ \<Rightarrow> False
                          | SelfView offset len \<Rightarrow> len \<noteq> 0 \<and> offset < old);
               offset = (case value of Foreign _ \<Rightarrow> 0 | SelfView offset _ \<Rightarrow> offset)
           in if aliased \<and> size > old - offset then Some (InvalidArgument, w)
              else if \<not> alloc (old + header + size) then Some (PlatformError, w)
              else
                let grown = bwBytes w @ replicate (header + size) 0;
                    headed = (if prefix then store_at grown old (Store (word_of_nat size) 4 (bwOrder w))
                              else grown)
                in if size = 0 then Some (Ok, w\<lparr>bwBytes := headed\<rparr>)
                   else case value of
                     Foreign bytes \<Rightarrow> Some (Ok, w\<lparr>bwBytes := store_at headed (old + header) bytes\<rparr>)
                   | SelfView _ _ \<Rightarrow>
                       if aliased then
                         Some (Ok, w\<lparr>bwBytes := store_at headed (old + header)
                                        (region headed offset (offset + size))\<rparr>)
                       else None)"

definition WriteUnsigned ::
    "(nat \<Rightarrow> bool) \<Rightarrow> 64 word \<Rightarrow> nat \<Rightarrow> BinaryWriter \<Rightarrow> (status \<times> BinaryWriter) option" where
  "WriteUnsigned alloc value width w =
     (if \<not> Width width \<or> (width < 8 \<and> value \<ge> push_bit (width * 8) 1) then Some (InvalidArgument, w)
      else BinaryWriter_Append alloc (Foreign (Store value width (bwOrder w))) False w)"

definition WriteSigned ::
    "(nat \<Rightarrow> bool) \<Rightarrow> 64 word \<Rightarrow> nat \<Rightarrow> BinaryWriter \<Rightarrow> (status \<times> BinaryWriter) option" where
  "WriteSigned alloc value width w =
     (if \<not> Width width then Some (InvalidArgument, w)
      else if width < 8 \<and> (let upper = 2 ^ (width * 8 - 1) in sint value < - upper \<or> sint value \<ge> upper)
      then Some (InvalidArgument, w)
      else BinaryWriter_Append alloc (Foreign (Store value width (bwOrder w))) False w)"

definition WriteBool ::
    "(nat \<Rightarrow> bool) \<Rightarrow> bool \<Rightarrow> BinaryWriter \<Rightarrow> (status \<times> BinaryWriter) option" where
  "WriteBool alloc value w = WriteUnsigned alloc (if value then 1 else 0) 1 w"

definition WriteFloat32 ::
    "(nat \<Rightarrow> bool) \<Rightarrow> 32 word \<Rightarrow> BinaryWriter \<Rightarrow> (status \<times> BinaryWriter) option" where
  "WriteFloat32 alloc bits w = WriteUnsigned alloc (ucast bits) 4 w"

definition WriteFloat64 ::
    "(nat \<Rightarrow> bool) \<Rightarrow> 64 word \<Rightarrow> BinaryWriter \<Rightarrow> (status \<times> BinaryWriter) option" where
  "WriteFloat64 alloc bits w = WriteUnsigned alloc bits 8 w"

definition WriteBytes ::
    "(nat \<Rightarrow> bool) \<Rightarrow> Span \<Rightarrow> BinaryWriter \<Rightarrow> (status \<times> BinaryWriter) option" where
  "WriteBytes alloc value w = BinaryWriter_Append alloc value False w"

definition WriteLengthPrefixed ::
    "(nat \<Rightarrow> bool) \<Rightarrow> Span \<Rightarrow> nat \<Rightarrow> BinaryWriter \<Rightarrow> (status \<times> BinaryWriter) option" where
  "WriteLengthPrefixed alloc value maximumLength w =
     (if span_size value > maximumLength \<or> span_size value > UINT32_MAX then Some (TooLarge, w)
      else BinaryWriter_Append alloc value True w)"

definition WriteUtf8 ::
    "(nat \<Rightarrow> bool) \<Rightarrow> string \<Rightarrow> nat \<Rightarrow> BinaryWriter \<Rightarrow> (status \<times> BinaryWriter) option" where
  "WriteUtf8 alloc value maximumLength w =
     (if length value > maximumLength then Some (TooLarge, w)
      else if \<not> IsValidUtf8 value then Some (InvalidArgument, w)
      else WriteLengthPrefixed alloc (Foreign (bytes_of value)) maximumLength w)"

definition Clear :: "BinaryWriter \<Rightarrow> BinaryWriter" where
  "Clear w = w\<lparr>bwBytes := []\<rparr>"

section \<open>Version negotiation\<close>

record ProtocolOffer =
  offer_version :: "32 word"
  offer_features :: "64 word"

text \<open>The nested loop of \<^verbatim>\<open>valid\<close>: no zero version and none that occurred before.\<close>

fun offers_distinct :: "32 word list \<Rightarrow> ProtocolOffer list \<Rightarrow> bool" where
  "offers_distinct seen [] = True"
| "offers_distinct seen (x # xs) =
     (if offer_version x = 0 then False
      else if offer_version x \<in> set seen then False
      else offers_distinct (seen @ [offer_version x]) xs)"

definition valid_offers :: "ProtocolOffer list \<Rightarrow> bool" where
  "valid_offers offers \<longleftrightarrow> (if offers = [] \<or> length offers > 64 then False else offers_distinct [] offers)"

fun match_remote :: "64 word \<Rightarrow> ProtocolOffer \<Rightarrow> ProtocolOffer list \<Rightarrow> ProtocolOffer option" where
  "match_remote required local [] = None"
| "match_remote required local (remote # rest) =
     (if offer_version local = offer_version remote \<and>
         (offer_features local AND offer_features remote) AND required = required
      then Some \<lparr>offer_version = offer_version local,
                 offer_features = offer_features local AND offer_features remote\<rparr>
      else match_remote required local rest)"

fun match_local :: "64 word \<Rightarrow> ProtocolOffer list \<Rightarrow> ProtocolOffer list \<Rightarrow> ProtocolOffer option" where
  "match_local required [] peer = None"
| "match_local required (local # rest) peer =
     (case match_remote required local peer of
        Some offer \<Rightarrow> Some offer
      | None \<Rightarrow> match_local required rest peer)"

definition NegotiateProtocol ::
    "ProtocolOffer list \<Rightarrow> ProtocolOffer list \<Rightarrow> 64 word \<Rightarrow> ProtocolOffer result" where
  "NegotiateProtocol server peer requiredFeatures =
     (if \<not> valid_offers server \<or> \<not> valid_offers peer then Inl InvalidArgument
      else case match_local requiredFeatures server peer of
             Some offer \<Rightarrow> Inr offer
           | None \<Rightarrow> Inl Unimplemented)"

section \<open>The typed binary envelope\<close>

definition BinaryMessageHeaderSize :: nat where
  [simp]: "BinaryMessageHeaderSize = 4"

record BinaryMessageView =
  bm_type :: "32 word"
  bm_payload :: "byte list"

definition DecodeBinaryMessage :: "byte list \<Rightarrow> BinaryMessageView result" where
  "DecodeBinaryMessage bytes =
     (if length bytes < BinaryMessageHeaderSize then Inl InvalidFormat
      else
        let type = load_bytes (\<lambda>i. 8 * i) 4 bytes
        in if type = 0 then Inl InvalidFormat
           else Inr \<lparr>bm_type = type, bm_payload = drop BinaryMessageHeaderSize bytes\<rparr>)"

definition EncodeBinaryMessage ::
    "(nat \<Rightarrow> bool) \<Rightarrow> 32 word \<Rightarrow> byte list \<Rightarrow> nat \<Rightarrow> byte list result" where
  "EncodeBinaryMessage alloc type payload maximumBytes =
     (if type = 0 then Inl InvalidArgument
      else if maximumBytes < BinaryMessageHeaderSize \<or>
              length payload > maximumBytes - BinaryMessageHeaderSize then Inl TooLarge
      else if \<not> alloc (BinaryMessageHeaderSize + length payload) then Inl PlatformError
      else Inr (store_bytes (\<lambda>i. 8 * i) 4 type @ payload))"

section \<open>Encodings\<close>

lemma covers_byte_shift: "covers (byte_shift order width) width"
  using covers_little [of width] covers_big [of width]
  by (cases order) (simp_all add: byte_shift_def [abs_def])

lemma length_Store [simp]: "length (Store v width order) = width"
  by (simp add: Store_def)

lemma load_Store:
  "load_bytes (byte_shift order width) width (Store v width order @ rest) = take_bit (8 * width) v"
  by (simp add: Store_def load_store_bytes covers_byte_shift)

lemma chars_of_bytes_of [simp]: "chars_of (bytes_of text) = text"
  by (simp add: chars_of_def bytes_of_def comp_def unsigned_of_nat take_bit_nat_eq_self map_idI)

lemma length_bytes_of [simp]: "length (bytes_of text) = length text"
  by (simp add: bytes_of_def)

lemma Width_cases: "Width width \<Longrightarrow> width \<in> {1, 2, 4, 8}"
  by (auto simp: Width_def)

text \<open>What fits in \<open>width\<close> bytes, unsigned and signed.\<close>

definition fits_unsigned :: "nat \<Rightarrow> 64 word \<Rightarrow> bool" where
  "fits_unsigned width v \<longleftrightarrow> Width width \<and> (width < 8 \<longrightarrow> v < push_bit (width * 8) 1)"

definition fits_signed :: "nat \<Rightarrow> 64 word \<Rightarrow> bool" where
  "fits_signed width v \<longleftrightarrow> Width width \<and>
     (width < 8 \<longrightarrow> - (2 ^ (width * 8 - 1)) \<le> sint v \<and> sint v < 2 ^ (width * 8 - 1))"

lemma take_bit_64: "take_bit 64 (v::64 word) = v"
  by (rule bit_word_eqI) (simp add: bit_simps)

lemma take_bit_fits: "fits_unsigned width v \<Longrightarrow> take_bit (8 * width) v = v"
proof -
  assume fits: "fits_unsigned width v"
  show ?thesis
  proof (cases "width < 8")
    case True
    have "unat v < 2 ^ (8 * width)"
      using fits True by (auto simp: fits_unsigned_def Width_def word_less_nat_alt)
    then have "unat (take_bit (8 * width) v) = unat v"
      by (simp add: unsigned_take_bit_eq take_bit_nat_eq_self)
    then show ?thesis by (rule unsigned_word_eqI)
  next
    case False
    then have "8 * width = 64" using fits by (auto simp: fits_unsigned_def Width_def)
    then show ?thesis by (simp only: take_bit_64)
  qed
qed

lemma sign_extend_word:
  assumes "0 < n" "n < 64"
  shows "(let bits = take_bit n (v::64 word) in
      if bits AND push_bit (n - 1) 1 \<noteq> 0 then bits OR NOT (push_bit n 1 - 1) else bits) =
      signed_take_bit (n - 1) v"
proof -
  have mask: "push_bit n 1 - 1 = (mask n :: 64 word)" by (simp add: mask_eq_exp_minus_1 push_bit_eq_mult)
  have single: "take_bit n v AND push_bit (n - 1) 1 \<noteq> 0 \<longleftrightarrow> bit v (n - 1)"
  proof -
    have "take_bit n v AND push_bit (n - 1) 1 = (if bit v (n - 1) then push_bit (n - 1) 1 else 0)"
      using assms by (intro bit_word_eqI) (auto simp: bit_simps)
    then show ?thesis using assms by (auto simp: push_bit_eq_mult)
  qed
  obtain m where m: "n = Suc m" using assms by (cases n) auto
  show ?thesis unfolding Let_def single mask unfolding m
    using assms m by (intro bit_word_eqI) (auto simp: bit_simps min_def less_Suc_eq)
qed

lemma signed_take_bit_fits:
  assumes "n < 63" "- (2 ^ n) \<le> sint (v::64 word)" "sint v < 2 ^ n"
  shows "signed_take_bit n v = v"
proof (rule bit_word_eqI)
  fix k assume k: "k < LENGTH(64)"
  have "signed_take_bit n (sint v) = sint v"
    using assms(2,3) by (simp add: signed_take_bit_int_eq_self)
  then have "bit (sint v) k = bit (sint v) (min k n)" 
    using bit_signed_take_bit_iff [of n "sint v" k] by (simp add: min.commute)
  moreover have "bit (sint v) j = bit v j" if "j < 64" for j
    using that by (cases "j = 63") (simp_all add: bit_simps min_def)
  ultimately show "bit (signed_take_bit n v) k = bit v k"
    using assms(1) k by (simp add: bit_simps min.commute)
qed

section \<open>Reading back a field\<close>

text \<open>A read that finds the encoding \<open>enc\<close> of \<open>x\<close> at its position returns \<open>x\<close> and steps over it.\<close>

definition reads ::
    "ByteOrder \<Rightarrow> (BinaryReader \<Rightarrow> 'a result \<times> BinaryReader) \<Rightarrow> byte list \<Rightarrow> 'a \<Rightarrow> bool" where
  "reads order rd enc x \<longleftrightarrow>
     (\<forall>r rest. brOrder r = order \<longrightarrow> brPosition r \<le> length (brInput r) \<longrightarrow>
        drop (brPosition r) (brInput r) = enc @ rest \<longrightarrow>
        rd r = (Inr x, r\<lparr>brPosition := brPosition r + length enc\<rparr>))"

lemma readsI:
  assumes "\<And>r rest. brOrder r = order \<Longrightarrow> drop (brPosition r) (brInput r) = enc @ rest \<Longrightarrow>
      Remaining r = length enc + length rest \<Longrightarrow>
      rd r = (Inr x, r\<lparr>brPosition := brPosition r + length enc\<rparr>)"
  shows "reads order rd enc x"
  unfolding reads_def
proof (intro allI impI)
  fix r :: BinaryReader and rest
  assume "brOrder r = order" and d: "drop (brPosition r) (brInput r) = enc @ rest"
  moreover have "Remaining r = length enc + length rest"
    using arg_cong [OF d, of length] by (simp add: Remaining_def)
  ultimately show "rd r = (Inr x, r\<lparr>brPosition := brPosition r + length enc\<rparr>)" using assms by blast
qed

lemma readsD:
  "reads order rd enc x \<Longrightarrow> brOrder r = order \<Longrightarrow> brPosition r \<le> length (brInput r) \<Longrightarrow>
   drop (brPosition r) (brInput r) = enc @ rest \<Longrightarrow>
   rd r = (Inr x, r\<lparr>brPosition := brPosition r + length enc\<rparr>)"
  by (simp add: reads_def)

lemma reads_unsigned:
  assumes "Width width"
  shows "reads order (ReadUnsigned width) (Store v width order) (take_bit (8 * width) v)"
  using assms by (intro readsI) (auto simp: ReadUnsigned_def load_Store)

lemma reads_fits: "fits_unsigned width v \<Longrightarrow> reads order (ReadUnsigned width) (Store v width order) v"
  using reads_unsigned [of width order v] take_bit_fits [of width v] by (simp add: fits_unsigned_def)

lemma reads_map:
  assumes "reads order rd enc x" "\<And>r y r'. rd r = (Inr y, r') \<Longrightarrow> rd' r = (Inr (f y), r')"
  shows "reads order rd' enc (f x)"
  using assms by (simp add: reads_def)

lemma reads_signed: "fits_signed width v \<Longrightarrow> reads order (ReadSigned width) (Store v width order) v"
proof -
  assume fits: "fits_signed width v"
  then have w: "Width width" by (simp add: fits_signed_def)
  let ?ext = "\<lambda>bits::64 word. if width < 8 \<and> bits AND push_bit (width * 8 - 1) 1 \<noteq> 0
      then bits OR NOT (push_bit (width * 8) 1 - 1) else bits"
  have "reads order (ReadSigned width) (Store v width order) (?ext (take_bit (8 * width) v))"
    by (rule reads_map [OF reads_unsigned [OF w]]) (simp add: ReadSigned_def)
  moreover have "?ext (take_bit (8 * width) v) = v"
  proof (cases "width < 8")
    case True
    have "0 < width" using w by (auto simp: Width_def)
    then have "signed_take_bit (8 * width - 1) v = v"
      using fits True by (intro signed_take_bit_fits) (auto simp: fits_signed_def mult.commute)
    then show ?thesis
      using sign_extend_word [of "8 * width" v] True \<open>0 < width\<close>
      by (simp only: Let_def mult.commute [of width 8]) simp
  next
    case False
    then have "8 * width = 64" using w by (auto simp: Width_def)
    then show ?thesis using False by (simp only: take_bit_64 if_False simp_thms)
  qed
  ultimately show ?thesis by simp
qed

lemma reads_bool: "reads order ReadBool (Store (if b then 1 else 0) 1 order) b"
proof (rule readsI)
  fix r :: BinaryReader and rest
  assume d: "drop (brPosition r) (brInput r) = Store (if b then 1 else 0) 1 order @ rest"
    and rem: "Remaining r = length (Store (if b then 1 else 0) 1 order) + length rest"
  have one: "Store (if b then 1 else 0) 1 order = [if b then 1 else 0]"
    by (cases order) (simp_all add: Store_def store_bytes_def byte_shift_def)
  have "brPosition r < length (brInput r)" using rem by (simp add: Remaining_def)
  then have "brInput r ! brPosition r = (if b then 1 else 0)"
    using d one by (simp add: Cons_nth_drop_Suc [symmetric])
  then show "ReadBool r = (Inr b, r\<lparr>brPosition := brPosition r +
      length (Store (if b then 1 else 0) 1 order)\<rparr>)"
    using rem by (simp add: ReadBool_def)
qed

lemma reads_float32: "reads order ReadFloat32 (Store (ucast bits) 4 order) (bits :: 32 word)"
proof -
  have "fits_unsigned 4 (ucast bits)"
    using unat32_less [of bits]
    by (simp add: fits_unsigned_def Width_def word_less_nat_alt unsigned_ucast_eq take_bit_nat_eq_self)
  from reads_map [OF reads_fits [OF this], of ReadFloat32 ucast order]
  have "reads order ReadFloat32 (Store (ucast bits) 4 order) (ucast (ucast bits :: 64 word))"
    by (simp add: ReadFloat32_def)
  moreover have "ucast (ucast bits :: 64 word) = bits" by (rule bit_word_eqI) (auto simp: bit_simps)
  ultimately show ?thesis by simp
qed

lemma reads_prefixed:
  assumes "length bytes \<le> maximumLength" "length bytes \<le> UINT32_MAX"
  shows "reads order (ReadLengthPrefixed maximumLength)
    (Store (word_of_nat (length bytes)) 4 order @ bytes) bytes"
proof (rule readsI)
  fix r :: BinaryReader and rest
  let ?len = "word_of_nat (length bytes) :: 64 word"
  assume o: "brOrder r = order"
    and d: "drop (brPosition r) (brInput r) = (Store ?len 4 order @ bytes) @ rest"
    and rem: "Remaining r = length (Store ?len 4 order @ bytes) + length rest"
  have len: "unat ?len = length bytes"
    using assms(2) by (simp add: UINT32_MAX_eval unsigned_of_nat take_bit_nat_eq_self)
  then have "fits_unsigned 4 ?len"
    using assms(2) by (simp add: fits_unsigned_def Width_def word_less_nat_alt UINT32_MAX_eval)
  from reads_fits [OF this, of order] o d rem
  have ru: "ReadUnsigned 4 r = (Inr ?len, r\<lparr>brPosition := brPosition r + 4\<rparr>)"
    by (auto simp: reads_def Remaining_def)
  have "drop (brPosition r + 4) (brInput r) = bytes @ rest"
    using arg_cong [OF d, of "drop 4"] by (simp add: add.commute)
  then show "ReadLengthPrefixed maximumLength r = (Inr bytes, r\<lparr>brPosition := brPosition r +
      length (Store ?len 4 order @ bytes)\<rparr>)"
    using ru len assms(1) rem
    by (simp add: ReadLengthPrefixed_def ReadBytes_def Remaining_def region_def)
qed

lemma reads_utf8:
  assumes "IsValidUtf8 text" "length text \<le> maximumLength" "length text \<le> UINT32_MAX"
  shows "reads order (ReadUtf8 maximumLength)
    (Store (word_of_nat (length text)) 4 order @ bytes_of text) text"
  using reads_prefixed [of "bytes_of text" maximumLength order] assms
  by (auto simp: reads_def ReadUtf8_def)

section \<open>Appending a field\<close>

lemma store_at_grown:
  "length ys \<le> n \<Longrightarrow>
   store_at (xs @ replicate n z) (length xs) ys = xs @ ys @ replicate (n - length ys) z"
  by (simp add: store_at_def)

lemma store_at_behind:
  "length ys = n \<Longrightarrow> store_at (xs @ hs @ replicate n z) (length xs + length hs) ys = xs @ hs @ ys"
  by (simp add: store_at_def)

text \<open>The bytes a span stands for when the call begins.\<close>

fun span_bytes :: "BinaryWriter \<Rightarrow> Span \<Rightarrow> byte list" where
  "span_bytes w (Foreign bytes) = bytes"
| "span_bytes w (SelfView offset len) = region (bwBytes w) offset (offset + len)"

fun span_valid :: "BinaryWriter \<Rightarrow> Span \<Rightarrow> bool" where
  "span_valid w (Foreign bytes) \<longleftrightarrow> True"
| "span_valid w (SelfView offset len) \<longleftrightarrow> offset + len \<le> length (bwBytes w)"

definition prefix_bytes :: "bool \<Rightarrow> BinaryWriter \<Rightarrow> nat \<Rightarrow> byte list" where
  "prefix_bytes prefix w n = (if prefix then Store (word_of_nat n) 4 (bwOrder w) else [])"

definition BinaryWriter_inv :: "BinaryWriter \<Rightarrow> bool" where
  [inv_simps]: "BinaryWriter_inv w \<longleftrightarrow> length (bwBytes w) \<le> bwLimit w \<and> bwLimit w \<le> MaximumBinaryBuffer"

lemma span_size_valid: "span_valid w v \<Longrightarrow> length (span_bytes w v) = span_size v"
  by (cases v) auto

lemma grown_headed:
  "(if prefix then store_at (xs @ replicate ((if prefix then 4 else 0) + n) 0) (length xs)
      (Store (word_of_nat n) 4 order) else xs @ replicate ((if prefix then 4 else 0) + n) 0) =
   xs @ (if prefix then Store (word_of_nat n) 4 order else []) @ replicate n 0"
  by (simp add: store_at_grown)

lemma Append_spec:
  assumes "span_valid w v" "BinaryWriter_inv w"
  shows "BinaryWriter_Append alloc v prefix w = Some (
    let enc = prefix_bytes prefix w (span_size v) @ span_bytes w v in
    if length (bwBytes w) + length enc > bwLimit w then (TooLarge, w)
    else if \<not> alloc (length (bwBytes w) + length enc) then (PlatformError, w)
    else (Ok, w\<lparr>bwBytes := bwBytes w @ enc\<rparr>))"
proof -
  let ?h = "if prefix then 4 else 0 :: nat"
  let ?hs = "prefix_bytes prefix w (span_size v)"
  let ?old = "length (bwBytes w)"
  have lh: "length ?hs = ?h" by (simp add: prefix_bytes_def)
  have len: "length (span_bytes w v) = span_size v" using span_size_valid [OF assms(1)] .
  have guard: "?h > bwLimit w - ?old \<or> span_size v > bwLimit w - ?old - ?h \<longleftrightarrow>
      ?old + length (?hs @ span_bytes w v) > bwLimit w"
    using assms(2) len lh by (auto simp: inv_simps)
  have headed: "(if prefix then store_at (bwBytes w @ replicate (?h + span_size v) 0) ?old
        (Store (word_of_nat (span_size v)) 4 (bwOrder w))
      else bwBytes w @ replicate (?h + span_size v) 0) = bwBytes w @ ?hs @ replicate (span_size v) 0"
    unfolding prefix_bytes_def by (rule grown_headed)
  have body: "store_at (bwBytes w @ ?hs @ replicate (span_size v) 0) (?old + ?h) (span_bytes w v) =
      bwBytes w @ ?hs @ span_bytes w v"
    using store_at_behind [OF len, of "bwBytes w" ?hs 0] lh by simp
  show ?thesis
  proof (cases v)
    case (Foreign bytes)
    then show ?thesis
      using guard headed body len lh unfolding BinaryWriter_Append_def Let_def
      by (auto simp: add.assoc)
  next
    case (SelfView offset n)
    then have "region (bwBytes w @ ?hs @ replicate n 0) offset (offset + n) = span_bytes w v"
      using assms(1) by (simp add: region_def)
    then show ?thesis
      using SelfView guard headed body len lh assms(1) unfolding BinaryWriter_Append_def Let_def
      by (auto simp: add.assoc)
  qed
qed

section \<open>Sequences of fields\<close>

text \<open>
  A field together with what the two sides must agree on: its kind, its width and the maximum
  length of a variable part. Reading uses that shape of the field, and not its value.
\<close>

datatype Field =
    FUnsigned nat "64 word" | FSigned nat "64 word" | FBool bool | FFloat32 "32 word"
  | FFloat64 "64 word" | FBlob nat "byte list" | FText nat string

fun write_field :: "(nat \<Rightarrow> bool) \<Rightarrow> Field \<Rightarrow> BinaryWriter \<Rightarrow> (status \<times> BinaryWriter) option" where
  "write_field alloc (FUnsigned width v) w = WriteUnsigned alloc v width w"
| "write_field alloc (FSigned width v) w = WriteSigned alloc v width w"
| "write_field alloc (FBool b) w = WriteBool alloc b w"
| "write_field alloc (FFloat32 bits) w = WriteFloat32 alloc bits w"
| "write_field alloc (FFloat64 bits) w = WriteFloat64 alloc bits w"
| "write_field alloc (FBlob m bytes) w = WriteLengthPrefixed alloc (Foreign bytes) m w"
| "write_field alloc (FText m text) w = WriteUtf8 alloc text m w"

fun read_field :: "Field \<Rightarrow> BinaryReader \<Rightarrow> Field result \<times> BinaryReader" where
  "read_field (FUnsigned width _) r = apfst (map_sum id (FUnsigned width)) (ReadUnsigned width r)"
| "read_field (FSigned width _) r = apfst (map_sum id (FSigned width)) (ReadSigned width r)"
| "read_field (FBool _) r = apfst (map_sum id FBool) (ReadBool r)"
| "read_field (FFloat32 _) r = apfst (map_sum id FFloat32) (ReadFloat32 r)"
| "read_field (FFloat64 _) r = apfst (map_sum id FFloat64) (ReadFloat64 r)"
| "read_field (FBlob m _) r = apfst (map_sum id (FBlob m)) (ReadLengthPrefixed m r)"
| "read_field (FText m _) r = apfst (map_sum id (FText m)) (ReadUtf8 m r)"

text \<open>The values the writer accepts, and their encodings.\<close>

fun field_ok :: "Field \<Rightarrow> bool" where
  "field_ok (FUnsigned width v) = fits_unsigned width v"
| "field_ok (FSigned width v) = fits_signed width v"
| "field_ok (FBool b) = True"
| "field_ok (FFloat32 bits) = True"
| "field_ok (FFloat64 bits) = True"
| "field_ok (FBlob m bytes) = (length bytes \<le> m \<and> length bytes \<le> UINT32_MAX)"
| "field_ok (FText m text) = (IsValidUtf8 text \<and> length text \<le> m \<and> length text \<le> UINT32_MAX)"

fun field_bytes :: "ByteOrder \<Rightarrow> Field \<Rightarrow> byte list" where
  "field_bytes order (FUnsigned width v) = Store v width order"
| "field_bytes order (FSigned width v) = Store v width order"
| "field_bytes order (FBool b) = Store (if b then 1 else 0) 1 order"
| "field_bytes order (FFloat32 bits) = Store (ucast bits) 4 order"
| "field_bytes order (FFloat64 bits) = Store bits 8 order"
| "field_bytes order (FBlob m bytes) = Store (word_of_nat (length bytes)) 4 order @ bytes"
| "field_bytes order (FText m text) = Store (word_of_nat (length text)) 4 order @ bytes_of text"

lemma fits_trivial [simp]:
  "fits_unsigned (Suc 0) 0" "fits_unsigned (Suc 0) 1" "fits_unsigned 8 v" "fits_unsigned 4 (ucast (x :: 32 word))"
  using unat32_less [of x]
  by (simp_all add: fits_unsigned_def Width_def word_less_nat_alt unsigned_ucast_eq take_bit_nat_eq_self)

lemma WriteUnsigned_fits:
  "WriteUnsigned alloc v width w = (if fits_unsigned width v
     then BinaryWriter_Append alloc (Foreign (Store v width (bwOrder w))) False w
     else Some (InvalidArgument, w))"
  by (auto simp: WriteUnsigned_def fits_unsigned_def not_le)

lemma WriteSigned_fits:
  "WriteSigned alloc v width w = (if fits_signed width v
     then BinaryWriter_Append alloc (Foreign (Store v width (bwOrder w))) False w
     else Some (InvalidArgument, w))"
  by (auto simp: WriteSigned_def fits_signed_def Let_def)

lemma reads_field: "field_ok f \<Longrightarrow> reads order (read_field f) (field_bytes order f) f"
proof (cases f)
  case (FUnsigned width v)
  then show "field_ok f \<Longrightarrow> ?thesis"
    using reads_map [OF reads_fits [of width v order], of "read_field f" "FUnsigned width"] by simp
next
  case (FSigned width v)
  then show "field_ok f \<Longrightarrow> ?thesis"
    using reads_map [OF reads_signed [of width v order], of "read_field f" "FSigned width"] by simp
next
  case (FBool b)
  then show ?thesis using reads_map [OF reads_bool [of order b], of "read_field f" FBool] by simp
next
  case (FFloat32 bits)
  then show ?thesis
    using reads_map [OF reads_float32 [of order bits], of "read_field f" FFloat32] by simp
next
  case (FFloat64 bits)
  then show ?thesis
    using reads_map [OF reads_fits [of 8 bits order], of "read_field f" FFloat64]
    by (simp add: ReadFloat64_def)
next
  case (FBlob m bytes)
  then show "field_ok f \<Longrightarrow> ?thesis"
    using reads_map [OF reads_prefixed [of bytes m order], of "read_field f" "FBlob m"] by simp
next
  case (FText m t)
  then show "field_ok f \<Longrightarrow> ?thesis"
    using reads_map [OF reads_utf8 [of t m order], of "read_field f" "FText m"] by simp
qed

lemma write_field_spec:
  assumes "BinaryWriter_inv w"
  shows "\<exists>st. write_field alloc f w = Some (if field_ok f \<and>
      length (bwBytes w) + length (field_bytes (bwOrder w) f) \<le> bwLimit w \<and>
      alloc (length (bwBytes w) + length (field_bytes (bwOrder w) f))
    then (Ok, w\<lparr>bwBytes := bwBytes w @ field_bytes (bwOrder w) f\<rparr>) else (st, w)) \<and> st \<noteq> Ok"
proof -
  note app = Append_spec [OF _ assms, of "Foreign _", simplified]
  show ?thesis
    by (cases f)
      (auto simp: WriteUnsigned_fits WriteSigned_fits WriteBool_def WriteFloat32_def WriteFloat64_def
        WriteLengthPrefixed_def WriteUtf8_def app prefix_bytes_def Let_def not_less)
qed

text \<open>Writing a sequence of fields stops at the first failure, and so does reading one.\<close>

fun write_fields :: "(nat \<Rightarrow> bool) \<Rightarrow> Field list \<Rightarrow> BinaryWriter \<Rightarrow> (status \<times> BinaryWriter) option" where
  "write_fields alloc [] w = Some (Ok, w)"
| "write_fields alloc (f # fs) w =
     (case write_field alloc f w of
        None \<Rightarrow> None
      | Some (st, w') \<Rightarrow> if st = Ok then write_fields alloc fs w' else Some (st, w'))"

fun read_fields :: "Field list \<Rightarrow> BinaryReader \<Rightarrow> Field list result \<times> BinaryReader" where
  "read_fields [] r = (Inr [], r)"
| "read_fields (f # fs) r =
     (case read_field f r of
        (Inl e, r') \<Rightarrow> (Inl e, r')
      | (Inr x, r') \<Rightarrow> apfst (map_sum id (Cons x)) (read_fields fs r'))"

lemma reads_fields:
  "list_all field_ok fs \<Longrightarrow>
   reads order (read_fields fs) (concat (map (field_bytes order) fs)) fs"
proof (induction fs)
  case (Cons f fs)
  let ?enc = "field_bytes order f" and ?more = "concat (map (field_bytes order) fs)"
  show ?case unfolding reads_def
  proof (intro allI impI)
    fix r :: BinaryReader and rest
    assume o: "brOrder r = order" and p: "brPosition r \<le> length (brInput r)"
      and d: "drop (brPosition r) (brInput r) = concat (map (field_bytes order) (f # fs)) @ rest"
    let ?r1 = "r\<lparr>brPosition := brPosition r + length ?enc\<rparr>"
    have "reads order (read_field f) ?enc f" using Cons.prems by (simp add: reads_field)
    with o p d have one: "read_field f r = (Inr f, ?r1)" by (simp add: reads_def)
    have "length (brInput r) - brPosition r = length ?enc + length ?more + length rest"
      using arg_cong [OF d, of length] by simp
    then have p1: "brPosition ?r1 \<le> length (brInput ?r1)" using p by simp
    have d1: "drop (brPosition ?r1) (brInput ?r1) = ?more @ rest"
      using arg_cong [OF d, of "drop (length ?enc)"] by (simp add: add.commute)
    have "reads order (read_fields fs) ?more fs" using Cons by simp
    from readsD [OF this _ p1 d1] o have "read_fields fs ?r1 =
        (Inr fs, ?r1\<lparr>brPosition := brPosition ?r1 + length ?more\<rparr>)" by simp
    with one show "read_fields (f # fs) r = (Inr (f # fs), r\<lparr>brPosition := brPosition r +
        length (concat (map (field_bytes order) (f # fs)))\<rparr>)"
      by (simp add: add.assoc)
  qed
qed (simp add: reads_def)

text \<open>Each kind of field is a self-delimiting encoding, in both byte orders.\<close>

definition lift_read ::
    "ByteOrder \<Rightarrow> (BinaryReader \<Rightarrow> 'a result \<times> BinaryReader) \<Rightarrow> byte list \<Rightarrow> ('a \<times> byte list) option" where
  "lift_read order rd bytes =
     (case rd \<lparr>brInput = bytes, brOrder = order, brPosition = 0\<rparr> of
        (Inl _, _) \<Rightarrow> None
      | (Inr x, r) \<Rightarrow> Some (x, drop (brPosition r) bytes))"

lemma lift_read_reads: "reads order rd enc x \<Longrightarrow> lift_read order rd (enc @ rest) = Some (x, rest)"
  using readsD [of order rd enc x "\<lparr>brInput = enc @ rest, brOrder = order, brPosition = 0\<rparr>" rest]
  by (simp add: lift_read_def)

interpretation unsigned_codec: wire_codec "fits_unsigned width" "\<lambda>v. Store v width order"
    "lift_read order (ReadUnsigned width)" for width order
  by unfold_locales (simp add: lift_read_reads reads_fits)

interpretation signed_codec: wire_codec "fits_signed width" "\<lambda>v. Store v width order"
    "lift_read order (ReadSigned width)" for width order
  by unfold_locales (simp add: lift_read_reads reads_signed)

interpretation text_codec: wire_codec "\<lambda>t. field_ok (FText m t)"
    "\<lambda>t. Store (word_of_nat (length t)) 4 order @ bytes_of t" "lift_read order (ReadUtf8 m)" for m order
  by unfold_locales (simp add: lift_read_reads reads_utf8 del: append_assoc)

lemma write_fields_spec:
  assumes "BinaryWriter_inv w" "\<And>n. alloc n" "list_all field_ok fs"
    "length (bwBytes w) + length (concat (map (field_bytes (bwOrder w)) fs)) \<le> bwLimit w"
  shows "write_fields alloc fs w =
    Some (Ok, w\<lparr>bwBytes := bwBytes w @ concat (map (field_bytes (bwOrder w)) fs)\<rparr>)"
  using assms(1,3,4)
proof (induction fs arbitrary: w)
  case (Cons f fs)
  let ?w1 = "w\<lparr>bwBytes := bwBytes w @ field_bytes (bwOrder w) f\<rparr>"
  have "write_field alloc f w = Some (Ok, ?w1)"
    using write_field_spec [OF Cons.prems(1), of alloc f] Cons.prems assms(2) by auto
  moreover have "BinaryWriter_inv ?w1" using Cons.prems by (simp add: inv_simps)
  ultimately show ?case using Cons.IH [of ?w1] Cons.prems by simp
qed simp

lemma write_fields_inv:
  "BinaryWriter_inv w \<Longrightarrow> \<exists>st w'. write_fields alloc fs w = Some (st, w') \<and> BinaryWriter_inv w' \<and>
     (\<exists>k. bwBytes w' = bwBytes w @ concat (map (field_bytes (bwOrder w)) (take k fs))) \<and>
     bwOrder w' = bwOrder w"
proof (induction fs arbitrary: w)
  case (Cons f fs)
  obtain st where st: "write_field alloc f w = Some (if field_ok f \<and>
      length (bwBytes w) + length (field_bytes (bwOrder w) f) \<le> bwLimit w \<and>
      alloc (length (bwBytes w) + length (field_bytes (bwOrder w) f))
    then (Ok, w\<lparr>bwBytes := bwBytes w @ field_bytes (bwOrder w) f\<rparr>) else (st, w))" "st \<noteq> Ok"
    using write_field_spec [OF Cons.prems] by blast
  let ?w1 = "w\<lparr>bwBytes := bwBytes w @ field_bytes (bwOrder w) f\<rparr>"
  show ?case
  proof (cases "write_field alloc f w = Some (Ok, ?w1)")
    case True
    then have "BinaryWriter_inv ?w1" using st Cons.prems by (auto simp: inv_simps split: if_splits)
    from Cons.IH [OF this] obtain st' w' k where "write_fields alloc fs ?w1 = Some (st', w')"
        "BinaryWriter_inv w'" "bwOrder w' = bwOrder w"
        "bwBytes w' = bwBytes ?w1 @ concat (map (field_bytes (bwOrder w)) (take k fs))"
      by auto
    then show ?thesis using True by (auto intro!: exI [of _ "Suc k"])
  next
    case False
    then show ?thesis using st Cons.prems by (auto intro!: exI [of _ 0] split: if_splits)
  qed
qed (auto intro: exI [of _ 0])

section \<open>Properties\<close>

text \<open>
  C6. Any sequence of fields that fit (integers of the four widths, both signs, booleans, floats,
  bounded byte strings and bounded valid UTF-8) and whose encodings fit the writer's limit is
  written without an error, and a reader of the same byte order created over the bytes reads
  back exactly those fields and ends at the end of the input.
\<close>

theorem BinaryIO_round_trip:
  assumes "\<forall>n. alloc n" and "list_all field_ok fs"
    and "BinaryWriter_Create limit order = Inr w"
    and "length (concat (map (field_bytes order) fs)) \<le> limit"
  shows "\<exists>w' r r'. write_fields alloc fs w = Some (Ok, w') \<and>
    BinaryReader_Create (bwBytes w') order limit = Inr r \<and>
    read_fields fs r = (Inr fs, r') \<and> Remaining r' = 0"
proof -
  let ?enc = "concat (map (field_bytes order) fs)"
  have w: "w = \<lparr>bwBytes = [], bwLimit = limit, bwOrder = order\<rparr>" and lim: "limit \<noteq> 0" "limit \<le> MaximumBinaryBuffer"
    using assms(3) by (auto simp: BinaryWriter_Create_def split: if_splits)
  have wr: "write_fields alloc fs w = Some (Ok, w\<lparr>bwBytes := ?enc\<rparr>)"
    using write_fields_spec [of w alloc fs] assms(1,2,4) w lim by (simp add: inv_simps)
  let ?r = "\<lparr>brInput = ?enc, brOrder = order, brPosition = 0\<rparr>"
  have rd: "read_fields fs ?r = (Inr fs, ?r\<lparr>brPosition := length ?enc\<rparr>)"
    using readsD [OF reads_fields [OF assms(2), of order], of ?r "[]"] by simp
  show ?thesis
    using wr rd assms(4) lim by (auto simp: w BinaryReader_Create_def Remaining_def not_less)
qed

theorem BinaryIO_round_trip_witness:
  "\<exists>w' r r'. write_fields (\<lambda>_. True) [FUnsigned 2 513, FSigned 1 (- 3), FBool True, FText 9 ''ab'']
      \<lparr>bwBytes = [], bwLimit = 100, bwOrder = BigEndian\<rparr> = Some (Ok, w') \<and>
    BinaryReader_Create (bwBytes w') BigEndian 100 = Inr r \<and>
    read_fields [FUnsigned 2 513, FSigned 1 (- 3), FBool True, FText 9 ''ab''] r =
      (Inr [FUnsigned 2 513, FSigned 1 (- 3), FBool True, FText 9 ''ab''], r') \<and> Remaining r' = 0"
  by (rule BinaryIO_round_trip)
    (simp_all add: fits_unsigned_def fits_signed_def Width_def BinaryWriter_Create_def
      MaximumBinaryBuffer_def UINT32_MAX_eval IsValidUtf8.simps utf8_lead_def utf8_in_range_def)

text \<open>The reads and writes of the interface, whatever their arguments, and whether they failed.\<close>

inductive read_step :: "BinaryReader \<Rightarrow> bool \<Rightarrow> BinaryReader \<Rightarrow> bool" where
  "ReadUnsigned n r = (res1, r') \<Longrightarrow> read_step r (isl res1) r'"
| "ReadSigned n r = (res1, r') \<Longrightarrow> read_step r (isl res1) r'"
| "ReadBool r = (res2, r') \<Longrightarrow> read_step r (isl res2) r'"
| "ReadFloat32 r = (res3, r') \<Longrightarrow> read_step r (isl res3) r'"
| "ReadFloat64 r = (res1, r') \<Longrightarrow> read_step r (isl res1) r'"
| "ReadBytes n r = (res4, r') \<Longrightarrow> read_step r (isl res4) r'"
| "ReadLengthPrefixed n r = (res4, r') \<Longrightarrow> read_step r (isl res4) r'"
| "ReadUtf8 n r = (res5, r') \<Longrightarrow> read_step r (isl res5) r'"
| "Skip n r = (st, r') \<Longrightarrow> read_step r (st \<noteq> Ok) r'"

definition moved :: "BinaryReader \<Rightarrow> bool \<Rightarrow> BinaryReader \<Rightarrow> bool" where
  "moved r failed r' \<longleftrightarrow> (if failed then r' = r
     else \<exists>n \<le> Remaining r. r' = r\<lparr>brPosition := brPosition r + n\<rparr>)"

lemma movedI:
  "(failed \<Longrightarrow> r' = r) \<Longrightarrow>
   (\<not> failed \<Longrightarrow> n \<le> Remaining r \<and> r' = r\<lparr>brPosition := brPosition r + n\<rparr>) \<Longrightarrow> moved r failed r'"
  by (auto simp: moved_def)

lemma moved_unsigned: "ReadUnsigned n r = (res, r') \<Longrightarrow> moved r (isl res) r'"
  by (rule movedI [of _ _ _ n]) (auto simp: ReadUnsigned_def split: if_splits)

lemma moved_bytes: "ReadBytes n r = (res, r') \<Longrightarrow> moved r (isl res) r'"
  by (rule movedI [of _ _ _ n]) (auto simp: ReadBytes_def split: if_splits)

lemma moved_trans: "moved r False r1 \<Longrightarrow> moved r1 False r2 \<Longrightarrow> moved r False r2"
  unfolding moved_def if_False
proof (elim exE conjE)
  fix n m
  assume "n \<le> Remaining r" "r1 = r\<lparr>brPosition := brPosition r + n\<rparr>"
    "m \<le> Remaining r1" "r2 = r1\<lparr>brPosition := brPosition r1 + m\<rparr>"
  then show "\<exists>k \<le> Remaining r. r2 = r\<lparr>brPosition := brPosition r + k\<rparr>"
    by (intro exI [of _ "n + m"]) (auto simp: Remaining_def)
qed

lemma moved_prefixed: "ReadLengthPrefixed n r = (res, r') \<Longrightarrow> moved r (isl res) r'"
proof -
  assume rd: "ReadLengthPrefixed n r = (res, r')"
  obtain res1 r1 where u: "ReadUnsigned 4 r = (res1, r1)" by fastforce
  show ?thesis
  proof (cases "isl res")
    case True
    then show ?thesis using rd u
      by (auto simp: ReadLengthPrefixed_def moved_def split: sum.splits if_splits prod.splits)
  next
    case False
    then obtain len v where p: "res1 = Inr len" "ReadBytes (unat len) r1 = (Inr v, r')"
      using rd u by (auto simp: ReadLengthPrefixed_def split: sum.splits if_splits prod.splits)
    then show ?thesis using False moved_trans [of r r1 r'] moved_unsigned [OF u] moved_bytes [OF p(2)]
      by (cases res) auto
  qed
qed

lemma moved_step: "read_step r failed r' \<Longrightarrow> moved r failed r'"
proof (induction rule: read_step.induct)
  case (2 n r res r')
  obtain res1 r1 where u: "ReadUnsigned n r = (res1, r1)" by fastforce
  then show ?case using 2 moved_unsigned [OF u] by (auto simp: ReadSigned_def split: sum.splits)
next
  case (3 r res r')
  then show ?case by (intro movedI [of _ _ _ 1]) (auto simp: ReadBool_def split: if_splits)
next
  case (4 r res r')
  obtain res1 r1 where u: "ReadUnsigned 4 r = (res1, r1)" by fastforce
  then show ?case using 4 moved_unsigned [OF u] by (auto simp: ReadFloat32_def split: sum.splits)
next
  case (8 n r res r')
  obtain res1 r1 where u: "ReadLengthPrefixed n r = (res1, r1)" by fastforce
  then show ?case using 8 moved_prefixed [OF u]
    by (auto simp: ReadUtf8_def Let_def moved_def split: sum.splits if_splits)
next
  case (9 n r st r')
  then show ?case by (intro movedI [of _ _ _ n]) (auto simp: Skip_def split: if_splits)
qed (auto simp: moved_unsigned ReadFloat64_def moved_bytes moved_prefixed)

text \<open>
  C7. Every read of the binary reader is atomic and stays inside the input: a failed one leaves
  the reader as it was, a successful one moves the position forward by at most what remained.
  The length-prefixed and UTF-8 reads, which consume a length before they can fail, included.
\<close>

theorem BinaryReader_failure_atomic:
  assumes "read_step r failed r'" and "brPosition r \<le> length (brInput r)"
  shows "brInput r' = brInput r \<and> brOrder r' = brOrder r \<and>
    brPosition r \<le> brPosition r' \<and> brPosition r' \<le> length (brInput r') \<and> (failed \<longrightarrow> r' = r)"
  using moved_step [OF assms(1)] assms(2) by (auto simp: moved_def Remaining_def split: if_splits)

theorem BinaryReader_failure_atomic_witness:
  "brPosition (snd (ReadUtf8 9 \<lparr>brInput = [0, 0, 0, 1, 0xFF], brOrder = BigEndian, brPosition = 0\<rparr>)) \<le> 5"
  using BinaryReader_failure_atomic [OF read_step.intros(8) [OF surjective_pairing],
      of "\<lparr>brInput = [0, 0, 0, 1, 0xFF], brOrder = BigEndian, brPosition = 0\<rparr>" 9]
  by auto

text \<open>
  Appending is all or nothing and does not depend on aliasing: whether the bytes are foreign
  or a view of the writer's own contents (whose memory moves when the vector grows), the writer
  either ends with exactly the announced length and those bytes added, in its limit, or reports
  why not (TooLarge exactly when the limit would be exceeded) and is unchanged.
\<close>

theorem WriteLengthPrefixed_all_or_nothing:
  assumes "BinaryWriter_inv w" and "span_valid w value"
    and "span_size value \<le> maximumLength" and "span_size value \<le> UINT32_MAX"
  shows "\<exists>st w'. WriteLengthPrefixed alloc value maximumLength w = Some (st, w') \<and> BinaryWriter_inv w' \<and>
    (if st = Ok then bwBytes w' = bwBytes w @ Store (word_of_nat (span_size value)) 4 (bwOrder w) @ span_bytes w value
     else w' = w) \<and>
    (st = TooLarge \<longleftrightarrow> length (bwBytes w) + 4 + span_size value > bwLimit w)"
proof -
  have "WriteLengthPrefixed alloc value maximumLength w = BinaryWriter_Append alloc value True w"
    using assms(3,4) by (simp add: WriteLengthPrefixed_def)
  then show ?thesis
    using Append_spec [OF assms(2,1), of alloc True] span_size_valid [OF assms(2)] assms(1)
    by (auto simp: Let_def prefix_bytes_def inv_simps)
qed

theorem WriteLengthPrefixed_all_or_nothing_witness:
  "\<exists>st w'. WriteLengthPrefixed (\<lambda>_. True) (SelfView 1 2) 9
       \<lparr>bwBytes = [7, 8, 9], bwLimit = 20, bwOrder = LittleEndian\<rparr> = Some (st, w') \<and> st \<noteq> TooLarge \<and>
     (st = Ok \<longrightarrow> bwBytes w' = [7, 8, 9, 2, 0, 0, 0, 8, 9])"
proof -
  let ?w = "\<lparr>bwBytes = [7, 8, 9], bwLimit = 20, bwOrder = LittleEndian\<rparr>"
  have "Store (word_of_nat 2) 4 LittleEndian = [2, 0, 0, 0]"
    by (simp add: Store_def store_bytes_def byte_shift_def upt_rec)
  then show ?thesis
    using WriteLengthPrefixed_all_or_nothing [of ?w "SelfView 1 2" 9 "\<lambda>_. True"]
    by (auto simp: inv_simps MaximumBinaryBuffer_def UINT32_MAX_eval region_def)
qed

text \<open>Two offers are compatible when they agree on a version and share every required feature.\<close>

definition compatible :: "64 word \<Rightarrow> ProtocolOffer \<Rightarrow> ProtocolOffer \<Rightarrow> bool" where
  "compatible required l r \<longleftrightarrow> offer_version l = offer_version r \<and>
     (offer_features l AND offer_features r) AND required = required"

definition agreed :: "ProtocolOffer \<Rightarrow> ProtocolOffer \<Rightarrow> ProtocolOffer" where
  "agreed l r = \<lparr>offer_version = offer_version l, offer_features = offer_features l AND offer_features r\<rparr>"

lemma match_remote_None: "match_remote req l peer = None \<longleftrightarrow> (\<forall>r \<in> set peer. \<not> compatible req l r)"
  by (induction peer) (auto simp: compatible_def)

lemma match_remote_Some: "match_remote req l peer = Some offer \<Longrightarrow>
  \<exists>r \<in> set peer. compatible req l r \<and> offer = agreed l r"
  by (induction peer) (auto simp: compatible_def agreed_def split: if_splits)

lemma match_remote_distinct:
  "distinct (map offer_version peer) \<Longrightarrow> r \<in> set peer \<Longrightarrow> compatible req l r \<Longrightarrow>
   match_remote req l peer = Some (agreed l r)"
proof (induction peer)
  case (Cons x peer)
  show ?case
  proof (cases "x = r")
    case True
    then show ?thesis using Cons.prems by (simp add: compatible_def agreed_def)
  next
    case False
    then have r: "r \<in> set peer" using Cons.prems by simp
    then have "offer_version x \<noteq> offer_version r" using Cons.prems(1) by force
    then show ?thesis using Cons r by (simp add: compatible_def)
  qed
qed simp

lemma match_local_iff:
  assumes "distinct (map offer_version peer)"
  shows "match_local req server peer = Some offer \<longleftrightarrow>
    (\<exists>before l after r. server = before @ l # after \<and> r \<in> set peer \<and> compatible req l r \<and>
       offer = agreed l r \<and> (\<forall>l' \<in> set before. \<forall>r' \<in> set peer. \<not> compatible req l' r'))"
    (is "?lhs server \<longleftrightarrow> ?rhs server")
proof (induction server)
  case (Cons x server)
  show ?case
  proof (cases "match_remote req x peer")
    case None
    then have none: "\<forall>r \<in> set peer. \<not> compatible req x r" by (simp add: match_remote_None)
    have "?rhs (x # server) \<longleftrightarrow> ?rhs server"
    proof
      assume "?rhs (x # server)"
      then obtain before l after r where s: "x # server = before @ l # after" "r \<in> set peer"
          "compatible req l r" "offer = agreed l r"
          "\<forall>l' \<in> set before. \<forall>r' \<in> set peer. \<not> compatible req l' r'" by blast
      then have "before \<noteq> []" using none by auto
      then obtain before' where "before = x # before'" using s(1) by (cases before) auto
      then show "?rhs server" using s by (intro exI [of _ before'] exI [of _ l] exI [of _ after] exI [of _ r]) auto
    next
      assume "?rhs server"
      then obtain before l after r where s: "server = before @ l # after" "r \<in> set peer"
          "compatible req l r" "offer = agreed l r"
          "\<forall>l' \<in> set before. \<forall>r' \<in> set peer. \<not> compatible req l' r'" by blast
      then show "?rhs (x # server)"
        using none by (intro exI [of _ "x # before"] exI [of _ l] exI [of _ after] exI [of _ r]) auto
    qed
    then show ?thesis using None Cons by simp
  next
    case (Some o1)
    obtain r where r: "r \<in> set peer" "compatible req x r" "o1 = agreed x r"
      using match_remote_Some [OF Some] by auto
    have "?rhs (x # server) \<longleftrightarrow> offer = o1"
    proof
      assume "?rhs (x # server)"
      then obtain before l after r' where s: "x # server = before @ l # after" "r' \<in> set peer"
          "compatible req l r'" "offer = agreed l r'"
          "\<forall>l' \<in> set before. \<forall>r' \<in> set peer. \<not> compatible req l' r'" by blast
      then have "before = []" using r by (cases before) auto
      then show "offer = o1"
        using s Some match_remote_distinct [OF assms s(2), of req x] by simp
    next
      assume "offer = o1"
      then show "?rhs (x # server)" using r by (intro exI [of _ "[]"]) auto
    qed
    then show ?thesis using Some by auto
  qed
qed simp

lemma valid_offers_distinct: "valid_offers offers \<Longrightarrow> distinct (map offer_version offers)"
proof -
  have "offers_distinct seen offers \<Longrightarrow>
      distinct (map offer_version offers) \<and> set seen \<inter> offer_version ` set offers = {}" for seen
    by (induction offers arbitrary: seen) (fastforce split: if_splits)+
  then show "valid_offers offers \<Longrightarrow> ?thesis" by (auto simp: valid_offers_def split: if_splits)
qed

text \<open>
  Negotiation picks the first of the server's versions, in the server's order, that the peer
  offers too with every required feature in common, and answers with exactly the features both
  have; it fails as Unimplemented only when no pair of offers is compatible.
\<close>

theorem NegotiateProtocol_server_order:
  assumes "valid_offers server" and "valid_offers peer"
  shows "(NegotiateProtocol server peer required = Inr offer \<longleftrightarrow>
      (\<exists>before l after r. server = before @ l # after \<and> r \<in> set peer \<and> compatible required l r \<and>
         offer = agreed l r \<and> (\<forall>l' \<in> set before. \<forall>r' \<in> set peer. \<not> compatible required l' r'))) \<and>
    (NegotiateProtocol server peer required = Inl Unimplemented \<longleftrightarrow>
      (\<forall>l \<in> set server. \<forall>r \<in> set peer. \<not> compatible required l r))"
proof -
  have "match_local required xs peer = None \<longleftrightarrow> (\<forall>l \<in> set xs. \<forall>r \<in> set peer. \<not> compatible required l r)" for xs
    by (induction xs) (auto simp: match_remote_None match_remote_Some split: option.splits
        dest: match_remote_Some)
  from this [of server] show ?thesis
    using assms match_local_iff [OF valid_offers_distinct [OF assms(2)], of required server offer]
    by (cases "match_local required server peer") (simp_all add: NegotiateProtocol_def)
qed

theorem NegotiateProtocol_server_order_witness:
  "(\<exists>before l after r. [\<lparr>offer_version = 3, offer_features = 1\<rparr>, \<lparr>offer_version = 2, offer_features = 7\<rparr>] =
      before @ l # after \<and> r \<in> set [\<lparr>offer_version = 2, offer_features = 6\<rparr>] \<and>
      compatible 2 l r \<and> \<lparr>offer_version = 2, offer_features = 6\<rparr> = agreed l r)"
  using NegotiateProtocol_server_order [of
      "[\<lparr>offer_version = 3, offer_features = 1\<rparr>, \<lparr>offer_version = 2, offer_features = 7\<rparr>]"
      "[\<lparr>offer_version = 2, offer_features = 6\<rparr>]" 2 "\<lparr>offer_version = 2, offer_features = 6\<rparr>"]
  by (auto simp: valid_offers_def NegotiateProtocol_def)

text \<open>
  The binary envelope is a bijection between typed messages and byte strings whose first four
  bytes are not all zero: a message with a non-zero type that fits the maximum is encoded, decodes
  to itself, and whatever decodes is the encoding of what it decodes to.
\<close>

theorem BinaryMessage_bijection:
  assumes "\<forall>n. alloc n" and "4 + length payload \<le> maximumBytes" and "type \<noteq> 0"
    and "length bytes \<le> maximumBytes"
  shows "(\<exists>enc. EncodeBinaryMessage alloc type payload maximumBytes = Inr enc \<and>
      DecodeBinaryMessage enc = Inr \<lparr>bm_type = type, bm_payload = payload\<rparr>) \<and>
    (DecodeBinaryMessage bytes = Inr m \<longrightarrow>
      EncodeBinaryMessage alloc (bm_type m) (bm_payload m) maximumBytes = Inr bytes)"
proof
  have "(load_bytes (\<lambda>i. 8 * i) 4 (store_bytes (\<lambda>i. 8 * i) 4 type @ payload) :: 32 word) = type"
    using load_store_bytes [OF covers_little, of 4 type payload]
    by (simp add: bit_eq_iff bit_simps)
  then show "\<exists>enc. EncodeBinaryMessage alloc type payload maximumBytes = Inr enc \<and>
      DecodeBinaryMessage enc = Inr \<lparr>bm_type = type, bm_payload = payload\<rparr>"
    using assms by (simp add: EncodeBinaryMessage_def DecodeBinaryMessage_def)
  show "DecodeBinaryMessage bytes = Inr m \<longrightarrow>
      EncodeBinaryMessage alloc (bm_type m) (bm_payload m) maximumBytes = Inr bytes"
  proof
    assume d: "DecodeBinaryMessage bytes = Inr m"
    then have m: "m = \<lparr>bm_type = load_bytes (\<lambda>i. 8 * i) 4 bytes, bm_payload = drop 4 bytes\<rparr>"
        "bm_type m \<noteq> 0" and len: "4 \<le> length bytes"
      by (auto simp: DecodeBinaryMessage_def Let_def split: if_splits)
    have "(load_bytes (\<lambda>i. 8 * i) 4 bytes :: 32 word) = load_bytes (\<lambda>i. 8 * i) 4 (take 4 bytes)"
      using load_bytes_append [of 4 "take 4 bytes" "\<lambda>i. 8 * i" "drop 4 bytes"] len by simp
    then have "store_bytes (\<lambda>i. 8 * i) 4 (load_bytes (\<lambda>i. 8 * i) 4 bytes :: 32 word) = take 4 bytes"
      using store_load_bytes [of "\<lambda>i. 8 * i" 4 "take 4 bytes", where 'a = 32] len by simp
    then show "EncodeBinaryMessage alloc (bm_type m) (bm_payload m) maximumBytes = Inr bytes"
      using m len assms by (simp add: EncodeBinaryMessage_def)
  qed
qed

theorem BinaryMessage_bijection_witness:
  "EncodeBinaryMessage (\<lambda>_. True) 258 [9] 5 = Inr [2, 1, 0, 0, 9]"
proof -
  have "DecodeBinaryMessage [2, 1, 0, 0, 9] = Inr \<lparr>bm_type = 258, bm_payload = [9]\<rparr>"
    by (simp add: DecodeBinaryMessage_def load_bytes_def upt_rec)
  then show ?thesis
    using BinaryMessage_bijection [of "\<lambda>_. True" "[9]" 5 258 "[2, 1, 0, 0, 9]"
        "\<lparr>bm_type = 258, bm_payload = [9]\<rparr>"] by simp
qed

end
