(* ===== verification/Decimals.thy ===== *)
theory Decimals
  imports Prelude "HOL-Library.Char_ord"
begin

text \<open>
  Decimal numbers as \<^verbatim>\<open>std::to_chars\<close>, \<^verbatim>\<open>std::to_string\<close> and \<^verbatim>\<open>std::from_chars\<close> read and write them,
  shared by the JSON text and the network addresses: printing is inverted by reading, and prints no
  leading zero.
\<close>

definition isdigit :: "char \<Rightarrow> bool" where
  "isdigit c \<longleftrightarrow> CHR ''0'' \<le> c \<and> c \<le> CHR ''9''"

text \<open>The value \<^verbatim>\<open>std::from_chars\<close> reads from decimal digits.\<close>

definition decimal_value :: "string \<Rightarrow> nat" where
  "decimal_value ds = foldl (\<lambda>v c. v * 10 + (uchar c - uchar CHR ''0'')) 0 ds"

text \<open>Shortest decimal digits of a natural number.\<close>

fun to_chars_nat :: "nat \<Rightarrow> string" where
  "to_chars_nat n =
     (if n < 10 then [char_of (uchar CHR ''0'' + n)]
      else to_chars_nat (n div 10) @ [char_of (uchar CHR ''0'' + n mod 10)])"

declare to_chars_nat.simps [simp del]

text \<open>Digits without a leading zero.\<close>

definition int_part :: "string \<Rightarrow> bool" where
  "int_part ip \<longleftrightarrow> ip \<noteq> [] \<and> list_all isdigit ip \<and> (hd ip = CHR ''0'' \<longrightarrow> ip = ''0'')"

lemma isdigit_uchar: "isdigit c \<longleftrightarrow> 48 \<le> uchar c \<and> uchar c \<le> 57"
  by (simp add: isdigit_def less_eq_char_def)

lemma to_chars_nat_small: "n < 10 \<Longrightarrow> to_chars_nat n = [char_of (48 + n)]"
  by (subst to_chars_nat.simps) simp

lemma to_chars_nat_large: "10 \<le> n \<Longrightarrow> to_chars_nat n = to_chars_nat (n div 10) @ [char_of (48 + n mod 10)]"
  by (subst to_chars_nat.simps) simp

lemma decimal_value_snoc: "decimal_value (ds @ [c]) = decimal_value ds * 10 + (uchar c - 48)"
  by (simp add: decimal_value_def)

lemma to_chars_nat_spec:
  "decimal_value (to_chars_nat n) = n \<and> int_part (to_chars_nat n) \<and> (0 < n \<longrightarrow> hd (to_chars_nat n) \<noteq> CHR ''0'')"
proof (induction n rule: less_induct)
  case (less n)
  show ?case
  proof (cases "n < 10")
    case True
    have u: "uchar (char_of (48 + n)) = 48 + n" using True by (simp add: uchar_char_of)
    then have "char_of (48 + n) = CHR ''0'' \<longleftrightarrow> n = 0"
      using uchar_eq_iff [of "char_of (48 + n)" "CHR ''0''"] by simp
    then show ?thesis
      using True u by (auto simp: to_chars_nat_small decimal_value_def int_part_def isdigit_uchar)
  next
    case False
    have u: "uchar (char_of (48 + n mod 10)) = 48 + n mod 10" by (rule uchar_char_of) simp
    have IH: "decimal_value (to_chars_nat (n div 10)) = n div 10" "int_part (to_chars_nat (n div 10))"
      "hd (to_chars_nat (n div 10)) \<noteq> CHR ''0''"
      using less [of "n div 10"] False by auto
    from IH(2) have ne: "to_chars_nat (n div 10) \<noteq> []" "list_all isdigit (to_chars_nat (n div 10))"
      by (simp_all add: int_part_def)
    have eq: "to_chars_nat n = to_chars_nat (n div 10) @ [char_of (48 + n mod 10)]"
      using False by (simp add: to_chars_nat_large)
    have "decimal_value (to_chars_nat n) = n"
      unfolding eq decimal_value_snoc u IH(1) by simp
    moreover have "isdigit (char_of (48 + n mod 10))" unfolding isdigit_uchar u by simp
    then have "list_all isdigit (to_chars_nat n)" unfolding eq using ne(2) by simp
    moreover have "hd (to_chars_nat n) \<noteq> CHR ''0''" unfolding eq using ne(1) IH(3) by simp
    ultimately show ?thesis using eq by (simp add: int_part_def)
  qed
qed

end
