(* ===== verification/Json.thy ===== *)
theory Json
  imports BinaryIO Decimals "HOL-Library.List_Lexorder"
begin

text \<open>
  The JSON values, parser and serialiser (\<^verbatim>\<open>include/ServerCore/Protocol/Json.h\<close>,
  \<^verbatim>\<open>src/Protocol/Json.cpp\<close>).

  The parser object is the text it has not consumed yet and the number of values it may still
  create. An exception of the parser is the error its caller turns it into: InvalidFormat for
  \<^verbatim>\<open>JsonParseFailure\<close>, TooLarge for \<^verbatim>\<open>JsonValueLimitExceeded\<close>. Which message and position the
  failure carries is diagnostic text and left out. The parser's recursion and loops run on fuel;
  the theory \<^verbatim>\<open>JsonProps\<close> proves that what they are given is never used up.

  A \<^verbatim>\<open>double\<close> is a value of a type parameter, and what the code uses of the C++ library on doubles
  is a record of functions: \<^verbatim>\<open>std::from_chars\<close>, \<^verbatim>\<open>std::to_chars\<close>, \<^verbatim>\<open>std::isfinite\<close>, the two
  zeros and the conversion of an integer. The object type \<^verbatim>\<open>std::map<std::string, JsonValue>\<close> is
  its list of members in key order, the order of unsigned characters.
\<close>

section \<open>Values\<close>

datatype 'd Number = NInt64 "64 word" | NUInt64 "64 word" | NDouble 'd

datatype 'd JsonValue =
    JNull | JBool bool | JNumber "'d Number" | JString string
  | JArray "'d JsonValue list" | JObject "(string \<times> 'd JsonValue) list"

datatype Errc = Errc_ok | Errc_invalid_argument | Errc_result_out_of_range

record 'd FromChars =
  fc_consumed :: nat
  fc_ec :: Errc
  fc_value :: 'd

record 'd FloatLib =
  fl_from_chars :: "string \<Rightarrow> 'd FromChars"
  fl_to_chars :: "'d \<Rightarrow> string option"
  fl_isfinite :: "'d \<Rightarrow> bool"
  fl_zero :: 'd
  fl_negative_zero :: 'd
  fl_of_int :: "int \<Rightarrow> 'd"

text \<open>\<^verbatim>\<open>std::map::emplace\<close>: the new map, and whether the key was new.\<close>

fun emplace :: "string \<Rightarrow> 'v \<Rightarrow> (string \<times> 'v) list \<Rightarrow> (string \<times> 'v) list \<times> bool" where
  "emplace k v [] = ([(k, v)], True)"
| "emplace k v ((k', v') # m) =
     (if k < k' then ((k, v) # (k', v') # m, True)
      else if k = k' then ((k', v') # m, False)
      else (case emplace k v m of (m', new) \<Rightarrow> ((k', v') # m', new)))"

section \<open>Accessors\<close>

definition IsNull :: "'d JsonValue \<Rightarrow> bool" where
  "IsNull v \<longleftrightarrow> (case v of JNull \<Rightarrow> True | _ \<Rightarrow> False)"

definition IsBoolean :: "'d JsonValue \<Rightarrow> bool" where
  "IsBoolean v \<longleftrightarrow> (case v of JBool _ \<Rightarrow> True | _ \<Rightarrow> False)"

definition IsNumber :: "'d JsonValue \<Rightarrow> bool" where
  "IsNumber v \<longleftrightarrow> (case v of JNumber _ \<Rightarrow> True | _ \<Rightarrow> False)"

definition IsString :: "'d JsonValue \<Rightarrow> bool" where
  "IsString v \<longleftrightarrow> (case v of JString _ \<Rightarrow> True | _ \<Rightarrow> False)"

definition IsArray :: "'d JsonValue \<Rightarrow> bool" where
  "IsArray v \<longleftrightarrow> (case v of JArray _ \<Rightarrow> True | _ \<Rightarrow> False)"

definition IsObject :: "'d JsonValue \<Rightarrow> bool" where
  "IsObject v \<longleftrightarrow> (case v of JObject _ \<Rightarrow> True | _ \<Rightarrow> False)"

definition TryArray :: "'d JsonValue \<Rightarrow> 'd JsonValue list option" where
  "TryArray v = (case v of JArray a \<Rightarrow> Some a | _ \<Rightarrow> None)"

definition TryObject :: "'d JsonValue \<Rightarrow> (string \<times> 'd JsonValue) list option" where
  "TryObject v = (case v of JObject m \<Rightarrow> Some m | _ \<Rightarrow> None)"

definition TryString :: "'d JsonValue \<Rightarrow> string option" where
  "TryString v = (case v of JString s \<Rightarrow> Some s | _ \<Rightarrow> None)"

definition TryBoolean :: "'d JsonValue \<Rightarrow> bool option" where
  "TryBoolean v = (case v of JBool b \<Rightarrow> Some b | _ \<Rightarrow> None)"

definition asDouble :: "'d FloatLib \<Rightarrow> 'd Number \<Rightarrow> 'd" where
  "asDouble fl n = (case n of NInt64 i \<Rightarrow> fl_of_int fl (sint i) | NUInt64 u \<Rightarrow> fl_of_int fl (uint u)
                    | NDouble d \<Rightarrow> d)"

definition TryNumber :: "'d FloatLib \<Rightarrow> 'd JsonValue \<Rightarrow> 'd option" where
  "TryNumber fl v = (case v of JNumber n \<Rightarrow> Some (asDouble fl n) | _ \<Rightarrow> None)"

definition TryInt64 :: "'d JsonValue \<Rightarrow> 64 word option" where
  "TryInt64 v = (case v of JNumber (NInt64 i) \<Rightarrow> Some i | _ \<Rightarrow> None)"

definition TryUInt64 :: "'d JsonValue \<Rightarrow> 64 word option" where
  "TryUInt64 v = (case v of JNumber (NUInt64 u) \<Rightarrow> Some u | _ \<Rightarrow> None)"

definition JsonValue_Size :: "'d JsonValue \<Rightarrow> nat" where
  "JsonValue_Size v =
     (case TryArray v of
        Some a \<Rightarrow> length a
      | None \<Rightarrow> (case TryObject v of Some m \<Rightarrow> length m | None \<Rightarrow> 0))"

text \<open>The linear search of \<^verbatim>\<open>Find\<close>.\<close>

fun find_member :: "string \<Rightarrow> (string \<times> 'v) list \<Rightarrow> 'v option" where
  "find_member key [] = None"
| "find_member key ((k, v) # m) = (if k = key then Some v else find_member key m)"

definition Find :: "string \<Rightarrow> 'd JsonValue \<Rightarrow> 'd JsonValue option" where
  "Find key v = (case TryObject v of None \<Rightarrow> None | Some m \<Rightarrow> find_member key m)"

definition At :: "nat \<Rightarrow> 'd JsonValue \<Rightarrow> 'd JsonValue option" where
  "At index v =
     (case TryArray v of
        None \<Rightarrow> None
      | Some a \<Rightarrow> if index \<ge> length a then None else Some (a ! index))"

section \<open>Lexical level\<close>

definition MaximumJsonNestingDepth :: nat where
  "MaximumJsonNestingDepth = 256"

definition is_space :: "char \<Rightarrow> bool" where
  "is_space c \<longleftrightarrow> c = CHR '' '' \<or> c = CHR 0x09 \<or> c = CHR 0x0D \<or> c = CHR 0x0A"

fun SkipWhitespace :: "string \<Rightarrow> string" where
  "SkipWhitespace [] = []"
| "SkipWhitespace (c # cs) = (if is_space c then SkipWhitespace cs else c # cs)"

definition SkipByteOrderMark :: "string \<Rightarrow> string" where
  "SkipByteOrderMark s =
     (if length s \<ge> 3 \<and> uchar (s ! 0) = 0xEF \<and> uchar (s ! 1) = 0xBB \<and> uchar (s ! 2) = 0xBF
      then drop 3 s else s)"

text \<open>\<^verbatim>\<open>Consume\<close>: whether the next character is the given one, and the text after it if so.\<close>

definition Consume_char :: "char \<Rightarrow> string \<Rightarrow> bool \<times> string" where
  "Consume_char c s = (if s \<noteq> [] \<and> hd s = c then (True, tl s) else (False, s))"

definition ParseLiteral :: "string \<Rightarrow> string \<Rightarrow> string option" where
  "ParseLiteral literal s =
     (if take (length literal) s \<noteq> literal then None else Some (drop (length literal) s))"

definition hex_digit :: "char \<Rightarrow> nat option" where
  "hex_digit c =
     (if CHR ''0'' \<le> c \<and> c \<le> CHR ''9'' then Some (uchar c - uchar CHR ''0'')
      else if CHR ''a'' \<le> c \<and> c \<le> CHR ''f'' then Some (uchar c - uchar CHR ''a'' + 10)
      else if CHR ''A'' \<le> c \<and> c \<le> CHR ''F'' then Some (uchar c - uchar CHR ''A'' + 10)
      else None)"

fun hex_value :: "nat \<Rightarrow> string \<Rightarrow> nat option" where
  "hex_value v [] = Some v"
| "hex_value v (c # cs) =
     (case hex_digit c of None \<Rightarrow> None | Some d \<Rightarrow> hex_value (push_bit 4 v OR d) cs)"

definition ParseHex4 :: "string \<Rightarrow> (nat \<times> string) option" where
  "ParseHex4 s =
     (if length s < 4 then None
      else case hex_value 0 (take 4 s) of None \<Rightarrow> None | Some v \<Rightarrow> Some (v, drop 4 s))"

definition simple_escape :: "char \<Rightarrow> char option" where
  "simple_escape e =
     (if e = CHR 0x22 then Some (CHR 0x22)
      else if e = CHR 0x5C then Some (CHR 0x5C)
      else if e = CHR ''/'' then Some (CHR ''/'')
      else if e = CHR ''b'' then Some (CHR 0x08)
      else if e = CHR ''f'' then Some (CHR 0x0C)
      else if e = CHR ''n'' then Some (CHR 0x0A)
      else if e = CHR ''r'' then Some (CHR 0x0D)
      else if e = CHR ''t'' then Some (CHR 0x09)
      else None)"

text \<open>The code point of a \<^verbatim>\<open>\u\<close> escape, surrogate pairs joined, and the text after it.\<close>

definition unicode_escape :: "string \<Rightarrow> (nat \<times> string) option" where
  "unicode_escape s =
     (case ParseHex4 s of
        None \<Rightarrow> None
      | Some (codePoint, r) \<Rightarrow>
          if codePoint \<ge> 0xD800 \<and> codePoint \<le> 0xDBFF then
            if length r < 2 \<or> r ! 0 \<noteq> CHR 0x5C \<or> r ! 1 \<noteq> CHR ''u'' then None
            else (case ParseHex4 (drop 2 r) of
                    None \<Rightarrow> None
                  | Some (low, r') \<Rightarrow>
                      if low < 0xDC00 \<or> low > 0xDFFF then None
                      else Some (0x10000 + push_bit 10 (codePoint - 0xD800) + (low - 0xDC00), r'))
          else if codePoint \<ge> 0xDC00 \<and> codePoint \<le> 0xDFFF then None
          else Some (codePoint, r))"

lemma ParseHex4_length: "ParseHex4 s = Some (v, r) \<Longrightarrow> length r < length s"
  by (auto simp: ParseHex4_def split: if_splits option.splits)

lemma unicode_escape_length: "unicode_escape s = Some (v, r) \<Longrightarrow> length r < length s"
  by (fastforce simp: unicode_escape_def split: if_splits option.splits dest: ParseHex4_length)

function ParseString_loop :: "string \<Rightarrow> string \<Rightarrow> (string \<times> string) option" where
  "ParseString_loop result s =
     (case s of
        [] \<Rightarrow> None
      | c # cs \<Rightarrow>
          if c = CHR 0x22 then Some (result, cs)
          else if uchar c < 0x20 then None
          else if c \<noteq> CHR 0x5C then ParseString_loop (result @ [c]) cs
          else (case cs of
                  [] \<Rightarrow> None
                | e # r \<Rightarrow>
                    (case simple_escape e of
                       Some x \<Rightarrow> ParseString_loop (result @ [x]) r
                     | None \<Rightarrow>
                         if e \<noteq> CHR ''u'' then None
                         else (case unicode_escape r of
                                 None \<Rightarrow> None
                               | Some (cp, r') \<Rightarrow> ParseString_loop (result @ AppendUtf8 cp) r'))))"
  by pat_completeness auto
termination
  by (relation "measure (\<lambda>(result, s). length s)") (auto dest: unicode_escape_length)

declare ParseString_loop.simps [simp del]

definition ParseString :: "string \<Rightarrow> (string \<times> string) option" where
  "ParseString s =
     (case Consume_char (CHR 0x22) s of (ok, r) \<Rightarrow> if \<not> ok then None else ParseString_loop [] r)"

section \<open>Numbers\<close>

text \<open>The token that the scanning part of \<^verbatim>\<open>ParseNumber\<close> accepts, and the text after it.\<close>

definition scan_integer :: "string \<Rightarrow> (string \<times> string) option" where
  "scan_integer s =
     (case Consume_char (CHR ''0'') s of
        (True, r) \<Rightarrow> if r \<noteq> [] \<and> isdigit (hd r) then None else Some (''0'', r)
      | (False, _) \<Rightarrow>
          if s = [] \<or> hd s < CHR ''1'' \<or> hd s > CHR ''9'' then None
          else Some (takeWhile isdigit s, dropWhile isdigit s))"

definition scan_fraction :: "string \<Rightarrow> (string \<times> string) option" where
  "scan_fraction s =
     (case Consume_char (CHR ''.'') s of
        (False, _) \<Rightarrow> Some ([], s)
      | (True, r) \<Rightarrow>
          if r = [] \<or> \<not> isdigit (hd r) then None
          else Some (CHR ''.'' # takeWhile isdigit r, dropWhile isdigit r))"

definition scan_exponent :: "string \<Rightarrow> (string \<times> string) option" where
  "scan_exponent s =
     (if s \<noteq> [] \<and> (hd s = CHR ''e'' \<or> hd s = CHR ''E'') then
        let r = tl s;
            (sign, r1) = (if r \<noteq> [] \<and> (hd r = CHR ''+'' \<or> hd r = CHR ''-'') then ([hd r], tl r) else ([], r))
        in if r1 = [] \<or> \<not> isdigit (hd r1) then None
           else Some (hd s # sign @ takeWhile isdigit r1, dropWhile isdigit r1)
      else Some ([], s))"

definition scan_number :: "string \<Rightarrow> (string \<times> string) option" where
  "scan_number s =
     (case Consume_char (CHR ''-'') s of (negative, s1) \<Rightarrow>
        (case scan_integer s1 of
           None \<Rightarrow> None
         | Some (ip, s2) \<Rightarrow>
             (case scan_fraction s2 of
                None \<Rightarrow> None
              | Some (fp, s3) \<Rightarrow>
                  (case scan_exponent s3 of
                     None \<Rightarrow> None
                   | Some (ep, s4) \<Rightarrow> Some ((if negative then ''-'' else []) @ ip @ fp @ ep, s4)))))"

text \<open>\<^verbatim>\<open>std::from_chars\<close> on a whole decimal token, unsigned and signed.\<close>

definition from_chars_uint64 :: "string \<Rightarrow> 64 word option" where
  "from_chars_uint64 token =
     (let n = decimal_value token in if n < 2 ^ 64 then Some (word_of_nat n) else None)"

definition from_chars_int64 :: "string \<Rightarrow> 64 word option" where
  "from_chars_int64 token =
     (let n = decimal_value (tl token) in if n \<le> 2 ^ 63 then Some (- word_of_nat n) else None)"

definition has_fraction_or_exponent :: "string \<Rightarrow> bool" where
  "has_fraction_or_exponent token \<longleftrightarrow> list_ex (\<lambda>c. c \<in> set ''.eE'') token"

text \<open>
  \<^verbatim>\<open>MagnitudeBelowOne\<close>: the position of the first non-zero digit, integer part first, then
  fraction; and the exponent, saturated.
\<close>

fun leading_in :: "int \<Rightarrow> string \<Rightarrow> int option" where
  "leading_in p [] = None"
| "leading_in p (c # cs) = (if c \<noteq> CHR ''0'' then Some p else leading_in (p - 1) cs)"

definition ExponentLimit :: int where
  "ExponentLimit = 100000000000000000"

definition saturated_exponent :: "string \<Rightarrow> int" where
  "saturated_exponent ds =
     foldl (\<lambda>e c. min (e * 10 + (int (uchar c) - int (uchar CHR ''0''))) ExponentLimit) 0 ds"

definition token_exponent :: "string \<Rightarrow> int" where
  "token_exponent s =
     (if s \<noteq> [] \<and> (hd s = CHR ''e'' \<or> hd s = CHR ''E'') then
        let r = tl s;
            negative = (r \<noteq> [] \<and> hd r = CHR ''-'');
            r1 = (if r \<noteq> [] \<and> (hd r = CHR ''+'' \<or> hd r = CHR ''-'') then tl r else r);
            e = saturated_exponent (takeWhile isdigit r1)
        in if negative then - e else e
      else 0)"

definition MagnitudeBelowOne :: "string \<Rightarrow> bool" where
  "MagnitudeBelowOne token =
     (let s = (if token \<noteq> [] \<and> hd token = CHR ''-'' then tl token else token);
          ip = takeWhile isdigit s;
          s1 = dropWhile isdigit s;
          fp = (if s1 \<noteq> [] \<and> hd s1 = CHR ''.'' then takeWhile isdigit (tl s1) else []);
          s2 = (if s1 \<noteq> [] \<and> hd s1 = CHR ''.'' then dropWhile isdigit (tl s1) else s1);
          leading = (case leading_in (int (length ip) - 1) ip of
                       Some p \<Rightarrow> Some p | None \<Rightarrow> leading_in (- 1) fp)
      in case leading of None \<Rightarrow> True | Some p \<Rightarrow> p + token_exponent s2 < 0)"

definition ParseNumber :: "'d FloatLib \<Rightarrow> string \<Rightarrow> ('d Number \<times> string) option" where
  "ParseNumber fl s =
     (case scan_number s of
        None \<Rightarrow> None
      | Some (token, r) \<Rightarrow>
          if \<not> has_fraction_or_exponent token \<and> hd token = CHR ''-'' \<and> token \<noteq> ''-0'' then
            (case from_chars_int64 token of None \<Rightarrow> None | Some i \<Rightarrow> Some (NInt64 i, r))
          else if \<not> has_fraction_or_exponent token \<and> hd token \<noteq> CHR ''-'' then
            (case from_chars_uint64 token of None \<Rightarrow> None | Some u \<Rightarrow> Some (NUInt64 u, r))
          else
            let conversion = fl_from_chars fl token in
            if fc_consumed conversion = length token \<and> fc_ec conversion = Errc_result_out_of_range \<and>
               MagnitudeBelowOne token
            then Some (NDouble (if hd token = CHR ''-'' then fl_negative_zero fl else fl_zero fl), r)
            else if fc_ec conversion \<noteq> Errc_ok \<or> fc_consumed conversion \<noteq> length token \<or>
                    \<not> fl_isfinite fl (fc_value conversion) then None
            else Some (NDouble (fc_value conversion), r))"

section \<open>The parser\<close>

text \<open>A value with the text and the number of values that are left; a failure; or no fuel.\<close>

datatype 'a parsed = POk 'a string nat | PFail ErrorCode | PFuel

definition pbind :: "'a parsed \<Rightarrow> ('a \<Rightarrow> string \<Rightarrow> nat \<Rightarrow> 'b parsed) \<Rightarrow> 'b parsed" where
  "pbind r f = (case r of POk a s n \<Rightarrow> f a s n | PFail e \<Rightarrow> PFail e | PFuel \<Rightarrow> PFuel)"

record TopLevelMembers =
  tl_hasBody :: bool
  tl_rawBodySize :: nat

text \<open>
  The loops of \<^verbatim>\<open>ParseArray\<close> and \<^verbatim>\<open>ParseObjectMembers\<close>, over the parser of one value at the
  depth of the container. Every iteration consumes a character, so a loop is given as many as
  the text has. The second one carries the record of the top-level \<^verbatim>\<open>body\<close> member, or \<open>None\<close>
  for the null pointer.
\<close>

primrec ParseArray_loop ::
    "(string \<Rightarrow> nat \<Rightarrow> 'v parsed) \<Rightarrow> nat \<Rightarrow> 'v list \<Rightarrow> string \<Rightarrow> nat \<Rightarrow> 'v list parsed" where
  "ParseArray_loop parseValue 0 result s n = PFuel"
| "ParseArray_loop parseValue (Suc k) result s n =
     pbind (parseValue s n) (\<lambda>v s1 n1.
       let s2 = SkipWhitespace s1 in
       case Consume_char (CHR '']'') s2 of (closed, r) \<Rightarrow>
         if closed then POk (result @ [v]) r n1
         else case Consume_char (CHR '','') s2 of (comma, r') \<Rightarrow>
           if \<not> comma then PFail InvalidFormat
           else ParseArray_loop parseValue k (result @ [v]) (SkipWhitespace r') n1)"

definition ParseArray :: "(string \<Rightarrow> nat \<Rightarrow> 'v parsed) \<Rightarrow> string \<Rightarrow> nat \<Rightarrow> 'v list parsed" where
  "ParseArray parseValue s n =
     (let s1 = SkipWhitespace (snd (Consume_char (CHR ''['') s)) in
      case Consume_char (CHR '']'') s1 of (closed, r) \<Rightarrow>
        if closed then POk [] r n else ParseArray_loop parseValue (Suc (length s1)) [] s1 n)"

primrec ParseObjectMembers_loop ::
    "(string \<Rightarrow> nat \<Rightarrow> 'v parsed) \<Rightarrow> nat \<Rightarrow> TopLevelMembers option \<Rightarrow> (string \<times> 'v) list \<Rightarrow>
     string \<Rightarrow> nat \<Rightarrow> ((string \<times> 'v) list \<times> TopLevelMembers option) parsed" where
  "ParseObjectMembers_loop parseValue 0 members result s n = PFuel"
| "ParseObjectMembers_loop parseValue (Suc k) members result s n =
     (if s = [] \<or> hd s \<noteq> CHR 0x22 then PFail InvalidFormat
      else case ParseString s of
        None \<Rightarrow> PFail InvalidFormat
      | Some (key, s1) \<Rightarrow>
          (case Consume_char (CHR '':'') (SkipWhitespace s1) of (colon, s2) \<Rightarrow>
             if \<not> colon then PFail InvalidFormat
             else
               let s3 = SkipWhitespace s2 in
               pbind (parseValue s3 n) (\<lambda>v s4 n1.
                 let members' = (if members \<noteq> None \<and> key = ''body''
                             then Some \<lparr>tl_hasBody = True, tl_rawBodySize = length s3 - length s4\<rparr>
                             else members)
                 in case emplace key v result of (result', new) \<Rightarrow>
                   if \<not> new then PFail InvalidFormat
                   else
                     let s5 = SkipWhitespace s4 in
                     case Consume_char (CHR ''}'') s5 of (closed, r) \<Rightarrow>
                       if closed then POk (result', members') r n1
                       else case Consume_char (CHR '','') s5 of (comma, r') \<Rightarrow>
                         if \<not> comma then PFail InvalidFormat
                         else ParseObjectMembers_loop parseValue k members' result' (SkipWhitespace r') n1)))"

definition ParseObjectMembers ::
    "(string \<Rightarrow> nat \<Rightarrow> 'v parsed) \<Rightarrow> TopLevelMembers option \<Rightarrow> string \<Rightarrow> nat \<Rightarrow>
     ((string \<times> 'v) list \<times> TopLevelMembers option) parsed" where
  "ParseObjectMembers parseValue members s n =
     (let s1 = SkipWhitespace (snd (Consume_char (CHR ''{'') s)) in
      case Consume_char (CHR ''}'') s1 of (closed, r) \<Rightarrow>
        if closed then POk ([], members) r n
        else ParseObjectMembers_loop parseValue (Suc (length s1)) members [] s1 n)"

text \<open>The recursion through \<^verbatim>\<open>ParseValue\<close> ends at the maximum depth.\<close>

primrec ParseValue :: "'d FloatLib \<Rightarrow> nat \<Rightarrow> nat \<Rightarrow> string \<Rightarrow> nat \<Rightarrow> 'd JsonValue parsed" where
  "ParseValue fl 0 = (\<lambda>depth s n. PFuel)"
| "ParseValue fl (Suc k) = (\<lambda>depth s n.
     if depth > MaximumJsonNestingDepth then PFail InvalidFormat
     else if s = [] then PFail InvalidFormat
     else if n = 0 then PFail TooLarge
     else if hd s = CHR ''n'' then
       (case ParseLiteral ''null'' s of None \<Rightarrow> PFail InvalidFormat | Some r \<Rightarrow> POk JNull r (n - 1))
     else if hd s = CHR ''t'' then
       (case ParseLiteral ''true'' s of None \<Rightarrow> PFail InvalidFormat | Some r \<Rightarrow> POk (JBool True) r (n - 1))
     else if hd s = CHR ''f'' then
       (case ParseLiteral ''false'' s of None \<Rightarrow> PFail InvalidFormat | Some r \<Rightarrow> POk (JBool False) r (n - 1))
     else if hd s = CHR 0x22 then
       (case ParseString s of None \<Rightarrow> PFail InvalidFormat | Some (str, r) \<Rightarrow> POk (JString str) r (n - 1))
     else if hd s = CHR ''['' then
       pbind (ParseArray (ParseValue fl k (depth + 1)) s (n - 1)) (\<lambda>vs. POk (JArray vs))
     else if hd s = CHR ''{'' then
       pbind (ParseObjectMembers (ParseValue fl k (depth + 1)) None s (n - 1)) (\<lambda>(m, _). POk (JObject m))
     else if hd s = CHR ''-'' \<or> (CHR ''0'' \<le> hd s \<and> hd s \<le> CHR ''9'') then
       (case ParseNumber fl s of None \<Rightarrow> PFail InvalidFormat | Some (num, r) \<Rightarrow> POk (JNumber num) r (n - 1))
     else PFail InvalidFormat)"

declare ParseValue.simps [simp del] ParseArray_loop.simps [simp del]
  ParseObjectMembers_loop.simps [simp del]

definition BeginDocument :: "string \<Rightarrow> string" where
  "BeginDocument s = SkipWhitespace (SkipByteOrderMark s)"

definition EndDocument :: "'a \<Rightarrow> string \<Rightarrow> nat \<Rightarrow> 'a parsed" where
  "EndDocument v s n = (if SkipWhitespace s \<noteq> [] then PFail InvalidFormat else POk v [] n)"

definition ParseDocument :: "'d FloatLib \<Rightarrow> nat \<Rightarrow> string \<Rightarrow> nat \<Rightarrow> 'd JsonValue parsed" where
  "ParseDocument fl fuel s n = pbind (ParseValue fl fuel 0 (BeginDocument s) n) EndDocument"

record 'd ParsedEnvelopeDocument =
  pd_members :: "(string \<times> 'd JsonValue) list"
  pd_isObject :: bool
  pd_hasBody :: bool
  pd_rawBodySize :: nat

definition ParseEnvelopeDocument ::
    "'d FloatLib \<Rightarrow> nat \<Rightarrow> string \<Rightarrow> nat \<Rightarrow> 'd ParsedEnvelopeDocument parsed" where
  "ParseEnvelopeDocument fl fuel txt n =
     (let s = BeginDocument txt in
      if s \<noteq> [] \<and> hd s = CHR ''{'' then
        pbind (ParseObjectMembers (ParseValue fl fuel 1) (Some \<lparr>tl_hasBody = False, tl_rawBodySize = 0\<rparr>) s n)
          (\<lambda>(m, members). EndDocument
             \<lparr>pd_members = m, pd_isObject = True, pd_hasBody = tl_hasBody (the members),
              pd_rawBodySize = tl_rawBodySize (the members)\<rparr>)
      else
        pbind (ParseValue fl fuel 0 s n) (\<lambda>_. EndDocument
             \<lparr>pd_members = [], pd_isObject = False, pd_hasBody = False, pd_rawBodySize = 0\<rparr>))"

text \<open>\<^verbatim>\<open>ParseText\<close>, for either parse function. The fuel covers every depth that is not refused.\<close>

definition parse_fuel :: nat where
  "parse_fuel = MaximumJsonNestingDepth + 2"

definition ParseText :: "(nat \<Rightarrow> string \<Rightarrow> nat \<Rightarrow> 'a parsed) \<Rightarrow> string \<Rightarrow> nat \<Rightarrow> 'a result option" where
  "ParseText parse s maxValues =
     (if \<not> IsValidUtf8 s then Some (Inl InvalidFormat)
      else case parse parse_fuel s maxValues of
        POk v _ _ \<Rightarrow> Some (Inr v)
      | PFail e \<Rightarrow> Some (Inl e)
      | PFuel \<Rightarrow> None)"

definition JsonValue_Parse :: "'d FloatLib \<Rightarrow> string \<Rightarrow> nat \<Rightarrow> 'd JsonValue result option" where
  "JsonValue_Parse fl s maxValues = ParseText (ParseDocument fl) s maxValues"

definition JsonValue_ParseBytes :: "'d FloatLib \<Rightarrow> byte list \<Rightarrow> nat \<Rightarrow> 'd JsonValue result option" where
  "JsonValue_ParseBytes fl bytes maxValues = ParseText (ParseDocument fl) (chars_of bytes) maxValues"

definition Detail_ParseEnvelopeDocument ::
    "'d FloatLib \<Rightarrow> byte list \<Rightarrow> nat \<Rightarrow> 'd ParsedEnvelopeDocument result option" where
  "Detail_ParseEnvelopeDocument fl bytes maxValues =
     ParseText (ParseEnvelopeDocument fl) (chars_of bytes) maxValues"

section \<open>The serialiser\<close>

definition HexDigits :: string where
  "HexDigits = ''0123456789abcdef''"

definition escape_char :: "char \<Rightarrow> string" where
  "escape_char c =
     (let raw = uchar c in
      if raw = 0x22 then [CHR 0x5C, CHR 0x22]
      else if raw = 0x5C then [CHR 0x5C, CHR 0x5C]
      else if raw = 0x08 then [CHR 0x5C, CHR ''b'']
      else if raw = 0x0C then [CHR 0x5C, CHR ''f'']
      else if raw = 0x0A then [CHR 0x5C, CHR ''n'']
      else if raw = 0x0D then [CHR 0x5C, CHR ''r'']
      else if raw = 0x09 then [CHR 0x5C, CHR ''t'']
      else if raw < 0x20 then
        [CHR 0x5C, CHR ''u'', CHR ''0'', CHR ''0'', HexDigits ! (drop_bit 4 raw), HexDigits ! (raw AND 0x0F)]
      else [c])"

definition DumpEscapedString :: "string \<Rightarrow> string" where
  "DumpEscapedString value = [CHR 0x22] @ concat (map escape_char value) @ [CHR 0x22]"

text \<open>\<^verbatim>\<open>std::to_chars\<close> of an integer: a minus sign for a negative one.\<close>

definition to_chars_int :: "int \<Rightarrow> string" where
  "to_chars_int i = (if i < 0 then CHR ''-'' # to_chars_nat (nat (- i)) else to_chars_nat (nat i))"

definition DumpNumber :: "'d FloatLib \<Rightarrow> 'd Number \<Rightarrow> string result" where
  "DumpNumber fl n =
     (case n of
        NInt64 i \<Rightarrow> Inr (to_chars_int (sint i))
      | NUInt64 u \<Rightarrow> Inr (to_chars_int (uint u))
      | NDouble d \<Rightarrow>
          if \<not> fl_isfinite fl d then Inl InvalidArgument
          else case fl_to_chars fl d of
                 None \<Rightarrow> Inl PlatformError
               | Some formatted \<Rightarrow>
                   Inr (formatted @ (if has_fraction_or_exponent formatted then [] else ''.0'')))"

lemma size_sort_key: "size_list f (sort_key g xs) = size_list f xs"
proof -
  have "size_list f (insort_key g x ys) = Suc (f x + size_list f ys)" for x ys
    by (induction ys) auto
  then show ?thesis by (induction xs) simp_all
qed

text \<open>
  \<^verbatim>\<open>DumpValue\<close> with its two loops; the text appended on success. The flag of a loop is \<^verbatim>\<open>first\<close>.
\<close>

function (sequential) DumpValue :: "'d FloatLib \<Rightarrow> 'd JsonValue \<Rightarrow> nat \<Rightarrow> string result"
  and DumpElements :: "'d FloatLib \<Rightarrow> 'd JsonValue list \<Rightarrow> nat \<Rightarrow> bool \<Rightarrow> string result"
  and DumpMembers :: "'d FloatLib \<Rightarrow> (string \<times> 'd JsonValue) list \<Rightarrow> nat \<Rightarrow> bool \<Rightarrow> string result"
where
  "DumpValue fl v depth =
     (if depth > MaximumJsonNestingDepth then Inl InvalidArgument
      else case v of
        JNull \<Rightarrow> Inr ''null''
      | JBool b \<Rightarrow> Inr (if b then ''true'' else ''false'')
      | JNumber n \<Rightarrow> DumpNumber fl n
      | JString str \<Rightarrow>
          if \<not> IsValidUtf8 str then Inl InvalidArgument else Inr (DumpEscapedString str)
      | JArray vs \<Rightarrow>
          (case DumpElements fl vs (depth + 1) True of
             Inl e \<Rightarrow> Inl e
           | Inr out \<Rightarrow> Inr (''['' @ out @ '']''))
      | JObject m \<Rightarrow>
          if \<not> list_all (\<lambda>(k, _). IsValidUtf8 k) m then Inl InvalidArgument
          else (case DumpMembers fl (sort_key fst m) (depth + 1) True of
                  Inl e \<Rightarrow> Inl e
                | Inr out \<Rightarrow> Inr (''{'' @ out @ ''}'')))"
| "DumpElements fl [] depth first = Inr []"
| "DumpElements fl (v # vs) depth first =
     (case DumpValue fl v depth of
        Inl e \<Rightarrow> Inl e
      | Inr out \<Rightarrow>
          (case DumpElements fl vs depth False of
             Inl e \<Rightarrow> Inl e
           | Inr rest \<Rightarrow> Inr ((if first then [] else '', '') @ out @ rest)))"
| "DumpMembers fl [] depth first = Inr []"
| "DumpMembers fl ((k, v) # m) depth first =
     (case DumpValue fl v depth of
        Inl e \<Rightarrow> Inl e
      | Inr out \<Rightarrow>
          (case DumpMembers fl m depth False of
             Inl e \<Rightarrow> Inl e
           | Inr rest \<Rightarrow>
               Inr ((if first then [] else '', '') @ DumpEscapedString k @ '': '' @ out @ rest)))"
  by pat_completeness auto
termination
  by (relation "measure (\<lambda>x. case x of
        Inl (fl, v, depth) \<Rightarrow> 2 * size v
      | Inr (Inl (fl, vs, depth, first)) \<Rightarrow> 2 * size_list size vs + 1
      | Inr (Inr (fl, m, depth, first)) \<Rightarrow> 2 * size_list (size_prod (\<lambda>x. 0) size) m + 1)")
    (auto simp: size_sort_key)

declare DumpValue.simps [simp del]

definition DumpJsonAtDepth :: "'d FloatLib \<Rightarrow> 'd JsonValue \<Rightarrow> nat \<Rightarrow> string result" where
  "DumpJsonAtDepth fl v depth = DumpValue fl v depth"

definition JsonValue_Dump :: "'d FloatLib \<Rightarrow> 'd JsonValue \<Rightarrow> string result" where
  "JsonValue_Dump fl v = DumpJsonAtDepth fl v 0"

end
