(* ===== verification/JsonProps.thy ===== *)
theory JsonProps
  imports Json
begin

text \<open>
  Correctness of the JSON component: the parser always returns, everything it accepts is a
  well-formed value, and parsing what was dumped gives the value back.
\<close>

section \<open>The parser always returns\<close>

text \<open>A parser makes progress when it never runs out of fuel and consumes a non-empty prefix.\<close>

definition progress :: "string \<Rightarrow> nat \<Rightarrow> 'a parsed \<Rightarrow> bool" where
  "progress s n r \<longleftrightarrow>
     (case r of POk v s' n' \<Rightarrow> length s' < length s \<and> n' \<le> n | PFail e \<Rightarrow> True | PFuel \<Rightarrow> False)"

lemma progress_simps [simp]:
  "progress s n (POk v s' n') \<longleftrightarrow> length s' < length s \<and> n' \<le> n"
  "progress s n (PFail e)" "\<not> progress s n PFuel"
  by (simp_all add: progress_def)

lemma pbind_simps [simp]:
  "pbind (POk a s n) f = f a s n" "pbind (PFail e) f = PFail e" "pbind PFuel f = PFuel"
  by (simp_all add: pbind_def)

lemma progress_bind:
  assumes "progress s n r" "\<And>a s' n'. r = POk a s' n' \<Longrightarrow> length s' < length s \<Longrightarrow> n' \<le> n \<Longrightarrow> progress s n (f a s' n')"
  shows "progress s n (pbind r f)"
  using assms by (cases r) auto

lemma progress_mono: "progress s n r \<Longrightarrow> length s \<le> length s1 \<Longrightarrow> n \<le> n1 \<Longrightarrow> progress s1 n1 r"
  by (cases r) auto

lemma SkipWhitespace_length: "length (SkipWhitespace s) \<le> length s"
  by (induction s) auto

lemma Consume_char_length:
  "Consume_char c s = (b, r) \<Longrightarrow> length r + (if b then 1 else 0) = length s"
  by (cases s) (auto simp: Consume_char_def split: if_splits)

lemma ParseString_loop_Nil [simp]: "ParseString_loop acc [] = None"
  by (subst ParseString_loop.simps) simp

lemma ParseString_loop_end: "ParseString_loop acc (CHR 0x22 # r) = Some (acc, r)"
  by (subst ParseString_loop.simps) simp

lemma ParseString_loop_plain:
  "c \<noteq> CHR 0x22 \<Longrightarrow> 0x20 \<le> uchar c \<Longrightarrow> c \<noteq> CHR 0x5C \<Longrightarrow>
   ParseString_loop acc (c # r) = ParseString_loop (acc @ [c]) r"
  by (subst ParseString_loop.simps) simp

lemma ParseString_loop_escape:
  "simple_escape e = Some x \<Longrightarrow>
   ParseString_loop acc (CHR 0x5C # e # r) = ParseString_loop (acc @ [x]) r"
  by (subst ParseString_loop.simps) simp

lemma ParseString_loop_unicode:
  "unicode_escape r = Some (cp, r') \<Longrightarrow>
   ParseString_loop acc (CHR 0x5C # CHR ''u'' # r) = ParseString_loop (acc @ AppendUtf8 cp) r'"
  by (subst ParseString_loop.simps) (simp add: simple_escape_def)

lemmas ParseString_loop_step =
  ParseString_loop_end ParseString_loop_plain ParseString_loop_escape ParseString_loop_unicode

lemma ParseString_loop_cases:
  assumes "ParseString_loop acc s = Some (v, r)"
  obtains (finish) "s = CHR 0x22 # r" "v = acc"
  | (plain) c cs where "s = c # cs" "c \<noteq> CHR 0x22" "0x20 \<le> uchar c" "c \<noteq> CHR 0x5C"
      "ParseString_loop (acc @ [c]) cs = Some (v, r)"
  | (escape) e x cs where "s = CHR 0x5C # e # cs" "simple_escape e = Some x"
      "ParseString_loop (acc @ [x]) cs = Some (v, r)"
  | (unicode) cs cp cs' where "s = CHR 0x5C # CHR ''u'' # cs" "unicode_escape cs = Some (cp, cs')"
      "ParseString_loop (acc @ AppendUtf8 cp) cs' = Some (v, r)"
proof (cases s)
  case Nil
  then show ?thesis using assms by simp
next
  case (Cons c cs)
  show ?thesis
  proof (cases "c = CHR 0x5C")
    case False
    then show ?thesis
      using assms finish plain unfolding Cons by (subst (asm) ParseString_loop.simps) (simp split: if_splits)
  next
    case True
    show ?thesis
    proof (cases cs)
      case Nil
      then show ?thesis using assms unfolding Cons True by (subst (asm) ParseString_loop.simps) simp
    next
      case (Cons e cs')
      then show ?thesis
        using assms escape unicode unfolding \<open>s = c # cs\<close> True Cons
        by (subst (asm) ParseString_loop.simps) (simp split: if_splits option.splits prod.splits)
    qed
  qed
qed

lemma ParseString_loop_length: "ParseString_loop acc s = Some (v, r) \<Longrightarrow> length r < length s"
proof (induction "length s" arbitrary: acc s rule: less_induct)
  case less
  show ?case
    using less.prems
  proof (cases rule: ParseString_loop_cases)
    case (unicode cs cp cs')
    then show ?thesis
      using less.hyps [OF _ unicode(3)] unicode_escape_length [OF unicode(2)] by simp
  next
    case (plain c cs)
    then show ?thesis using less.hyps [OF _ plain(5)] by simp
  next
    case (escape e x cs)
    then show ?thesis using less.hyps [OF _ escape(3)] by simp
  qed simp
qed

lemma ParseString_length: "ParseString s = Some (v, r) \<Longrightarrow> length r < length s"
  by (auto simp: ParseString_def Consume_char_def split: if_splits dest: ParseString_loop_length)

lemma scan_lengths:
  "scan_integer s = Some (t, r) \<Longrightarrow> length r < length s"
  "scan_fraction s = Some (t, r) \<Longrightarrow> length r \<le> length s"
  "scan_exponent s = Some (t, r) \<Longrightarrow> length r \<le> length s"
proof -
  have dw: "length (dropWhile isdigit xs) \<le> length xs" for xs by (simp add: length_dropWhile_le)
  have dc: "isdigit (hd xs) \<Longrightarrow> xs \<noteq> [] \<Longrightarrow> length (dropWhile isdigit xs) < length xs" for xs
    using dw [of "tl xs"] by (cases xs) (auto simp: less_Suc_eq_le)
  show "scan_integer s = Some (t, r) \<Longrightarrow> length r < length s"
    using dc [of s] order_trans [of "CHR ''0''" "CHR ''1''" "hd s"]
    by (auto simp: scan_integer_def Consume_char_def isdigit_def not_less less_eq_char_def
        split: if_splits bool.splits)
  show "scan_fraction s = Some (t, r) \<Longrightarrow> length r \<le> length s"
    using dw [of "tl s"] by (auto simp: scan_fraction_def Consume_char_def split: if_splits bool.splits)
  show "scan_exponent s = Some (t, r) \<Longrightarrow> length r \<le> length s"
    using dw [of "tl s"] dw [of "tl (tl s)"]
    by (auto simp: scan_exponent_def Let_def split: if_splits)
qed

lemma scan_number_length: "scan_number s = Some (t, r) \<Longrightarrow> length r < length s"
  by (auto simp: scan_number_def split: prod.splits option.splits if_splits
      dest!: scan_lengths Consume_char_length)

lemma ParseNumber_length: "ParseNumber fl s = Some (v, r) \<Longrightarrow> length r < length s"
  by (auto simp: ParseNumber_def Let_def split: option.splits if_splits dest: scan_number_length)

lemma ParseArray_loop_progress:
  assumes "\<And>s n. progress s n (parseValue s n)"
  shows "length s < k \<Longrightarrow> progress s n (ParseArray_loop parseValue k acc s n)"
proof (induction k arbitrary: acc s n)
  case (Suc k)
  show ?case unfolding ParseArray_loop.simps
  proof (rule progress_bind [OF assms])
    fix v and s1 :: string and n1
    assume s1: "length s1 < length s" and n1: "n1 \<le> n"
    note sp = SkipWhitespace_length [of s1]
    obtain b1 r1 b2 r2 where c: "Consume_char CHR '']'' (SkipWhitespace s1) = (b1, r1)"
        "Consume_char CHR '','' (SkipWhitespace s1) = (b2, r2)" by fastforce
    have "length (SkipWhitespace r2) < length s"
      using Consume_char_length [OF c(2)] SkipWhitespace_length [of r2] sp s1 by simp
    then have "progress s n (ParseArray_loop parseValue k (acc @ [v]) (SkipWhitespace r2) n1)"
      using Suc.prems n1 by (intro progress_mono [OF Suc.IH]) auto
    then show "progress s n (let s2 = SkipWhitespace s1 in
       case Consume_char CHR '']'' s2 of (closed, r) \<Rightarrow>
         if closed then POk (acc @ [v]) r n1
         else case Consume_char CHR '','' s2 of (comma, r') \<Rightarrow>
           if \<not> comma then PFail InvalidFormat
           else ParseArray_loop parseValue k (acc @ [v]) (SkipWhitespace r') n1)"
      using c Consume_char_length [OF c(1)] sp s1 n1 by (simp add: Let_def)
  qed
qed simp

lemma ParseArray_progress:
  assumes "\<And>s n. progress s n (parseValue s n)" "s \<noteq> []" "hd s = CHR ''[''"
  shows "progress s n (ParseArray parseValue s n)"
proof -
  define s1 where "s1 = SkipWhitespace (tl s)"
  have len: "length s1 < length s" using SkipWhitespace_length [of "tl s"] assms(2) by (cases s) (auto simp: s1_def)
  have start: "snd (Consume_char CHR ''['' s) = tl s" using assms by (simp add: Consume_char_def)
  obtain closed r where c: "Consume_char CHR '']'' s1 = (closed, r)" by fastforce
  have eq: "ParseArray parseValue s n = (if closed then POk [] r n else ParseArray_loop parseValue (Suc (length s1)) [] s1 n)"
    unfolding ParseArray_def start s1_def [symmetric] Let_def c by simp
  have "progress s n (ParseArray_loop parseValue (Suc (length s1)) [] s1 n)"
    by (rule progress_mono [OF ParseArray_loop_progress [OF assms(1) lessI]]) (use len in simp_all)
  then show ?thesis unfolding eq using len Consume_char_length [OF c] by simp
qed

lemma ParseObjectMembers_loop_progress:
  assumes "\<And>s n. progress s n (parseValue s n)"
  shows "length s < k \<Longrightarrow> progress s n (ParseObjectMembers_loop parseValue k mem acc s n)"
proof (induction k arbitrary: mem acc s n)
  case (Suc k)
  show ?case
  proof (cases "ParseString s")
    case None
    then show ?thesis by (simp add: ParseObjectMembers_loop.simps)
  next
    case (Some p)
    obtain key s1 where p: "p = (key, s1)" by fastforce
    obtain colon s2 where c: "Consume_char CHR '':'' (SkipWhitespace s1) = (colon, s2)" by fastforce
    define s3 where "s3 = SkipWhitespace s2"
    have len: "length s3 < length s"
      using ParseString_length [of s key s1] Some p SkipWhitespace_length [of s1]
        Consume_char_length [OF c] SkipWhitespace_length [of s2] by (simp add: s3_def split: if_splits)
    have body: "progress s n (pbind (parseValue s3 n) (\<lambda>v s4 n1.
         let members' = (if mem \<noteq> None \<and> key = ''body''
                     then Some \<lparr>tl_hasBody = True, tl_rawBodySize = length s3 - length s4\<rparr> else mem)
         in case emplace key v acc of (result', new) \<Rightarrow>
           if \<not> new then PFail InvalidFormat
           else
             let s5 = SkipWhitespace s4 in
             case Consume_char (CHR ''}'') s5 of (closed, r) \<Rightarrow>
               if closed then POk (result', members') r n1
               else case Consume_char (CHR '','') s5 of (comma, r') \<Rightarrow>
                 if \<not> comma then PFail InvalidFormat
                 else ParseObjectMembers_loop parseValue k members' result' (SkipWhitespace r') n1))"
      (is "progress s n (pbind _ ?f)")
    proof (rule progress_bind [OF progress_mono [OF assms [of s3 n]]])
      fix v and s4 :: string and n1
      assume s4: "length s4 < length s" and n1: "n1 \<le> n"
      note sp = SkipWhitespace_length [of s4]
      obtain b1 r1 b2 r2 where c: "Consume_char CHR ''}'' (SkipWhitespace s4) = (b1, r1)"
          "Consume_char CHR '','' (SkipWhitespace s4) = (b2, r2)" by fastforce
      have "length (SkipWhitespace r2) < length s"
        using Consume_char_length [OF c(2)] SkipWhitespace_length [of r2] sp s4 by simp
      then have "progress s n (ParseObjectMembers_loop parseValue k m' a' (SkipWhitespace r2) n1)" for m' a'
        using Suc.prems n1 by (intro progress_mono [OF Suc.IH]) auto
      then show "progress s n (?f v s4 n1)"
        using c Consume_char_length [OF c(1)] sp s4 n1 by (simp add: Let_def split: prod.splits)
    qed (use len in auto)
    then show ?thesis
      using Some p c by (simp add: ParseObjectMembers_loop.simps s3_def [symmetric] Let_def)
  qed
qed simp

lemma ParseObjectMembers_progress:
  assumes "\<And>s n. progress s n (parseValue s n)" "s \<noteq> []" "hd s = CHR ''{''"
  shows "progress s n (ParseObjectMembers parseValue mem s n)"
proof -
  define s1 where "s1 = SkipWhitespace (tl s)"
  have len: "length s1 < length s" using SkipWhitespace_length [of "tl s"] assms(2) by (cases s) (auto simp: s1_def)
  have start: "snd (Consume_char CHR ''{'' s) = tl s" using assms by (simp add: Consume_char_def)
  obtain closed r where c: "Consume_char CHR ''}'' s1 = (closed, r)" by fastforce
  have eq: "ParseObjectMembers parseValue mem s n = (if closed then POk ([], mem) r n else ParseObjectMembers_loop parseValue (Suc (length s1)) mem [] s1 n)"
    unfolding ParseObjectMembers_def start s1_def [symmetric] Let_def c by simp
  have "progress s n (ParseObjectMembers_loop parseValue (Suc (length s1)) mem [] s1 n)"
    by (rule progress_mono [OF ParseObjectMembers_loop_progress [OF assms(1) lessI]]) (use len in simp_all)
  then show ?thesis unfolding eq using len Consume_char_length [OF c] by simp
qed

lemma ParseLiteral_length: "ParseLiteral l s = Some r \<Longrightarrow> l \<noteq> [] \<Longrightarrow> length r < length s"
  by (cases l; cases s) (auto simp: ParseLiteral_def split: if_splits)

lemma ParseValue_unfold:
  assumes "depth \<le> MaximumJsonNestingDepth" "s \<noteq> []" "n \<noteq> 0"
  obtains (fail) e where "ParseValue fl (Suc k) depth s n = PFail e"
  | (literal) v l r where "(v, l) \<in> {(JNull, ''null''), (JBool True, ''true''), (JBool False, ''false'')}"
      "ParseLiteral l s = Some r" "ParseValue fl (Suc k) depth s n = POk v r (n - 1)"
  | (string) str r where "ParseString s = Some (str, r)" "ParseValue fl (Suc k) depth s n = POk (JString str) r (n - 1)"
  | (array) "hd s = CHR ''[''" "ParseValue fl (Suc k) depth s n =
      pbind (ParseArray (ParseValue fl k (depth + 1)) s (n - 1)) (\<lambda>vs. POk (JArray vs))"
  | (object) "hd s = CHR ''{''" "ParseValue fl (Suc k) depth s n =
      pbind (ParseObjectMembers (ParseValue fl k (depth + 1)) None s (n - 1)) (\<lambda>(m, _). POk (JObject m))"
  | (number) num r where "ParseNumber fl s = Some (num, r)" "ParseValue fl (Suc k) depth s n = POk (JNumber num) r (n - 1)"
proof -
  note eq = ParseValue.simps(2) [of fl k]
  have start: "\<not> MaximumJsonNestingDepth < depth" using assms by simp
  consider "hd s = CHR ''n''" | "hd s = CHR ''t''" | "hd s = CHR ''f''" | "hd s = CHR 0x22" | "hd s = CHR ''[''"
    | "hd s = CHR ''{''" | "hd s \<notin> {CHR ''n'', CHR ''t'', CHR ''f'', CHR 0x22, CHR ''['', CHR ''{''}" by auto
  then show ?thesis
  proof cases
    case 1
    show ?thesis
    proof (cases "ParseLiteral ''null'' s")
      case None
      then show ?thesis using fail 1 assms start by (simp add: eq)
    next
      case (Some r)
      then show ?thesis using literal [of JNull "''null''" r] 1 assms start by (simp add: eq)
    qed
  next
    case 2
    show ?thesis
    proof (cases "ParseLiteral ''true'' s")
      case None
      then show ?thesis using fail 2 assms start by (simp add: eq)
    next
      case (Some r)
      then show ?thesis using literal [of "JBool True" "''true''" r] 2 assms start by (simp add: eq)
    qed
  next
    case 3
    show ?thesis
    proof (cases "ParseLiteral ''false'' s")
      case None
      then show ?thesis using fail 3 assms start by (simp add: eq)
    next
      case (Some r)
      then show ?thesis using literal [of "JBool False" "''false''" r] 3 assms start by (simp add: eq)
    qed
  next
    case 4
    then show ?thesis using fail string assms start by (cases "ParseString s") (auto simp: eq)
  next
    case 5
    then show ?thesis using array assms start by (simp add: eq)
  next
    case 6
    then show ?thesis using object assms start by (simp add: eq)
  next
    case 7
    then show ?thesis
      using fail number assms start
      by (cases "hd s = CHR ''-'' \<or> CHR ''0'' \<le> hd s \<and> hd s \<le> CHR ''9''"; cases "ParseNumber fl s")
        (auto simp: eq)
  qed
qed

lemma ParseValue_progress:
  "0 < k \<Longrightarrow> MaximumJsonNestingDepth + 1 < k + depth \<Longrightarrow> progress s n (ParseValue fl k depth s n)"
proof (induction k arbitrary: depth s n)
  case (Suc k)
  show ?case
  proof (cases "depth \<le> MaximumJsonNestingDepth \<and> s \<noteq> [] \<and> n \<noteq> 0")
    case False
    then show ?thesis by (auto simp: ParseValue.simps)
  next
    case True
    then have IH: "progress s' n' (ParseValue fl k (depth + 1) s' n')" for s' n'
      using Suc by simp
    have le: "n - 1 \<le> n" by simp
    from True have "depth \<le> MaximumJsonNestingDepth" "s \<noteq> []" "n \<noteq> 0" by auto
    then show ?thesis
    proof (cases rule: ParseValue_unfold [where fl = fl and k = k])
      case (literal v l r)
      then show ?thesis using ParseLiteral_length [OF literal(2)] by auto
    next
      case (string str r)
      then show ?thesis using ParseString_length by simp
    next
      case array
      show ?thesis unfolding array(2)
        by (rule progress_bind [OF progress_mono [OF ParseArray_progress [OF IH _ array(1)] _ le]])
          (use True in simp_all)
    next
      case object
      show ?thesis unfolding object(2)
        by (rule progress_bind [OF progress_mono [OF ParseObjectMembers_progress [OF IH _ object(1)] _ le]])
          (use True in auto)
    next
      case (number num r)
      then show ?thesis using ParseNumber_length by simp
    qed simp
  qed
qed simp

lemma pbind_no_fuel: "pbind r f = PFuel \<longleftrightarrow> r = PFuel \<or> (\<exists>a t n. r = POk a t n \<and> f a t n = PFuel)"
  by (cases r) auto

lemma EndDocument_no_fuel [simp]: "EndDocument v t n \<noteq> PFuel"
  by (simp add: EndDocument_def)

text \<open>
  C8. The JSON parser terminates on every input: whatever the bytes, the value limit and the number
  library, both entry points return a value or an error within the depth of recursion that the
  nesting limit allows and the loop steps that the text allows.
\<close>

theorem JsonParser_total:
  "JsonValue_Parse fl s maxValues \<noteq> None \<and> Detail_ParseEnvelopeDocument fl bytes maxValues \<noteq> None"
proof -
  have value0: "progress t n (ParseValue fl parse_fuel 0 t n)" for t n
    by (rule ParseValue_progress) (simp_all add: parse_fuel_def)
  have value1: "progress t n (ParseValue fl parse_fuel 1 t n)" for t n
    by (rule ParseValue_progress) (simp_all add: parse_fuel_def)
  have members: "t \<noteq> [] \<Longrightarrow> hd t = CHR ''{'' \<Longrightarrow> ParseObjectMembers (ParseValue fl parse_fuel 1) m t n \<noteq> PFuel" for m t n
    using ParseObjectMembers_progress [of "ParseValue fl parse_fuel 1", OF value1, of t n m] by auto
  have doc: "ParseDocument fl parse_fuel t n \<noteq> PFuel" for t n
    unfolding ParseDocument_def using value0 [of "BeginDocument t" n] by (auto simp: pbind_no_fuel)
  have env: "ParseEnvelopeDocument fl parse_fuel t n \<noteq> PFuel" for t n
  proof -
    have "ParseValue fl parse_fuel 0 (BeginDocument t) n \<noteq> PFuel"
      using value0 [of "BeginDocument t" n] by auto
    then show ?thesis
      unfolding ParseEnvelopeDocument_def Let_def using members
      by (auto simp: pbind_no_fuel simp del: One_nat_def)
  qed
  show ?thesis
    using doc env
    by (auto simp: JsonValue_Parse_def Detail_ParseEnvelopeDocument_def ParseText_def split: parsed.splits)
qed

section \<open>Strings\<close>

lemma hex_roundtrip: "raw < 16 \<Longrightarrow> hex_digit (HexDigits ! raw) = Some raw"
proof -
  have "\<forall>i \<in> set [0..<16]. hex_digit (HexDigits ! i) = Some i" by code_simp
  then show "raw < 16 \<Longrightarrow> ?thesis" by simp
qed

lemma unicode_escape_low:
  assumes "raw < 0x20"
  shows "unicode_escape (CHR ''0'' # CHR ''0'' # HexDigits ! (drop_bit 4 raw) # HexDigits ! (raw AND 0x0F) # r) =
    Some (raw, r)"
proof -
  have a: "drop_bit 4 raw = raw div 16" "raw AND 0x0F = raw mod 16" by (simp_all add: drop_bit_eq_div bit_nat)
  have z: "hex_digit (CHR ''0'') = Some 0" by (simp add: hex_digit_def less_eq_char_def)
  have "push_bit 4 (raw div 16) OR (raw mod 16) = raw"
    using or_disjoint_nat [of "raw mod 16" 4 "raw div 16"] by simp
  then have "ParseHex4 (CHR ''0'' # CHR ''0'' # HexDigits ! (drop_bit 4 raw) # HexDigits ! (raw AND 0x0F) # r) =
      Some (raw, r)"
    using assms z hex_roundtrip [of "raw div 16"] hex_roundtrip [of "raw mod 16"]
    by (simp add: ParseHex4_def a)
  then show ?thesis using assms by (simp add: unicode_escape_def)
qed

lemma ParseString_loop_escape_char:
  "ParseString_loop acc (escape_char c @ r) = ParseString_loop (acc @ [c]) r"
proof -
  consider (simple) x where "escape_char c = [CHR 0x5C, x]" "simple_escape x = Some c"
    | (low) "uchar c < 0x20" "escape_char c = [CHR 0x5C, CHR ''u'', CHR ''0'', CHR ''0'',
          HexDigits ! (drop_bit 4 (uchar c)), HexDigits ! (uchar c AND 0x0F)]"
    | (plain) "escape_char c = [c]" "c \<noteq> CHR 0x22" "0x20 \<le> uchar c" "c \<noteq> CHR 0x5C"
  proof -
    have eqs: "uchar c = 0x22 \<Longrightarrow> c = CHR 0x22" "uchar c = 0x5C \<Longrightarrow> c = CHR 0x5C" "uchar c = 8 \<Longrightarrow> c = CHR 0x08"
      "uchar c = 12 \<Longrightarrow> c = CHR 0x0C" "uchar c = 10 \<Longrightarrow> c = CHR 0x0A" "uchar c = 13 \<Longrightarrow> c = CHR 0x0D"
      "uchar c = 9 \<Longrightarrow> c = CHR 0x09"
      using uchar_eq_iff [of c "CHR 0x22"] uchar_eq_iff [of c "CHR 0x5C"] uchar_eq_iff [of c "CHR 0x08"]
        uchar_eq_iff [of c "CHR 0x0C"] uchar_eq_iff [of c "CHR 0x0A"] uchar_eq_iff [of c "CHR 0x0D"]
        uchar_eq_iff [of c "CHR 0x09"] by simp_all
    have named: "\<exists>x. escape_char c = [CHR 0x5C, x] \<and> simple_escape x = Some c"
      if "uchar c \<in> {0x22, 0x5C, 8, 12, 10, 13, 9}"
    proof -
      have "c \<in> {CHR 0x22, CHR 0x5C, CHR 0x08, CHR 0x0C, CHR 0x0A, CHR 0x0D, CHR 0x09}"
        using that eqs by auto
      then consider "c = CHR 0x22" | "c = CHR 0x5C" | "c = CHR 0x08" | "c = CHR 0x0C" | "c = CHR 0x0A" | "c = CHR 0x0D" | "c = CHR 0x09" by blast
      then show ?thesis
      proof cases
        case 1
        then show ?thesis by (intro exI [of _ "CHR 0x22"]) (simp add: escape_char_def simple_escape_def)
      next
        case 2
        then show ?thesis by (intro exI [of _ "CHR 0x5C"]) (simp add: escape_char_def simple_escape_def)
      next
        case 3
        then show ?thesis by (intro exI [of _ "CHR ''b''"]) (simp add: escape_char_def simple_escape_def)
      next
        case 4
        then show ?thesis by (intro exI [of _ "CHR ''f''"]) (simp add: escape_char_def simple_escape_def)
      next
        case 5
        then show ?thesis by (intro exI [of _ "CHR ''n''"]) (simp add: escape_char_def simple_escape_def)
      next
        case 6
        then show ?thesis by (intro exI [of _ "CHR ''r''"]) (simp add: escape_char_def simple_escape_def)
      next
        case 7
        then show ?thesis by (intro exI [of _ "CHR ''t''"]) (simp add: escape_char_def simple_escape_def)
      qed
    qed
    show ?thesis
    proof (cases "uchar c \<in> {0x22, 0x5C, 8, 12, 10, 13, 9}")
      case True
      then show ?thesis using named simple by blast
    next
      case False
      then have "c \<noteq> CHR 0x22" "c \<noteq> CHR 0x5C" by auto
      then show ?thesis
        using False low plain by (cases "uchar c < 0x20") (auto simp: escape_char_def Let_def)
    qed
  qed
  then show ?thesis
  proof cases
    case low
    then show ?thesis
      using ParseString_loop_unicode [OF unicode_escape_low [OF low(1), of r], of acc] by (simp add: AppendUtf8_def)
  qed (simp_all add: ParseString_loop_step)
qed

lemma ParseString_Dump: "ParseString (DumpEscapedString str @ r) = Some (str, r)"
proof -
  have "ParseString_loop acc (concat (map escape_char str) @ CHR 0x22 # r) = Some (acc @ str, r)" for acc
    by (induction str arbitrary: acc) (simp_all add: ParseString_loop_end ParseString_loop_escape_char)
  then show ?thesis by (simp add: ParseString_def Consume_char_def DumpEscapedString_def)
qed

section \<open>Numbers\<close>

text \<open>The grammar of a JSON number token, and what may follow one.\<close>

definition frac_part :: "string \<Rightarrow> bool" where
  "frac_part fp \<longleftrightarrow> fp = [] \<or> (\<exists>ds. fp = CHR ''.'' # ds \<and> ds \<noteq> [] \<and> list_all isdigit ds)"

definition exp_part :: "string \<Rightarrow> bool" where
  "exp_part ep \<longleftrightarrow> ep = [] \<or> (\<exists>c sign ds. ep = c # sign @ ds \<and> (c = CHR ''e'' \<or> c = CHR ''E'') \<and>
     (sign = [] \<or> sign = ''+'' \<or> sign = ''-'') \<and> ds \<noteq> [] \<and> list_all isdigit ds)"

definition number_token :: "string \<Rightarrow> bool" where
  "number_token t \<longleftrightarrow> (\<exists>neg ip fp ep. t = (if neg then ''-'' else []) @ ip @ fp @ ep \<and>
     int_part ip \<and> frac_part fp \<and> exp_part ep)"

definition delim :: "string \<Rightarrow> bool" where
  "delim r \<longleftrightarrow> r = [] \<or> \<not> isdigit (hd r) \<and> hd r \<notin> set ''.eE''"

lemma isdigit_neq:
  "isdigit c \<Longrightarrow> c \<noteq> CHR ''-'' \<and> c \<noteq> CHR ''+'' \<and> c \<noteq> CHR ''.'' \<and> c \<noteq> CHR ''e'' \<and> c \<noteq> CHR ''E''"
  by (auto simp: isdigit_def less_eq_char_def)

lemma digits_span:
  "list_all isdigit ds \<Longrightarrow> r = [] \<or> \<not> isdigit (hd r) \<Longrightarrow>
   takeWhile isdigit (ds @ r) = ds \<and> dropWhile isdigit (ds @ r) = r"
  by (induction ds) (auto simp: takeWhile_eq_Nil_iff dropWhile_eq_self_iff)

lemma scan_integer_part:
  assumes "int_part ip" "r = [] \<or> \<not> isdigit (hd r)"
  shows "scan_integer (ip @ r) = Some (ip, r)"
proof (cases "hd ip = CHR ''0''")
  case True
  then show ?thesis using assms by (auto simp: scan_integer_def Consume_char_def int_part_def)
next
  case False
  obtain c cs where ip: "ip = c # cs" using assms(1) by (cases ip) (auto simp: int_part_def)
  have "isdigit c" "c \<noteq> CHR ''0''" using assms(1) ip False by (auto simp: int_part_def)
  moreover from this have "\<not> c < CHR ''1''" "\<not> c > CHR ''9''"
    using uchar_eq_iff [of c "CHR ''0''"] by (auto simp: isdigit_uchar less_char_def)
  ultimately show ?thesis
    using assms ip digits_span [of ip r] by (auto simp: scan_integer_def Consume_char_def int_part_def)
qed

lemma scan_fraction_part:
  assumes "frac_part fp" "r = [] \<or> \<not> isdigit (hd r) \<and> hd r \<noteq> CHR ''.''"
  shows "scan_fraction (fp @ r) = Some (fp, r)"
proof (cases fp)
  case Nil
  then show ?thesis using assms by (auto simp: scan_fraction_def Consume_char_def)
next
  case (Cons c ds)
  then have "c = CHR ''.''" "ds \<noteq> []" "list_all isdigit ds" using assms(1) by (auto simp: frac_part_def)
  then show ?thesis
    using Cons assms(2) digits_span [of ds r] by (cases ds) (auto simp: scan_fraction_def Consume_char_def)
qed

lemma scan_exponent_part:
  assumes "exp_part ep" "r = [] \<or> \<not> isdigit (hd r) \<and> hd r \<noteq> CHR ''e'' \<and> hd r \<noteq> CHR ''E''"
  shows "scan_exponent (ep @ r) = Some (ep, r)"
proof (cases "ep = []")
  case True
  then show ?thesis using assms by (auto simp: scan_exponent_def)
next
  case False
  then obtain c sign ds' where ep': "ep = c # sign @ ds'" "c = CHR ''e'' \<or> c = CHR ''E''"
      "sign = [] \<or> sign = ''+'' \<or> sign = ''-''" "ds' \<noteq> []" "list_all isdigit ds'"
    using assms(1) unfolding exp_part_def by blast
  then obtain d ds where "ds' = d # ds" by (cases ds') auto
  with ep' have ep: "ep = c # sign @ d # ds" "c = CHR ''e'' \<or> c = CHR ''E''"
      "sign = [] \<or> sign = ''+'' \<or> sign = ''-''" "list_all isdigit (d # ds)" by auto
  then show ?thesis
    using assms(2) digits_span [of "d # ds" r] isdigit_neq [of d]
    by (elim disjE) (simp_all add: scan_exponent_def Let_def)
qed

lemma part_heads:
  "frac_part fp \<Longrightarrow> exp_part ep \<Longrightarrow> delim r \<Longrightarrow> fp @ ep @ r = [] \<or> \<not> isdigit (hd (fp @ ep @ r))"
  "exp_part ep \<Longrightarrow> delim r \<Longrightarrow> ep @ r = [] \<or> \<not> isdigit (hd (ep @ r)) \<and> hd (ep @ r) \<noteq> CHR ''.''"
  using isdigit_neq [of "CHR ''e''"] isdigit_neq [of "CHR ''E''"] isdigit_neq [of "CHR ''.''"]
  by (auto simp: frac_part_def exp_part_def delim_def)

lemma scan_number_token:
  assumes "number_token t" "delim r"
  shows "scan_number (t @ r) = Some (t, r)"
proof -
  obtain neg ip fp ep where t: "t = (if neg then ''-'' else []) @ ip @ fp @ ep"
      "int_part ip" "frac_part fp" "exp_part ep" using assms(1) by (auto simp: number_token_def)
  have "scan_integer (ip @ fp @ ep @ r) = Some (ip, fp @ ep @ r)"
    using scan_integer_part t part_heads(1) assms(2) by blast
  moreover have "scan_fraction (fp @ ep @ r) = Some (fp, ep @ r)"
    using scan_fraction_part t part_heads(2) assms(2) by blast
  moreover have "scan_exponent (ep @ r) = Some (ep, r)"
    using assms(2) by (intro scan_exponent_part t) (auto simp: delim_def)
  moreover have "hd (ip @ x) \<noteq> CHR ''-'' \<and> ip @ x \<noteq> []" for x
    using t(2) isdigit_neq [of "hd ip"] by (cases ip) (auto simp: int_part_def)
  ultimately show ?thesis using t(1) by (cases neg) (simp_all add: scan_number_def Consume_char_def)
qed

lemma int_part_plain: "int_part ip \<Longrightarrow> \<not> has_fraction_or_exponent ip \<and> hd ip \<noteq> CHR ''-''"
  using isdigit_neq [of "hd ip"]
  by (cases ip) (auto simp: int_part_def has_fraction_or_exponent_def list_ex_iff list_all_iff dest: isdigit_neq)

lemma int_part_token: "int_part ip \<Longrightarrow> number_token ((if neg then ''-'' else []) @ ip)"
  unfolding number_token_def
  by (intro exI [of _ neg] exI [of _ ip] exI [of _ "[]"]) (simp add: frac_part_def exp_part_def)

lemma ParseNumber_uint:
  assumes "delim r"
  shows "ParseNumber fl (to_chars_int (uint u) @ r) = Some (NUInt64 u, r)"
proof -
  let ?t = "to_chars_nat (unat u)"
  have t: "to_chars_int (uint u) = ?t" by (simp add: to_chars_int_def)
  have spec: "decimal_value ?t = unat u" "int_part ?t" using to_chars_nat_spec by auto
  have "scan_number (?t @ r) = Some (?t, r)"
    using scan_number_token [OF int_part_token [of ?t False]] spec assms by simp
  moreover have "from_chars_uint64 ?t = Some u"
    using unat64_less [of u] spec by (simp add: from_chars_uint64_def)
  ultimately show ?thesis using int_part_plain [OF spec(2)] by (simp add: ParseNumber_def t)
qed

lemma ParseNumber_negative:
  assumes "delim r" "sint i < 0"
  shows "ParseNumber fl (to_chars_int (sint i) @ r) = Some (NInt64 i, r)"
proof -
  let ?n = "nat (- sint i)"
  let ?t = "to_chars_nat ?n"
  have t: "to_chars_int (sint i) = CHR ''-'' # ?t" using assms by (simp add: to_chars_int_def)
  have spec: "decimal_value ?t = ?n" "int_part ?t" "hd ?t \<noteq> CHR ''0''"
    using to_chars_nat_spec [of ?n] assms(2) by auto
  have "scan_number (CHR ''-'' # ?t @ r) = Some (CHR ''-'' # ?t, r)"
    using scan_number_token [OF int_part_token [of ?t True]] spec assms(1) by simp
  moreover have "?n \<le> 2 ^ 63" using sint_greater_eq [of i] by simp
  then have "from_chars_int64 (CHR ''-'' # ?t) = Some i"
    using spec assms(2) by (simp add: from_chars_int64_def)
  moreover have "CHR ''-'' # ?t \<noteq> ''-0''" using spec(3) by auto
  moreover have "\<not> has_fraction_or_exponent (CHR ''-'' # ?t)"
    using int_part_plain [OF spec(2)] by (simp add: has_fraction_or_exponent_def)
  ultimately show ?thesis by (simp add: ParseNumber_def t)
qed

text \<open>
  What the C++ library promises about doubles: the shortest text of a finite double is a number
  token, and \<^verbatim>\<open>std::from_chars\<close> recovers the value from it exactly; a fraction of zero appended
  to an integral text does not change the value.
\<close>

definition double_text :: "string \<Rightarrow> string" where
  "double_text t = t @ (if has_fraction_or_exponent t then [] else ''.0'')"

definition FloatLib_ok :: "'d FloatLib \<Rightarrow> bool" where
  "FloatLib_ok fl \<longleftrightarrow> (\<forall>d. fl_isfinite fl d \<longrightarrow>
     (\<exists>t. fl_to_chars fl d = Some t \<and> number_token t \<and>
        fl_from_chars fl (double_text t) =
          \<lparr>fc_consumed = length (double_text t), fc_ec = Errc_ok, fc_value = d\<rparr>))"

lemma double_text_token:
  assumes "number_token t"
  shows "number_token (double_text t) \<and> has_fraction_or_exponent (double_text t)"
proof (cases "has_fraction_or_exponent t")
  case True
  then show ?thesis using assms by (simp add: double_text_def)
next
  case False
  obtain neg ip fp ep where t: "t = (if neg then ''-'' else []) @ ip @ fp @ ep"
      "int_part ip" "frac_part fp" "exp_part ep" using assms by (auto simp: number_token_def)
  have "fp = []" "ep = []"
    using False t by (auto simp: has_fraction_or_exponent_def frac_part_def exp_part_def)
  then have dt: "double_text t = (if neg then ''-'' else []) @ ip @ ''.0'' @ []"
    using False t(1) by (simp add: double_text_def)
  have "frac_part ''.0''" by (simp add: frac_part_def isdigit_uchar)
  then have "number_token (double_text t)"
    unfolding dt number_token_def using t(2)
    by (intro exI [of _ neg] exI [of _ ip] exI [of _ "''.0''"] exI [of _ "[]"]) (simp add: exp_part_def)
  moreover have "has_fraction_or_exponent (double_text t)" unfolding dt by (simp add: has_fraction_or_exponent_def)
  ultimately show ?thesis by simp
qed

fun canon_number :: "'d Number \<Rightarrow> 'd Number" where
  "canon_number (NInt64 i) = (if sint i < 0 then NInt64 i else NUInt64 i)"
| "canon_number n = n"

lemma sint_nonneg_uint: "0 \<le> sint (i::64 word) \<Longrightarrow> sint i = uint i"
  using sint_less [of i] by (simp add: uint_sint take_bit_int_eq_self)

lemma ParseNumber_Dump:
  assumes "FloatLib_ok fl" "DumpNumber fl num = Inr out" "delim r"
  shows "ParseNumber fl (out @ r) = Some (canon_number num, r)"
proof (cases num)
  case (NInt64 i)
  show ?thesis
  proof (cases "sint i < 0")
    case True
    then show ?thesis using NInt64 assms ParseNumber_negative [OF assms(3) True] by (simp add: DumpNumber_def)
  next
    case False
    then show ?thesis
      using NInt64 assms ParseNumber_uint [OF assms(3), of fl i] sint_nonneg_uint [of i] by (simp add: DumpNumber_def)
  qed
next
  case (NUInt64 u)
  then show ?thesis using assms ParseNumber_uint [OF assms(3), of fl u] by (simp add: DumpNumber_def)
next
  case (NDouble d)
  then have fin: "fl_isfinite fl d" using assms(2) by (auto simp: DumpNumber_def split: if_splits)
  obtain t where t: "fl_to_chars fl d = Some t" "number_token t" "fl_from_chars fl (double_text t) =
      \<lparr>fc_consumed = length (double_text t), fc_ec = Errc_ok, fc_value = d\<rparr>"
    using assms(1) fin unfolding FloatLib_ok_def by blast
  have out: "out = double_text t"
    using assms(2) NDouble fin t(1) by (simp add: DumpNumber_def double_text_def)
  then show ?thesis
    using scan_number_token [of out r] double_text_token [OF t(2)] assms(3) t(3) NDouble fin
    by (simp add: ParseNumber_def Let_def)
qed

section \<open>Parsing what was dumped\<close>

text \<open>
  The value a parser makes of a dumped one: a signed integer that is not negative comes back as
  the unsigned one of the same value. Objects keep their members in strictly increasing order of
  keys, as \<^verbatim>\<open>std::map\<close> does; \<open>value_count\<close> is the number of values the parser counts.
\<close>

primrec canon :: "'d JsonValue \<Rightarrow> 'd JsonValue" where
  "canon JNull = JNull"
| "canon (JBool b) = JBool b"
| "canon (JNumber num) = JNumber (canon_number num)"
| "canon (JString str) = JString str"
| "canon (JArray vs) = JArray (map canon vs)"
| "canon (JObject m) = JObject (map (map_prod id canon) m)"

primrec value_count :: "'d JsonValue \<Rightarrow> nat" where
  "value_count JNull = 1"
| "value_count (JBool b) = 1"
| "value_count (JNumber num) = 1"
| "value_count (JString str) = 1"
| "value_count (JArray vs) = Suc (sum_list (map value_count vs))"
| "value_count (JObject m) = Suc (sum_list (map snd (map (map_prod id value_count) m)))"

primrec keys_sorted :: "'d JsonValue \<Rightarrow> bool" where
  "keys_sorted JNull = True"
| "keys_sorted (JBool b) = True"
| "keys_sorted (JNumber num) = True"
| "keys_sorted (JString str) = True"
| "keys_sorted (JArray vs) = list_all id (map keys_sorted vs)"
| "keys_sorted (JObject m) = (sorted_wrt (<) (map fst m) \<and> list_all snd (map (map_prod id keys_sorted) m))"

text \<open>The first character of a dumped value.\<close>

definition value_head :: "char \<Rightarrow> bool" where
  "value_head c \<longleftrightarrow> c \<in> set ''ntf[{-'' \<or> c = CHR 0x22 \<or> isdigit c"

lemma value_head_props:
  "value_head c \<Longrightarrow> \<not> is_space c \<and> c \<noteq> CHR '']'' \<and> c \<noteq> CHR ''}'' \<and> uchar c < 128"
  by (auto simp: value_head_def is_space_def isdigit_uchar)

lemma number_token_head: "number_token t \<Longrightarrow> t \<noteq> [] \<and> (hd t = CHR ''-'' \<or> isdigit (hd t))"
proof -
  assume "number_token t"
  then obtain neg ip rest where "t = (if neg then ''-'' else []) @ ip @ rest" "int_part ip"
    by (auto simp: number_token_def)
  then show ?thesis by (cases neg; cases ip) (auto simp: int_part_def)
qed

lemma DumpNumber_token:
  assumes "FloatLib_ok fl" "DumpNumber fl num = Inr out"
  shows "number_token out"
proof (cases num)
  case (NDouble d)
  then show ?thesis
    using assms double_text_token by (force simp: DumpNumber_def FloatLib_ok_def double_text_def split: if_splits)
qed (use assms to_chars_nat_spec int_part_token [of _ True] int_part_token [of _ False] in
     \<open>auto simp: DumpNumber_def to_chars_int_def\<close>)

lemma Dump_head:
  assumes "FloatLib_ok fl" "DumpValue fl v depth = Inr out"
  shows "out \<noteq> [] \<and> value_head (hd out)"
  using assms number_token_head DumpNumber_token [OF assms(1)]
  by (subst (asm) DumpValue.simps)
    (auto simp: value_head_def DumpEscapedString_def split: if_splits JsonValue.splits sum.splits)

lemma SkipWhitespace_stop: "\<not> is_space c \<Longrightarrow> SkipWhitespace (c # s) = c # s"
  by simp

lemma SkipWhitespace_value:
  assumes "out \<noteq> []" "value_head (hd out)"
  shows "SkipWhitespace (out @ r) = out @ r" "SkipWhitespace (CHR '' '' # out @ r) = out @ r"
proof -
  obtain c cs where "out = c # cs" using assms(1) by (cases out) auto
  then show "SkipWhitespace (out @ r) = out @ r" using value_head_props assms(2) by auto
  then show "SkipWhitespace (CHR '' '' # out @ r) = out @ r" by (simp add: is_space_def)
qed

lemma delim_chars [simp]: "delim (CHR '','' # s)" "delim (CHR '']'' # s)" "delim (CHR ''}'' # s)" "delim []"
  by (simp_all add: delim_def isdigit_uchar)

lemma Consume_char_Cons: "Consume_char c (d # s) = (if d = c then (True, s) else (False, d # s))"
  by (auto simp: Consume_char_def)

lemma DumpElements_later:
  "DumpElements fl (v # vs) d False = map_sum id (\<lambda>out. '', '' @ out) (DumpElements fl (v # vs) d True)"
  by (simp split: sum.splits)

lemma DumpElements_Cons:
  assumes "DumpElements fl (v # vs) d True = Inr out"
  obtains (last) "vs = []" "DumpValue fl v d = Inr out"
  | (comma) out1 out2 w ws where "vs = w # ws" "DumpValue fl v d = Inr out1"
      "DumpElements fl vs d True = Inr out2" "out = out1 @ '', '' @ out2"
proof (cases vs)
  case Nil
  then show ?thesis using assms last by (auto split: sum.splits)
next
  case (Cons w ws)
  then show ?thesis
    using assms comma DumpElements_later [of fl w ws d]
    by (cases "DumpElements fl (w # ws) d True")
      (auto simp del: DumpElements.simps(2) simp: DumpElements.simps(2) [of fl v] split: sum.splits)
qed

definition value_parser :: "'d FloatLib \<Rightarrow> nat \<Rightarrow> (string \<Rightarrow> nat \<Rightarrow> 'd JsonValue parsed) \<Rightarrow> 'd JsonValue \<Rightarrow> bool" where
  "value_parser fl d pv v \<longleftrightarrow> (\<forall>out r n. DumpValue fl v d = Inr out \<longrightarrow> delim r \<longrightarrow> value_count v \<le> n \<longrightarrow>
     pv (out @ r) n = POk (canon v) r (n - value_count v))"

lemma value_parserD:
  "value_parser fl d pv v \<Longrightarrow> DumpValue fl v d = Inr out \<Longrightarrow> delim r \<Longrightarrow> value_count v \<le> n \<Longrightarrow>
   pv (out @ r) n = POk (canon v) r (n - value_count v)"
  by (simp add: value_parser_def)

lemma ParseArray_loop_Dump:
  assumes fl: "FloatLib_ok fl"
  shows "\<forall>v \<in> set vs. value_parser fl d pv v \<Longrightarrow> DumpElements fl vs d True = Inr out \<Longrightarrow> vs \<noteq> [] \<Longrightarrow>
    length vs \<le> j \<Longrightarrow> sum_list (map value_count vs) \<le> n \<Longrightarrow>
    ParseArray_loop pv j acc (out @ CHR '']'' # r) n =
      POk (acc @ map canon vs) r (n - sum_list (map value_count vs))"
proof (induction vs arbitrary: acc n j out)
  case (Cons v vs)
  obtain j' where j: "j = Suc j'" using Cons.prems(4) by (cases j) auto
  have pv: "value_parser fl d pv v" using Cons.prems(1) by simp
  show ?case
    using Cons.prems(2)
  proof (cases rule: DumpElements_Cons)
    case last
    then show ?thesis
      using value_parserD [OF pv last(2), of "CHR '']'' # r" n] Cons.prems(5)
      by (simp add: j ParseArray_loop.simps Let_def Consume_char_Cons is_space_def)
  next
    case (comma out1 out2 w ws)
    obtain x out2' where o2: "DumpValue fl w d = Inr x" "out2 = x @ out2'"
      using comma(1,3) by (auto split: sum.splits)
    have head: "out2 \<noteq> []" "value_head (hd out2)" using Dump_head [OF fl o2(1)] o2(2) by auto
    have "pv (out1 @ CHR '','' # CHR '' '' # out2 @ CHR '']'' # r) n =
        POk (canon v) (CHR '','' # CHR '' '' # out2 @ CHR '']'' # r) (n - value_count v)"
      using Cons.prems(5) by (intro value_parserD [OF pv comma(2)]) auto
    moreover have "ParseArray_loop pv j' (acc @ [canon v]) (out2 @ CHR '']'' # r) (n - value_count v) =
        POk ((acc @ [canon v]) @ map canon vs) r (n - value_count v - sum_list (map value_count vs))"
      using Cons.prems comma(1,3) j by (intro Cons.IH) auto
    ultimately show ?thesis
      using comma(4) SkipWhitespace_value(2) [OF head, of "CHR '']'' # r"]
      by (simp add: j ParseArray_loop.simps Let_def Consume_char_Cons is_space_def)
  qed
qed simp

text \<open>A key above all others is inserted at the end.\<close>

lemma emplace_greatest:
  "\<forall>p \<in> set m. fst p < k \<Longrightarrow> emplace k v m = (m @ [(k, v)], True)"
  by (induction m) (auto simp: not_less_iff_gr_or_eq)

lemma DumpMembers_later:
  "DumpMembers fl ((k, v) # m) d False = map_sum id (\<lambda>out. '', '' @ out) (DumpMembers fl ((k, v) # m) d True)"
  by (simp split: sum.splits)

lemma DumpMembers_Cons:
  assumes "DumpMembers fl ((k, v) # m) d True = Inr out"
  obtains (last) out1 where "m = []" "DumpValue fl v d = Inr out1"
      "out = DumpEscapedString k @ '': '' @ out1"
  | (comma) out1 out2 p ps where "m = p # ps" "DumpValue fl v d = Inr out1"
      "DumpMembers fl m d True = Inr out2" "out = DumpEscapedString k @ '': '' @ out1 @ '', '' @ out2"
proof (cases m)
  case Nil
  then show ?thesis using assms last by (auto split: sum.splits)
next
  case (Cons p ps)
  obtain k' v' where p: "p = (k', v')" by fastforce
  show ?thesis
    using assms comma Cons DumpMembers_later [of fl k' v' ps d] unfolding p
    by (cases "DumpMembers fl ((k', v') # ps) d True")
      (auto simp del: DumpMembers.simps(2) simp: DumpMembers.simps(2) [of fl k v] split: sum.splits)
qed

lemma escaped_head: "DumpEscapedString k @ r = CHR 0x22 # concat (map escape_char k) @ CHR 0x22 # r"
  by (simp add: DumpEscapedString_def)

text \<open>How the record of the \<^verbatim>\<open>body\<close> member evolves along the members of a dumped object.\<close>

definition track1 :: "'d FloatLib \<Rightarrow> nat \<Rightarrow> TopLevelMembers option \<Rightarrow> string \<Rightarrow> 'd JsonValue \<Rightarrow> TopLevelMembers option" where
  "track1 fl d mem k v = (if mem \<noteq> None \<and> k = ''body''
     then Some \<lparr>tl_hasBody = True, tl_rawBodySize = length (projr (DumpValue fl v d))\<rparr> else mem)"

fun track :: "'d FloatLib \<Rightarrow> nat \<Rightarrow> TopLevelMembers option \<Rightarrow> (string \<times> 'd JsonValue) list \<Rightarrow> TopLevelMembers option" where
  "track fl d mem [] = mem"
| "track fl d mem ((k, v) # m) = track fl d (track1 fl d mem k v) m"

lemma track_None [simp]: "track fl d None m = None"
  by (induction m) (auto simp: track1_def)

text \<open>One member of the object: the loop after its value, given the text that follows.\<close>

lemma ParseObjectMembers_loop_member:
  assumes pv: "value_parser fl d pv v" and dump: "DumpValue fl v d = Inr out1" and fl: "FloatLib_ok fl"
    and "delim t" "value_count v \<le> n" "\<forall>p \<in> set acc. fst p < k"
  shows "ParseObjectMembers_loop pv (Suc j) mem acc (DumpEscapedString k @ '': '' @ out1 @ t) n =
    (let s5 = SkipWhitespace t; n1 = n - value_count v; acc' = acc @ [(k, canon v)] in
     case Consume_char (CHR ''}'') s5 of (closed, r) \<Rightarrow>
       if closed then POk (acc', track1 fl d mem k v) r n1
       else case Consume_char (CHR '','') s5 of (comma, r') \<Rightarrow>
         if \<not> comma then PFail InvalidFormat
         else ParseObjectMembers_loop pv j (track1 fl d mem k v) acc' (SkipWhitespace r') n1)"
proof -
  let ?s = "DumpEscapedString k @ '': '' @ out1 @ t"
  have str: "ParseString ?s = Some (k, '': '' @ out1 @ t)" by (rule ParseString_Dump)
  have quote: "?s \<noteq> []" "hd ?s = CHR 0x22" by (simp_all add: DumpEscapedString_def)
  have sp: "SkipWhitespace (CHR '' '' # out1 @ t) = out1 @ t"
    using SkipWhitespace_value Dump_head [OF fl dump] by blast
  have val: "pv (out1 @ t) n = POk (canon v) t (n - value_count v)"
    using value_parserD [OF pv dump] assms by blast
  have size: "length (out1 @ t) - length t = length (projr (DumpValue fl v d))" using dump by simp
  show ?thesis
    unfolding ParseObjectMembers_loop.simps track1_def size [symmetric]
    using str quote sp val emplace_greatest [OF assms(6), of "canon v"]
    by (simp add: Let_def Consume_char_Cons is_space_def cong del: if_weak_cong)
qed

lemma ParseObjectMembers_loop_Dump:
  assumes fl: "FloatLib_ok fl"
  shows "\<forall>p \<in> set m. value_parser fl d pv (snd p) \<Longrightarrow> DumpMembers fl m d True = Inr out \<Longrightarrow> m \<noteq> [] \<Longrightarrow>
    length m \<le> j \<Longrightarrow> sum_list (map (\<lambda>p. value_count (snd p)) m) \<le> n \<Longrightarrow>
    sorted_wrt (<) (map fst (acc @ m)) \<Longrightarrow>
    ParseObjectMembers_loop pv j mem acc (out @ CHR ''}'' # r) n =
      POk (acc @ map (map_prod id canon) m, track fl d mem m) r (n - sum_list (map (\<lambda>p. value_count (snd p)) m))"
proof (induction m arbitrary: acc n j out mem)
  case (Cons p m)
  obtain k v where p: "p = (k, v)" by fastforce
  obtain j' where j: "j = Suc j'" using Cons.prems(4) by (cases j) auto
  have pv: "value_parser fl d pv v" using Cons.prems(1) p by simp
  have below: "\<forall>q \<in> set acc. fst q < k" using Cons.prems(6) p by (auto simp: sorted_wrt_append)
  have sum: "value_count v + sum_list (map (\<lambda>p. value_count (snd p)) m) \<le> n" using Cons.prems(5) p by simp
  note member = ParseObjectMembers_loop_member [OF pv _ fl _ _ below, of _ _ n j' mem]
  have "DumpMembers fl ((k, v) # m) d True = Inr out" using Cons.prems(2) p by simp
  then show ?case
  proof (cases rule: DumpMembers_Cons)
    case (last out1)
    then show ?thesis
      using member [OF last(2), of "CHR ''}'' # r"] sum
      by (simp add: j p Let_def Consume_char_Cons is_space_def)
  next
    case (comma out1 out2 q qs)
    obtain k' v' x where o2: "q = (k', v')" "out2 = DumpEscapedString k' @ x"
      using comma(1,3) by (cases q) (auto split: sum.splits)
    have sp: "SkipWhitespace (CHR '' '' # out2 @ CHR ''}'' # r) = out2 @ CHR ''}'' # r"
      by (simp add: o2(2) escaped_head is_space_def)
    have IH: "ParseObjectMembers_loop pv j' (track1 fl d mem k v) (acc @ [(k, canon v)]) (out2 @ CHR ''}'' # r) (n - value_count v) =
        POk ((acc @ [(k, canon v)]) @ map (map_prod id canon) m, track fl d (track1 fl d mem k v) m) r
          (n - value_count v - sum_list (map (\<lambda>p. value_count (snd p)) m))"
      using Cons.prems comma(1,3) j p sum by (intro Cons.IH) auto
    have "ParseObjectMembers_loop pv (Suc j') mem acc
        (DumpEscapedString k @ '': '' @ out1 @ CHR '','' # CHR '' '' # out2 @ CHR ''}'' # r) n =
      ParseObjectMembers_loop pv j' (track1 fl d mem k v) (acc @ [(k, canon v)]) (out2 @ CHR ''}'' # r) (n - value_count v)"
      using member [OF comma(2), of "CHR '','' # CHR '' '' # out2 @ CHR ''}'' # r"] sum sp
      by (simp add: Let_def Consume_char_Cons is_space_def)
    then show ?thesis using IH comma(4) by (simp add: j p id_def)
  qed
qed simp

lemma DumpElements_length:
  assumes "FloatLib_ok fl" "DumpElements fl vs d first = Inr out"
  shows "length vs \<le> length out"
  using assms(2)
proof (induction vs arbitrary: first out)
  case (Cons v vs)
  then obtain o1 o2 where o: "DumpValue fl v d = Inr o1" "DumpElements fl vs d False = Inr o2"
      "out = (if first then [] else '', '') @ o1 @ o2"
    by (auto split: sum.splits)
  then show ?case using Cons.IH [OF o(2)] Dump_head [OF assms(1) o(1)] by (cases o1) auto
qed simp

lemma DumpMembers_length:
  assumes "FloatLib_ok fl" "DumpMembers fl m d first = Inr out"
  shows "length m \<le> length out"
  using assms(2)
proof (induction m arbitrary: first out)
  case (Cons p m)
  obtain k v where "p = (k, v)" by fastforce
  with Cons.prems obtain o1 o2 where o: "DumpMembers fl m d False = Inr o2"
      "out = (if first then [] else '', '') @ DumpEscapedString k @ '': '' @ o1 @ o2"
    by (auto split: sum.splits)
  then show ?case using Cons.IH [OF o(1)] by (auto simp: DumpEscapedString_def)
qed simp

lemma DumpElements_nonempty:
  assumes "FloatLib_ok fl" "DumpElements fl (v # vs) d True = Inr out"
  shows "out \<noteq> [] \<and> value_head (hd out)"
proof -
  obtain o1 o2 where "DumpValue fl v d = Inr o1" "out = o1 @ o2" using assms(2) by (auto split: sum.splits)
  then show ?thesis using Dump_head [OF assms(1)] by auto
qed

lemma ParseArray_Dump:
  assumes "FloatLib_ok fl" "\<forall>v \<in> set vs. value_parser fl d pv v" "DumpElements fl vs d True = Inr out"
    "sum_list (map value_count vs) \<le> n"
  shows "ParseArray pv (''['' @ out @ CHR '']'' # r) n = POk (map canon vs) r (n - sum_list (map value_count vs))"
proof (cases vs)
  case Nil
  then show ?thesis using assms(3) by (simp add: ParseArray_def Consume_char_Cons is_space_def)
next
  case (Cons v ws)
  note head = DumpElements_nonempty [OF assms(1) assms(3) [unfolded Cons]]
  have sp: "SkipWhitespace (out @ CHR '']'' # r) = out @ CHR '']'' # r"
    using SkipWhitespace_value head by blast
  have "Consume_char CHR '']'' (out @ CHR '']'' # r) = (False, out @ CHR '']'' # r)"
    using head value_head_props [of "hd out"] by (cases out) (auto simp: Consume_char_Cons)
  then show ?thesis
    using sp ParseArray_loop_Dump [OF assms(1,2,3), of "Suc (length (out @ CHR '']'' # r))" n "[]" r]
      DumpElements_length [OF assms(1,3)] Cons assms(4)
    by (simp add: ParseArray_def Let_def Consume_char_Cons)
qed

lemma ParseObjectMembers_Dump:
  assumes "FloatLib_ok fl" "\<forall>p \<in> set m. value_parser fl d pv (snd p)" "DumpMembers fl m d True = Inr out"
    "sum_list (map (\<lambda>p. value_count (snd p)) m) \<le> n" "sorted_wrt (<) (map fst m)"
  shows "ParseObjectMembers pv mem (''{'' @ out @ CHR ''}'' # r) n =
    POk (map (map_prod id canon) m, track fl d mem m) r (n - sum_list (map (\<lambda>p. value_count (snd p)) m))"
proof (cases m)
  case Nil
  then show ?thesis using assms(3) by (simp add: ParseObjectMembers_def Consume_char_Cons is_space_def)
next
  case (Cons p ps)
  obtain k x where "out = DumpEscapedString k @ x"
    using assms(3) Cons by (cases p) (auto split: sum.splits)
  then have quoted: "SkipWhitespace (out @ CHR ''}'' # r) = out @ CHR ''}'' # r"
      "Consume_char CHR ''}'' (out @ CHR ''}'' # r) = (False, out @ CHR ''}'' # r)"
    by (simp_all add: escaped_head is_space_def Consume_char_Cons)
  then show ?thesis
    using ParseObjectMembers_loop_Dump [OF assms(1,2,3), of "Suc (length (out @ CHR ''}'' # r))" n "[]" mem r]
      DumpMembers_length [OF assms(1,3)] Cons assms(4,5)
    by (simp add: ParseObjectMembers_def Let_def Consume_char_Cons)
qed

lemma sorted_keys_sort: "sorted_wrt (<) (map fst m) \<Longrightarrow> sort_key fst m = (m :: (string \<times> 'v) list)"
  by (rule sort_key_id_if_sorted) (simp add: strict_sorted_imp_sorted)

lemma value_parserI:
  assumes "MaximumJsonNestingDepth + 1 < k + depth"
    and "\<And>k' out r n. k = Suc k' \<Longrightarrow> depth \<le> MaximumJsonNestingDepth \<Longrightarrow> DumpValue fl v depth = Inr out \<Longrightarrow>
      delim r \<Longrightarrow> value_count v \<le> n \<Longrightarrow>
      ParseValue fl (Suc k') depth (out @ r) n = POk (canon v) r (n - value_count v)"
  shows "value_parser fl depth (ParseValue fl k depth) v"
  unfolding value_parser_def
proof (intro allI impI)
  fix out r n
  assume dump: "DumpValue fl v depth = Inr out" and rn: "delim r" "value_count v \<le> n"
  then have d: "depth \<le> MaximumJsonNestingDepth" by (auto simp: DumpValue.simps split: if_splits)
  then obtain k' where "k = Suc k'" using assms(1) by (cases k) auto
  then show "ParseValue fl k depth (out @ r) n = POk (canon v) r (n - value_count v)"
    using assms(2) d dump rn by simp
qed

lemma ParseValue_Dump:
  assumes fl: "FloatLib_ok fl"
  shows "keys_sorted v \<Longrightarrow> MaximumJsonNestingDepth + 1 < k + depth \<Longrightarrow> value_parser fl depth (ParseValue fl k depth) v"
proof (induction v arbitrary: k depth)
  case (JArray vs)
  show ?case
  proof (rule value_parserI [OF JArray.prems(2)])
    fix k' out r n
    assume k: "k = Suc k'" and d: "depth \<le> MaximumJsonNestingDepth"
      and dump: "DumpValue fl (JArray vs) depth = Inr out" and n: "value_count (JArray vs) \<le> n"
    then obtain x where x: "DumpElements fl vs (depth + 1) True = Inr x" "out = ''['' @ x @ '']''"
      by (auto simp: DumpValue.simps split: if_splits sum.splits)
    have "\<forall>v \<in> set vs. value_parser fl (depth + 1) (ParseValue fl k' (depth + 1)) v"
      using JArray k by (auto simp: list_all_iff)
    from ParseArray_Dump [OF fl this x(1), of "n - 1" r] n
    show "ParseValue fl (Suc k') depth (out @ r) n = POk (canon (JArray vs)) r (n - value_count (JArray vs))"
      using x d by (simp add: ParseValue.simps)
  qed
next
  case (JObject m)
  show ?case
  proof (rule value_parserI [OF JObject.prems(2)])
    fix k' out r n
    assume k: "k = Suc k'" and d: "depth \<le> MaximumJsonNestingDepth"
      and dump: "DumpValue fl (JObject m) depth = Inr out" and n: "value_count (JObject m) \<le> n"
    have sorted: "sorted_wrt (<) (map fst m)" using JObject.prems by simp
    obtain x where x: "DumpMembers fl m (depth + 1) True = Inr x" "out = ''{'' @ x @ ''}''"
      using dump sorted_keys_sort [OF sorted] by (auto simp: DumpValue.simps split: if_splits sum.splits)
    have "\<forall>p \<in> set m. value_parser fl (depth + 1) (ParseValue fl k' (depth + 1)) (snd p)"
    proof
      fix p assume p: "p \<in> set m"
      then have "keys_sorted (snd p)" using JObject.prems(1) by (auto simp: list_all_iff)
      then show "value_parser fl (depth + 1) (ParseValue fl k' (depth + 1)) (snd p)"
        using JObject.IH [OF p, of "snd p" k' "depth + 1"] JObject.prems(2) k by (cases p) auto
    qed
    from ParseObjectMembers_Dump [OF fl this x(1), of "n - 1" None r] n sorted
    show "ParseValue fl (Suc k') depth (out @ r) n = POk (canon (JObject m)) r (n - value_count (JObject m))"
      using x d by (simp add: ParseValue.simps comp_def)
  qed
next
  case (JNumber num)
  show ?case
  proof (rule value_parserI [OF JNumber.prems(2)])
    fix k' out r n
    assume d: "depth \<le> MaximumJsonNestingDepth" and dump: "DumpValue fl (JNumber num) depth = Inr out"
      and r: "delim r" and n: "value_count (JNumber num) \<le> n"
    then have num: "DumpNumber fl num = Inr out" by (auto simp: DumpValue.simps)
    obtain c cs where out: "out = c # cs" "c = CHR ''-'' \<or> isdigit c"
      using number_token_head [OF DumpNumber_token [OF fl num]] by (cases out) auto
    have "c \<notin> {CHR ''n'', CHR ''t'', CHR ''f'', CHR 0x22, CHR ''['', CHR ''{''}"
      using out(2) by (auto simp: isdigit_uchar)
    then show "ParseValue fl (Suc k') depth (out @ r) n = POk (canon (JNumber num)) r (n - value_count (JNumber num))"
      using ParseNumber_Dump [OF fl num r] d out n by (auto simp: ParseValue.simps isdigit_def)
  qed
next
  case (JString str)
  show ?case
  proof (rule value_parserI [OF JString.prems(2)])
    fix k' out r n
    assume "depth \<le> MaximumJsonNestingDepth" "DumpValue fl (JString str) depth = Inr out"
      "value_count (JString str) \<le> n"
    moreover from this have "out = DumpEscapedString str" by (auto simp: DumpValue.simps split: if_splits)
    ultimately show "ParseValue fl (Suc k') depth (out @ r) n = POk (canon (JString str)) r (n - value_count (JString str))"
      using ParseString_Dump [of str r] by (simp add: ParseValue.simps escaped_head)
  qed
next
  case (JBool b)
  show ?case
  proof (rule value_parserI [OF JBool.prems(2)])
    fix k' out r n
    assume "depth \<le> MaximumJsonNestingDepth" "DumpValue fl (JBool b) depth = Inr out" "value_count (JBool b) \<le> n"
    moreover from this have "out = (if b then ''true'' else ''false'')" by (simp add: DumpValue.simps)
    ultimately show "ParseValue fl (Suc k') depth (out @ r) n = POk (canon (JBool b)) r (n - value_count (JBool b))"
      by (cases b) (simp_all add: ParseValue.simps ParseLiteral_def)
  qed
next
  case JNull
  show ?case
  proof (rule value_parserI [OF JNull.prems(2)])
    fix k' out r n
    assume "depth \<le> MaximumJsonNestingDepth" "DumpValue fl JNull depth = Inr out" "value_count (JNull :: 'a JsonValue) \<le> n"
    moreover from this have "out = ''null''" by (simp add: DumpValue.simps)
    ultimately show "ParseValue fl (Suc k') depth (out @ r) n = POk (canon JNull) r (n - value_count (JNull :: 'a JsonValue))"
      by (simp add: ParseValue.simps ParseLiteral_def)
  qed
qed

section \<open>Dumped text is valid UTF-8\<close>

lemma ascii_valid: "list_all (\<lambda>c. uchar c < 128) s \<Longrightarrow> IsValidUtf8 s"
  by (induction s) (auto simp: IsValidUtf8_ascii simp del: IsValidUtf8.simps(2))

lemma number_token_ascii: "number_token t \<Longrightarrow> list_all (\<lambda>c. uchar c < 128) t"
proof -
  have digits: "list_all isdigit ds \<Longrightarrow> list_all (\<lambda>c. uchar c < 128) ds" for ds
    by (auto simp: list_all_iff isdigit_uchar dest!: bspec)
  assume "number_token t"
  then show ?thesis using digits
    by (auto simp: number_token_def int_part_def frac_part_def exp_part_def)
qed

lemma escape_char_ascii: "uchar c < 128 \<Longrightarrow> list_all (\<lambda>c. uchar c < 128) (escape_char c)"
proof -
  have hex: "uchar (HexDigits ! i) < 128" if "i < 16" for i
    using hex_roundtrip [OF that]
    by (auto simp: hex_digit_def less_eq_char_def split: if_splits)
  assume "uchar c < 128"
  moreover have "uchar c < 32 \<Longrightarrow> uchar c div 16 < 16" "uchar c mod 16 < 16" by auto
  ultimately show ?thesis
    by (auto simp: escape_char_def Let_def hex drop_bit_eq_div bit_nat)
qed

lemma escaped_valid: "IsValidUtf8 str \<Longrightarrow> IsValidUtf8 (concat (map escape_char str))"
proof (induction str rule: valid_utf8_induct)
  case (ascii c s)
  then show ?case using IsValidUtf8_append [OF ascii_valid [OF escape_char_ascii [OF ascii(1)]]] by simp
next
  case (multi b s)
  have "escape_char c = [c]" if "128 \<le> uchar c" for c using that by (simp add: escape_char_def)
  then have "concat (map escape_char b) = b" using multi(1) by (induction b) auto
  then show ?case using multi IsValidUtf8_append [OF multi(2)] by simp
qed simp

lemma DumpEscapedString_valid: "IsValidUtf8 str \<Longrightarrow> IsValidUtf8 (DumpEscapedString str @ t) = IsValidUtf8 t"
proof -
  assume "IsValidUtf8 str"
  then have "IsValidUtf8 (DumpEscapedString str)"
    using IsValidUtf8_append [OF escaped_valid, of str "[CHR 0x22]"]
    by (simp add: DumpEscapedString_def IsValidUtf8_ascii del: IsValidUtf8.simps(2))
  then show ?thesis by (rule IsValidUtf8_append)
qed

lemma Dump_valid:
  assumes "FloatLib_ok fl"
  shows "DumpValue fl v d = Inr out \<Longrightarrow> IsValidUtf8 out"
    and "DumpElements fl vs d first = Inr out \<Longrightarrow> IsValidUtf8 out"
    and "list_all (\<lambda>(k, _). IsValidUtf8 k) m \<Longrightarrow> DumpMembers fl m d first = Inr out \<Longrightarrow> IsValidUtf8 out"
  using assms
proof (induction fl v d and fl vs d first and fl m d first arbitrary: out and out and out
    rule: DumpValue_DumpElements_DumpMembers.induct)
  case (1 fl v depth)
  have "list_all (\<lambda>(k, _). IsValidUtf8 k) (sort_key fst m) = list_all (\<lambda>(k, _). IsValidUtf8 k) m"
    for m :: "(string \<times> 'a JsonValue) list" by (simp add: list_all_iff)
  then show ?case
    using 1 ascii_valid [OF number_token_ascii [OF DumpNumber_token]] DumpEscapedString_valid [of _ "[]"]
    by (auto simp: DumpValue.simps [of fl v depth] IsValidUtf8_ascii IsValidUtf8_append ascii_valid
        simp del: IsValidUtf8.simps(2) split: if_splits JsonValue.splits sum.splits)
next
  case (3 fl v vs depth first)
  then show ?case
    by (auto simp: IsValidUtf8_ascii IsValidUtf8_append simp del: IsValidUtf8.simps(2) split: sum.splits)
next
  case (5 fl k v m depth first)
  then show ?case
    by (auto simp: IsValidUtf8_ascii IsValidUtf8_append DumpEscapedString_valid
        simp del: IsValidUtf8.simps(2) split: sum.splits)
qed simp_all

lemma BeginDocument_Dump:
  assumes "out \<noteq> []" "value_head (hd out)"
  shows "BeginDocument out = out"
proof -
  obtain c cs where out: "out = c # cs" using assms(1) by (cases out) auto
  have "uchar c < 128" "\<not> is_space c" using value_head_props [of c] assms(2) out by auto
  then show ?thesis using out by (auto simp: BeginDocument_def SkipByteOrderMark_def)
qed

lemma Parse_Dump:
  assumes "FloatLib_ok fl" "keys_sorted v" "JsonValue_Dump fl v = Inr out" "value_count v \<le> maxValues"
  shows "JsonValue_Parse fl out maxValues = Some (Inr (canon v))"
proof -
  have dump: "DumpValue fl v 0 = Inr out" using assms(3) by (simp add: JsonValue_Dump_def DumpJsonAtDepth_def)
  have "value_parser fl 0 (ParseValue fl parse_fuel 0) v"
    by (rule ParseValue_Dump [OF assms(1,2)]) (simp add: parse_fuel_def)
  from value_parserD [OF this dump, of "[]"] assms(4)
  have "ParseDocument fl parse_fuel out maxValues = POk (canon v) [] (maxValues - value_count v)"
    using BeginDocument_Dump Dump_head [OF assms(1) dump] by (simp add: ParseDocument_def EndDocument_def)
  then show ?thesis
    using Dump_valid(1) [OF assms(1) dump] by (simp add: JsonValue_Parse_def ParseText_def)
qed

text \<open>
  C9. Serialisation is faithful: a value whose objects are proper maps, once dumped, parses back to
  the same value (a non-negative signed integer as the unsigned one of the same value), provided
  the parser may create that many values. The number library is only assumed to print a finite
  double as a number token from which it can read the same double back.
\<close>

theorem Json_round_trip:
  assumes "FloatLib_ok fl" and "keys_sorted v" and "JsonValue_Dump fl v = Inr out"
    and "value_count v \<le> maxValues"
  shows "JsonValue_Parse fl out maxValues = Some (Inr (canon v))"
  using Parse_Dump assms .

text \<open>A library whose doubles are the integers, to instantiate the assumption.\<close>

definition int_lib :: "int FloatLib" where
  "int_lib =
     \<lparr>fl_from_chars = (\<lambda>t. \<lparr>fc_consumed = length t, fc_ec = Errc_ok,
        fc_value = (if hd t = CHR ''-'' then - int (decimal_value (takeWhile isdigit (tl t)))
                    else int (decimal_value (takeWhile isdigit t)))\<rparr>),
      fl_to_chars = (\<lambda>d. Some (to_chars_int d)), fl_isfinite = (\<lambda>d. True),
      fl_zero = 0, fl_negative_zero = 0, fl_of_int = id\<rparr>"

lemma int_lib_ok: "FloatLib_ok int_lib"
  unfolding FloatLib_ok_def
proof (intro allI impI exI conjI)
  fix d
  define ip where "ip = to_chars_nat (nat \<bar>d\<bar>)"
  have ip: "int_part ip" "decimal_value ip = nat \<bar>d\<bar>" "list_all isdigit ip" "ip \<noteq> []"
    using to_chars_nat_spec [of "nat \<bar>d\<bar>"] by (auto simp: ip_def int_part_def)
  have t: "to_chars_int d = (if d < 0 then ''-'' else []) @ ip" by (simp add: to_chars_int_def ip_def)
  show "fl_to_chars int_lib d = Some (to_chars_int d)" by (simp add: int_lib_def)
  show "number_token (to_chars_int d)" unfolding t by (rule int_part_token [OF ip(1)])
  have "\<not> has_fraction_or_exponent (to_chars_int d)"
    using int_part_plain [OF ip(1)] by (simp add: t has_fraction_or_exponent_def)
  moreover have "takeWhile isdigit (ip @ ''.0'') = ip" using digits_span [OF ip(3), of "''.0''"] by (simp add: isdigit_uchar)
  moreover have "hd (ip @ ''.0'') \<noteq> CHR ''-''" using int_part_plain [OF ip(1)] ip(4) by simp
  ultimately show "fl_from_chars int_lib (double_text (to_chars_int d)) =
      \<lparr>fc_consumed = length (double_text (to_chars_int d)), fc_ec = Errc_ok, fc_value = d\<rparr>"
    by (simp add: int_lib_def double_text_def t ip(2))
qed

theorem Json_round_trip_witness:
  "JsonValue_Parse int_lib (''[7, null, 3.0, {'' @ [CHR 0x22] @ ''a'' @ [CHR 0x22] @ '': true}]'') 9 = Some (Inr (JArray
     [JNumber (NUInt64 7), JNull, JNumber (NDouble 3), JObject [(''a'', JBool True)]]))"
proof -
  let ?v = "JArray [JNumber (NInt64 7), JNull, JNumber (NDouble 3), JObject [(''a'', JBool True)]]"
  have digits: "to_chars_nat 7 = ''7''" "to_chars_nat 3 = ''3''" by code_simp+
  have "JsonValue_Dump int_lib ?v = Inr (''[7, null, 3.0, {'' @ [CHR 0x22] @ ''a'' @ [CHR 0x22] @ '': true}]'')"
    by (simp add: JsonValue_Dump_def DumpJsonAtDepth_def DumpValue.simps MaximumJsonNestingDepth_def DumpNumber_def
        to_chars_int_def digits int_lib_def has_fraction_or_exponent_def DumpEscapedString_def
        escape_char_def IsValidUtf8_ascii del: IsValidUtf8.simps(2))
  from Json_round_trip [OF int_lib_ok _ this, of 9] show ?thesis by simp
qed

end
