(* ===== verification/JsonSound.thy ===== *)
theory JsonSound
  imports JsonProps
begin

text \<open>
  Soundness of the JSON parser: every value it makes of valid UTF-8 text is well formed (objects
  are proper maps, strings are valid UTF-8, the nesting is within the limit, no more values than
  allowed), so that it can be dumped again and parses back to itself.
\<close>

section \<open>Lexical soundness\<close>

lemma SkipWhitespace_valid: "IsValidUtf8 s \<Longrightarrow> IsValidUtf8 (SkipWhitespace s)"
proof (induction s)
  case (Cons c s)
  have "is_space c \<Longrightarrow> uchar c < 128" by (auto simp: is_space_def)
  then show ?case using Cons by (auto simp: IsValidUtf8_ascii simp del: IsValidUtf8.simps(2))
qed simp

lemma Consume_char_valid:
  "uchar c < 128 \<Longrightarrow> IsValidUtf8 s \<Longrightarrow> Consume_char c s = (b, r) \<Longrightarrow> IsValidUtf8 r"
  by (cases s) (auto simp: Consume_char_def IsValidUtf8_ascii simp del: IsValidUtf8.simps(2) split: if_splits)

lemma prefix_valid: "list_all (\<lambda>c. uchar c < 128) p \<Longrightarrow> IsValidUtf8 (p @ r) \<Longrightarrow> IsValidUtf8 r"
  using IsValidUtf8_append [OF ascii_valid, of p r] by simp

lemma ParseLiteral_valid:
  assumes "list_all (\<lambda>c. uchar c < 128) l" "IsValidUtf8 s" "ParseLiteral l s = Some r"
  shows "IsValidUtf8 r"
proof -
  have "take (length l) s = l" "r = drop (length l) s"
    using assms(3) by (auto simp: ParseLiteral_def split: if_splits)
  then have "s = l @ r" using append_take_drop_id [of "length l" s] by simp
  then show ?thesis using prefix_valid [OF assms(1)] assms(2) by simp
qed

lemma hex_digit_bounds: "hex_digit c = Some d \<Longrightarrow> d < 16 \<and> uchar c < 128"
  by (auto simp: hex_digit_def less_eq_char_def split: if_splits)

lemma hex_value_bounds:
  "hex_value v s = Some w \<Longrightarrow> v < 16 ^ k \<Longrightarrow> w < 16 ^ (k + length s) \<and> list_all (\<lambda>c. uchar c < 128) s"
proof (induction s arbitrary: v k)
  case (Cons c s)
  then obtain d where d: "hex_digit c = Some d" "hex_value (push_bit 4 v OR d) s = Some w"
    by (auto split: option.splits)
  note b = hex_digit_bounds [OF d(1)]
  have "push_bit 4 v OR d = v * 16 + d" using or_disjoint_nat [of d 4 v] b by simp
  moreover have "v * 16 + d < 16 ^ Suc k" using Cons.prems(2) b by simp
  ultimately show ?case using Cons.IH [OF d(2), of "Suc k"] b by simp
qed simp

lemma ParseHex4_sound:
  assumes "ParseHex4 s = Some (v, r)" "IsValidUtf8 s"
  shows "v < 65536 \<and> IsValidUtf8 r"
proof -
  have v: "hex_value 0 (take 4 s) = Some v" "r = drop 4 s" "4 \<le> length s"
    using assms(1) by (auto simp: ParseHex4_def split: if_splits option.splits)
  then have "v < 16 ^ 4 \<and> list_all (\<lambda>c. uchar c < 128) (take 4 s)"
    using hex_value_bounds [OF v(1), of 0] v(3) by (simp add: min_absorb2)
  then show ?thesis using prefix_valid [of "take 4 s" r] v(2) assms(2) by simp
qed

lemma unicode_escape_sound:
  assumes "unicode_escape s = Some (cp, r)" "IsValidUtf8 s"
  shows "scalar_value cp \<and> IsValidUtf8 r"
proof -
  obtain cp1 r1 where h: "ParseHex4 s = Some (cp1, r1)"
    using assms(1) by (auto simp: unicode_escape_def split: option.splits)
  note h1 = ParseHex4_sound [OF h assms(2)]
  show ?thesis
  proof (cases "cp1 \<ge> 0xD800 \<and> cp1 \<le> 0xDBFF")
    case False
    then show ?thesis using assms(1) h h1
      by (auto simp: unicode_escape_def scalar_value_def split: if_splits)
  next
    case True
    then obtain low where pair: "r1 ! 0 = CHR 0x5C" "r1 ! 1 = CHR ''u''" "2 \<le> length r1"
        "ParseHex4 (drop 2 r1) = Some (low, r)" "0xDC00 \<le> low" "low \<le> 0xDFFF"
        "cp = 0x10000 + push_bit 10 (cp1 - 0xD800) + (low - 0xDC00)"
      using assms(1) h by (auto simp: unicode_escape_def not_less split: if_splits option.splits)
    then obtain r2 where "r1 = CHR 0x5C # CHR ''u'' # r2" by (cases r1; cases "tl r1") auto
    then have "IsValidUtf8 (drop 2 r1)"
      using h1 by (simp add: IsValidUtf8_ascii del: IsValidUtf8.simps(2))
    then have "IsValidUtf8 r" using ParseHex4_sound [OF pair(4)] by simp
    then show ?thesis using pair True by (auto simp: scalar_value_def push_bit_eq_mult)
  qed
qed

lemma simple_escape_ascii: "simple_escape e = Some x \<Longrightarrow> uchar e < 128 \<and> uchar x < 128"
  by (auto simp: simple_escape_def split: if_splits)

lemma ParseString_loop_high:
  "\<forall>c \<in> set b. 128 \<le> uchar c \<Longrightarrow> ParseString_loop acc (b @ s) = ParseString_loop (acc @ b) s"
proof (induction b arbitrary: acc)
  case (Cons c b)
  have "c \<noteq> CHR 0x22" "c \<noteq> CHR 0x5C" "0x20 \<le> uchar c" using Cons.prems by auto
  then show ?case using Cons by (simp add: ParseString_loop_plain)
qed simp

lemma ParseString_loop_sound:
  "ParseString_loop acc s = Some (v, r) \<Longrightarrow> IsValidUtf8 s \<Longrightarrow> IsValidUtf8 r \<and> (\<exists>w. v = acc @ w \<and> IsValidUtf8 w)"
proof (induction "length s" arbitrary: acc s rule: less_induct)
  case less
  have step: "IsValidUtf8 r \<and> (\<exists>w. v = acc @ w \<and> IsValidUtf8 w)"
    if "ParseString_loop (acc @ p) s' = Some (v, r)" "length s' < length s" "IsValidUtf8 s'" "IsValidUtf8 p" for p s'
    using less.hyps [OF that(2,1,3)] IsValidUtf8_append [OF that(4)] by auto
  show ?case
    using less.prems(1)
  proof (cases rule: ParseString_loop_cases)
    case finish
    then show ?thesis using less.prems(2) by (simp add: IsValidUtf8_ascii del: IsValidUtf8.simps(2))
  next
    case (plain c cs)
    obtain cp s2 where cp: "s = AppendUtf8 cp @ s2" "scalar_value cp" "IsValidUtf8 s2"
      using IsValidUtf8_decode [of c cs] less.prems(2) plain(1) by metis
    have p: "IsValidUtf8 (AppendUtf8 cp)" using IsValidUtf8_encode [OF cp(2), of "[]"] by simp
    have "ParseString_loop (acc @ AppendUtf8 cp) s2 = Some (v, r)"
    proof (cases "cp < 128")
      case True
      then have "AppendUtf8 cp = [c]" "s2 = cs" using cp(1) plain(1) AppendUtf8_low [OF True] by auto
      then show ?thesis using plain(5) by simp
    next
      case False
      then show ?thesis using AppendUtf8_high [OF cp(2)] less.prems(1) cp(1) by (simp add: ParseString_loop_high)
    qed
    moreover have "length s2 < length s" using cp(1) AppendUtf8_nonempty [of cp] by (cases "AppendUtf8 cp") auto
    ultimately show ?thesis using cp(3) p by (intro step)
  next
    case (escape e x cs)
    then have "IsValidUtf8 cs" "IsValidUtf8 [x]"
      using less.prems(2) simple_escape_ascii [OF escape(2)]
      by (simp_all add: IsValidUtf8_ascii del: IsValidUtf8.simps(2))
    then show ?thesis using step [OF escape(3)] escape(1) by simp
  next
    case (unicode cs cp cs')
    then have "IsValidUtf8 cs" using less.prems(2) by (simp add: IsValidUtf8_ascii del: IsValidUtf8.simps(2))
    then have "scalar_value cp" "IsValidUtf8 cs'" using unicode_escape_sound [OF unicode(2)] by auto
    moreover from this have "IsValidUtf8 (AppendUtf8 cp)" using IsValidUtf8_encode [of cp "[]"] by simp
    ultimately show ?thesis
      using step [OF unicode(3)] unicode(1) unicode_escape_length [OF unicode(2)] by simp
  qed
qed

lemma ParseString_sound:
  assumes "ParseString s = Some (v, r)" "IsValidUtf8 s"
  shows "IsValidUtf8 v \<and> IsValidUtf8 r"
proof -
  obtain s' where s': "Consume_char CHR 0x22 s = (True, s')" "ParseString_loop [] s' = Some (v, r)"
    using assms(1) by (auto simp: ParseString_def split: prod.splits if_splits)
  have "IsValidUtf8 s'" by (rule Consume_char_valid [OF _ assms(2) s'(1)]) simp
  then show ?thesis using ParseString_loop_sound [OF s'(2)] by simp
qed

section \<open>Numbers\<close>

text \<open>The scanner accepts exactly number tokens.\<close>

lemma takeWhile_digits: "list_all isdigit (takeWhile isdigit s)"
  by (induction s) auto

lemma scan_integer_sound: "scan_integer s = Some (t, r) \<Longrightarrow> s = t @ r \<and> int_part t"
proof -
  assume scan: "scan_integer s = Some (t, r)"
  then obtain c cs where s: "s = c # cs" by (cases s) (auto simp: scan_integer_def Consume_char_def)
  show ?thesis
  proof (cases "c = CHR ''0''")
    case True
    then show ?thesis using scan s
      by (auto simp: scan_integer_def Consume_char_def int_part_def isdigit_uchar split: if_splits)
  next
    case False
    then have c: "\<not> c < CHR ''1''" "\<not> CHR ''9'' < c" "t = takeWhile isdigit s" "r = dropWhile isdigit s"
      using scan s by (auto simp: scan_integer_def Consume_char_def split: if_splits)
    then have "isdigit c" by (simp add: isdigit_uchar less_char_def)
    then show ?thesis using c(3,4) s False takeWhile_digits [of s] by (auto simp: int_part_def)
  qed
qed

lemma scan_fraction_sound: "scan_fraction s = Some (t, r) \<Longrightarrow> s = t @ r \<and> frac_part t"
proof -
  assume scan: "scan_fraction s = Some (t, r)"
  show ?thesis
  proof (cases "s \<noteq> [] \<and> hd s = CHR ''.''")
    case False
    then show ?thesis using scan by (auto simp: scan_fraction_def Consume_char_def frac_part_def)
  next
    case True
    then obtain cs where s: "s = CHR ''.'' # cs" by (cases s) auto
    then have "cs \<noteq> []" "isdigit (hd cs)" "t = CHR ''.'' # takeWhile isdigit cs" "r = dropWhile isdigit cs"
      using scan by (auto simp: scan_fraction_def Consume_char_def split: if_splits)
    then show ?thesis using s takeWhile_digits [of cs] by (cases cs) (auto simp: frac_part_def)
  qed
qed

lemma scan_exponent_sound: "scan_exponent s = Some (t, r) \<Longrightarrow> s = t @ r \<and> exp_part t"
proof -
  assume scan: "scan_exponent s = Some (t, r)"
  show ?thesis
  proof (cases "s \<noteq> [] \<and> (hd s = CHR ''e'' \<or> hd s = CHR ''E'')")
    case False
    then have "t = []" "r = s" using scan by (auto simp: scan_exponent_def)
    then show ?thesis by (simp add: exp_part_def)
  next
    case True
    then obtain c cs where s: "s = c # cs" "c = CHR ''e'' \<or> c = CHR ''E''" by (cases s) auto
    define signed where "signed = (cs \<noteq> [] \<and> (hd cs = CHR ''+'' \<or> hd cs = CHR ''-''))"
    define sign where "sign = (if signed then [hd cs] else [])"
    define ds where "ds = (if signed then tl cs else cs)"
    have cs: "cs = sign @ ds" by (auto simp: sign_def ds_def signed_def)
    have sg: "sign = [] \<or> sign = ''+'' \<or> sign = ''-''" by (auto simp: sign_def signed_def)
    have "ds \<noteq> [] \<and> isdigit (hd ds) \<and> t = c # sign @ takeWhile isdigit ds \<and> r = dropWhile isdigit ds"
      using scan s by (auto simp: scan_exponent_def Let_def sign_def ds_def signed_def split: if_splits)
    moreover from this have "takeWhile isdigit ds \<noteq> []" by (cases ds) auto
    ultimately show ?thesis unfolding exp_part_def using s cs sg takeWhile_digits [of ds] by auto
  qed
qed

lemma scan_number_sound:
  assumes "scan_number s = Some (t, r)"
  obtains neg ip fp ep where "s = t @ r" "t = (if neg then ''-'' else []) @ ip @ fp @ ep"
    "int_part ip" "frac_part fp" "exp_part ep"
proof -
  obtain neg s1 where c: "Consume_char CHR ''-'' s = (neg, s1)" by fastforce
  then have s: "s = (if neg then ''-'' else []) @ s1"
    by (cases s) (auto simp: Consume_char_def split: if_splits)
  obtain ip s2 fp s3 ep where p: "scan_integer s1 = Some (ip, s2)" "scan_fraction s2 = Some (fp, s3)"
      "scan_exponent s3 = Some (ep, r)" "t = (if neg then ''-'' else []) @ ip @ fp @ ep"
    using assms c by (auto simp: scan_number_def split: option.splits prod.splits)
  then show thesis
    using that [of neg ip fp ep] s scan_integer_sound [OF p(1)] scan_fraction_sound [OF p(2)]
      scan_exponent_sound [OF p(3)] by simp
qed

lemma decimal_value_positive:
  assumes "int_part ip" "ip \<noteq> ''0''"
  shows "0 < decimal_value ip"
proof -
  obtain c cs where ip: "ip = c # cs" "isdigit c" "c \<noteq> CHR ''0''" using assms by (cases ip) (auto simp: int_part_def)
  have mono: "0 < v \<Longrightarrow> 0 < foldl (\<lambda>v c. v * 10 + (uchar c - uchar CHR ''0'')) v ds" for v ds
    by (induction ds arbitrary: v) auto
  have "48 < uchar c" using ip uchar_eq_iff [of c "CHR ''0''"] by (auto simp: isdigit_uchar le_less)
  then show ?thesis using mono [of "uchar c - 48" cs] by (simp add: decimal_value_def ip(1))
qed

definition FloatLib_finite :: "'d FloatLib \<Rightarrow> bool" where
  "FloatLib_finite fl \<longleftrightarrow> fl_isfinite fl (fl_zero fl) \<and> fl_isfinite fl (fl_negative_zero fl)"

lemma negative_word:
  assumes "0 < n" "n \<le> 2 ^ 63"
  shows "sint (- word_of_nat n :: 64 word) < 0"
proof -
  have "sint (- word_of_nat n :: 64 word) = signed_take_bit 63 (- int n)"
    using signed_of_int [where 'b = 64 and 'a = int, of "- int n"] by simp
  also have "\<dots> = - int n" using assms by (intro signed_take_bit_int_eq_self) auto
  finally show ?thesis using assms by simp
qed

lemma ParseNumber_sound:
  assumes "ParseNumber fl s = Some (num, r)" "IsValidUtf8 s" "FloatLib_ok fl" "FloatLib_finite fl"
  shows "IsValidUtf8 r \<and> canon_number num = num \<and> (\<exists>out. DumpNumber fl num = Inr out)"
proof -
  obtain t where t: "scan_number s = Some (t, r)"
    using assms(1) by (auto simp: ParseNumber_def Let_def split: option.splits if_splits)
  obtain neg ip fp ep where p: "s = t @ r" "t = (if neg then ''-'' else []) @ ip @ fp @ ep"
      "int_part ip" "frac_part fp" "exp_part ep" using scan_number_sound [OF t] .
  then have "number_token t" unfolding number_token_def by blast
  then have valid: "IsValidUtf8 r" using prefix_valid [OF number_token_ascii] p(1) assms(2) by blast
  have double: "\<exists>out. DumpNumber fl (NDouble d) = Inr out" if "fl_isfinite fl d" for d
    using that assms(3) unfolding FloatLib_ok_def by (force simp: DumpNumber_def)
  show ?thesis
  proof (cases num)
    case (NInt64 i)
    then have i: "from_chars_int64 t = Some i" "t \<noteq> ''-0''" "hd t = CHR ''-''" "\<not> has_fraction_or_exponent t"
      using assms(1) t by (auto simp: ParseNumber_def Let_def split: if_splits option.splits)
    have "fp = []" "ep = []"
      using i(4) p by (auto simp: has_fraction_or_exponent_def frac_part_def exp_part_def)
    moreover have neg using i(3) p(2) int_part_plain [OF p(3)] p(3) by (cases neg) (auto simp: int_part_def)
    ultimately have "t = CHR ''-'' # ip" using p(2) by simp
    then have "0 < decimal_value ip" "decimal_value ip \<le> 2 ^ 63" "i = - word_of_nat (decimal_value ip)"
      using i decimal_value_positive [OF p(3)] by (auto simp: from_chars_int64_def Let_def split: if_splits)
    then have "sint i < 0" using negative_word by simp
    then show ?thesis using NInt64 valid by (simp add: DumpNumber_def)
  next
    case (NUInt64 u)
    then show ?thesis using valid by (simp add: DumpNumber_def)
  next
    case (NDouble d)
    then have "fl_isfinite fl d"
      using assms(1,4) t by (auto simp: ParseNumber_def Let_def FloatLib_finite_def split: if_splits option.splits)
    then show ?thesis using NDouble valid double by simp
  qed
qed

section \<open>Values\<close>

definition value_ok :: "'d FloatLib \<Rightarrow> nat \<Rightarrow> 'd JsonValue \<Rightarrow> bool" where
  "value_ok fl d v \<longleftrightarrow> keys_sorted v \<and> canon v = v \<and> (\<exists>out. DumpValue fl v d = Inr out)"

definition sound_parser :: "'d FloatLib \<Rightarrow> nat \<Rightarrow> (string \<Rightarrow> nat \<Rightarrow> 'd JsonValue parsed) \<Rightarrow> bool" where
  "sound_parser fl d pv \<longleftrightarrow> (\<forall>s n v s' n'. IsValidUtf8 s \<longrightarrow> pv s n = POk v s' n' \<longrightarrow>
     IsValidUtf8 s' \<and> value_ok fl d v \<and> n = n' + value_count v)"

lemma sound_parserD:
  "sound_parser fl d pv \<Longrightarrow> IsValidUtf8 s \<Longrightarrow> pv s n = POk v s' n' \<Longrightarrow>
   IsValidUtf8 s' \<and> value_ok fl d v \<and> n = n' + value_count v"
  unfolding sound_parser_def by blast

lemma pbind_POk: "pbind r f = POk v s n \<longleftrightarrow> (\<exists>a s1 n1. r = POk a s1 n1 \<and> f a s1 n1 = POk v s n)"
  by (cases r) auto

lemma ParseArray_loop_sound:
  assumes "sound_parser fl d pv"
  shows "ParseArray_loop pv k acc s n = POk vs s' n' \<Longrightarrow> IsValidUtf8 s \<Longrightarrow>
    IsValidUtf8 s' \<and> (\<exists>ws. vs = acc @ ws \<and> list_all (value_ok fl d) ws \<and> n = n' + sum_list (map value_count ws))"
proof (induction k arbitrary: acc s n)
  case 0
  then show ?case by (simp add: ParseArray_loop.simps)
next
  case (Suc k)
  obtain v s1 n1 where v: "pv s n = POk v s1 n1"
    using Suc.prems(1) by (auto simp: ParseArray_loop.simps pbind_POk)
  note sv = sound_parserD [OF assms Suc.prems(2) v]
  obtain b1 r1 b2 r2 where c: "Consume_char CHR '']'' (SkipWhitespace s1) = (b1, r1)"
      "Consume_char CHR '','' (SkipWhitespace s1) = (b2, r2)" by fastforce
  have valid: "IsValidUtf8 r1" "IsValidUtf8 (SkipWhitespace r2)"
    using Consume_char_valid [OF _ SkipWhitespace_valid c(1)] Consume_char_valid [OF _ SkipWhitespace_valid c(2)]
      SkipWhitespace_valid sv by auto
  show ?case
  proof (cases b1)
    case True
    then show ?thesis using Suc.prems(1) v c sv valid by (auto simp: ParseArray_loop.simps Let_def)
  next
    case False
    then have "ParseArray_loop pv k (acc @ [v]) (SkipWhitespace r2) n1 = POk vs s' n'"
      using Suc.prems(1) v c by (auto simp: ParseArray_loop.simps Let_def split: if_splits)
    then obtain ws where "IsValidUtf8 s'" "vs = (acc @ [v]) @ ws" "list_all (value_ok fl d) ws"
        "n1 = n' + sum_list (map value_count ws)" using Suc.IH valid(2) by blast
    then show ?thesis using sv by (auto intro!: exI [of _ "v # ws"])
  qed
qed

lemma ParseArray_sound:
  assumes "sound_parser fl d pv" "ParseArray pv s n = POk vs s' n'" "IsValidUtf8 s"
  shows "IsValidUtf8 s' \<and> list_all (value_ok fl d) vs \<and> n = n' + sum_list (map value_count vs)"
proof -
  define s1 where "s1 = SkipWhitespace (snd (Consume_char CHR ''['' s))"
  have v1: "IsValidUtf8 s1"
    using SkipWhitespace_valid [OF Consume_char_valid [OF _ assms(3) surjective_pairing, of "CHR ''[''"]]
    by (simp add: s1_def)
  obtain closed r where c: "Consume_char CHR '']'' s1 = (closed, r)" by fastforce
  have "IsValidUtf8 r" by (rule Consume_char_valid [OF _ v1 c]) simp
  moreover have "(if closed then POk [] r n else ParseArray_loop pv (Suc (length s1)) [] s1 n) = POk vs s' n'"
    using assms(2) c by (simp add: ParseArray_def s1_def [symmetric])
  ultimately show ?thesis
    using ParseArray_loop_sound [OF assms(1), of "Suc (length s1)" "[]" s1 n vs s' n'] v1
    by (auto split: if_splits)
qed

lemma emplace_sound:
  "sorted_wrt (<) (map fst m) \<Longrightarrow> emplace k v m = (m', True) \<Longrightarrow>
   sorted_wrt (<) (map fst m') \<and> set m' = insert (k, v) (set m) \<and>
   sum_list (map (\<lambda>p. f (snd p)) m') = (f v :: nat) + sum_list (map (\<lambda>p. f (snd p)) m)"
proof (induction m arbitrary: m')
  case (Cons p m)
  obtain k' v' where p: "p = (k', v')" by fastforce
  show ?case
  proof (cases "k < k'")
    case True
    then have "\<forall>x \<in> set m. k < fst x" using Cons.prems(1) p by (auto intro: less_trans [of k k'])
    then show ?thesis using True Cons.prems p by auto
  next
    case False
    then obtain m1 where m1: "emplace k v m = (m1, True)" "m' = (k', v') # m1" "k' < k"
      using Cons.prems(2) p by (auto split: if_splits prod.splits simp: not_less_iff_gr_or_eq)
    then show ?thesis using Cons.IH [OF _ m1(1)] Cons.prems(1) p by auto
  qed
qed simp

definition members_ok :: "'d FloatLib \<Rightarrow> nat \<Rightarrow> (string \<times> 'd JsonValue) list \<Rightarrow> bool" where
  "members_ok fl d m \<longleftrightarrow> sorted_wrt (<) (map fst m) \<and> (\<forall>p \<in> set m. IsValidUtf8 (fst p) \<and> value_ok fl d (snd p))"

abbreviation "members_count m \<equiv> sum_list (map (\<lambda>p. value_count (snd p)) m)"

lemma ParseObjectMembers_loop_unfold:
  assumes "ParseObjectMembers_loop pv (Suc k) mem acc s n = POk res s' n'"
  obtains key s1 s2 v s4 n1 acc' mem' where "ParseString s = Some (key, s1)"
    "Consume_char CHR '':'' (SkipWhitespace s1) = (True, s2)"
    "pv (SkipWhitespace s2) n = POk v s4 n1" "emplace key v acc = (acc', True)"
    "(\<exists>r. Consume_char CHR ''}'' (SkipWhitespace s4) = (True, r) \<and> POk (acc', mem') r n1 = POk res s' n') \<or>
     (\<exists>r. Consume_char CHR '','' (SkipWhitespace s4) = (True, r) \<and>
        ParseObjectMembers_loop pv k mem' acc' (SkipWhitespace r) n1 = POk res s' n')"
proof -
  obtain key s1 where str: "ParseString s = Some (key, s1)"
    using assms by (auto simp: ParseObjectMembers_loop.simps split: if_splits option.splits)
  obtain s2 where colon: "Consume_char CHR '':'' (SkipWhitespace s1) = (True, s2)"
    using assms str by (auto simp: ParseObjectMembers_loop.simps split: if_splits prod.splits)
  define mem' where "mem' = (\<lambda>s4 :: string. if mem \<noteq> None \<and> key = ''body''
    then Some \<lparr>tl_hasBody = True, tl_rawBodySize = length (SkipWhitespace s2) - length s4\<rparr> else mem)"
  have body: "pbind (pv (SkipWhitespace s2) n) (\<lambda>v s4 n1.
      case emplace key v acc of (result', new) \<Rightarrow>
        if \<not> new then PFail InvalidFormat
        else case Consume_char (CHR ''}'') (SkipWhitespace s4) of (closed, r) \<Rightarrow>
          if closed then POk (result', mem' s4) r n1
          else case Consume_char (CHR '','') (SkipWhitespace s4) of (comma, r') \<Rightarrow>
            if \<not> comma then PFail InvalidFormat
            else ParseObjectMembers_loop pv k (mem' s4) result' (SkipWhitespace r') n1) = POk res s' n'"
    using assms unfolding ParseObjectMembers_loop.simps Let_def mem'_def
    using str colon by (simp split: if_splits)
  then obtain v s4 n1 where v: "pv (SkipWhitespace s2) n = POk v s4 n1" by (auto simp: pbind_POk)
  obtain acc' new where e: "emplace key v acc = (acc', new)" by fastforce
  have new using body v e by (cases new) auto
  obtain b1 r1 b2 r2 where c: "Consume_char CHR ''}'' (SkipWhitespace s4) = (b1, r1)"
      "Consume_char CHR '','' (SkipWhitespace s4) = (b2, r2)" by fastforce
  show thesis
    using that [OF str colon v, of acc' "mem' s4"] body v e \<open>new\<close> c by (cases b1; cases b2) auto
qed

lemma ParseObjectMembers_loop_sound:
  assumes "sound_parser fl d pv"
  shows "ParseObjectMembers_loop pv k mem acc s n = POk (m, mem') s' n' \<Longrightarrow> IsValidUtf8 s \<Longrightarrow> members_ok fl d acc \<Longrightarrow>
    IsValidUtf8 s' \<and> members_ok fl d m \<and> n + members_count acc = n' + members_count m"
proof (induction k arbitrary: mem acc s n)
  case 0
  then show ?case by (simp add: ParseObjectMembers_loop.simps)
next
  case (Suc k)
  obtain key s1 s2 v s4 n1 acc' mm where st: "ParseString s = Some (key, s1)"
      "Consume_char CHR '':'' (SkipWhitespace s1) = (True, s2)"
      "pv (SkipWhitespace s2) n = POk v s4 n1" "emplace key v acc = (acc', True)"
    and fin: "(\<exists>r. Consume_char CHR ''}'' (SkipWhitespace s4) = (True, r) \<and> POk (acc', mm) r n1 = POk (m, mem') s' n') \<or>
     (\<exists>r. Consume_char CHR '','' (SkipWhitespace s4) = (True, r) \<and>
        ParseObjectMembers_loop pv k mm acc' (SkipWhitespace r) n1 = POk (m, mem') s' n')"
    using ParseObjectMembers_loop_unfold [OF Suc.prems(1)] by blast
  have key: "IsValidUtf8 key" "IsValidUtf8 s1" using ParseString_sound [OF st(1) Suc.prems(2)] by auto
  have "IsValidUtf8 s2" by (rule Consume_char_valid [OF _ SkipWhitespace_valid [OF key(2)] st(2)]) simp
  note sv = sound_parserD [OF assms SkipWhitespace_valid [OF this] st(3)]
  have "sorted_wrt (<) (map fst acc)" using Suc.prems(3) by (simp add: members_ok_def)
  note em = emplace_sound [OF this st(4), of value_count]
  have ok: "members_ok fl d acc'" using em key(1) sv Suc.prems(3) by (auto simp: members_ok_def)
  note next_valid = Consume_char_valid [OF _ SkipWhitespace_valid [of s4]]
  from fin show ?case
  proof (elim disjE exE conjE)
    fix r assume r: "Consume_char CHR ''}'' (SkipWhitespace s4) = (True, r)"
      and eq: "POk (acc', mm) r n1 = POk (m, mem') s' n'"
    have "IsValidUtf8 r" using sv by (intro next_valid [OF _ _ r]) auto
    then show ?thesis using eq ok em sv by auto
  next
    fix r assume r: "Consume_char CHR '','' (SkipWhitespace s4) = (True, r)"
      and more: "ParseObjectMembers_loop pv k mm acc' (SkipWhitespace r) n1 = POk (m, mem') s' n'"
    have "IsValidUtf8 r" using sv by (intro next_valid [OF _ _ r]) auto
    from Suc.IH [OF more SkipWhitespace_valid [OF this] ok] em sv show ?thesis by auto
  qed
qed

lemma ParseObjectMembers_sound:
  assumes "sound_parser fl d pv" "ParseObjectMembers pv mem s n = POk (m, mem') s' n'" "IsValidUtf8 s"
  shows "IsValidUtf8 s' \<and> members_ok fl d m \<and> n = n' + members_count m"
proof -
  define s1 where "s1 = SkipWhitespace (snd (Consume_char CHR ''{'' s))"
  have v1: "IsValidUtf8 s1"
    using SkipWhitespace_valid [OF Consume_char_valid [OF _ assms(3) surjective_pairing, of "CHR ''{''"]]
    by (simp add: s1_def)
  obtain closed r where c: "Consume_char CHR ''}'' s1 = (closed, r)" by fastforce
  have "IsValidUtf8 r" by (rule Consume_char_valid [OF _ v1 c]) simp
  moreover have "(if closed then POk ([], mem) r n
      else ParseObjectMembers_loop pv (Suc (length s1)) mem [] s1 n) = POk (m, mem') s' n'"
    using assms(2) c by (simp add: ParseObjectMembers_def s1_def [symmetric])
  moreover have "members_ok fl d []" by (simp add: members_ok_def)
  ultimately show ?thesis
    using ParseObjectMembers_loop_sound [OF assms(1), of "Suc (length s1)" mem "[]" s1 n m mem' s' n'] v1
    by (auto split: if_splits)
qed

lemma Dump_all_elements:
  "list_all (value_ok fl d) vs \<Longrightarrow> \<exists>out. DumpElements fl vs d first = Inr out"
proof (induction vs arbitrary: first)
  case (Cons v vs)
  obtain o2 where "DumpElements fl vs d False = Inr o2" using Cons.IH [of False] Cons.prems by auto
  moreover obtain o1 where "DumpValue fl v d = Inr o1" using Cons.prems by (auto simp: value_ok_def)
  ultimately show ?case by simp
qed simp

lemma Dump_all_members:
  "\<forall>p \<in> set m. value_ok fl d (snd p) \<Longrightarrow> \<exists>out. DumpMembers fl m d first = Inr out"
proof (induction m arbitrary: first)
  case (Cons p m)
  obtain k v where p: "p = (k, v)" by fastforce
  obtain o2 where "DumpMembers fl m d False = Inr o2" using Cons.IH [of False] Cons.prems by auto
  moreover obtain o1 where "DumpValue fl v d = Inr o1" using Cons.prems p by (auto simp: value_ok_def)
  ultimately show ?case using p by simp
qed simp

lemma value_ok_array:
  assumes "d \<le> MaximumJsonNestingDepth" "list_all (value_ok fl (d + 1)) vs"
  shows "value_ok fl d (JArray vs)"
proof -
  obtain out where "DumpElements fl vs (d + 1) True = Inr out" using Dump_all_elements [OF assms(2)] by blast
  moreover have "map canon vs = vs" using assms(2) by (induction vs) (auto simp: value_ok_def)
  moreover have "list_all id (map keys_sorted vs)" using assms(2) by (auto simp: list_all_iff value_ok_def)
  ultimately show ?thesis using assms(1) by (simp add: value_ok_def DumpValue.simps)
qed

lemma value_ok_object:
  assumes "d \<le> MaximumJsonNestingDepth" "members_ok fl (d + 1) m"
  shows "value_ok fl d (JObject m)"
proof -
  have sorted: "sorted_wrt (<) (map fst m)" and each: "\<forall>p \<in> set m. IsValidUtf8 (fst p) \<and> value_ok fl (d + 1) (snd p)"
    using assms(2) by (auto simp: members_ok_def)
  obtain out where "DumpMembers fl m (d + 1) True = Inr out" using Dump_all_members each by blast
  moreover have "map (map_prod id canon) m = m" using each by (induction m) (auto simp: value_ok_def)
  moreover have "list_all snd (map (map_prod id keys_sorted) m)" using each by (auto simp: list_all_iff value_ok_def)
  moreover have "list_all (\<lambda>(k, _). IsValidUtf8 k) m" using each by (auto simp: list_all_iff)
  ultimately show ?thesis
    using assms(1) sorted sorted_keys_sort [OF sorted] by (simp add: value_ok_def DumpValue.simps)
qed

lemma ParseValue_sound:
  assumes fl: "FloatLib_ok fl" "FloatLib_finite fl"
  shows "sound_parser fl depth (ParseValue fl k depth)"
proof (induction k arbitrary: depth)
  case 0
  then show ?case by (simp add: sound_parser_def ParseValue.simps)
next
  case (Suc k)
  show ?case unfolding sound_parser_def
  proof (intro allI impI)
    fix s n v s' n'
    assume valid: "IsValidUtf8 s" and run: "ParseValue fl (Suc k) depth s n = POk v s' n'"
    then have pre: "depth \<le> MaximumJsonNestingDepth" "s \<noteq> []" "n \<noteq> 0"
      by (auto simp: ParseValue.simps split: if_splits)
    then show "IsValidUtf8 s' \<and> value_ok fl depth v \<and> n = n' + value_count v"
    proof (cases rule: ParseValue_unfold [where fl = fl and k = k])
      case (fail e)
      then show ?thesis using run by simp
    next
      case (literal w l r)
      then have "IsValidUtf8 r" using ParseLiteral_valid [OF _ valid literal(2)] by auto
      then show ?thesis using literal run pre by (auto simp: value_ok_def DumpValue.simps)
    next
      case (string str r)
      then show ?thesis
        using run pre ParseString_sound [OF string(1) valid] by (auto simp: value_ok_def DumpValue.simps)
    next
      case array
      obtain vs n1 where a: "ParseArray (ParseValue fl k (depth + 1)) s (n - 1) = POk vs s' n1"
          "v = JArray vs" "n' = n1" using run unfolding array(2) by (auto simp: pbind_POk)
      then show ?thesis
        using ParseArray_sound [OF Suc.IH a(1) valid] value_ok_array [OF pre(1)] pre by auto
    next
      case object
      obtain m mem n1 where o: "ParseObjectMembers (ParseValue fl k (depth + 1)) None s (n - 1) = POk (m, mem) s' n1"
          "v = JObject m" "n' = n1" using run unfolding object(2) by (auto simp: pbind_POk)
      then show ?thesis
        using ParseObjectMembers_sound [OF Suc.IH o(1) valid] value_ok_object [OF pre(1)] pre
        by (auto simp: comp_def)
    next
      case (number num r)
      then show ?thesis
        using run pre ParseNumber_sound [OF number(1) valid fl] by (auto simp: value_ok_def DumpValue.simps)
    qed
  qed
qed

lemma BeginDocument_valid: "IsValidUtf8 s \<Longrightarrow> IsValidUtf8 (BeginDocument s)"
proof -
  assume v: "IsValidUtf8 s"
  have "IsValidUtf8 (SkipByteOrderMark s)"
  proof (cases "SkipByteOrderMark s = s")
    case False
    then have b: "3 \<le> length s" "uchar (s ! 0) = 0xEF" "uchar (s ! 1) = 0xBB" "uchar (s ! 2) = 0xBF"
        "SkipByteOrderMark s = drop 3 s" by (auto simp: SkipByteOrderMark_def split: if_splits)
    have "s = take 3 s @ drop 3 s" by simp
    also have "take 3 s = [s ! 0, s ! 1, s ! 2]"
      using b(1) by (intro nth_equalityI) (auto simp: less_Suc_eq numeral_3_eq_3 numeral_2_eq_2 nth_Cons')
    also have "\<dots> = AppendUtf8 0xFEFF"
      using b(2-4) uchar_eq_iff [of "s ! 0" "char_of (0xEF::nat)"] uchar_eq_iff [of "s ! 1" "char_of (0xBB::nat)"]
        uchar_eq_iff [of "s ! 2" "char_of (0xBF::nat)"] by (simp add: AppendUtf8_arith)
    finally show ?thesis
      using v b(5) IsValidUtf8_encode [of "0xFEFF" "drop 3 s"] by (simp add: scalar_value_def)
  qed (use v in simp)
  then show ?thesis by (simp add: BeginDocument_def SkipWhitespace_valid)
qed

lemma Parse_sound:
  assumes "FloatLib_ok fl" "FloatLib_finite fl" "JsonValue_Parse fl s maxValues = Some (Inr v)"
  shows "value_ok fl 0 v \<and> value_count v \<le> maxValues"
proof -
  have valid: "IsValidUtf8 s" using assms(3) by (auto simp: JsonValue_Parse_def ParseText_def split: if_splits)
  obtain s1 n1 where "ParseValue fl parse_fuel 0 (BeginDocument s) maxValues = POk v s1 n1"
    using assms(3) valid by (auto simp: JsonValue_Parse_def ParseText_def ParseDocument_def pbind_POk
        EndDocument_def split: parsed.splits if_splits)
  from sound_parserD [OF ParseValue_sound [OF assms(1,2)] BeginDocument_valid [OF valid] this]
  show ?thesis by simp
qed

text \<open>
  C10. Whatever the parser accepts is well formed and stable: it stays within the value limit, all its
  objects have strictly increasing keys (in particular no duplicates), it can be dumped, and parsing
  the dump gives exactly the same value.
\<close>

theorem Json_parse_stable:
  assumes "FloatLib_ok fl" and "FloatLib_finite fl" and "JsonValue_Parse fl s maxValues = Some (Inr v)"
  shows "value_count v \<le> maxValues \<and> keys_sorted v \<and>
    (\<exists>out. JsonValue_Dump fl v = Inr out \<and> JsonValue_Parse fl out maxValues = Some (Inr v))"
proof -
  have v: "value_count v \<le> maxValues" "keys_sorted v" "canon v = v" "\<exists>out. DumpValue fl v 0 = Inr out"
    using Parse_sound [OF assms] by (auto simp: value_ok_def)
  then obtain out where out: "JsonValue_Dump fl v = Inr out" by (auto simp: JsonValue_Dump_def DumpJsonAtDepth_def)
  from Parse_Dump [OF assms(1) v(2) out v(1)] v out show ?thesis by auto
qed

theorem Json_parse_stable_witness:
  "\<exists>out. JsonValue_Dump int_lib (JArray [JNull]) = Inr out \<and>
     JsonValue_Parse int_lib out 2 = Some (Inr (JArray [JNull]))"
proof -
  have "JsonValue_Parse int_lib (CHR '' '' # ''[null]'') 2 = Some (Inr (JArray [JNull]))"
    by (simp add: JsonValue_Parse_def ParseText_def IsValidUtf8_ascii ParseDocument_def parse_fuel_def
        MaximumJsonNestingDepth_def BeginDocument_def SkipByteOrderMark_def is_space_def numeral_eq_Suc ParseValue.simps
        ParseArray_def ParseArray_loop.simps ParseLiteral_def Consume_char_def EndDocument_def Let_def
        del: IsValidUtf8.simps(2))
  from Json_parse_stable [OF int_lib_ok _ this] show ?thesis by (auto simp: FloatLib_finite_def int_lib_def)
qed

end
