(* ===== verification/Message.thy ===== *)
theory Message
  imports JsonSound
begin

text \<open>
  The message envelope over JSON (\<^verbatim>\<open>src/Protocol/Message.cpp\<close>): an object with a non-empty string
  \<^verbatim>\<open>type\<close>, a \<^verbatim>\<open>body\<close> object or an \<^verbatim>\<open>error\<close> object with a string \<^verbatim>\<open>code\<close>, and an optional
  \<^verbatim>\<open>seq\<close>. Received and sent envelopes obey the same grammar, and a serialised message parses back
  to its fields. \<open>None\<close> as the result of a parser is lack of fuel, which never happens.
\<close>

section \<open>Fields and messages\<close>

record 'd MessageFields =
  mf_type :: string
  mf_body :: "'d JsonValue option"
  mf_sequence :: "'d JsonValue option"
  mf_error :: "'d JsonValue option"

record 'd Message =
  mType :: string
  mBody :: "'d JsonValue option"
  mSequence :: "'d JsonValue option"
  mError :: "'d JsonValue option"
  mRawBodySize :: nat

definition IsErrorEnvelope :: "'d JsonValue \<Rightarrow> bool" where
  "IsErrorEnvelope value \<longleftrightarrow>
     (case TryObject value of
        None \<Rightarrow> False
      | Some _ \<Rightarrow> (case Find ''code'' value of None \<Rightarrow> False | Some code \<Rightarrow> TryString code \<noteq> None))"

definition ValidateFields :: "'d MessageFields \<Rightarrow> ErrorCode \<Rightarrow> status" where
  "ValidateFields mf failureCode =
     (if mf_type mf = [] then failureCode
      else if mf_body mf = None \<and> mf_error mf = None then failureCode
      else if mf_body mf \<noteq> None \<and> \<not> IsObject (the (mf_body mf)) then failureCode
      else if mf_error mf \<noteq> None \<and> \<not> IsErrorEnvelope (the (mf_error mf)) then failureCode
      else Ok)"

definition ParseMessage :: "'d FloatLib \<Rightarrow> byte list \<Rightarrow> nat \<Rightarrow> 'd Message result option" where
  "ParseMessage fl jsonBody maxValues =
     (case Detail_ParseEnvelopeDocument fl jsonBody maxValues of
        None \<Rightarrow> None
      | Some (Inl e) \<Rightarrow> Some (Inl e)
      | Some (Inr document) \<Rightarrow>
          if \<not> pd_isObject document then Some (Inl InvalidFormat)
          else
            let findMember = (\<lambda>key. map_of (pd_members document) key);
                type = findMember ''type''
            in if type = None \<or> TryString (the type) = None then Some (Inl InvalidFormat)
               else
                 let typeName = the (TryString (the type));
                     body = findMember ''body'';
                     error = findMember ''error'';
                     fieldsStatus = ValidateFields \<lparr>mf_type = typeName, mf_body = body,
                       mf_sequence = None, mf_error = error\<rparr> InvalidFormat
                 in if fieldsStatus \<noteq> Ok then Some (Inl fieldsStatus)
                    else Some (Inr \<lparr>mType = typeName, mBody = body, mSequence = findMember ''seq'',
                      mError = error,
                      mRawBodySize = (if body \<noteq> None then pd_rawBodySize document else 0)\<rparr>))"

text \<open>\<^verbatim>\<open>SerializeMessage\<close>; the envelope is built by insertion into a map.\<close>

definition emplace_optional :: "string \<Rightarrow> 'v option \<Rightarrow> (string \<times> 'v) list \<Rightarrow> (string \<times> 'v) list" where
  "emplace_optional key value m = (case value of None \<Rightarrow> m | Some v \<Rightarrow> fst (emplace key v m))"

definition envelope_of :: "'d MessageFields \<Rightarrow> (string \<times> 'd JsonValue) list" where
  "envelope_of mf =
     emplace_optional ''error'' (mf_error mf)
       (emplace_optional ''seq'' (mf_sequence mf)
         (emplace_optional ''body'' (mf_body mf)
           (fst (emplace ''type'' (JString (mf_type mf)) []))))"

definition SerializeMessage :: "'d FloatLib \<Rightarrow> 'd MessageFields \<Rightarrow> byte list result" where
  "SerializeMessage fl mf =
     (let fieldsStatus = ValidateFields mf InvalidArgument in
      if fieldsStatus \<noteq> Ok then Inl fieldsStatus
      else case JsonValue_Dump fl (JObject (envelope_of mf)) of
             Inl e \<Rightarrow> Inl e
           | Inr dumped \<Rightarrow> Inr (bytes_of dumped))"

definition PrepareJsonValue :: "'d FloatLib \<Rightarrow> 'd JsonValue \<Rightarrow> byte list result" where
  "PrepareJsonValue fl value =
     (case DumpJsonAtDepth fl value 3 of Inl e \<Rightarrow> Inl e | Inr dumped \<Rightarrow> Inr (bytes_of dumped))"

definition PrepareMessage :: "'d FloatLib \<Rightarrow> 'd MessageFields \<Rightarrow> byte list result" where
  "PrepareMessage fl mf = (case SerializeMessage fl mf of Inl e \<Rightarrow> Inl e | Inr bytes \<Rightarrow> Inr bytes)"

text \<open>
  \<^verbatim>\<open>PrepareArrayMessage\<close>: prepared items are put between brackets without parsing them again.
  An item is \<open>None\<close> for a null pointer.
\<close>

fun join_items :: "byte list option list \<Rightarrow> bool \<Rightarrow> string result" where
  "join_items [] first = Inr []"
| "join_items (item # items) first =
     (if item = None \<or> the item = [] then Inl InvalidArgument
      else case join_items items False of
             Inl e \<Rightarrow> Inl e
           | Inr rest \<Rightarrow> Inr ((if first then [] else '','') @ chars_of (the item) @ rest))"

definition PrepareArrayMessage ::
    "'d FloatLib \<Rightarrow> string \<Rightarrow> string \<Rightarrow> byte list option list \<Rightarrow> byte list result" where
  "PrepareArrayMessage fl type arrayKey items =
     (if type = [] then Inl InvalidArgument
      else case JsonValue_Dump fl (JString type) of
        Inl e \<Rightarrow> Inl e
      | Inr quotedType \<Rightarrow>
          (case JsonValue_Dump fl (JString arrayKey) of
             Inl e \<Rightarrow> Inl e
           | Inr quotedKey \<Rightarrow>
               (case join_items items True of
                  Inl e \<Rightarrow> Inl e
                | Inr joined \<Rightarrow>
                    Inr (bytes_of
                      ([CHR ''{'', CHR 0x22] @ ''body'' @ [CHR 0x22] @ '':{'' @ quotedKey @ '':['' @ joined @
                       '']},'' @ [CHR 0x22] @ ''type'' @ [CHR 0x22] @ '':'' @ quotedType @ ''}'')))))"

section \<open>A serialised message parses back\<close>

lemma TryString_Some: "TryString v \<noteq> None \<longleftrightarrow> (\<exists>s. v = JString s)"
  by (cases v) (simp_all add: TryString_def)

lemma IsObject_iff: "IsObject v \<longleftrightarrow> (\<exists>m. v = JObject m)"
  by (cases v) (simp_all add: IsObject_def)

lemma find_member_map_of: "find_member k m = map_of m k"
  by (induction m) auto

text \<open>The canonical value keeps what the envelope grammar asks about.\<close>

lemma canon_IsObject: "IsObject (canon v) = IsObject v"
  by (cases v) (simp_all add: IsObject_def)

lemma map_of_canon: "map_of (map (map_prod id canon) m) k = map_option canon (map_of m k)"
  by (induction m) auto

lemma canon_IsErrorEnvelope: "IsErrorEnvelope (canon v) = IsErrorEnvelope v"
proof (cases v)
  case (JObject m)
  have "TryString (canon w) \<noteq> None \<longleftrightarrow> TryString w \<noteq> None" for w :: "'a JsonValue"
    by (cases w) (simp_all add: TryString_def)
  then show ?thesis
    using JObject by (auto simp: IsErrorEnvelope_def TryObject_def Find_def find_member_map_of map_of_canon
        split: option.splits)
qed (simp_all add: IsErrorEnvelope_def TryObject_def)

lemma envelope_keys_order:
  "''body'' < ''error''" "''error'' < ''seq''" "''seq'' < ''type''"
  by (simp_all add: less_list_code less_char_def)

lemma envelope_of_members:
  "envelope_of mf =
     (case mf_body mf of None \<Rightarrow> [] | Some b \<Rightarrow> [(''body'', b)]) @
     (case mf_error mf of None \<Rightarrow> [] | Some e \<Rightarrow> [(''error'', e)]) @
     (case mf_sequence mf of None \<Rightarrow> [] | Some q \<Rightarrow> [(''seq'', q)]) @ [(''type'', JString (mf_type mf))]"
  by (simp add: envelope_of_def emplace_optional_def less_list_code less_char_def split: option.splits)

lemma envelope_keys_sorted: "sorted_wrt (<) (map fst (envelope_of mf))"
  using envelope_keys_order by (auto simp: envelope_of_members split: option.splits intro: less_trans)

lemma envelope_lookup:
  "map_of (envelope_of mf) ''type'' = Some (JString (mf_type mf))"
  "map_of (envelope_of mf) ''body'' = mf_body mf"
  "map_of (envelope_of mf) ''error'' = mf_error mf"
  "map_of (envelope_of mf) ''seq'' = mf_sequence mf"
  by (simp_all add: envelope_of_members split: option.splits)

lemma track_no_body: "''body'' \<notin> fst ` set m \<Longrightarrow> track fl d mem m = mem"
  by (induction m arbitrary: mem) (auto simp: track1_def)

lemma track_envelope:
  "tl_rawBodySize (the (track fl 1 (Some \<lparr>tl_hasBody = False, tl_rawBodySize = 0\<rparr>) (envelope_of mf))) =
     (case mf_body mf of None \<Rightarrow> 0 | Some b \<Rightarrow> length (projr (DumpValue fl b 1)))"
  by (simp add: envelope_of_members track1_def track_no_body split: option.splits)

text \<open>The envelope entry of the parser reads the members of a dumped object.\<close>

lemma ParseEnvelope_Dump:
  assumes fl: "FloatLib_ok fl" and sorted: "keys_sorted (JObject m)"
    and dump: "JsonValue_Dump fl (JObject m) = Inr out"
    and count: "sum_list (map (\<lambda>p. value_count (snd p)) m) \<le> maxValues"
    and members: "track fl 1 (Some \<lparr>tl_hasBody = False, tl_rawBodySize = 0\<rparr>) m = members"
  shows "Detail_ParseEnvelopeDocument fl (bytes_of out) maxValues =
    Some (Inr \<lparr>pd_members = map (map_prod id canon) m, pd_isObject = True,
      pd_hasBody = tl_hasBody (the members), pd_rawBodySize = tl_rawBodySize (the members)\<rparr>)"
proof -
  have dv: "DumpValue fl (JObject m) 0 = Inr out" using dump by (simp add: JsonValue_Dump_def DumpJsonAtDepth_def)
  obtain x where x: "DumpMembers fl m 1 True = Inr x" "out = ''{'' @ x @ ''}''"
    using dv sorted by (auto simp: DumpValue.simps sorted_keys_sort split: if_splits sum.splits)
  have "\<forall>p \<in> set m. value_parser fl 1 (ParseValue fl parse_fuel 1) (snd p)"
    using sorted ParseValue_Dump [OF fl] by (auto simp: list_all_iff parse_fuel_def)
  from ParseObjectMembers_Dump [OF fl this x(1) count, of "Some \<lparr>tl_hasBody = False, tl_rawBodySize = 0\<rparr>" "[]"]
  have "ParseObjectMembers (ParseValue fl parse_fuel 1) (Some \<lparr>tl_hasBody = False, tl_rawBodySize = 0\<rparr>) out maxValues =
      POk (map (map_prod id canon) m, members) [] (maxValues - sum_list (map (\<lambda>p. value_count (snd p)) m))"
    using sorted members x(2) by simp
  then show ?thesis
    using BeginDocument_Dump Dump_head [OF fl dv] Dump_valid(1) [OF fl dv] x(2)
    by (simp add: Detail_ParseEnvelopeDocument_def ParseText_def ParseEnvelopeDocument_def EndDocument_def
        del: IsValidUtf8.simps(2))
qed

lemma ValidateFields_canon:
  "ValidateFields mf InvalidArgument = Ok \<Longrightarrow>
   ValidateFields \<lparr>mf_type = mf_type mf, mf_body = map_option canon (mf_body mf), mf_sequence = q,
     mf_error = map_option canon (mf_error mf)\<rparr> InvalidFormat = Ok"
  by (cases "mf_body mf"; cases "mf_error mf")
    (simp_all add: ValidateFields_def canon_IsObject canon_IsErrorEnvelope split: if_splits)

text \<open>
  A message survives the wire: whatever \<^verbatim>\<open>SerializeMessage\<close> accepts, \<^verbatim>\<open>ParseMessage\<close> reads back
  with the same type, body, sequence and error, and the body size it reports is the number of
  bytes the body takes on the wire.
\<close>

theorem Message_round_trip:
  assumes "FloatLib_ok fl" and "list_all (\<lambda>p. keys_sorted (snd p)) (envelope_of mf)"
    and "SerializeMessage fl mf = Inr bytes"
    and "sum_list (map (\<lambda>p. value_count (snd p)) (envelope_of mf)) \<le> maxValues"
  shows "ParseMessage fl bytes maxValues = Some (Inr
    \<lparr>mType = mf_type mf, mBody = map_option canon (mf_body mf),
     mSequence = map_option canon (mf_sequence mf), mError = map_option canon (mf_error mf),
     mRawBodySize = (case mf_body mf of None \<Rightarrow> 0 | Some b \<Rightarrow> length (projr (DumpValue fl b 1)))\<rparr>)"
proof -
  obtain out where out: "JsonValue_Dump fl (JObject (envelope_of mf)) = Inr out" "bytes = bytes_of out"
      and ok: "ValidateFields mf InvalidArgument = Ok"
    using assms(3) by (auto simp: SerializeMessage_def Let_def split: if_splits sum.splits)
  have sorted: "keys_sorted (JObject (envelope_of mf))"
    using assms(2) envelope_keys_sorted by (auto simp: list_all_iff)
  note parsed = ParseEnvelope_Dump [OF assms(1) sorted out(1) assms(4) refl]
  show ?thesis
    using ValidateFields_canon [OF ok] by (simp add: ParseMessage_def out(2) parsed track_envelope [simplified]
        map_of_canon envelope_lookup TryString_def split: option.splits)
qed

definition sample_fields :: "int MessageFields" where
  "sample_fields = \<lparr>mf_type = ''hi'', mf_body = Some (JObject [(''x'', JBool True)]),
     mf_sequence = Some (JNumber (NInt64 7)), mf_error = None\<rparr>"

theorem Message_round_trip_witness:
  "case SerializeMessage int_lib sample_fields of
     Inl _ \<Rightarrow> False
   | Inr bytes \<Rightarrow> ParseMessage int_lib bytes 9 = Some (Inr
       \<lparr>mType = ''hi'', mBody = Some (JObject [(''x'', JBool True)]),
        mSequence = Some (JNumber (NUInt64 7)), mError = None, mRawBodySize = 11\<rparr>)"
proof -
  have digits: "to_chars_nat 7 = ''7''" by code_simp
  note dump = DumpValue.simps MaximumJsonNestingDepth_def DumpNumber_def to_chars_int_def digits
    DumpEscapedString_def escape_char_def IsValidUtf8_ascii
  have "\<exists>bytes. SerializeMessage int_lib sample_fields = Inr bytes"
    by (simp add: SerializeMessage_def sample_fields_def ValidateFields_def IsObject_def envelope_of_members
        JsonValue_Dump_def DumpJsonAtDepth_def sorted_keys_sort less_list_code less_char_def dump
        del: IsValidUtf8.simps(2))
  then obtain bytes where ser: "SerializeMessage int_lib sample_fields = Inr bytes" by blast
  from Message_round_trip [OF int_lib_ok _ ser, of 9]
  have "ParseMessage int_lib bytes 9 = Some (Inr
       \<lparr>mType = ''hi'', mBody = Some (JObject [(''x'', JBool True)]),
        mSequence = Some (JNumber (NUInt64 7)), mError = None, mRawBodySize = 11\<rparr>)"
    by (simp add: envelope_of_members sample_fields_def dump del: IsValidUtf8.simps(2))
  with ser show ?thesis by simp
qed

end
