(* ===== verification/KeyedTable.thy ===== *)
theory KeyedTable
  imports Prelude
begin

text \<open>
  The contract of a registration table: an insertion either succeeds on a key that had no entry and
  adds exactly that entry, or fails and changes no entry. The message dispatcher and the session
  registry promise it, and what their clients rely on follows once for both: the entry a successful
  insertion made is there after every later insertion, and no second insertion of its key succeeds.

  \<open>None\<close> as the result of an operation is a failed assertion of the code.
\<close>

locale keyed_table =
  fixes lookup :: "'t \<Rightarrow> 'k \<Rightarrow> 'v option"
    and key :: "'r \<Rightarrow> 'k" and entry :: "'r \<Rightarrow> 'v"
    and insert :: "'t \<Rightarrow> 'r \<Rightarrow> (status \<times> 't) option"
  assumes insert_ok: "insert t r = Some (Ok, t') \<Longrightarrow>
        lookup t (key r) = None \<and> lookup t' = (lookup t)(key r \<mapsto> entry r)"
    and insert_fail: "insert t r = Some (e, t') \<Longrightarrow> e \<noteq> Ok \<Longrightarrow> lookup t' = lookup t"
begin

fun insert_all :: "'t \<Rightarrow> 'r list \<Rightarrow> (status list \<times> 't) option" where
  "insert_all t [] = Some ([], t)"
| "insert_all t (r # rs) =
     (case insert t r of
        None \<Rightarrow> None
      | Some (e, t1) \<Rightarrow>
          (case insert_all t1 rs of None \<Rightarrow> None | Some (es, t2) \<Rightarrow> Some (e # es, t2)))"

lemma insert_keeps:
  assumes "insert t r = Some (e, t')" "lookup t k = Some v"
  shows "lookup t' k = Some v" "key r = k \<Longrightarrow> e \<noteq> Ok"
proof -
  show "lookup t' k = Some v"
    using assms insert_ok [of t r t'] insert_fail [of t r e t'] by (cases "e = Ok") auto
  show "key r = k \<Longrightarrow> e \<noteq> Ok" using assms insert_ok [of t r t'] by auto
qed

lemma insert_all_keeps:
  "insert_all t rs = Some (es, t') \<Longrightarrow> lookup t k = Some v \<Longrightarrow> lookup t' k = Some v"
proof (induction rs arbitrary: t es)
  case (Cons r rs)
  then obtain e t1 es1 where step: "insert t r = Some (e, t1)" "insert_all t1 rs = Some (es1, t')"
    by (auto split: option.splits)
  show ?case using Cons.IH [OF step(2)] insert_keeps(1) [OF step(1) Cons.prems(2)] .
qed simp

text \<open>The table after a sequence of insertions: every key has the entry of its successful insertion.\<close>

lemma insert_all_lookup:
  "insert_all t rs = Some (es, t') \<Longrightarrow>
   lookup t' = lookup t ++ map_of (map (\<lambda>(r, _). (key r, entry r)) (filter (\<lambda>(_, e). e = Ok) (zip rs es)))"
proof (induction rs arbitrary: t es)
  case (Cons r rs)
  then obtain e t1 es1 where step: "insert t r = Some (e, t1)" "insert_all t1 rs = Some (es1, t')" "es = e # es1"
    by (auto split: option.splits)
  let ?new = "map_of (map (\<lambda>(r, _). (key r, entry r)) (filter (\<lambda>(_, e). e = Ok) (zip rs es1)))"
  have later: "lookup t' = lookup t1 ++ ?new" by (rule Cons.IH [OF step(2)])
  show ?case
  proof (cases "e = Ok")
    case True
    with insert_ok step(1) have t1: "lookup t1 = (lookup t)(key r \<mapsto> entry r)" by blast
    have kept: "lookup t' (key r) = Some (entry r)" by (rule insert_all_keeps [OF step(2)]) (simp add: t1)
    show ?thesis
    proof
      fix k
      show "lookup t' k = (lookup t ++ map_of (map (\<lambda>(r, _). (key r, entry r))
          (filter (\<lambda>(_, e). e = Ok) (zip (r # rs) es)))) k"
        using kept later True step(3) t1 by (cases "k = key r") (auto simp: map_add_def split: option.splits)
    qed
  next
    case False
    with insert_fail step(1) have "lookup t1 = lookup t" by blast
    with later False step(3) show ?thesis by simp
  qed
qed simp

text \<open>No key is inserted twice.\<close>

lemma insert_all_keys:
  "insert_all t rs = Some (es, t') \<Longrightarrow>
   distinct (map (\<lambda>(r, _). key r) (filter (\<lambda>(_, e). e = Ok) (zip rs es))) \<and>
   (\<forall>(r, _) \<in> set (filter (\<lambda>(_, e). e = Ok) (zip rs es)). lookup t (key r) = None)"
proof (induction rs arbitrary: t es)
  case (Cons r rs)
  then obtain e t1 es1 where step: "insert t r = Some (e, t1)" "insert_all t1 rs = Some (es1, t')" "es = e # es1"
    by (auto split: option.splits)
  let ?ok = "filter (\<lambda>(_, e). e = Ok) (zip rs es1)"
  have IH: "distinct (map (\<lambda>(r, _). key r) ?ok)" "\<forall>(r, _) \<in> set ?ok. lookup t1 (key r) = None"
    using Cons.IH [OF step(2)] by auto
  show ?case
  proof (cases "e = Ok")
    case True
    with insert_ok step(1) have t1: "lookup t1 = (lookup t)(key r \<mapsto> entry r)" "lookup t (key r) = None" by blast+
    with IH(2) have "\<forall>(q, _) \<in> set ?ok. key q \<noteq> key r \<and> lookup t (key q) = None"
      by (auto split: if_splits)
    with IH(1) t1(2) True step(3) show ?thesis by auto
  next
    case False
    with insert_fail step(1) have "lookup t1 = lookup t" by blast
    with IH False step(3) show ?thesis by simp
  qed
qed simp

end

end
