(* ===== verification/Dispatcher.thy ===== *)
theory Dispatcher
  imports Message KeyedTable
begin

text \<open>
  The message dispatcher (\<^verbatim>\<open>src/Dispatch/Dispatcher.cpp\<close>): a table from message types to handlers that
  is filled while the server boots and then frozen, the per-type body limit, and the policy for
  types nobody registered. The registration gate makes \<^verbatim>\<open>Register\<close>, \<^verbatim>\<open>Freeze\<close> and the lookup of
  \<^verbatim>\<open>Dispatch\<close> atomic, so an execution of concurrent callers is a sequence of them.

  A handler, the logger and \<^verbatim>\<open>Session::Disconnect\<close> belong to the embedding program: they are
  functions on a world \<open>'w\<close>. \<open>alloc i\<close> says whether the \<open>i\<close>-th allocation of a call succeeds.
\<close>

section \<open>The table and its operations\<close>

datatype UnknownTypePolicy = LogAndIgnore | Disconnect

datatype LogLevel = Trace | Debug | Info | Warn | LogError

type_synonym ('s, 'd, 'w) MessageHandler = "'s \<Rightarrow> 'd Message \<Rightarrow> 'w \<Rightarrow> status \<times> 'w"

text \<open>A logger reports whether it returned; \<open>False\<close> is an exception it threw.\<close>

type_synonym 'w ILogger = "LogLevel \<Rightarrow> string \<Rightarrow> 'w \<Rightarrow> bool \<times> 'w"

record ('s, 'd, 'w) RegisteredHandler =
  handler :: "('s, 'd, 'w) MessageHandler"
  maximumRawBodySize :: nat

record ('s, 'd, 'w) Dispatcher =
  mHandlers :: "string \<rightharpoonup> ('s, 'd, 'w) RegisteredHandler"
  mFrozen :: bool
  mUnknownTypePolicy :: UnknownTypePolicy
  mLogger :: "'w ILogger option"

definition Dispatcher_create :: "('s, 'd, 'w) Dispatcher" where
  "Dispatcher_create =
     \<lparr>mHandlers = Map.empty, mFrozen = False, mUnknownTypePolicy = LogAndIgnore, mLogger = None\<rparr>"

definition UnlimitedRawBodySize :: nat where
  "UnlimitedRawBodySize = SIZE_MAX"

text \<open>A status whose text is built inside the guarded part of an operation.\<close>

definition fail_text :: "bool \<Rightarrow> ErrorCode \<Rightarrow> status" where
  "fail_text allocated code = (if allocated then code else PlatformError)"

definition Register ::
    "(nat \<Rightarrow> bool) \<Rightarrow> ('s, 'd, 'w) Dispatcher \<Rightarrow> string \<Rightarrow> ('s, 'd, 'w) MessageHandler option \<Rightarrow> nat \<Rightarrow>
     status \<times> ('s, 'd, 'w) Dispatcher" where
  "Register alloc d type h limit =
     (if mFrozen d then (fail_text (alloc 0) Closed, d)
      else if type = [] then (fail_text (alloc 0) InvalidArgument, d)
      else case h of
        None \<Rightarrow> (fail_text (alloc 0) InvalidArgument, d)
      | Some f \<Rightarrow>
          if \<not> alloc 1 then (PlatformError, d)
          else if mHandlers d type \<noteq> None then (fail_text (alloc 0) AlreadyExists, d)
          else if \<not> alloc 2 then (PlatformError, d)
          else (Ok, d\<lparr>mHandlers := (mHandlers d)(type \<mapsto> \<lparr>handler = f, maximumRawBodySize = limit\<rparr>)\<rparr>))"

definition Freeze :: "('s, 'd, 'w) Dispatcher \<Rightarrow> ('s, 'd, 'w) Dispatcher" where
  "Freeze d = d\<lparr>mFrozen := True\<rparr>"

definition IsFrozen :: "('s, 'd, 'w) Dispatcher \<Rightarrow> bool" where
  "IsFrozen d = mFrozen d"

definition SetLogger :: "('s, 'd, 'w) Dispatcher \<Rightarrow> 'w ILogger option \<Rightarrow> ('s, 'd, 'w) Dispatcher" where
  "SetLogger d logger = d\<lparr>mLogger := logger\<rparr>"

definition SetUnknownTypePolicy ::
    "('s, 'd, 'w) Dispatcher \<Rightarrow> UnknownTypePolicy \<Rightarrow> ('s, 'd, 'w) Dispatcher" where
  "SetUnknownTypePolicy d policy = d\<lparr>mUnknownTypePolicy := policy\<rparr>"

definition GetUnknownTypePolicy :: "('s, 'd, 'w) Dispatcher \<Rightarrow> UnknownTypePolicy" where
  "GetUnknownTypePolicy d = mUnknownTypePolicy d"

definition failUnknownPreparation ::
    "('s \<Rightarrow> ErrorCode \<Rightarrow> 'w \<Rightarrow> 'w) \<Rightarrow> UnknownTypePolicy \<Rightarrow> 's \<Rightarrow> 'w \<Rightarrow> status \<times> 'w" where
  "failUnknownPreparation disconnect policy session w =
     (PlatformError, if policy = Disconnect then disconnect session UnknownType w else w)"

definition DispatchUnknown ::
    "('s \<Rightarrow> ErrorCode \<Rightarrow> 'w \<Rightarrow> 'w) \<Rightarrow> (nat \<Rightarrow> bool) \<Rightarrow> ('s, 'd, 'w) Dispatcher \<Rightarrow> 's \<Rightarrow> 'd Message \<Rightarrow>
     'w \<Rightarrow> status \<times> 'w" where
  "DispatchUnknown disconnect alloc d session message w =
     (let policy = GetUnknownTypePolicy d;
          logged = (case mLogger d of
                      None \<Rightarrow> (True, w)
                    | Some write_log \<Rightarrow>
                        if \<not> alloc 1 then (False, w)
                        else write_log Warn (''unregistered message type: '' @ mType message) w)
      in case logged of (returned, w1) \<Rightarrow>
           if \<not> returned then failUnknownPreparation disconnect policy session w1
           else if policy = LogAndIgnore then (Ok, w1)
           else if \<not> alloc 2 then failUnknownPreparation disconnect policy session w1
           else (UnknownType, disconnect session UnknownType w1))"

definition Dispatch ::
    "('s \<Rightarrow> ErrorCode \<Rightarrow> 'w \<Rightarrow> 'w) \<Rightarrow> (nat \<Rightarrow> bool) \<Rightarrow> ('s, 'd, 'w) Dispatcher \<Rightarrow> 's option \<Rightarrow> 'd Message \<Rightarrow>
     'w \<Rightarrow> status \<times> 'w" where
  "Dispatch disconnect alloc d session message w =
     (case session of
        None \<Rightarrow> (fail_text (alloc 0) InvalidArgument, w)
      | Some s \<Rightarrow>
          (case mHandlers d (mType message) of
             None \<Rightarrow> DispatchUnknown disconnect alloc d s message w
           | Some h \<Rightarrow>
               if mBody message = None then (fail_text (alloc 0) InvalidFormat, w)
               else if mRawBodySize message > maximumRawBodySize h then (fail_text (alloc 0) TooLarge, w)
               else handler h s message w))"

section \<open>The registration table\<close>

text \<open>One request to register, as the callers of \<^verbatim>\<open>Register\<close> make it.\<close>

record ('s, 'd, 'w) Registration =
  reg_type :: string
  reg_handler :: "('s, 'd, 'w) MessageHandler option"
  reg_limit :: nat
  reg_alloc :: "nat \<Rightarrow> bool"

definition reg_entry :: "('s, 'd, 'w) Registration \<Rightarrow> ('s, 'd, 'w) RegisteredHandler" where
  "reg_entry r = \<lparr>handler = the (reg_handler r), maximumRawBodySize = reg_limit r\<rparr>"

definition apply_registration ::
    "('s, 'd, 'w) Dispatcher \<Rightarrow> ('s, 'd, 'w) Registration \<Rightarrow> (status \<times> ('s, 'd, 'w) Dispatcher) option" where
  "apply_registration d r = Some (Register (reg_alloc r) d (reg_type r) (reg_handler r) (reg_limit r))"

lemma fail_text_not_Ok: "code \<noteq> Ok \<Longrightarrow> fail_text a code \<noteq> Ok"
  by (simp add: fail_text_def)

lemma Register_refused:
  "Register alloc d type h limit = (e, d') \<Longrightarrow> e \<noteq> Ok \<Longrightarrow> d' = d"
  by (simp add: Register_def split: if_splits option.splits)

lemma Register_entered:
  "Register alloc d type h limit = (Ok, d') \<Longrightarrow>
   h \<noteq> None \<and> \<not> mFrozen d \<and> type \<noteq> [] \<and> mHandlers d type = None \<and>
   d' = d\<lparr>mHandlers := (mHandlers d)(type \<mapsto> \<lparr>handler = the h, maximumRawBodySize = limit\<rparr>)\<rparr>"
  by (simp add: Register_def fail_text_def split: if_splits option.splits)

interpretation handlers: keyed_table "mHandlers" reg_type reg_entry apply_registration
proof
  fix t t' :: "('a, 'b, 'c) Dispatcher" and r :: "('a, 'b, 'c) Registration"
  assume "apply_registration t r = Some (Ok, t')"
  then show "mHandlers t (reg_type r) = None \<and> mHandlers t' = (mHandlers t)(reg_type r \<mapsto> reg_entry r)"
    using Register_entered by (fastforce simp: apply_registration_def reg_entry_def)
next
  fix t t' :: "('a, 'b, 'c) Dispatcher" and r :: "('a, 'b, 'c) Registration" and e
  assume "apply_registration t r = Some (e, t')" "e \<noteq> Ok"
  then show "mHandlers t' = mHandlers t"
    using Register_refused by (fastforce simp: apply_registration_def)
qed

section \<open>Executions\<close>

text \<open>The calls that change a dispatcher, in the order in which they pass the gate.\<close>

datatype ('s, 'd, 'w) DispatcherCall =
    CallRegister "('s, 'd, 'w) Registration"
  | CallFreeze
  | CallSetLogger "'w ILogger option"
  | CallSetUnknownTypePolicy UnknownTypePolicy

fun run_call :: "('s, 'd, 'w) DispatcherCall \<Rightarrow> ('s, 'd, 'w) Dispatcher \<Rightarrow> ('s, 'd, 'w) Dispatcher" where
  "run_call (CallRegister r) d = snd (the (apply_registration d r))"
| "run_call CallFreeze d = Freeze d"
| "run_call (CallSetLogger l) d = SetLogger d l"
| "run_call (CallSetUnknownTypePolicy policy) d = SetUnknownTypePolicy d policy"

abbreviation run_calls :: "('s, 'd, 'w) DispatcherCall list \<Rightarrow> ('s, 'd, 'w) Dispatcher \<Rightarrow> ('s, 'd, 'w) Dispatcher" where
  "run_calls \<equiv> fold run_call"

lemmas call_defs = Freeze_def SetLogger_def SetUnknownTypePolicy_def

lemma run_calls_keep:
  "mHandlers d k = Some h \<Longrightarrow> mHandlers (run_calls cs d) k = Some h"
proof (induction cs arbitrary: d)
  case (Cons c cs)
  have "mHandlers (run_call c d) k = Some h"
  proof (cases c)
    case (CallRegister r)
    obtain e d' where step: "apply_registration d r = Some (e, d')"
      unfolding apply_registration_def by (metis surj_pair)
    with CallRegister show ?thesis using handlers.insert_keeps(1) [OF step Cons.prems] by simp
  qed (use Cons.prems in \<open>simp_all add: call_defs\<close>)
  then show ?case using Cons.IH by simp
qed simp

lemma Register_frozen: "mFrozen d \<Longrightarrow> Register alloc d type h limit = (fail_text (alloc 0) Closed, d)"
  by (simp add: Register_def)

lemma run_calls_frozen:
  "mFrozen d \<Longrightarrow> mHandlers (run_calls cs d) = mHandlers d \<and> mFrozen (run_calls cs d)"
proof (induction cs arbitrary: d)
  case (Cons c cs)
  have "mHandlers (run_call c d) = mHandlers d \<and> mFrozen (run_call c d)"
    using Cons.prems by (cases c) (simp_all add: call_defs apply_registration_def Register_frozen)
  then show ?case using Cons.IH by simp
qed simp

lemma run_calls_unregistered:
  "\<forall>r. CallRegister r \<in> set cs \<longrightarrow> reg_type r \<noteq> k \<Longrightarrow> mHandlers (run_calls cs d) k = mHandlers d k"
proof (induction cs arbitrary: d)
  case (Cons c cs)
  have "mHandlers (run_call c d) k = mHandlers d k"
  proof (cases c)
    case (CallRegister r)
    obtain e d' where step: "apply_registration d r = Some (e, d')"
      unfolding apply_registration_def by (metis surj_pair)
    have "reg_type r \<noteq> k" using Cons.prems CallRegister by simp
    then show ?thesis
      using step CallRegister handlers.insert_ok [of d r d'] handlers.insert_fail [OF step] by (cases "e = Ok") auto
  qed (simp_all add: call_defs)
  moreover have "\<forall>r. CallRegister r \<in> set cs \<longrightarrow> reg_type r \<noteq> k" using Cons.prems by simp
  ultimately show ?case using Cons.IH by simp
qed simp

text \<open>
  C11. A registration is final. Once \<^verbatim>\<open>Register\<close> has returned \<^verbatim>\<open>Ok\<close> for a type, then after any
  sequence of later calls, a message of that type that has a body within the limit is given to
  exactly that handler, and its status is what \<^verbatim>\<open>Dispatch\<close> returns; a message without a body, or
  whose body is over the limit, reaches no handler and changes nothing.
\<close>

theorem Dispatch_reaches_registration:
  assumes "Register al d0 (mType m) h limit = (Ok, d)"
  shows "Dispatch disconnect alloc (run_calls later d) (Some s) m w =
    (if mBody m = None then (fail_text (alloc 0) InvalidFormat, w)
     else if mRawBodySize m > limit then (fail_text (alloc 0) TooLarge, w)
     else the h s m w)"
proof -
  have "mHandlers d (mType m) = Some \<lparr>handler = the h, maximumRawBodySize = limit\<rparr>"
    using Register_entered [OF assms] by simp
  from run_calls_keep [OF this] show ?thesis by (simp add: Dispatch_def)
qed

definition sample_message :: "int Message" where
  "sample_message = \<lparr>mType = ''hi'', mBody = Some JNull, mSequence = None, mError = None, mRawBodySize = 4\<rparr>"

definition counting_handler :: "nat \<Rightarrow> (nat, int, nat) MessageHandler" where
  "counting_handler n s m w = (Ok, w + n)"

theorem Dispatch_reaches_registration_witness:
  "\<exists>d. Register (\<lambda>i. True) Dispatcher_create ''hi'' (Some (counting_handler 1)) 4 = (Ok, d) \<and>
     Dispatch (\<lambda>s e w. w) (\<lambda>i. True)
       (run_calls [CallRegister \<lparr>reg_type = ''hi'', reg_handler = Some (counting_handler 5),
          reg_limit = 9, reg_alloc = (\<lambda>i. True)\<rparr>, CallFreeze] d) (Some 7) sample_message 0 = (Ok, 1)"
proof -
  obtain d where d: "Register (\<lambda>i. True) Dispatcher_create ''hi'' (Some (counting_handler 1)) 4 = (Ok, d)"
    by (simp add: Register_def Dispatcher_create_def)
  then have "Register (\<lambda>i. True) Dispatcher_create (mType sample_message) (Some (counting_handler 1)) 4 = (Ok, d)"
    by (simp add: sample_message_def)
  note Dispatch_reaches_registration [OF this, of "\<lambda>s e w. w" "\<lambda>i. True"
      "[CallRegister \<lparr>reg_type = ''hi'', reg_handler = Some (counting_handler 5),
          reg_limit = 9, reg_alloc = (\<lambda>i. True)\<rparr>, CallFreeze]" 7 0]
  then show ?thesis using d by (auto simp: sample_message_def counting_handler_def)
qed

text \<open>What the logger makes of a message of an unregistered type.\<close>

definition logged_world :: "(nat \<Rightarrow> bool) \<Rightarrow> ('s, 'd, 'w) Dispatcher \<Rightarrow> 'd Message \<Rightarrow> 'w \<Rightarrow> 'w" where
  "logged_world alloc d m w =
     (case mLogger d of
        None \<Rightarrow> w
      | Some write_log \<Rightarrow>
          if alloc 1 then snd (write_log Warn (''unregistered message type: '' @ mType m) w) else w)"

text \<open>
  The strict policy cannot be dodged. A message of a type that no caller registered is
  written to the log, and then: under \<^verbatim>\<open>Disconnect\<close> the session is disconnected with
  \<^verbatim>\<open>UnknownType\<close> and the call fails, also when memory runs out or the logger throws; under
  \<^verbatim>\<open>LogAndIgnore\<close> nothing else happens, and the call fails only if the log could not be written.
\<close>

theorem Dispatch_unknown_type:
  assumes "\<forall>r. CallRegister r \<in> set cs \<longrightarrow> reg_type r \<noteq> mType m"
    and "d = run_calls cs Dispatcher_create"
    and "Dispatch disconnect alloc d (Some s) m w = (e, w')"
  shows "case GetUnknownTypePolicy d of
      Disconnect \<Rightarrow> e \<in> {UnknownType, PlatformError} \<and> w' = disconnect s UnknownType (logged_world alloc d m w)
    | LogAndIgnore \<Rightarrow> e \<in> {Ok, PlatformError} \<and> w' = logged_world alloc d m w \<and>
        ((\<forall>i. alloc i) \<and> mLogger d = None \<longrightarrow> e = Ok)"
proof -
  have "mHandlers d (mType m) = None"
    using run_calls_unregistered [OF assms(1)] assms(2) by (simp add: Dispatcher_create_def)
  then have "DispatchUnknown disconnect alloc d s m w = (e, w')" using assms(3) by (simp add: Dispatch_def)
  then show ?thesis
    by (cases "mLogger d"; cases "GetUnknownTypePolicy d")
      (auto simp: DispatchUnknown_def logged_world_def failUnknownPreparation_def Let_def split: if_splits prod.splits)
qed

theorem Dispatch_unknown_type_witness:
  "case Dispatch (\<lambda>s e w. w @ [(s, e)]) (\<lambda>i. i \<noteq> 2)
      (run_calls [CallSetUnknownTypePolicy Disconnect] Dispatcher_create) (Some (7::nat)) sample_message [] of
     (e, w') \<Rightarrow> e = PlatformError \<and> w' = [(7, UnknownType)]"
  using Dispatch_unknown_type [of "[CallSetUnknownTypePolicy Disconnect]" sample_message _ "\<lambda>s e w. w @ [(s, e)]" "\<lambda>i. i \<noteq> 2" "7::nat" "[]", OF _ refl]
  by (simp add: Dispatch_def DispatchUnknown_def Dispatcher_create_def call_defs GetUnknownTypePolicy_def
      failUnknownPreparation_def logged_world_def sample_message_def)

text \<open>
  Freezing is final: after \<^verbatim>\<open>Freeze\<close> no sequence of calls changes what any message type is
  routed to, and every later \<^verbatim>\<open>Register\<close> is refused without effect. This is what lets
  \<^verbatim>\<open>Dispatch\<close> read the frozen table without the lock.
\<close>

theorem Freeze_is_final:
  "mHandlers (run_calls cs (Freeze d)) = mHandlers d \<and> IsFrozen (run_calls cs (Freeze d)) \<and>
   (\<exists>e. Register alloc (run_calls cs (Freeze d)) type h limit = (e, run_calls cs (Freeze d)) \<and> e \<noteq> Ok)"
  using run_calls_frozen [of "Freeze d" cs] Register_frozen [of "run_calls cs (Freeze d)" alloc type h limit]
  by (simp add: Freeze_def IsFrozen_def fail_text_def)

end
