(* ===== verification/SessionRegistry.thy ===== *)
theory SessionRegistry
  imports KeyedTable
begin

text \<open>
  The session registry (\<^verbatim>\<open>src/Session/SessionRegistry.cpp\<close>): process-wide session numbers, the
  reservations a registry holds for numbers that were issued and not yet registered, and the list
  of registered sessions that only one serial thread may read.

  \<^verbatim>\<open>IssueId\<close> runs on any thread, so it is also modelled as the steps that other threads can
  interleave with: the load of the global counter, each attempt of the compare-and-exchange loop,
  and the reservation under the lock. A \<^verbatim>\<open>Session\<close> is a value \<open>'s\<close> with its number;
  \<open>None\<close> as the result of an operation is a failed assertion.
\<close>

section \<open>State\<close>

type_synonym SessionId = "64 word"

definition Invalid :: SessionId where
  "Invalid = 0"

definition IsValid :: "SessionId \<Rightarrow> bool" where
  "IsValid i \<longleftrightarrow> i \<noteq> Invalid"

record 's Session =
  Id :: SessionId
  payload :: 's

record 's Registry =
  sessions :: "(SessionId \<times> 's Session) list"
  issuedIds :: "SessionId set"
  mutationThread :: nat
  isBound :: bool

definition Registry_create :: "'s Registry" where
  "Registry_create = \<lparr>sessions = [], issuedIds = {}, mutationThread = 0, isBound = False\<rparr>"

section \<open>Operations\<close>

definition RequireMutationThread :: "nat \<Rightarrow> 's Registry \<Rightarrow> bool" where
  "RequireMutationThread current g \<longleftrightarrow> isBound g \<and> mutationThread g = current"

definition BindToCurrentThread :: "nat \<Rightarrow> 's Registry \<Rightarrow> status \<times> 's Registry" where
  "BindToCurrentThread current g =
     (if \<not> isBound g then (Ok, g\<lparr>mutationThread := current, isBound := True\<rparr>)
      else if mutationThread g = current then (Ok, g)
      else (AlreadyExists, g))"

text \<open>The successor of a number in the counter; \<open>0\<close> marks that every number was issued.\<close>

definition next_id :: "SessionId \<Rightarrow> SessionId" where
  "next_id current = (if current = - 1 then 0 else current + 1)"

text \<open>
  The reservation at the end of \<^verbatim>\<open>IssueId\<close>; it fails an assertion when the number is reserved
  already, and returns \<^verbatim>\<open>PlatformError\<close> when the set cannot grow.
\<close>

definition ReserveIssued :: "bool \<Rightarrow> SessionId \<Rightarrow> 's Registry \<Rightarrow> (SessionId result \<times> 's Registry) option" where
  "ReserveIssued alloc current g =
     (if \<not> alloc then Some (Inl PlatformError, g)
      else if current \<in> issuedIds g then None
      else Some (Inr current, g\<lparr>issuedIds := insert current (issuedIds g)\<rparr>))"

definition DiscardIssuedId :: "SessionId \<Rightarrow> 's Registry \<Rightarrow> status \<times> 's Registry" where
  "DiscardIssuedId i g =
     (if \<not> IsValid i then (InvalidArgument, g)
      else if i \<notin> issuedIds g then (InvalidArgument, g)
      else (Ok, g\<lparr>issuedIds := issuedIds g - {i}\<rparr>))"

definition Registry_Register ::
    "bool \<Rightarrow> nat \<Rightarrow> 's Registry \<Rightarrow> 's Session option \<Rightarrow> (status \<times> 's Registry) option" where
  "Registry_Register alloc current g session =
     (if \<not> RequireMutationThread current g then None
      else Some
        (case session of
           None \<Rightarrow> (InvalidArgument, g)
         | Some s \<Rightarrow>
             if \<not> IsValid (Id s) then (InvalidArgument, g)
             else if map_of (sessions g) (Id s) \<noteq> None then (AlreadyExists, g)
             else if Id s \<notin> issuedIds g then (InvalidArgument, g)
             else if \<not> alloc then (PlatformError, g)
             else (Ok, g\<lparr>sessions := (Id s, s) # sessions g, issuedIds := issuedIds g - {Id s}\<rparr>)))"

definition Unregister :: "SessionId \<Rightarrow> 's Registry \<Rightarrow> status \<times> 's Registry" where
  "Unregister i g =
     (if \<not> IsValid i then (InvalidArgument, g)
      else if map_of (sessions g) i = None then (NotFound, g)
      else (Ok, g\<lparr>sessions := filter (\<lambda>(k, _). k \<noteq> i) (sessions g)\<rparr>))"

definition Registry_Find :: "nat \<Rightarrow> 's Registry \<Rightarrow> SessionId \<Rightarrow> 's Session option option" where
  "Registry_Find current g i =
     (if \<not> RequireMutationThread current g then None
      else if \<not> IsValid i then Some None
      else Some (map_of (sessions g) i))"

definition Count :: "nat \<Rightarrow> 's Registry \<Rightarrow> nat option" where
  "Count current g = (if RequireMutationThread current g then Some (length (sessions g)) else None)"

text \<open>
  \<^verbatim>\<open>ForEach\<close> takes the sessions into a snapshot and then runs the visitor on each; the visitor may
  change the registry and the world.
\<close>

definition ForEach ::
    "bool \<Rightarrow> nat \<Rightarrow> 's Registry \<Rightarrow> ('s Session \<Rightarrow> 's Registry \<times> 'w \<Rightarrow> 's Registry \<times> 'w) option \<Rightarrow> 'w \<Rightarrow>
     (status \<times> 's Registry \<times> 'w) option" where
  "ForEach alloc current g visitor w =
     (if \<not> RequireMutationThread current g then None
      else case visitor of
        None \<Rightarrow> None
      | Some visit \<Rightarrow>
          if \<not> alloc then Some (PlatformError, g, w)
          else let snapshot = map snd (sessions g) in Some (Ok, fold visit snapshot (g, w)))"

section \<open>The registered sessions as a table\<close>

definition Registry_ok :: "'s Registry \<Rightarrow> bool" where
  "Registry_ok g \<longleftrightarrow> distinct (map fst (sessions g)) \<and> (\<forall>(k, s) \<in> set (sessions g). Id s = k \<and> IsValid k)"

lemma Registry_Register_entered:
  "Registry_Register alloc current g so = Some (Ok, g') \<Longrightarrow>
   \<exists>s. so = Some s \<and> RequireMutationThread current g \<and> IsValid (Id s) \<and> map_of (sessions g) (Id s) = None \<and>
     Id s \<in> issuedIds g \<and> g' = g\<lparr>sessions := (Id s, s) # sessions g, issuedIds := issuedIds g - {Id s}\<rparr>"
  by (simp add: Registry_Register_def split: if_splits option.splits)

lemma Registry_Register_refused:
  "Registry_Register alloc current g so = Some (e, g') \<Longrightarrow> e \<noteq> Ok \<Longrightarrow> g' = g"
  by (simp add: Registry_Register_def split: if_splits option.splits)

text \<open>A request to register: the session, the calling thread, and whether the table can grow.\<close>

interpretation registered: keyed_table "\<lambda>g. map_of (sessions g)"
    "\<lambda>(so, current, alloc). Id (the so)" "\<lambda>(so, current, alloc). the so"
    "\<lambda>g (so, current, alloc). Registry_Register alloc current g so"
proof
  fix t t' :: "'a Registry" and r :: "'a Session option \<times> nat \<times> bool"
  assume "(case r of (so, current, alloc) \<Rightarrow> Registry_Register alloc current t so) = Some (Ok, t')"
  then show "map_of (sessions t) (case r of (so, current, alloc) \<Rightarrow> Id (the so)) = None \<and>
      map_of (sessions t') = (map_of (sessions t))(case r of (so, current, alloc) \<Rightarrow> Id (the so) \<mapsto>
        case r of (so, current, alloc) \<Rightarrow> the so)"
    by (cases r) (auto dest: Registry_Register_entered)
next
  fix t t' :: "'a Registry" and r :: "'a Session option \<times> nat \<times> bool" and e
  assume "(case r of (so, current, alloc) \<Rightarrow> Registry_Register alloc current t so) = Some (e, t')" "e \<noteq> Ok"
  then show "map_of (sessions t') = map_of (sessions t)"
    by (cases r) (auto dest: Registry_Register_refused)
qed

lemma Registry_ok_create: "Registry_ok Registry_create"
  by (simp add: Registry_ok_def Registry_create_def)

lemma Registry_ok_Register:
  assumes "Registry_ok g" "Registry_Register alloc current g so = Some (e, g')"
  shows "Registry_ok g'"
proof (cases "e = Ok")
  case True
  with assms Registry_Register_entered [of alloc current g so g'] show ?thesis
    by (auto simp: Registry_ok_def map_of_eq_None_iff)
next
  case False
  with assms Registry_Register_refused show ?thesis by blast
qed

lemma Registry_ok_Unregister: "Registry_ok g \<Longrightarrow> Registry_ok (snd (Unregister i g))"
  by (auto simp: Registry_ok_def Unregister_def distinct_map inj_on_def)

section \<open>Concurrent executions of a process\<close>

text \<open>
  Where a thread stands inside \<^verbatim>\<open>IssueId\<close>: it has loaded a value, it has won the exchange and is
  about to reserve, it has returned, or it has failed the assertion.
\<close>

datatype IssuePc =
    IssueLoaded SessionId
  | IssueReserving SessionId
  | IssueDone "SessionId result"
  | IssueAborted

record 's Process =
  gNextSessionId :: SessionId
  registries :: "nat \<Rightarrow> 's Registry"
  calls :: "nat \<Rightarrow> (nat \<times> IssuePc) option"

definition Process_create :: "'s Process" where
  "Process_create = \<lparr>gNextSessionId = 1, registries = (\<lambda>r. Registry_create), calls = Map.empty\<rparr>"

datatype Event =
    Took SessionId | Retried nat | Returned SessionId | Registered SessionId

definition IssueId_load :: "nat \<Rightarrow> nat \<Rightarrow> 's Process \<Rightarrow> 's Process" where
  "IssueId_load t r p = p\<lparr>calls := (calls p)(t \<mapsto> (r, IssueLoaded (gNextSessionId p)))\<rparr>"

text \<open>
  One turn of the loop: the exhaustion check, then \<^verbatim>\<open>compare_exchange_weak\<close>, which may fail
  spuriously and in any case loads the current value when it fails.
\<close>

definition IssueId_turn ::
    "bool \<Rightarrow> nat \<Rightarrow> nat \<Rightarrow> SessionId \<Rightarrow> 's Process \<Rightarrow> Event list \<times> 's Process" where
  "IssueId_turn spurious t r current p =
     (if current = 0 then ([], p\<lparr>calls := (calls p)(t \<mapsto> (r, IssueDone (Inl TooLarge)))\<rparr>)
      else if gNextSessionId p = current \<and> \<not> spurious then
        ([Took current], p\<lparr>gNextSessionId := next_id current, calls := (calls p)(t \<mapsto> (r, IssueReserving current))\<rparr>)
      else (if gNextSessionId p = current then [] else [Retried t],
            p\<lparr>calls := (calls p)(t \<mapsto> (r, IssueLoaded (gNextSessionId p)))\<rparr>))"

definition IssueId_reserve ::
    "bool \<Rightarrow> nat \<Rightarrow> nat \<Rightarrow> SessionId \<Rightarrow> 's Process \<Rightarrow> Event list \<times> 's Process" where
  "IssueId_reserve alloc t r current p =
     (case ReserveIssued alloc current (registries p r) of
        None \<Rightarrow> ([], p\<lparr>calls := (calls p)(t \<mapsto> (r, IssueAborted))\<rparr>)
      | Some (res, g) \<Rightarrow>
          (case res of Inl e \<Rightarrow> [] | Inr i \<Rightarrow> [Returned i],
           p\<lparr>registries := (registries p)(r := g), calls := (calls p)(t \<mapsto> (r, IssueDone res))\<rparr>))"

inductive process_step :: "'s Process \<Rightarrow> Event list \<Rightarrow> 's Process \<Rightarrow> bool" where
  load: "(case calls p t of Some (_, IssueLoaded _) \<Rightarrow> False | Some (_, IssueReserving _) \<Rightarrow> False | _ \<Rightarrow> True) \<Longrightarrow>
     process_step p [] (IssueId_load t r p)"
| turn: "calls p t = Some (r, IssueLoaded current) \<Longrightarrow> IssueId_turn spurious t r current p = (evs, p') \<Longrightarrow>
     process_step p evs p'"
| reserve: "calls p t = Some (r, IssueReserving current) \<Longrightarrow> IssueId_reserve alloc t r current p = (evs, p') \<Longrightarrow>
     process_step p evs p'"
| bind: "process_step p [] (p\<lparr>registries := (registries p)(r := snd (BindToCurrentThread t (registries p r)))\<rparr>)"
| discard: "process_step p [] (p\<lparr>registries := (registries p)(r := snd (DiscardIssuedId i (registries p r)))\<rparr>)"
| register: "Registry_Register alloc t (registries p r) so = Some (e, g) \<Longrightarrow>
     process_step p (if e = Ok then [Registered (Id (the so))] else []) (p\<lparr>registries := (registries p)(r := g)\<rparr>)"
| unregister: "process_step p [] (p\<lparr>registries := (registries p)(r := snd (Unregister i (registries p r)))\<rparr>)"

inductive executes :: "Event list \<Rightarrow> 's Process \<Rightarrow> bool" where
  start: "executes [] Process_create"
| step: "executes tr p \<Longrightarrow> process_step p evs p' \<Longrightarrow> executes (tr @ evs) p'"

definition taken :: "Event list \<Rightarrow> SessionId list" where
  "taken tr = List.map_filter (\<lambda>e. case e of Took i \<Rightarrow> Some i | _ \<Rightarrow> None) tr"

definition returned :: "Event list \<Rightarrow> SessionId list" where
  "returned tr = List.map_filter (\<lambda>e. case e of Returned i \<Rightarrow> Some i | _ \<Rightarrow> None) tr"

definition registered_ids :: "Event list \<Rightarrow> SessionId list" where
  "registered_ids tr = List.map_filter (\<lambda>e. case e of Registered i \<Rightarrow> Some i | _ \<Rightarrow> None) tr"

definition retries :: "nat \<Rightarrow> Event list \<Rightarrow> nat" where
  "retries t tr = count_list tr (Retried t)"

lemma map_filter_snoc: "List.map_filter f (xs @ ys) = List.map_filter f xs @ List.map_filter f ys"
  by (simp add: List.map_filter_def)

lemma trace_simps [simp]:
  "taken [] = []" "taken (Took i # tr) = i # taken tr" "taken (Returned i # tr) = taken tr"
  "taken (Registered i # tr) = taken tr" "taken (Retried t # tr) = taken tr" "taken (tr @ tr') = taken tr @ taken tr'"
  "returned [] = []" "returned (Returned i # tr) = i # returned tr" "returned (Took i # tr) = returned tr"
  "returned (Registered i # tr) = returned tr" "returned (Retried t # tr) = returned tr"
  "returned (tr @ tr') = returned tr @ returned tr'"
  "registered_ids [] = []" "registered_ids (Registered i # tr) = i # registered_ids tr"
  "registered_ids (Took i # tr) = registered_ids tr" "registered_ids (Returned i # tr) = registered_ids tr"
  "registered_ids (Retried t # tr) = registered_ids tr"
  "registered_ids (tr @ tr') = registered_ids tr @ registered_ids tr'"
  by (simp_all add: taken_def returned_def registered_ids_def map_filter_snoc List.map_filter_simps)

section \<open>Numbers are never reused\<close>

definition reserving :: "'s Process \<Rightarrow> nat \<Rightarrow> SessionId \<Rightarrow> bool" where
  "reserving p t i \<longleftrightarrow> (\<exists>r. calls p t = Some (r, IssueReserving i))"

definition pending :: "'s Process \<Rightarrow> nat \<Rightarrow> SessionId \<Rightarrow> bool" where
  "pending p r i \<longleftrightarrow> i \<in> issuedIds (registries p r)"

text \<open>The counter: what was taken is ascending, non-zero and below the counter.\<close>

definition counter_inv :: "Event list \<Rightarrow> 's Process \<Rightarrow> bool" where
  "counter_inv tr p \<longleftrightarrow> sorted_wrt (<) (taken tr) \<and>
     (\<forall>i \<in> set (taken tr). i \<noteq> 0 \<and> (gNextSessionId p = 0 \<or> i < gNextSessionId p))"

text \<open>A number is held by at most one thread or registry, and registered after it was returned.\<close>

definition holder_inv :: "Event list \<Rightarrow> 's Process \<Rightarrow> bool" where
  "holder_inv tr p \<longleftrightarrow>
     (\<forall>t i. reserving p t i \<longrightarrow> i \<in> set (taken tr) \<and> i \<notin> set (returned tr)) \<and>
     (\<forall>t t' i. reserving p t i \<longrightarrow> reserving p t' i \<longrightarrow> t = t') \<and>
     (\<forall>r i. pending p r i \<longrightarrow> i \<in> set (returned tr) \<and> i \<notin> set (registered_ids tr)) \<and>
     (\<forall>r r' i. pending p r i \<longrightarrow> pending p r' i \<longrightarrow> r = r') \<and>
     distinct (returned tr) \<and> distinct (registered_ids tr) \<and>
     set (registered_ids tr) \<subseteq> set (returned tr) \<and> set (returned tr) \<subseteq> set (taken tr) \<and>
     (\<forall>t r. calls p t \<noteq> Some (r, IssueAborted))"

lemma unat_next_id: "next_id c \<noteq> 0 \<Longrightarrow> unat (next_id c) = Suc (unat c)"
  using unatSuc [of c] by (auto simp: next_id_def add.commute split: if_splits)

lemma next_id_greater: "next_id c = 0 \<or> c < next_id c"
  using unat_next_id [of c] by (cases "next_id c = 0") (simp_all add: word_less_nat_alt)

lemma IssueId_turn_cases:
  assumes "IssueId_turn spurious t r c p = (evs, p')"
  obtains (exhausted) "c = 0" "evs = []" "p' = p\<lparr>calls := (calls p)(t \<mapsto> (r, IssueDone (Inl TooLarge)))\<rparr>"
  | (won) "c \<noteq> 0" "gNextSessionId p = c" "evs = [Took c]"
      "p' = p\<lparr>gNextSessionId := next_id c, calls := (calls p)(t \<mapsto> (r, IssueReserving c))\<rparr>"
  | (lost) "c \<noteq> 0" "evs = (if gNextSessionId p = c then [] else [Retried t])"
      "p' = p\<lparr>calls := (calls p)(t \<mapsto> (r, IssueLoaded (gNextSessionId p)))\<rparr>"
  using assms by (simp add: IssueId_turn_def split: if_splits)

lemma counter_inv_step:
  assumes "counter_inv tr p" "process_step p evs p'"
  shows "counter_inv (tr @ evs) p'"
  using assms(2,1)
proof cases
  case (turn t r current spurious)
  from turn(2) show ?thesis
  proof (cases rule: IssueId_turn_cases)
    case won
    with assms(1) next_id_greater [of current] show ?thesis
      by (auto simp: counter_inv_def sorted_wrt_append intro: less_trans)
  qed (use assms(1) in \<open>auto simp: counter_inv_def\<close>)
next
  case (reserve t r current alloc)
  then show ?thesis using assms(1)
    by (auto simp: counter_inv_def IssueId_reserve_def split: option.splits prod.splits sum.splits)
qed (auto simp: counter_inv_def IssueId_load_def)

lemma holder_invD:
  assumes "holder_inv tr p"
  shows "reserving p t i \<Longrightarrow> i \<in> set (taken tr)" "reserving p t i \<Longrightarrow> i \<notin> set (returned tr)"
    "reserving p t i \<Longrightarrow> reserving p t' i \<Longrightarrow> t = t'" "pending p r i \<Longrightarrow> i \<in> set (returned tr)"
    "pending p r i \<Longrightarrow> i \<notin> set (registered_ids tr)" "pending p r i \<Longrightarrow> pending p r' i \<Longrightarrow> r = r'"
    "distinct (returned tr)" "distinct (registered_ids tr)" "set (registered_ids tr) \<subseteq> set (returned tr)"
    "set (returned tr) \<subseteq> set (taken tr)" "calls p t \<noteq> Some (r, IssueAborted)"
  using assms unfolding holder_inv_def by blast+

text \<open>Operations on registries only ever give up reservations.\<close>

lemma holder_inv_weaken:
  assumes "holder_inv tr p" "issuedIds g \<subseteq> issuedIds (registries p r)"
  shows "holder_inv tr (p\<lparr>registries := (registries p)(r := g)\<rparr>)" (is "holder_inv tr ?p")
proof -
  have "reserving ?p = reserving p" by (simp add: reserving_def fun_eq_iff)
  moreover have "pending ?p q i \<Longrightarrow> pending p q i" for q i using assms(2) by (auto simp: pending_def split: if_splits)
  ultimately show ?thesis using assms(1) unfolding holder_inv_def by simp metis
qed

lemma reservations_shrink:
  "issuedIds (snd (BindToCurrentThread t g)) \<subseteq> issuedIds g"
  "issuedIds (snd (DiscardIssuedId i g)) \<subseteq> issuedIds g"
  "issuedIds (snd (Unregister i g)) \<subseteq> issuedIds g"
  by (auto simp: BindToCurrentThread_def DiscardIssuedId_def Unregister_def)

text \<open>A thread that leaves the loop, or starts it, or turns once more, holds nothing.\<close>

lemma holder_inv_calls:
  assumes "holder_inv tr p" "taken evs = []" "returned evs = []" "registered_ids evs = []"
    and "p' = p\<lparr>calls := (calls p)(t \<mapsto> (r, pc))\<rparr>" "case pc of IssueLoaded _ \<Rightarrow> True | IssueDone _ \<Rightarrow> True | _ \<Rightarrow> False"
  shows "holder_inv (tr @ evs) p'"
proof -
  have "pending p' = pending p" using assms(5) by (simp add: pending_def fun_eq_iff)
  moreover have "reserving p' u i \<Longrightarrow> reserving p u i" for u i
    using assms(5,6) by (auto simp: reserving_def split: if_splits)
  moreover have "calls p' u \<noteq> Some (q, IssueAborted)" for u q
    using assms(5,6) holder_invD(11) [OF assms(1)] by (auto split: if_splits)
  ultimately show ?thesis
    using assms(1-4) unfolding holder_inv_def by simp metis
qed

lemma holder_inv_reserve:
  assumes inv: "holder_inv tr p" and pc: "calls p t = Some (r, IssueReserving c)"
    and run: "IssueId_reserve alloc t r c p = (evs, p')"
  shows "holder_inv (tr @ evs) p'"
proof -
  have held: "reserving p t c" using pc by (simp add: reserving_def)
  have free: "\<not> pending p q c" for q using holder_invD(2,4) [OF inv] held by blast
  show ?thesis
  proof (cases alloc)
    case False
    then have "evs = []" "p' = p\<lparr>calls := (calls p)(t \<mapsto> (r, IssueDone (Inl PlatformError)))\<rparr>"
      using run by (auto simp: IssueId_reserve_def ReserveIssued_def)
    then show ?thesis using holder_inv_calls [OF inv, of "[]" p'] by simp
  next
    case True
    have "c \<notin> issuedIds (registries p r)" using free by (simp add: pending_def)
    then have evs: "evs = [Returned c]" and p': "p' = p\<lparr>registries := (registries p)(r := registries p r
        \<lparr>issuedIds := insert c (issuedIds (registries p r))\<rparr>), calls := (calls p)(t \<mapsto> (r, IssueDone (Inr c)))\<rparr>"
      using run True by (auto simp: IssueId_reserve_def ReserveIssued_def)
    have res: "reserving p' u i \<longleftrightarrow> reserving p u i \<and> u \<noteq> t" for u i by (auto simp: p' reserving_def)
    have pend: "pending p' q i \<longleftrightarrow> pending p q i \<or> q = r \<and> i = c" for q i by (auto simp: p' pending_def)
    have aborted: "calls p' u \<noteq> Some (q, IssueAborted)" for u q using holder_invD(11) [OF inv] by (simp add: p')
    have "c \<notin> set (registered_ids tr)" using holder_invD(9) [OF inv] holder_invD(2) [OF inv held] by blast
    with holder_invD [OF inv] res pend aborted held free show ?thesis
      unfolding holder_inv_def evs by (intro conjI) (simp; blast)+
  qed
qed

lemma holder_inv_turn:
  assumes inv: "holder_inv tr p" "counter_inv tr p" and pc: "calls p t = Some (r, IssueLoaded c)"
    and run: "IssueId_turn spurious t r c p = (evs, p')"
  shows "holder_inv (tr @ evs) p'"
  using run
proof (cases rule: IssueId_turn_cases)
  case won
  have fresh: "c \<notin> set (taken tr)" using inv(2) won(1,2) by (auto simp: counter_inv_def)
  have res: "reserving p' u i \<longleftrightarrow> (if u = t then i = c else reserving p u i)" for u i
    by (auto simp: won(4) reserving_def)
  have pend: "pending p' = pending p" by (simp add: won(4) pending_def fun_eq_iff)
  have aborted: "calls p' u \<noteq> Some (q, IssueAborted)" for u q using holder_invD(11) [OF inv(1)] by (simp add: won(4))
  have old: "reserving p u c \<Longrightarrow> False" for u using holder_invD(1) [OF inv(1)] fresh by blast
  have "c \<notin> set (returned tr)" using holder_invD(10) [OF inv(1)] fresh by blast
  with holder_invD [OF inv(1)] res aborted old show ?thesis
    unfolding holder_inv_def won(3) pend by (intro conjI) (simp; (metis | blast))+
next
  case exhausted
  then show ?thesis using holder_inv_calls [OF inv(1), of evs p' t r] by simp
next
  case lost
  then show ?thesis using holder_inv_calls [OF inv(1), of evs p' t r] by simp
qed

lemma holder_inv_register:
  assumes inv: "holder_inv tr p" and run: "Registry_Register alloc t (registries p r) so = Some (e, g)"
  shows "holder_inv (tr @ (if e = Ok then [Registered (Id (the so))] else [])) (p\<lparr>registries := (registries p)(r := g)\<rparr>)"
proof (cases "e = Ok")
  case False
  then have "g = registries p r" using run Registry_Register_refused by blast
  then show ?thesis using inv False by simp
next
  case True
  let ?p = "p\<lparr>registries := (registries p)(r := g)\<rparr>" and ?i = "Id (the so)"
  from True run Registry_Register_entered [of alloc t "registries p r" so g]
  have mine: "pending p r ?i" and ids: "issuedIds g = issuedIds (registries p r) - {?i}"
    by (auto simp: pending_def)
  have pend: "pending ?p q j \<longleftrightarrow> pending p q j \<and> \<not> (q = r \<and> j = ?i)" for q j by (auto simp: pending_def ids)
  have res: "reserving ?p = reserving p" by (simp add: reserving_def fun_eq_iff)
  have "?i \<in> set (returned tr)" "?i \<notin> set (registered_ids tr)" using holder_invD(4,5) [OF inv mine] .
  then show ?thesis
    using holder_invD [OF inv] mine pend True unfolding holder_inv_def res by (intro conjI) (simp; blast)+
qed

lemma executes_invs: "executes tr p \<Longrightarrow> counter_inv tr p \<and> holder_inv tr p"
proof (induction rule: executes.induct)
  case start
  show ?case
    by (simp add: counter_inv_def holder_inv_def Process_create_def reserving_def pending_def Registry_create_def)
next
  case (step tr p evs p')
  from step.hyps(2) have "holder_inv (tr @ evs) p'"
  proof cases
    case (load t r)
    then show ?thesis using holder_inv_calls [of tr p "[]"] step.IH by (auto simp: IssueId_load_def)
  next
    case (register alloc t r so e g)
    show ?thesis unfolding register(1,2) using step.IH register(3) by (intro holder_inv_register) auto
  qed (use step.IH holder_inv_turn holder_inv_reserve
      holder_inv_weaken [OF _ reservations_shrink(1)] holder_inv_weaken [OF _ reservations_shrink(2)]
      holder_inv_weaken [OF _ reservations_shrink(3)] in auto)
  with step.IH step.hyps(2) counter_inv_step show ?case by blast
qed

text \<open>
  C12. Session numbers are never reused. In every interleaving of threads over every registry of the
  process: the exchanges hand out strictly ascending non-zero numbers; no number is returned by two
  calls of \<^verbatim>\<open>IssueId\<close>; no number is registered twice, not even after it was unregistered or by
  another registry, and only numbers that were returned are registered; and the assertion of
  \<^verbatim>\<open>IssueId\<close> never fires.
\<close>

theorem SessionId_never_reused:
  assumes "executes tr p"
  shows "sorted_wrt (<) (taken tr) \<and> 0 \<notin> set (taken tr) \<and> distinct (returned tr) \<and>
    set (returned tr) \<subseteq> set (taken tr) \<and> distinct (registered_ids tr) \<and>
    set (registered_ids tr) \<subseteq> set (returned tr) \<and> (\<forall>t r. calls p t \<noteq> Some (r, IssueAborted))"
  using executes_invs [OF assms] by (auto simp: counter_inv_def holder_inv_def)

text \<open>The steps of one undisturbed call, for concrete executions.\<close>

definition issued_once :: "nat Process" where
  "issued_once = \<lparr>gNextSessionId = 2, registries = (\<lambda>r. Registry_create)(0 := Registry_create\<lparr>issuedIds := {1}\<rparr>),
     calls = [5 \<mapsto> (0, IssueDone (Inr 1))]\<rparr>"

lemma issued_once_executes: "executes [Took 1, Returned 1] issued_once"
proof -
  let ?p1 = "IssueId_load 5 0 (Process_create :: nat Process)"
  have s1: "executes ([] @ []) ?p1"
    by (rule executes.step [OF executes.start process_step.load]) (simp add: Process_create_def)
  let ?p2 = "snd (IssueId_turn False 5 0 1 ?p1)"
  have s2: "executes (([] @ []) @ [Took 1]) ?p2"
    by (rule executes.step [OF s1 process_step.turn [where t = 5 and r = 0 and current = 1 and spurious = False]])
      (simp_all add: IssueId_load_def Process_create_def IssueId_turn_def)
  have "executes ((([] @ []) @ [Took 1]) @ [Returned 1]) issued_once"
    by (rule executes.step [OF s2 process_step.reserve [where t = 5 and r = 0 and current = 1 and alloc = True]])
      (simp_all add: IssueId_load_def Process_create_def IssueId_turn_def IssueId_reserve_def ReserveIssued_def
        issued_once_def next_id_def Registry_create_def fun_eq_iff)
  then show ?thesis by simp
qed

theorem SessionId_never_reused_witness:
  "executes [Took 1, Returned 1] issued_once \<and> distinct (returned [Took 1, Returned 1])"
  using issued_once_executes SessionId_never_reused [OF issued_once_executes] by simp

section \<open>Progress of \<^verbatim>\<open>IssueId\<close>\<close>

definition retry_inv :: "Event list \<Rightarrow> 's Process \<Rightarrow> bool" where
  "retry_inv tr p \<longleftrightarrow>
     length (taken tr) = (if gNextSessionId p = 0 then 2 ^ 64 - 1 else unat (gNextSessionId p) - 1) \<and>
     (\<forall>t. retries t tr \<le> length (taken tr)) \<and>
     (\<forall>t r c. calls p t = Some (r, IssueLoaded c) \<longrightarrow>
        (c = 0 \<longrightarrow> gNextSessionId p = 0) \<and> (c \<noteq> 0 \<longrightarrow> retries t tr < unat c) \<and>
        (gNextSessionId p = 0 \<or> c \<le> gNextSessionId p))"

lemma retry_invD:
  assumes "retry_inv tr p"
  shows "length (taken tr) = (if gNextSessionId p = 0 then 2 ^ 64 - 1 else unat (gNextSessionId p) - 1)"
    "retries t tr \<le> length (taken tr)" "calls p t = Some (r, IssueLoaded 0) \<Longrightarrow> gNextSessionId p = 0"
    "calls p t = Some (r, IssueLoaded c) \<Longrightarrow> c \<noteq> 0 \<Longrightarrow> retries t tr < unat c"
    "calls p t = Some (r, IssueLoaded c) \<Longrightarrow> gNextSessionId p = 0 \<or> c \<le> gNextSessionId p"
  using assms unfolding retry_inv_def by blast+

lemma retries_simps [simp]:
  "retries t [] = 0" "retries t (tr @ tr') = retries t tr + retries t tr'" "retries t (Took i # tr) = retries t tr"
  "retries t (Returned i # tr) = retries t tr" "retries t (Registered i # tr) = retries t tr"
  "retries t (Retried u # tr) = (if u = t then Suc (retries t tr) else retries t tr)"
  by (simp_all add: retries_def)

text \<open>Steps outside the loop leave the counter, the retries and the numbers taken alone.\<close>

lemma retry_inv_other:
  assumes inv: "retry_inv tr p" and same: "gNextSessionId p' = gNextSessionId p" "taken evs = []" "\<And>t. retries t evs = 0"
    and pcs: "\<And>t r c. calls p' t = Some (r, IssueLoaded c) \<Longrightarrow> calls p t = Some (r, IssueLoaded c)"
  shows "retry_inv (tr @ evs) p'"
proof -
  have "length (taken tr) = (if gNextSessionId p = 0 then 2 ^ 64 - 1 else unat (gNextSessionId p) - 1)"
      "\<forall>t. retries t tr \<le> length (taken tr)"
    using retry_invD(1,2) [OF inv] by blast+
  moreover have "(c = 0 \<longrightarrow> gNextSessionId p = 0) \<and> (c \<noteq> 0 \<longrightarrow> retries t tr < unat c) \<and>
      (gNextSessionId p = 0 \<or> c \<le> gNextSessionId p)" if "calls p' t = Some (r, IssueLoaded c)" for t r c
    using retry_invD(3-5) [OF inv] pcs [OF that] by blast
  ultimately show ?thesis unfolding retry_inv_def by (simp add: same)
qed

lemma retry_inv_load:
  assumes "retry_inv tr p"
  shows "retry_inv tr (IssueId_load t r p)"
proof -
  have "retries t tr \<le> length (taken tr)" using assms unfolding retry_inv_def by blast
  moreover have "gNextSessionId p \<noteq> 0 \<Longrightarrow> 0 < unat (gNextSessionId p)" by (simp add: unat_gt_0)
  ultimately have "gNextSessionId p \<noteq> 0 \<Longrightarrow> retries t tr < unat (gNextSessionId p)"
    using assms by (auto simp: retry_inv_def)
  then show ?thesis using retry_invD [OF assms] unfolding retry_inv_def IssueId_load_def by auto
qed

lemma retry_inv_won:
  assumes inv: "retry_inv tr p" and c: "c \<noteq> 0" "gNextSessionId p = c"
    and p': "p' = p\<lparr>gNextSessionId := next_id c, calls := (calls p)(t \<mapsto> (r, IssueReserving c))\<rparr>"
  shows "retry_inv (tr @ [Took c]) p'"
proof -
  have "0 < unat c" using c(1) by (simp add: unat_gt_0)
  moreover have "length (taken tr) = unat c - 1" using inv c by (simp add: retry_inv_def)
  ultimately have len: "Suc (length (taken tr)) = unat c" by simp
  have top: "unat c = 2 ^ 64 - 1" if "next_id c = 0"
  proof -
    have "c = - 1" using that unatSuc [of c] by (auto simp: next_id_def add_eq_0_iff2 split: if_splits)
    then show ?thesis by (simp add: unsigned_minus_1_eq_mask mask_eq_exp_minus_1)
  qed
  have count: "Suc (length (taken tr)) = (if next_id c = 0 then 2 ^ 64 - 1 else unat (next_id c) - 1)"
    using len top unat_next_id [of c] by simp
  have "next_id c = 0 \<or> x \<le> next_id c" if "x \<le> c" for x using next_id_greater [of c] that by force
  moreover have "retries u tr \<le> Suc (length (taken tr))" for u using retry_invD(2) [OF inv] le_SucI by blast
  ultimately show ?thesis using retry_invD [OF inv] count c unfolding retry_inv_def p' by auto
qed

lemma retry_inv_lost:
  assumes inv: "retry_inv tr p" and pc: "calls p t = Some (r, IssueLoaded c)" and c: "c \<noteq> 0"
    and evs: "evs = (if gNextSessionId p = c then [] else [Retried t])"
    and p': "p' = p\<lparr>calls := (calls p)(t \<mapsto> (r, IssueLoaded (gNextSessionId p)))\<rparr>"
  shows "retry_inv (tr @ evs) p'"
proof -
  let ?n = "gNextSessionId p"
  have mine: "retries t tr < unat c" "?n = 0 \<or> c \<le> ?n" using retry_invD(4,5) [OF inv pc] c by auto
  have len: "length (taken tr) = (if ?n = 0 then 2 ^ 64 - 1 else unat ?n - 1)" using inv by (simp add: retry_inv_def)
  have "?n = 0 \<or> unat c < unat ?n" if "?n \<noteq> c" using mine(2) that by (auto simp: word_le_nat_alt word_unat_eq_iff)
  then have more: "?n \<noteq> 0 \<Longrightarrow> retries t (tr @ evs) < unat ?n" using mine evs by (cases "?n = c") auto
  have "unat c < 2 ^ 64" using unat64_less [of c] by simp
  then have "retries t (tr @ evs) \<le> length (taken tr)"
    using len more mine(1) evs c by (cases "?n = 0") (auto split: if_splits)
  then show ?thesis using retry_invD [OF inv] more evs unfolding retry_inv_def p' by (auto simp: le_SucI)
qed

lemma executes_retry_inv: "executes tr p \<Longrightarrow> retry_inv tr p"
proof (induction rule: executes.induct)
  case start
  show ?case by (simp add: retry_inv_def Process_create_def)
next
  case (step tr p evs p')
  from step.hyps(2) show ?case
  proof cases
    case (load t r)
    then show ?thesis using retry_inv_load [OF step.IH] by simp
  next
    case (turn t r c spurious)
    from turn(2) show ?thesis
    proof (cases rule: IssueId_turn_cases)
      case exhausted
      then show ?thesis by (intro retry_inv_other [OF step.IH]) (auto split: if_splits)
    next
      case won
      then show ?thesis using retry_inv_won [OF step.IH] by simp
    next
      case lost
      then show ?thesis using retry_inv_lost [OF step.IH turn(1)] by simp
    qed
  next
    case (reserve t r c alloc)
    then show ?thesis
      by (intro retry_inv_other [OF step.IH])
        (auto simp: IssueId_reserve_def split: if_splits option.splits prod.splits sum.splits)
  qed (use retry_inv_other [OF step.IH, of p' evs] in auto)
qed

text \<open>A thread that runs its call alone, without spurious failures of the exchange.\<close>

definition IssueId_solo :: "bool \<Rightarrow> nat \<Rightarrow> 's Process \<Rightarrow> 's Process" where
  "IssueId_solo alloc t p =
     (case calls p t of
        Some (r, IssueLoaded c) \<Rightarrow> snd (IssueId_turn False t r c p)
      | Some (r, IssueReserving c) \<Rightarrow> snd (IssueId_reserve alloc t r c p)
      | _ \<Rightarrow> p)"

text \<open>
  \<^verbatim>\<open>IssueId\<close> makes progress. In every execution a thread has lost the exchange to others at most
  as often as numbers were taken, and a thread that is inside the loop, left to run alone, returns
  within three steps: the next number, \<^verbatim>\<open>TooLarge\<close> if all numbers are used up, or
  \<^verbatim>\<open>PlatformError\<close> if the reservation could not be stored.
\<close>

theorem IssueId_progress:
  assumes "executes tr p"
  shows "retries t tr \<le> length (taken tr) \<and>
    (\<forall>r c. calls p t = Some (r, IssueLoaded c) \<longrightarrow>
       calls ((IssueId_solo alloc t ^^ 3) p) t = Some (r, IssueDone
         (if gNextSessionId p = 0 then Inl TooLarge
          else if alloc then Inr (gNextSessionId p) else Inl PlatformError)))"
proof (intro conjI allI impI)
  show "retries t tr \<le> length (taken tr)" using executes_retry_inv [OF assms] unfolding retry_inv_def by blast
  fix r c
  assume pc: "calls p t = Some (r, IssueLoaded c)"
  have zero: "c = 0 \<Longrightarrow> gNextSessionId p = 0" using retry_invD(3) [OF executes_retry_inv [OF assms]] pc by simp
  have "gNextSessionId p \<notin> set (taken tr)"
    using executes_invs [OF assms] by (auto simp: counter_inv_def)
  then have free: "gNextSessionId p \<notin> issuedIds (registries p r)"
    using executes_invs [OF assms] unfolding holder_inv_def pending_def by blast
  show "calls ((IssueId_solo alloc t ^^ 3) p) t = Some (r, IssueDone
      (if gNextSessionId p = 0 then Inl TooLarge else if alloc then Inr (gNextSessionId p) else Inl PlatformError))"
    using pc zero free
    by (auto simp: numeral_3_eq_3 IssueId_solo_def IssueId_turn_def IssueId_reserve_def ReserveIssued_def)
qed

theorem IssueId_progress_witness:
  "executes ([Took 1, Returned 1] @ []) (IssueId_load 9 2 issued_once) \<and>
   calls ((IssueId_solo True 9 ^^ 3) (IssueId_load 9 2 issued_once)) 9 = Some (2, IssueDone (Inr 2))"
proof -
  have ex: "executes ([Took 1, Returned 1] @ []) (IssueId_load 9 2 issued_once)"
    by (rule executes.step [OF issued_once_executes process_step.load]) (simp add: issued_once_def)
  moreover have "calls (IssueId_load 9 2 issued_once) 9 = Some (2, IssueLoaded 2)"
    "gNextSessionId (IssueId_load 9 2 issued_once) = 2"
    by (simp_all add: IssueId_load_def issued_once_def)
  ultimately show ?thesis using IssueId_progress [OF ex, of 9 True] by simp
qed

text \<open>
  Visiting is exact: \<^verbatim>\<open>ForEach\<close> calls the visitor once for every session that was registered when
  it started and for no other, whatever the visitor does to the registry meanwhile, or it visits
  nobody and reports that the snapshot could not be allocated.
\<close>

theorem ForEach_visits_each_once:
  assumes "Registry_ok g" and "RequireMutationThread current g"
  shows "\<exists>visited. distinct (map Id visited) \<and> set visited = ran (map_of (sessions g)) \<and>
    length visited = the (Count current g) \<and>
    ForEach alloc current g (Some visit) w =
      Some (if alloc then (Ok, fold visit visited (g, w)) else (PlatformError, g, w))"
proof (intro exI conjI)
  have ids: "map Id (map snd (sessions g)) = map fst (sessions g)" using assms(1) by (auto simp: Registry_ok_def)
  then show "distinct (map Id (map snd (sessions g)))" using assms(1) unfolding ids Registry_ok_def by blast
  show "set (map snd (sessions g)) = ran (map_of (sessions g))"
    using assms(1) by (simp add: Registry_ok_def ran_distinct)
qed (use assms(2) in \<open>simp_all add: Count_def ForEach_def\<close>)

theorem ForEach_visits_each_once_witness:
  "ForEach True 3 \<lparr>sessions = [(1, \<lparr>Id = 1, payload = ()\<rparr>), (4, \<lparr>Id = 4, payload = ()\<rparr>)], issuedIds = {},
     mutationThread = 3, isBound = True\<rparr> (Some (\<lambda>s (g, w). (snd (Unregister 4 g), w + 1))) (0::nat) =
   Some (Ok, \<lparr>sessions = [(1, \<lparr>Id = 1, payload = ()\<rparr>)], issuedIds = {}, mutationThread = 3, isBound = True\<rparr>, 2)"
proof -
  let ?g = "\<lparr>sessions = [(1, \<lparr>Id = 1, payload = ()\<rparr>), (4, \<lparr>Id = 4, payload = ()\<rparr>)], issuedIds = {},
     mutationThread = 3, isBound = True\<rparr>"
  have "Registry_ok ?g" "RequireMutationThread 3 ?g"
    by (simp_all add: Registry_ok_def RequireMutationThread_def IsValid_def Invalid_def)
  from ForEach_visits_each_once [OF this, of True] show ?thesis
    by (simp add: ForEach_def RequireMutationThread_def Unregister_def IsValid_def Invalid_def)
qed

end
