(* ===== verification/StreamDecoder.thy ===== *)
theory StreamDecoder
  imports Prelude
begin

text \<open>
  The interface between a transport that delivers bytes in arbitrary pieces and a decoder
  that cuts them into units: a decoder that implements a one-shot specification of the whole
  stream delivers the same units however the stream is cut into pieces.

  The specification is a function that splits a byte sequence into the completed units, the
  undecided rest and a flag that tells whether the stream is broken. A concrete decoder has a
  state that holds the undecided rest and a \<open>feed\<close> operation for one piece.
\<close>

locale stream_decoder =
  fixes split :: "'b list \<Rightarrow> 'o list \<times> 'b list \<times> bool"
    and ready :: "'s \<Rightarrow> bool"
    and pending :: "'s \<Rightarrow> 'b list"
    and feed :: "'s \<Rightarrow> 'b list \<Rightarrow> 'o list \<times> bool \<times> 's"
  assumes split_more: "split xs = (os, rest, False) \<Longrightarrow>
        split (xs @ ys) = (case split (rest @ ys) of (os', r) \<Rightarrow> (os @ os', r))"
    and split_broken: "split xs = (os, rest, True) \<Longrightarrow> \<exists>r. split (xs @ ys) = (os, r, True)"
    and split_rest: "split xs = (os, rest, False) \<Longrightarrow> split rest = ([], rest, False)"
    and feed_ok: "ready s \<Longrightarrow> split (pending s @ ys) = (os, rest, False) \<Longrightarrow>
        \<exists>s'. feed s ys = (os, False, s') \<and> ready s' \<and> pending s' = rest"
    and feed_broken: "ready s \<Longrightarrow> split (pending s @ ys) = (os, rest, True) \<Longrightarrow>
        \<exists>s'. feed s ys = (os, True, s')"
begin

text \<open>Feeding pieces until one of them reports a broken stream.\<close>

fun feed_all :: "'s \<Rightarrow> 'b list list \<Rightarrow> 'o list \<times> bool \<times> 's" where
  "feed_all s [] = ([], False, s)"
| "feed_all s (p # ps) =
     (case feed s p of
        (os, True, s') \<Rightarrow> (os, True, s')
      | (os, False, s') \<Rightarrow> (case feed_all s' ps of (os', r) \<Rightarrow> (os @ os', r)))"

lemma feed_all_spec:
  assumes "ready s" "split (pending s) = ([], pending s, False)"
    "split (pending s @ concat ps) = (os, rest, broken)"
  shows "\<exists>s'. feed_all s ps = (os, broken, s') \<and> (\<not> broken \<longrightarrow> ready s' \<and> pending s' = rest)"
  using assms
proof (induction ps arbitrary: s os)
  case Nil
  then show ?case by auto
next
  case (Cons p ps)
  obtain os1 rest1 b1 where one: "split (pending s @ p) = (os1, rest1, b1)"
    by (cases "split (pending s @ p)") auto
  show ?case
  proof (cases b1)
    case True
    with one feed_broken [OF Cons.prems(1), of p os1 rest1]
    obtain s1 where "feed s p = (os1, True, s1)" by auto
    moreover have "os = os1" "broken"
      using split_broken [of "pending s @ p" os1 rest1 "concat ps"] one True Cons.prems(3) by auto
    ultimately show ?thesis by simp
  next
    case False
    with one feed_ok [OF Cons.prems(1), of p os1 rest1] obtain s1
      where s1: "feed s p = (os1, False, s1)" "ready s1" "pending s1 = rest1" by auto
    obtain os2 r2 b2 where two: "split (rest1 @ concat ps) = (os2, r2, b2)"
      by (cases "split (rest1 @ concat ps)") auto
    have all: "os = os1 @ os2" "rest = r2" "broken = b2"
      using split_more [of "pending s @ p" os1 rest1 "concat ps"] one False two Cons.prems(3)
      by auto
    have "split (pending s1) = ([], pending s1, False)"
      using split_rest [of "pending s @ p"] one False s1(3) by simp
    with Cons.IH [OF s1(2)] two s1(3) all obtain s'
      where "feed_all s1 ps = (os2, b2, s') \<and> (\<not> b2 \<longrightarrow> ready s' \<and> pending s' = r2)" by auto
    then show ?thesis using s1 all by auto
  qed
qed

text \<open>How the stream is cut does not matter.\<close>

lemma feed_all_chunking:
  assumes "ready s" "split (pending s) = ([], pending s, False)" "concat ps = concat qs"
  shows "fst (feed_all s ps) = fst (feed_all s qs) \<and>
         fst (snd (feed_all s ps)) = fst (snd (feed_all s qs))"
proof -
  obtain os rest b where "split (pending s @ concat qs) = (os, rest, b)"
    by (cases "split (pending s @ concat qs)") auto
  with feed_all_spec [OF assms(1,2)] assms(3) show ?thesis by (metis fst_conv snd_conv)
qed

end

end
