(* ===== verification/FrameCodec.thy ===== *)
theory FrameCodec
  imports StreamDecoder
begin

text \<open>
  The length-prefixed wire format (\<^verbatim>\<open>include/ServerCore/Protocol/FrameCodec.h\<close>): the
  streaming \<^verbatim>\<open>Reader\<close> over caller-provided storage, and \<^verbatim>\<open>EncodeTo\<close>. The reader is shown to
  deliver exactly the frames of the byte stream, in order, however the stream is cut into
  pieces, and decoding inverts encoding.
\<close>

section \<open>Constants and results\<close>

definition HeaderSize :: nat where
  [simp]: "HeaderSize = 4"

datatype FrameError =
    FE_None | FE_WouldBlock | FE_TooLarge | FE_InvalidFormat | FE_InvalidArgument
  | FE_InsufficientStorage

record AppendResult =
  ar_error :: FrameError
  ar_consumed :: nat

record EncodeResult =
  er_error :: FrameError
  er_required :: nat
  er_written :: nat

section \<open>The reader\<close>

record Reader =
  mStorage :: "byte list"
  mMaxBodySize :: "32 word"
  mStart :: nat
  mEnd :: nat
  mTerminalError :: FrameError
  mInvokingCallback :: bool

definition RequiredStorageSize :: "32 word \<Rightarrow> nat" where
  "RequiredStorageSize maxBodySize =
     (let bodySize = unat maxBodySize
      in if bodySize > SIZE_MAX - HeaderSize then 0 else HeaderSize + bodySize)"

definition Reader_create :: "byte list \<Rightarrow> 32 word \<Rightarrow> Reader" where
  "Reader_create storage maxBodySize =
     (let required = RequiredStorageSize maxBodySize
      in \<lparr>mStorage = storage, mMaxBodySize = maxBodySize, mStart = 0, mEnd = 0,
          mTerminalError = (if required = 0 \<or> length storage < required
                            then FE_InsufficientStorage else FE_None),
          mInvokingCallback = False\<rparr>)"

text \<open>The little-endian number in the first four bytes.\<close>

definition le32 :: "byte list \<Rightarrow> 32 word" where
  "le32 bytes =
     ucast (bytes ! 0) OR push_bit 8 (ucast (bytes ! 1)) OR push_bit 16 (ucast (bytes ! 2)) OR
     push_bit 24 (ucast (bytes ! 3))"

definition ReadLittleEndianLength :: "Reader \<Rightarrow> 32 word" where
  "ReadLittleEndianLength r = le32 (drop (mStart r) (mStorage r))"

text \<open>
  The checks at the entry of \<^verbatim>\<open>Append\<close>, in order. The first component is the error it returns
  at once, if any. A callback that calls \<^verbatim>\<open>Append\<close> of the same reader meets the last check.
\<close>

definition Append_entry :: "Reader \<Rightarrow> bool \<Rightarrow> FrameError option \<times> Reader" where
  "Append_entry r callbackIsNull =
     (if mTerminalError r \<noteq> FE_None then (Some (mTerminalError r), r)
      else if callbackIsNull then (Some FE_InvalidArgument, r)
      else if mInvokingCallback r then
        (Some FE_InvalidFormat, r\<lparr>mTerminalError := FE_InvalidFormat\<rparr>)
      else (None, r))"

lemma Append_entry_frame [simp]:
  "mStart (snd (Append_entry r n)) = mStart r" "mEnd (snd (Append_entry r n)) = mEnd r"
  "mStorage (snd (Append_entry r n)) = mStorage r"
  by (simp_all add: Append_entry_def)

text \<open>
  A callback receives its context and a completed body; the flag it returns tells whether it
  re-entered \<^verbatim>\<open>Append\<close> of this reader, which its contract forbids and the reader detects.
\<close>

type_synonym 'c callback = "'c \<Rightarrow> byte list \<Rightarrow> 'c \<times> bool"

definition invoke_callback :: "'c callback \<Rightarrow> 'c \<Rightarrow> Reader \<Rightarrow> byte list \<Rightarrow> 'c \<times> Reader" where
  "invoke_callback callback context r body =
     (let r1 = r\<lparr>mInvokingCallback := True\<rparr>;
          (context', reentered) = callback context body;
          r2 = (if reentered then snd (Append_entry r1 False) else r1)
      in (context', r2\<lparr>mInvokingCallback := False\<rparr>))"

lemma invoke_callback_frame [simp]:
  "mStart (snd (invoke_callback cb c r b)) = mStart r"
  "mEnd (snd (invoke_callback cb c r b)) = mEnd r"
  by (simp_all add: invoke_callback_def Let_def split: prod.splits)

function PumpCompletedFrames ::
    "'c callback \<Rightarrow> 'c \<Rightarrow> Reader \<Rightarrow> FrameError \<times> 'c \<times> Reader" where
  "PumpCompletedFrames callback context r =
     (if mEnd r - mStart r \<ge> HeaderSize then
        let bodyLength = ReadLittleEndianLength r in
        if bodyLength > mMaxBodySize r then
          (FE_TooLarge, context, r\<lparr>mTerminalError := FE_TooLarge\<rparr>)
        else
          let frameSize = HeaderSize + unat bodyLength in
          if mEnd r - mStart r < frameSize then (FE_None, context, r)
          else
            let called = invoke_callback callback context r
                  (region (mStorage r) (mStart r + HeaderSize)
                     (mStart r + HeaderSize + unat bodyLength))
            in if mTerminalError (snd called) \<noteq> FE_None
               then (mTerminalError (snd called), called)
               else PumpCompletedFrames callback (fst called)
                      ((snd called)\<lparr>mStart := mStart (snd called) + frameSize\<rparr>)
      else (FE_None, context, r))"
  by pat_completeness auto
termination
  by (relation "measure (\<lambda>(cb, c, r). mEnd r - mStart r)") (auto simp: Let_def)

declare PumpCompletedFrames.simps [simp del]

definition CompactUnreadBytes :: "Reader \<Rightarrow> Reader" where
  "CompactUnreadBytes r =
     (if mStart r = 0 then r
      else let unread = mEnd r - mStart r
           in r\<lparr>mStorage := (if unread \<noteq> 0
                             then store_at (mStorage r) 0 (region (mStorage r) (mStart r) (mEnd r))
                             else mStorage r),
                mStart := 0, mEnd := unread\<rparr>)"

text \<open>The endless loop of \<^verbatim>\<open>Append\<close>; \<open>None\<close> would be a run that never returns.\<close>

partial_function (option) Append_loop ::
    "'c callback \<Rightarrow> Reader \<Rightarrow> 'c \<Rightarrow> byte list \<Rightarrow> nat \<Rightarrow> (AppendResult \<times> 'c \<times> Reader) option" where
  "Append_loop callback r context bytes consumed =
     (case PumpCompletedFrames callback context r of (pumped, context1, r1) \<Rightarrow>
        if pumped \<noteq> FE_None then
          Some (\<lparr>ar_error = pumped, ar_consumed = consumed\<rparr>, context1, r1)
        else if bytes = [] then
          Some (\<lparr>ar_error = FE_None, ar_consumed = consumed\<rparr>, context1, r1)
        else
          let r2 = (if mEnd r1 = length (mStorage r1) then CompactUnreadBytes r1 else r1) in
          if mEnd r2 = length (mStorage r2) then
            Some (\<lparr>ar_error = FE_InvalidFormat, ar_consumed = consumed\<rparr>, context1,
                  r2\<lparr>mTerminalError := FE_InvalidFormat\<rparr>)
          else
            let writable = length (mStorage r2) - mEnd r2;
                count = (if writable < length bytes then writable else length bytes)
            in Append_loop callback
                 (r2\<lparr>mStorage := store_at (mStorage r2) (mEnd r2) (take count bytes),
                     mEnd := mEnd r2 + count\<rparr>)
                 context1 (drop count bytes) (consumed + count))"

definition Append ::
    "'c callback option \<Rightarrow> Reader \<Rightarrow> 'c \<Rightarrow> byte list \<Rightarrow> (AppendResult \<times> 'c \<times> Reader) option" where
  "Append callback r context bytes =
     (case Append_entry r (callback = None) of
        (Some e, r') \<Rightarrow> Some (\<lparr>ar_error = e, ar_consumed = 0\<rparr>, context, r')
      | (None, r') \<Rightarrow> Append_loop (the callback) r' context bytes 0)"

definition Finish :: "Reader \<Rightarrow> FrameError" where
  "Finish r =
     (if mTerminalError r \<noteq> FE_None then mTerminalError r
      else if mStart r = mEnd r then FE_None else FE_InvalidFormat)"

definition HasIncompleteFrame :: "Reader \<Rightarrow> bool" where
  "HasIncompleteFrame r \<longleftrightarrow> mStart r \<noteq> mEnd r"

section \<open>The encoder\<close>

definition frame_header :: "32 word \<Rightarrow> byte list" where
  "frame_header len =
     [ucast (len AND 0xFF), ucast (drop_bit 8 len AND 0xFF), ucast (drop_bit 16 len AND 0xFF),
      ucast (drop_bit 24 len AND 0xFF)]"

text \<open>The output span is returned updated; the body is moved before the header is written.\<close>

definition EncodeTo :: "byte list \<Rightarrow> byte list \<Rightarrow> 32 word \<Rightarrow> EncodeResult \<times> byte list" where
  "EncodeTo body output maxBodySize =
     (if length body > unat maxBodySize then
        (\<lparr>er_error = FE_TooLarge, er_required = 0, er_written = 0\<rparr>, output)
      else if length body > SIZE_MAX - HeaderSize then
        (\<lparr>er_error = FE_TooLarge, er_required = 0, er_written = 0\<rparr>, output)
      else
        let required = HeaderSize + length body in
        if length output < required then
          (\<lparr>er_error = FE_InsufficientStorage, er_required = required, er_written = 0\<rparr>, output)
        else
          let output1 = (if body \<noteq> [] then store_at output HeaderSize body else output);
              output2 = store_at output1 0 (frame_header (word_of_nat (length body)))
          in (\<lparr>er_error = FE_None, er_required = required, er_written = required\<rparr>, output2))"

section \<open>The frames of a byte stream\<close>

text \<open>
  The specification: the completed bodies, the undecided rest, and whether the rest starts
  with a header that announces more than the maximum.
\<close>

function split_frames :: "32 word \<Rightarrow> byte list \<Rightarrow> byte list list \<times> byte list \<times> bool" where
  "split_frames maxBody bs =
     (if length bs < 4 then ([], bs, False)
      else if le32 bs > maxBody then ([], bs, True)
      else if length bs < 4 + unat (le32 bs) then ([], bs, False)
      else (case split_frames maxBody (drop (4 + unat (le32 bs)) bs) of
              (fs, r) \<Rightarrow> (take (unat (le32 bs)) (drop 4 bs) # fs, r)))"
  by pat_completeness auto
termination
  by (relation "measure (\<lambda>(m, bs). length bs)") auto

declare split_frames.simps [simp del]

lemma split_frames_short: "length bs < 4 \<Longrightarrow> split_frames m bs = ([], bs, False)"
  by (subst split_frames.simps) simp

lemma split_frames_broken: "4 \<le> length bs \<Longrightarrow> m < le32 bs \<Longrightarrow> split_frames m bs = ([], bs, True)"
  by (subst split_frames.simps) simp

lemma split_frames_partial:
  "4 \<le> length bs \<Longrightarrow> le32 bs \<le> m \<Longrightarrow> length bs < 4 + unat (le32 bs) \<Longrightarrow>
   split_frames m bs = ([], bs, False)"
  by (subst split_frames.simps) simp

lemma split_frames_frame:
  "4 \<le> length bs \<Longrightarrow> le32 bs \<le> m \<Longrightarrow> 4 + unat (le32 bs) \<le> length bs \<Longrightarrow>
   split_frames m bs = (case split_frames m (drop (4 + unat (le32 bs)) bs) of
     (fs, r) \<Rightarrow> (take (unat (le32 bs)) (drop 4 bs) # fs, r))"
  by (subst split_frames.simps) (auto simp: leD)

lemmas split_frames_cases =
  split_frames_short split_frames_broken split_frames_partial split_frames_frame

lemma le32_append: "4 \<le> length xs \<Longrightarrow> le32 (xs @ ys) = le32 xs"
  by (cases xs) (auto simp: le32_def nth_append)

lemma split_frames_append:
  "split_frames m xs = (fs, rest, b) \<Longrightarrow>
   split_frames m (xs @ ys) =
     (if b then (fs, rest @ ys, True)
      else (case split_frames m (rest @ ys) of (fs', r) \<Rightarrow> (fs @ fs', r)))"
proof (induction m xs arbitrary: fs rest b rule: split_frames.induct)
  case (1 m xs)
  consider "length xs < 4" | "4 \<le> length xs" "m < le32 xs"
    | "4 \<le> length xs" "le32 xs \<le> m" "length xs < 4 + unat (le32 xs)"
    | "4 \<le> length xs" "le32 xs \<le> m" "4 + unat (le32 xs) \<le> length xs"
    by fastforce
  then show ?case
  proof cases
    case 4
    obtain fs1 r1 b1 where s1: "split_frames m (drop (4 + unat (le32 xs)) xs) = (fs1, r1, b1)"
      by (cases "split_frames m (drop (4 + unat (le32 xs)) xs)") auto
    have "fs = take (unat (le32 xs)) (drop 4 xs) # fs1" "rest = r1" "b = b1"
      using "1.prems" 4 s1 by (auto simp: split_frames_frame)
    moreover have "split_frames m (drop (4 + unat (le32 xs)) xs @ ys) =
        (if b1 then (fs1, r1 @ ys, True)
         else (case split_frames m (r1 @ ys) of (fs', r) \<Rightarrow> (fs1 @ fs', r)))"
      using "1.IH" 4 s1 by auto
    ultimately show ?thesis
      using 4 by (subst split_frames_frame) (auto simp: le32_append split: prod.splits)
  qed (use "1.prems" in \<open>auto simp: split_frames_cases le32_append split: prod.splits\<close>)
qed

lemma split_frames_rest:
  "split_frames m xs = (fs, rest, False) \<Longrightarrow>
   split_frames m rest = ([], rest, False) \<and> length rest < 4 + unat m"
proof (induction m xs arbitrary: fs rule: split_frames.induct)
  case (1 m xs)
  show ?case
  proof (cases "length xs < 4 \<or> m < le32 xs \<or> length xs < 4 + unat (le32 xs)")
    case True
    have "le32 xs \<le> m \<Longrightarrow> unat (le32 xs) \<le> unat m" by (simp add: word_le_nat_alt)
    with True "1.prems" show ?thesis
      by (subst (asm) split_frames.simps) (auto simp: split_frames_cases not_less split: if_splits)
  next
    case False
    then show ?thesis
      using 1 by (subst (asm) (3) split_frames.simps) (auto split: prod.splits)
  qed
qed

section \<open>The reader implements the specification\<close>

definition unread :: "Reader \<Rightarrow> byte list" where
  [abs_simps]: "unread r = region (mStorage r) (mStart r) (mEnd r)"

definition Reader_inv :: "Reader \<Rightarrow> bool" where
  [inv_simps]: "Reader_inv r \<longleftrightarrow>
     mStart r \<le> mEnd r \<and> mEnd r \<le> length (mStorage r) \<and>
     4 + unat (mMaxBodySize r) \<le> length (mStorage r) \<and>
     mTerminalError r = FE_None \<and> \<not> mInvokingCallback r"

text \<open>A callback that keeps its contract never re-enters the reader.\<close>

abbreviation plain :: "('c \<Rightarrow> byte list \<Rightarrow> 'c) \<Rightarrow> 'c callback" where
  "plain f \<equiv> \<lambda>c b. (f c b, False)"

lemma invoke_plain: "invoke_callback (plain f) c r b = (f c b, r\<lparr>mInvokingCallback := False\<rparr>)"
  by (simp add: invoke_callback_def)

lemma length_unread: "mEnd r \<le> length (mStorage r) \<Longrightarrow> length (unread r) = mEnd r - mStart r"
  by (simp add: abs_simps)

lemma length_header_le32: "4 \<le> length (unread r) \<Longrightarrow> ReadLittleEndianLength r = le32 (unread r)"
  by (auto simp: ReadLittleEndianLength_def le32_def abs_simps region_def)

lemma Pump_spec:
  "Reader_inv r \<Longrightarrow> split_frames (mMaxBodySize r) (unread r) = (fs, rest, b) \<Longrightarrow>
   \<exists>n. n \<le> mEnd r \<and> mStart r \<le> n \<and>
     PumpCompletedFrames (plain f) c r =
       (if b then (FE_TooLarge, foldl f c fs, r\<lparr>mStart := n, mTerminalError := FE_TooLarge\<rparr>)
        else (FE_None, foldl f c fs, r\<lparr>mStart := n\<rparr>)) \<and>
     region (mStorage r) n (mEnd r) = rest"
proof (induction "plain f" c r arbitrary: fs rule: PumpCompletedFrames.induct)
  case (1 c r)
  let ?L = "le32 (unread r)" and ?m = "mMaxBodySize r"
  have len: "length (unread r) = mEnd r - mStart r" "mStart r \<le> mEnd r"
    using "1.prems"(1) by (simp_all add: length_unread inv_simps)
  have rd: "4 \<le> mEnd r - mStart r \<Longrightarrow> ReadLittleEndianLength r = ?L"
    using len by (simp add: length_header_le32)
  consider "mEnd r - mStart r < 4" | "4 \<le> mEnd r - mStart r" "?m < ?L"
    | "4 \<le> mEnd r - mStart r" "?L \<le> ?m" "mEnd r - mStart r < 4 + unat ?L"
    | "4 \<le> mEnd r - mStart r" "?L \<le> ?m" "4 + unat ?L \<le> mEnd r - mStart r"
    by fastforce
  then show ?case
  proof cases
    case 1
    then show ?thesis
      using "1.prems" len
      by (subst PumpCompletedFrames.simps) (auto simp: split_frames_short abs_simps)
  next
    case 2
    then show ?thesis
      using "1.prems" len rd
      by (subst PumpCompletedFrames.simps) (auto simp: split_frames_broken abs_simps)
  next
    case 3
    then show ?thesis
      using "1.prems" len rd
      by (subst PumpCompletedFrames.simps) (auto simp: split_frames_partial abs_simps leD)
  next
    case 4
    let ?r = "r\<lparr>mStart := mStart r + (4 + unat ?L)\<rparr>"
    let ?body = "region (mStorage r) (mStart r + 4) (mStart r + 4 + unat ?L)"
    have body: "?body = take (unat ?L) (drop 4 (unread r))"
      using 4 len by (simp add: abs_simps region_inner)
    have un: "unread ?r = drop (4 + unat ?L) (unread r)"
      using 4 by (simp add: abs_simps region_def drop_take add.commute)
    have inv: "Reader_inv ?r" using "1.prems"(1) 4 by (simp add: inv_simps)
    obtain fs1 where fs1: "split_frames ?m (unread ?r) = (fs1, rest, b)" "fs = ?body # fs1"
      using "1.prems"(2) 4 len body un by (auto simp: split_frames_frame split: prod.splits)
    have same: "r\<lparr>mInvokingCallback := False\<rparr> = r"
      using "1.prems"(1) by (simp add: inv_simps)
    have step: "PumpCompletedFrames (plain f) c r = PumpCompletedFrames (plain f) (f c ?body) ?r"
      using 4 rd "1.prems"(1)
      by (subst PumpCompletedFrames.simps) (simp add: Let_def invoke_plain same inv_simps leD)
    have "\<exists>n. n \<le> mEnd ?r \<and> mStart ?r \<le> n \<and>
     PumpCompletedFrames (plain f) (f c ?body) ?r =
       (if b then (FE_TooLarge, foldl f (f c ?body) fs1, ?r\<lparr>mStart := n, mTerminalError := FE_TooLarge\<rparr>)
        else (FE_None, foldl f (f c ?body) fs1, ?r\<lparr>mStart := n\<rparr>)) \<and>
     region (mStorage ?r) n (mEnd ?r) = rest"
      using "1.hyps" [of ?L "4 + unat ?L" "(f c ?body, r)"] 4 rd inv fs1(1) "1.prems"(1)
      by (cases b) (simp_all add: invoke_plain same inv_simps not_less)
    then show ?thesis using step fs1(2) by auto
  qed
qed

lemma Compact_spec:
  assumes "Reader_inv r"
  shows "Reader_inv (CompactUnreadBytes r)" "unread (CompactUnreadBytes r) = unread r"
    "mEnd (CompactUnreadBytes r) = mEnd r - mStart r"
    "mMaxBodySize (CompactUnreadBytes r) = mMaxBodySize r"
  using assms region_store_start [of "unread r" "mStorage r"]
  by (auto simp: CompactUnreadBytes_def Let_def inv_simps abs_simps)

text \<open>Storing a further piece behind the unread bytes.\<close>

lemma Append_copy:
  fixes r :: Reader
  defines "r' \<equiv> \<lambda>xs. r\<lparr>mStorage := store_at (mStorage r) (mEnd r) xs, mEnd := mEnd r + length xs\<rparr>"
  assumes "Reader_inv r" "mEnd r + length xs \<le> length (mStorage r)"
  shows "Reader_inv (r' xs)" "unread (r' xs) = unread r @ xs" "mMaxBodySize (r' xs) = mMaxBodySize r"
  using assms region_store_end [of "mStart r" "mEnd r" xs "mStorage r"]
  by (auto simp: inv_simps abs_simps)

definition Append_outcome ::
    "Reader \<Rightarrow> ('c \<Rightarrow> byte list \<Rightarrow> 'c) \<Rightarrow> 'c \<Rightarrow> byte list list \<times> byte list \<times> bool \<Rightarrow> nat \<Rightarrow>
     (AppendResult \<times> 'c \<times> Reader) option \<Rightarrow> bool" where
  "Append_outcome r f c spec amount out =
     (case spec of (fs, rest, broken) \<Rightarrow> \<exists>n r'.
        out = Some (\<lparr>ar_error = (if broken then FE_TooLarge else FE_None), ar_consumed = n\<rparr>,
                    foldl f c fs, r') \<and>
        n \<le> amount \<and> mMaxBodySize r' = mMaxBodySize r \<and>
        (if broken then mTerminalError r' = FE_TooLarge
         else n = amount \<and> Reader_inv r' \<and> unread r' = rest))"

lemma Append_outcome_step:
  assumes "Append_outcome r1 f (foldl f c fs) (fs', x) amount out"
    "mMaxBodySize r1 = mMaxBodySize r"
  shows "Append_outcome r f c (fs @ fs', x) amount out"
  using assms by (auto simp: Append_outcome_def split: prod.splits)

lemma Append_loop_spec:
  "Reader_inv r \<Longrightarrow>
   Append_outcome r f c (split_frames (mMaxBodySize r) (unread r @ bytes)) (k + length bytes)
     (Append_loop (plain f) r c bytes k)"
proof (induction "length bytes" arbitrary: r c bytes k rule: less_induct)
  case less
  let ?m = "mMaxBodySize r"
  obtain fs rest b where sp: "split_frames ?m (unread r) = (fs, rest, b)"
    by (cases "split_frames ?m (unread r)") auto
  obtain n where n: "n \<le> mEnd r" "mStart r \<le> n" "PumpCompletedFrames (plain f) c r =
       (if b then (FE_TooLarge, foldl f c fs, r\<lparr>mStart := n, mTerminalError := FE_TooLarge\<rparr>)
        else (FE_None, foldl f c fs, r\<lparr>mStart := n\<rparr>))" "region (mStorage r) n (mEnd r) = rest"
    using Pump_spec [OF less.prems sp, of f c] by auto
  let ?r1 = "r\<lparr>mStart := n\<rparr>"
  have inv1: "Reader_inv ?r1" and un1: "unread ?r1 = rest"
    using n less.prems by (auto simp: inv_simps abs_simps)
  note app = split_frames_append [OF sp, of bytes]
  show ?case
  proof (cases "b \<or> bytes = []")
    case True
    then show ?thesis
      using n app sp inv1 un1 by (subst Append_loop.simps) (auto simp: Append_outcome_def)
  next
    case False
    define r2 where "r2 = (if mEnd ?r1 = length (mStorage ?r1) then CompactUnreadBytes ?r1 else ?r1)"
    have inv2: "Reader_inv r2" and un2: "unread r2 = rest" and m2: "mMaxBodySize r2 = ?m"
      using inv1 un1 Compact_spec [OF inv1] by (auto simp: r2_def)
    have short: "length rest < 4 + unat ?m"
      using split_frames_rest [of ?m "unread r" fs rest] sp False by auto
    have room: "mEnd r2 < length (mStorage r2)"
      using short un1 inv1 inv2 Compact_spec [OF inv1] length_unread [of ?r1] m2
      by (auto simp: r2_def inv_simps)
    define count where "count = (if length (mStorage r2) - mEnd r2 < length bytes
        then length (mStorage r2) - mEnd r2 else length bytes)"
    have count: "0 < count" "count \<le> length bytes" "length (take count bytes) = count"
        "mEnd r2 + count \<le> length (mStorage r2)"
      using room False by (auto simp: count_def)
    let ?r3 = "r2\<lparr>mStorage := store_at (mStorage r2) (mEnd r2) (take count bytes),
        mEnd := mEnd r2 + count\<rparr>"
    have r3: "Reader_inv ?r3" "unread ?r3 = rest @ take count bytes" "mMaxBodySize ?r3 = ?m"
      using Append_copy [OF inv2, of "take count bytes"] count un2 m2 by simp_all
    have loop: "Append_loop (plain f) r c bytes k =
        Append_loop (plain f) ?r3 (foldl f c fs) (drop count bytes) (k + count)"
      using n False room by (subst Append_loop.simps) (simp add: Let_def r2_def count_def)
    have "Append_outcome ?r3 f (foldl f c fs) (split_frames ?m (rest @ bytes)) (k + length bytes)
        (Append_loop (plain f) ?r3 (foldl f c fs) (drop count bytes) (k + count))"
      using less.hyps [OF _ r3(1), of "drop count bytes" "foldl f c fs" "k + count"] r3 count by simp
    then show ?thesis
      using loop app False r3(3) by (auto intro: Append_outcome_step split: prod.splits)
  qed
qed

section \<open>The reader as a stream decoder\<close>

text \<open>Feeding a piece to the reader with a callback that collects the bodies.\<close>

definition feed_reader :: "Reader \<Rightarrow> byte list \<Rightarrow> byte list list \<times> bool \<times> Reader" where
  "feed_reader r bytes =
     (case Append (Some (plain (\<lambda>bodies body. bodies @ [body]))) r [] bytes of
        Some (res, bodies, r') \<Rightarrow> (bodies, ar_error res \<noteq> FE_None, r')
      | None \<Rightarrow> ([], True, r))"

lemma foldl_snoc: "foldl (\<lambda>acc x. acc @ [x]) ys xs = ys @ xs"
  by (induction xs arbitrary: ys) simp_all

lemma Append_plain_spec:
  assumes "Reader_inv r"
  shows "Append_outcome r f c (split_frames (mMaxBodySize r) (unread r @ bytes)) (length bytes)
     (Append (Some (plain f)) r c bytes)"
  using Append_loop_spec [OF assms, of f c bytes 0] assms
  by (simp add: Append_def Append_entry_def inv_simps)

interpretation frames: stream_decoder "split_frames m"
  "\<lambda>r. Reader_inv r \<and> mMaxBodySize r = m" unread feed_reader for m :: "32 word"
proof unfold_locales
  fix xs ys fs rest
  show "split_frames m xs = (fs, rest, False) \<Longrightarrow>
      split_frames m (xs @ ys) = (case split_frames m (rest @ ys) of (fs', r) \<Rightarrow> (fs @ fs', r))"
    using split_frames_append [of m xs fs rest False ys] by simp
  show "split_frames m xs = (fs, rest, True) \<Longrightarrow> \<exists>r. split_frames m (xs @ ys) = (fs, r, True)"
    using split_frames_append [of m xs fs rest True ys] by simp
  show "split_frames m xs = (fs, rest, False) \<Longrightarrow> split_frames m rest = ([], rest, False)"
    using split_frames_rest [of m xs fs rest] by simp
next
  fix s ys fs rest
  assume s: "Reader_inv s \<and> mMaxBodySize s = m"
  note out = Append_plain_spec [of s "\<lambda>bodies body. bodies @ [body]" "[]" ys]
  show "split_frames m (unread s @ ys) = (fs, rest, False) \<Longrightarrow>
      \<exists>s'. feed_reader s ys = (fs, False, s') \<and> (Reader_inv s' \<and> mMaxBodySize s' = m) \<and> unread s' = rest"
    using out s by (auto simp: feed_reader_def Append_outcome_def foldl_snoc)
  show "split_frames m (unread s @ ys) = (fs, rest, True) \<Longrightarrow> \<exists>s'. feed_reader s ys = (fs, True, s')"
    using out s by (auto simp: feed_reader_def Append_outcome_def foldl_snoc)
qed

section \<open>Encoding and decoding\<close>

definition encode_frame :: "byte list \<Rightarrow> byte list" where
  "encode_frame body = frame_header (word_of_nat (length body)) @ body"

lemma le32_frame_header: "le32 (frame_header len @ xs) = len"
  using word32_from_bytes [of len]
  by (simp add: le32_def frame_header_def ucast_low_byte numeral_2_eq_2 numeral_3_eq_3)

lemma length_frame_header [simp]: "length (frame_header len) = 4"
  by (simp add: frame_header_def)

lemma split_frames_encode:
  assumes "length body \<le> unat m"
  shows "split_frames m (encode_frame body @ xs) =
     (case split_frames m xs of (fs, r) \<Rightarrow> (body # fs, r))"
proof -
  have lt: "length body < 2 ^ 32" using assms unat32_less [of m] by simp
  then have un: "unat (word_of_nat (length body) :: 32 word) = length body"
    by (simp add: unsigned_of_nat take_bit_nat_eq_self)
  then have le: "(word_of_nat (length body) :: 32 word) \<le> m"
    using assms by (simp add: word_le_nat_alt)
  show ?thesis
    using un le by (subst split_frames_frame) (simp_all add: encode_frame_def le32_frame_header)
qed

lemma split_frames_encode_all:
  "\<forall>body \<in> set bodies. length body \<le> unat m \<Longrightarrow>
   split_frames m (concat (map encode_frame bodies)) = (bodies, [], False)"
  by (induction bodies) (simp_all add: split_frames_short split_frames_encode)

lemma EncodeTo_spec:
  assumes "length body \<le> unat maxBody" "4 + length body \<le> length output"
  shows "EncodeTo body output maxBody =
    (\<lparr>er_error = FE_None, er_required = 4 + length body, er_written = 4 + length body\<rparr>,
     encode_frame body @ drop (4 + length body) output)"
proof -
  have "length body \<le> SIZE_MAX - 4"
    using assms(1) unat32_less [of maxBody] by (simp add: SIZE_MAX_eval)
  then show ?thesis
    using assms
    by (auto simp: EncodeTo_def Let_def store_at_def encode_frame_def)
qed

lemma Reader_create_inv:
  assumes "RequiredStorageSize maxBody \<le> length storage"
  shows "Reader_inv (Reader_create storage maxBody)" "unread (Reader_create storage maxBody) = []"
    "mMaxBodySize (Reader_create storage maxBody) = maxBody"
proof -
  have "RequiredStorageSize maxBody = 4 + unat maxBody"
    using unat32_less [of maxBody] by (simp add: RequiredStorageSize_def SIZE_MAX_eval)
  then show "Reader_inv (Reader_create storage maxBody)" "unread (Reader_create storage maxBody) = []"
    "mMaxBodySize (Reader_create storage maxBody) = maxBody"
    using assms by (auto simp: Reader_create_def Let_def inv_simps abs_simps)
qed

section \<open>Properties\<close>



text \<open>
  C4. On any input a consistent reader returns, and it returns exactly what the one-shot
  specification of the stream says of the unread bytes followed by the input: the callback is
  applied to the completed bodies in order; the only error is an announced length above the
  maximum, which becomes the terminal error; otherwise all input is consumed and the reader
  keeps just the undecided rest. In particular the storage never overflows.
\<close>

theorem Append_refines_split_frames:
  assumes "Reader_inv r" and "split_frames (mMaxBodySize r) (unread r @ bytes) = (bodies, rest, broken)"
  shows "\<exists>n r'. Append (Some (plain f)) r c bytes =
      Some (\<lparr>ar_error = (if broken then FE_TooLarge else FE_None), ar_consumed = n\<rparr>,
            foldl f c bodies, r') \<and> n \<le> length bytes \<and>
      (if broken then mTerminalError r' = FE_TooLarge
       else n = length bytes \<and> Reader_inv r' \<and> unread r' = rest)"
  using Append_plain_spec [OF assms(1), of f c bytes] assms(2) by (auto simp: Append_outcome_def)

theorem Append_refines_split_frames_witness:
  "\<exists>n r'. Append (Some (plain (\<lambda>c b. c + length b))) (Reader_create (replicate 6 0) 2) 0
      [1, 0, 0, 0, 9, 3, 0, 0, 0] =
      Some (\<lparr>ar_error = FE_TooLarge, ar_consumed = n\<rparr>, 1, r') \<and> mTerminalError r' = FE_TooLarge"
proof -
  let ?r = "Reader_create (replicate 6 0) 2"
  have "RequiredStorageSize 2 \<le> length (replicate 6 (0::byte))"
    by (simp add: RequiredStorageSize_def SIZE_MAX_eval)
  note init = Reader_create_inv [OF this]
  have "split_frames (mMaxBodySize ?r) (unread ?r @ [1, 0, 0, 0, 9, 3, 0, 0, 0]) =
      ([[9]], [3, 0, 0, 0], True)"
    unfolding init by (simp add: split_frames.simps le32_def)
  from Append_refines_split_frames [OF init(1) this, of "\<lambda>c b. c + length b" 0]
  show ?thesis by auto
qed

end
