(* ===== verification/Framing.thy ===== *)
theory Framing
  imports FrameCodec
begin

text \<open>
  \<^verbatim>\<open>Protocol::FrameReader\<close> and \<^verbatim>\<open>EncodeFrame\<close> (\<^verbatim>\<open>src/Protocol/Framing.cpp\<close>): the owning reader
  around the streaming codec. It allocates the codec's storage on first use, copies completed
  bodies into a queue after asking an admission callback, and hands them out one by one.

  The backing vector of the codec is the storage inside the modelled codec reader. Allocation is
  a parameter: \<open>alloc n\<close> tells whether obtaining \<open>n\<close> bytes succeeds. An admission callback
  takes its context and a body size and returns its verdict with the updated context.
\<close>

section \<open>Statuses\<close>

fun ToStatus :: "FrameError \<Rightarrow> status" where
  "ToStatus FE_None = Ok"
| "ToStatus FE_WouldBlock = WouldBlock"
| "ToStatus FE_TooLarge = TooLarge"
| "ToStatus FE_InvalidFormat = InvalidFormat"
| "ToStatus FE_InvalidArgument = InvalidArgument"
| "ToStatus FE_InsufficientStorage = PlatformError"

section \<open>The frame reader\<close>

record FrameReader =
  frMaxBodySize :: "32 word"
  frReader :: "Reader option"
  frCompleted :: "byte list list"
  frCompletedBodyBytes :: nat
  frCurrent :: "byte list"
  frCallbackAllocationFailed :: bool
  frCallbackAdmissionRejected :: bool
  frAdmissionTerminal :: bool

type_synonym 'a admission = "'a \<Rightarrow> nat \<Rightarrow> bool \<times> 'a"

definition FrameReader_create :: "32 word \<Rightarrow> FrameReader" where
  "FrameReader_create maxBodySize =
     \<lparr>frMaxBodySize = maxBodySize, frReader = None, frCompleted = [], frCompletedBodyBytes = 0,
      frCurrent = [], frCallbackAllocationFailed = False, frCallbackAdmissionRejected = False,
      frAdmissionTerminal = False\<rparr>"

definition EnsureReader :: "(nat \<Rightarrow> bool) \<Rightarrow> FrameReader \<Rightarrow> status \<times> FrameReader" where
  "EnsureReader alloc fr =
     (if frReader fr \<noteq> None then (Ok, fr)
      else
        let bodySize = unat (frMaxBodySize fr) in
        if bodySize > SIZE_MAX - HeaderSize then (TooLarge, fr)
        else if \<not> alloc (HeaderSize + bodySize) then (PlatformError, fr)
        else
          let r = Reader_create (replicate (HeaderSize + bodySize) 0) (frMaxBodySize fr)
          in (ToStatus (Finish r), fr\<lparr>frReader := Some r\<rparr>))"

text \<open>The callback given to the codec; its context is the admission context and the reader.\<close>

definition CopyCompletedFrame ::
    "(nat \<Rightarrow> bool) \<Rightarrow> 'a admission option \<Rightarrow> 'a \<times> FrameReader \<Rightarrow> byte list \<Rightarrow> 'a \<times> FrameReader" where
  "CopyCompletedFrame alloc admission ctx body =
     (case ctx of (a, fr) \<Rightarrow>
        if frCallbackAllocationFailed fr \<or> frCallbackAdmissionRejected fr then (a, fr)
        else if length body > SIZE_MAX - frCompletedBodyBytes fr then
          (a, fr\<lparr>frCallbackAllocationFailed := True\<rparr>)
        else
          let (admitted, a') = (case admission of None \<Rightarrow> (True, a) | Some adm \<Rightarrow> adm a (length body))
          in if \<not> admitted then (a', fr\<lparr>frCallbackAdmissionRejected := True\<rparr>)
             else if \<not> alloc (length body) then (a', fr\<lparr>frCallbackAllocationFailed := True\<rparr>)
             else (a', fr\<lparr>frCompleted := frCompleted fr @ [body],
                          frCompletedBodyBytes := frCompletedBodyBytes fr + length body\<rparr>))"

definition FrameReader_Append ::
    "(nat \<Rightarrow> bool) \<Rightarrow> 'a admission option \<Rightarrow> 'a \<Rightarrow> byte list \<Rightarrow> FrameReader \<Rightarrow>
     (status \<times> 'a \<times> FrameReader) option" where
  "FrameReader_Append alloc admission a bytes fr =
     (if frAdmissionTerminal fr then Some (ToStatus FE_TooLarge, a, fr)
      else
        case EnsureReader alloc fr of (prepared, fr1) \<Rightarrow>
          if prepared \<noteq> Ok then Some (prepared, a, fr1)
          else
            let fr2 = fr1\<lparr>frCallbackAllocationFailed := False, frCallbackAdmissionRejected := False\<rparr>
            in case Append (Some (plain (CopyCompletedFrame alloc admission)))
                      (the (frReader fr2)) (a, fr2) bytes of
                 None \<Rightarrow> None
               | Some (appended, (a', fr3), r) \<Rightarrow>
                   let fr4 = fr3\<lparr>frReader := Some r\<rparr>
                   in if frCallbackAdmissionRejected fr4 then
                        Some (ToStatus FE_TooLarge, a', fr4\<lparr>frAdmissionTerminal := True\<rparr>)
                      else if frCallbackAllocationFailed fr4 then Some (PlatformError, a', fr4)
                      else Some (ToStatus (ar_error appended), a', fr4))"

text \<open>
  \<open>None\<close> is the assertion that the byte counter covers the body taken from the queue. The span
  that \<^verbatim>\<open>NextFrame\<close> returns views the body kept as the current one.
\<close>

definition NextFrame :: "FrameReader \<Rightarrow> (byte list result \<times> FrameReader) option" where
  "NextFrame fr =
     (let fr1 = fr\<lparr>frCurrent := []\<rparr> in
      case frCompleted fr1 of
        [] \<Rightarrow> Some (Inl WouldBlock, fr1)
      | body # rest \<Rightarrow>
          if frCompletedBodyBytes fr1 \<ge> length body then
            Some (Inr body, fr1\<lparr>frCurrent := body, frCompleted := rest,
                      frCompletedBodyBytes := frCompletedBodyBytes fr1 - length body\<rparr>)
          else None)"

definition TakeNextFrame :: "FrameReader \<Rightarrow> (byte list result \<times> FrameReader) option" where
  "TakeNextFrame fr =
     (let fr1 = fr\<lparr>frCurrent := []\<rparr> in
      case frCompleted fr1 of
        [] \<Rightarrow> Some (Inl WouldBlock, fr1)
      | body # rest \<Rightarrow>
          if frCompletedBodyBytes fr1 \<ge> length body then
            Some (Inr body, fr1\<lparr>frCompleted := rest,
                      frCompletedBodyBytes := frCompletedBodyBytes fr1 - length body\<rparr>)
          else None)"

definition CompletedFrameCount :: "FrameReader \<Rightarrow> nat" where
  "CompletedFrameCount fr = length (frCompleted fr)"

definition CompletedBodyBytes :: "FrameReader \<Rightarrow> nat" where
  "CompletedBodyBytes fr = frCompletedBodyBytes fr"

definition DiscardCompletedFrames :: "FrameReader \<Rightarrow> FrameReader" where
  "DiscardCompletedFrames fr = fr\<lparr>frCompleted := [], frCompletedBodyBytes := 0\<rparr>"

definition ReleaseStorage :: "FrameReader \<Rightarrow> FrameReader" where
  "ReleaseStorage fr =
     (DiscardCompletedFrames (fr\<lparr>frReader := None\<rparr>))
       \<lparr>frCurrent := [], frCallbackAllocationFailed := False,
        frCallbackAdmissionRejected := False, frAdmissionTerminal := False\<rparr>"

definition FrameReader_Finish :: "FrameReader \<Rightarrow> status" where
  "FrameReader_Finish fr =
     (if frAdmissionTerminal fr then ToStatus FE_TooLarge
      else case frReader fr of None \<Rightarrow> Ok | Some r \<Rightarrow> ToStatus (Finish r))"

definition FrameReader_HasIncompleteFrame :: "FrameReader \<Rightarrow> bool" where
  "FrameReader_HasIncompleteFrame fr \<longleftrightarrow>
     (case frReader fr of None \<Rightarrow> False | Some r \<Rightarrow> HasIncompleteFrame r)"

definition EncodeFrame :: "(nat \<Rightarrow> bool) \<Rightarrow> byte list \<Rightarrow> 32 word \<Rightarrow> byte list result" where
  "EncodeFrame alloc jsonBody maxBodySize =
     (if length jsonBody > unat maxBodySize then Inl (ToStatus FE_TooLarge)
      else if length jsonBody > SIZE_MAX - HeaderSize then Inl (ToStatus FE_TooLarge)
      else if \<not> alloc (HeaderSize + length jsonBody) then Inl PlatformError
      else
        case EncodeTo jsonBody (replicate (HeaderSize + length jsonBody) 0) maxBodySize of
          (encoded, framed) \<Rightarrow>
            if er_error encoded \<noteq> FE_None then Inl (ToStatus (er_error encoded)) else Inr framed)"

section \<open>The invariant of the completed queue\<close>

definition FrameReader_inv :: "FrameReader \<Rightarrow> bool" where
  [inv_simps]: "FrameReader_inv fr \<longleftrightarrow>
     frCompletedBodyBytes fr = sum_list (map length (frCompleted fr)) \<and>
     (\<forall>r. frReader fr = Some r \<longrightarrow>
        mMaxBodySize r = frMaxBodySize fr \<and> (Reader_inv r \<or> mTerminalError r = FE_TooLarge))"

lemma FrameReader_create_inv: "FrameReader_inv (FrameReader_create m)"
  by (simp add: inv_simps FrameReader_create_def)

lemma fresh_reader:
  defines "r \<equiv> \<lambda>m. Reader_create (replicate (4 + unat m) 0) m"
  shows "Reader_inv (r m)" "unread (r m) = []" "mMaxBodySize (r m) = m" "Finish (r m) = FE_None"
proof -
  have "RequiredStorageSize m \<le> length (replicate (4 + unat m) (0::byte))"
    using unat32_less [of m] by (simp add: RequiredStorageSize_def SIZE_MAX_eval)
  from Reader_create_inv [OF this]
  show "Reader_inv (r m)" "unread (r m) = []" "mMaxBodySize (r m) = m" by (simp_all add: r_def)
  then show "Finish (r m) = FE_None"
    by (simp add: Finish_def inv_simps r_def Reader_create_def Let_def)
qed

lemma EnsureReader_props:
  assumes "FrameReader_inv fr" "EnsureReader alloc fr = (st, fr1)"
  shows "FrameReader_inv fr1 \<and> frCompleted fr1 = frCompleted fr \<and>
    frMaxBodySize fr1 = frMaxBodySize fr \<and> frAdmissionTerminal fr1 = frAdmissionTerminal fr \<and>
    frCompletedBodyBytes fr1 = frCompletedBodyBytes fr \<and>
    (st = Ok \<longrightarrow> (\<exists>r. frReader fr1 = Some r \<and> (frReader fr = Some r \<or>
        frReader fr = None \<and> Reader_inv r \<and> unread r = [])))"
  using assms fresh_reader [of "frMaxBodySize fr"]
  by (auto simp: EnsureReader_def Let_def inv_simps split: if_splits)

text \<open>
  What the callback does to the reader, whatever the admission and the allocator answer: it
  only appends bodies and keeps the byte counter exact.
\<close>

definition copied :: "FrameReader \<Rightarrow> byte list list \<Rightarrow> FrameReader \<Rightarrow> bool" where
  "copied fr bodies fr' \<longleftrightarrow>
     frCompleted fr' = frCompleted fr @ bodies \<and>
     frCompletedBodyBytes fr' = frCompletedBodyBytes fr + sum_list (map length bodies) \<and>
     frMaxBodySize fr' = frMaxBodySize fr \<and> frReader fr' = frReader fr \<and>
     frCurrent fr' = frCurrent fr \<and> frAdmissionTerminal fr' = frAdmissionTerminal fr"

definition failed :: "FrameReader \<Rightarrow> bool" where
  "failed fr \<longleftrightarrow> frCallbackAllocationFailed fr \<or> frCallbackAdmissionRejected fr"

lemma CopyCompletedFrame_failed: "failed fr \<Longrightarrow> CopyCompletedFrame alloc adm (a, fr) body = (a, fr)"
  by (simp add: CopyCompletedFrame_def failed_def)

lemma foldl_copy_failed: "failed fr \<Longrightarrow> foldl (CopyCompletedFrame alloc adm) (a, fr) bodies = (a, fr)"
  by (induction bodies) (simp_all add: CopyCompletedFrame_failed)

lemma copied_refl [simp]: "copied fr [] fr"
  by (simp add: copied_def)

lemma copied_trans: "copied fr xs fr1 \<Longrightarrow> copied fr1 ys fr2 \<Longrightarrow> copied fr (xs @ ys) fr2"
  by (simp add: copied_def)

lemma CopyCompletedFrame_step:
  assumes "CopyCompletedFrame alloc adm (a, fr) body = (a1, fr1)"
  shows "copied fr [body] fr1 \<and> failed fr1 = failed fr \<or> copied fr [] fr1 \<and> failed fr1"
proof -
  obtain ok a2 where adm: "(case adm of None \<Rightarrow> (True, a) | Some f \<Rightarrow> f a (length body)) = (ok, a2)" by fastforce
  show ?thesis
    using assms by (simp add: CopyCompletedFrame_def adm copied_def failed_def split: if_splits) auto
qed

text \<open>The bodies copied are a prefix of those completed: all of them unless a copy failed.\<close>

lemma foldl_copied:
  "foldl (CopyCompletedFrame alloc adm) (a, fr) bodies = (a', fr') \<Longrightarrow>
   \<exists>k. copied fr (take k bodies) fr' \<and> (\<not> failed fr' \<longrightarrow> take k bodies = bodies)"
proof (induction bodies arbitrary: a fr)
  case Nil
  then show ?case by simp
next
  case (Cons body bodies)
  obtain a1 fr1 where s1: "CopyCompletedFrame alloc adm (a, fr) body = (a1, fr1)"
    by (cases "CopyCompletedFrame alloc adm (a, fr) body") auto
  then have rest: "foldl (CopyCompletedFrame alloc adm) (a1, fr1) bodies = (a', fr')"
    using Cons.prems by simp
  show ?case
  proof (cases "copied fr [body] fr1")
    case True
    obtain k where "copied fr1 (take k bodies) fr'" "\<not> failed fr' \<longrightarrow> take k bodies = bodies"
      using Cons.IH [OF rest] by auto
    then show ?thesis using copied_trans [OF True] by (intro exI [of _ "Suc k"]) auto
  next
    case False
    then have f: "copied fr [] fr1" "failed fr1" using CopyCompletedFrame_step [OF s1] by auto
    then have "fr' = fr1" using rest foldl_copy_failed [OF f(2), of alloc adm a1 bodies] by simp
    then show ?thesis using f by (intro exI [of _ 0]) auto
  qed
qed

text \<open>Without an admission callback, with memory and within the counter's range, nothing fails.\<close>

lemma foldl_copy_all:
  assumes "\<And>n. alloc n" "\<not> failed fr"
    "frCompletedBodyBytes fr + sum_list (map length bodies) \<le> SIZE_MAX"
  shows "\<not> failed (snd (foldl (CopyCompletedFrame alloc None) (a, fr) bodies))"
  using assms(2,3)
proof (induction bodies arbitrary: fr)
  case (Cons body bodies)
  have "CopyCompletedFrame alloc None (a, fr) body =
      (a, fr\<lparr>frCompleted := frCompleted fr @ [body],
             frCompletedBodyBytes := frCompletedBodyBytes fr + length body\<rparr>)"
    using Cons.prems assms(1) by (auto simp: CopyCompletedFrame_def failed_def)
  then show ?case using Cons by (simp add: failed_def)
qed simp

lemma foldl_copy_context: "fst (foldl (CopyCompletedFrame alloc None) (a, fr) bodies) = a"
  by (induction bodies arbitrary: fr) (auto simp: CopyCompletedFrame_def)

lemma copied_inv: "FrameReader_inv fr \<Longrightarrow> copied fr bs fr' \<Longrightarrow> FrameReader_inv fr'"
  by (auto simp: FrameReader_inv_def copied_def)

section \<open>Appending\<close>

definition pending :: "FrameReader \<Rightarrow> byte list" where
  [abs_simps]: "pending fr = (case frReader fr of None \<Rightarrow> [] | Some r \<Rightarrow> unread r)"

text \<open>A codec in its terminal state refuses every further piece.\<close>

lemma Append_terminal:
  "mTerminalError r \<noteq> FE_None \<Longrightarrow>
   Append (Some cb) r c bytes = Some (\<lparr>ar_error = mTerminalError r, ar_consumed = 0\<rparr>, c, r)"
  by (simp add: Append_def Append_entry_def)

text \<open>One call of the codec from a prepared reader, terminal or not.\<close>

lemma codec_Append:
  assumes "Reader_inv r \<or> mTerminalError r = FE_TooLarge"
  obtains res bodies r' where "Append (Some (plain f)) r c bytes = Some (res, foldl f c bodies, r')"
    "mMaxBodySize r' = mMaxBodySize r" "Reader_inv r' \<or> mTerminalError r' = FE_TooLarge"
    "Reader_inv r \<Longrightarrow> split_frames (mMaxBodySize r) (unread r @ bytes) = (bodies, rest, broken) \<Longrightarrow>
       ar_error res = (if broken then FE_TooLarge else FE_None) \<and>
       (\<not> broken \<longrightarrow> Reader_inv r' \<and> unread r' = rest)"
    "\<not> Reader_inv r \<Longrightarrow> ar_error res = FE_TooLarge \<and> bodies = []"
proof (cases "Reader_inv r")
  case True
  obtain bs rst br where sp: "split_frames (mMaxBodySize r) (unread r @ bytes) = (bs, rst, br)"
    by (cases "split_frames (mMaxBodySize r) (unread r @ bytes)") auto
  show ?thesis
    using Append_plain_spec [OF True, of f c bytes] sp True
    by (auto simp: Append_outcome_def split: if_splits intro: that)
next
  case False
  with assms have "mTerminalError r = FE_TooLarge" by simp
  with False Append_terminal [of r "plain f" c bytes] show ?thesis
    by (intro that [of _ "[]"]) auto
qed


text \<open>
  One \<^verbatim>\<open>Append\<close> from a consistent reader always returns; it copies some of the completed bodies,
  and the flags the callback left decide the status.
\<close>

definition append_result :: "FrameReader \<Rightarrow> byte list list \<Rightarrow> status \<Rightarrow> FrameReader \<Rightarrow> bool" where
  "append_result fr copies st fr' \<longleftrightarrow>
     FrameReader_inv fr' \<and> frCompleted fr' = frCompleted fr @ copies \<and>
     frMaxBodySize fr' = frMaxBodySize fr \<and>
     (frAdmissionTerminal fr' \<longrightarrow> st = TooLarge)"

lemma append_result_refl:
  "FrameReader_inv fr \<Longrightarrow> (frAdmissionTerminal fr \<longrightarrow> st = TooLarge) \<Longrightarrow> append_result fr [] st fr"
  by (simp add: append_result_def)

abbreviation "reset_flags fr \<equiv>
  fr\<lparr>frCallbackAllocationFailed := False, frCallbackAdmissionRejected := False\<rparr>"

lemma FrameReader_Append_prepared:
  assumes "\<not> frAdmissionTerminal fr" "EnsureReader alloc fr = (Ok, fr1)" "frReader fr1 = Some r"
    "Append (Some (plain (CopyCompletedFrame alloc adm))) r (a, reset_flags fr1) bytes =
       Some (res, (a3, fr3), r')"
  shows "FrameReader_Append alloc adm a bytes fr = Some (
    let fr4 = fr3\<lparr>frReader := Some r'\<rparr> in
    if frCallbackAdmissionRejected fr3 then (TooLarge, a3, fr4\<lparr>frAdmissionTerminal := True\<rparr>)
    else if frCallbackAllocationFailed fr3 then (PlatformError, a3, fr4)
    else (ToStatus (ar_error res), a3, fr4))"
  using assms by (simp add: FrameReader_Append_def Let_def)

lemma FrameReader_Append_runs:
  assumes inv: "FrameReader_inv fr"
  obtains (early) st fr1 where "FrameReader_Append alloc adm a bytes fr = Some (st, a, fr1)"
      "st \<noteq> Ok" "append_result fr [] st fr1" "frCompletedBodyBytes fr1 = frCompletedBodyBytes fr"
  | (ran) bodies fr1 a3 fr3 and res :: AppendResult and r' where
      "FrameReader_Append alloc adm a bytes fr = Some (
        let fr4 = fr3\<lparr>frReader := Some r'\<rparr> in
        if frCallbackAdmissionRejected fr3 then (TooLarge, a3, fr4\<lparr>frAdmissionTerminal := True\<rparr>)
        else if frCallbackAllocationFailed fr3 then (PlatformError, a3, fr4)
        else (ToStatus (ar_error res), a3, fr4))"
      "foldl (CopyCompletedFrame alloc adm) (a, reset_flags fr1) bodies = (a3, fr3)"
      "frCompleted fr1 = frCompleted fr" "frCompletedBodyBytes fr1 = frCompletedBodyBytes fr"
      "frMaxBodySize fr1 = frMaxBodySize fr" "\<not> frAdmissionTerminal fr1"
      "mMaxBodySize r' = frMaxBodySize fr" "Reader_inv r' \<or> mTerminalError r' = FE_TooLarge"
proof (cases "frAdmissionTerminal fr")
  case True
  then show ?thesis
    by (intro early [of TooLarge fr]) (simp_all add: append_result_refl [OF inv] FrameReader_Append_def)
next
  case False
  obtain st fr1 where e: "EnsureReader alloc fr = (st, fr1)" by (cases "EnsureReader alloc fr")
  note p = EnsureReader_props [OF inv e]
  show ?thesis
  proof (cases "st = Ok")
    case False
    then show ?thesis using e p \<open>\<not> frAdmissionTerminal fr\<close>
      by (intro early [of st fr1]) (auto simp: FrameReader_Append_def append_result_def)
  next
    case True
    then obtain r where r: "frReader fr1 = Some r" using p by auto
    have "Reader_inv r \<or> mTerminalError r = FE_TooLarge" "mMaxBodySize r = frMaxBodySize fr1"
      using p r by (auto simp: FrameReader_inv_def)
    then obtain res bodies r' where c:
        "Append (Some (plain (CopyCompletedFrame alloc adm))) r (a, reset_flags fr1) bytes =
           Some (res, foldl (CopyCompletedFrame alloc adm) (a, reset_flags fr1) bodies, r')"
        "mMaxBodySize r' = frMaxBodySize fr1" "Reader_inv r' \<or> mTerminalError r' = FE_TooLarge"
      by (metis codec_Append)
    obtain a3 fr3 where f: "foldl (CopyCompletedFrame alloc adm) (a, reset_flags fr1) bodies = (a3, fr3)"
      by fastforce
    note eq = FrameReader_Append_prepared [OF \<open>\<not> frAdmissionTerminal fr\<close> e [unfolded True] r c(1) [unfolded f]]
    show ?thesis
      using p \<open>\<not> frAdmissionTerminal fr\<close> c(2,3) by (intro ran [OF eq f]) simp_all
  qed
qed

lemma FrameReader_Append_returns:
  assumes inv: "FrameReader_inv fr"
  shows "\<exists>st a' fr' copies. FrameReader_Append alloc adm a bytes fr = Some (st, a', fr') \<and>
    append_result fr copies st fr'"
  using inv
proof (cases rule: FrameReader_Append_runs [where alloc = alloc and adm = adm and a = a and bytes = bytes])
  case (early st fr1)
  then show ?thesis by auto
next
  case (ran bodies fr1 a3 fr3 res r')
  from foldl_copied [OF ran(2)] obtain k where k: "copied (reset_flags fr1) (take k bodies) fr3" by auto
  have "FrameReader_inv (fr3\<lparr>frReader := Some r'\<rparr>)"
    using ran(3-) k inv by (simp add: FrameReader_inv_def copied_def)
  then show ?thesis unfolding ran(1) using k ran(3-)
    by (auto simp: append_result_def copied_def Let_def FrameReader_inv_def)
qed

text \<open>With memory and without an admission callback, every completed body is queued.\<close>

definition live :: "FrameReader \<Rightarrow> bool" where
  "live fr \<longleftrightarrow> FrameReader_inv fr \<and> \<not> frAdmissionTerminal fr \<and>
     (\<forall>r. frReader fr = Some r \<longrightarrow> Reader_inv r)"

lemma live_create: "live (FrameReader_create m)" "pending (FrameReader_create m) = []"
  by (simp_all add: live_def FrameReader_create_inv abs_simps) (simp_all add: FrameReader_create_def)

lemma EnsureReader_alloc:
  assumes "live fr" "\<And>n. alloc n"
  obtains fr1 r where "EnsureReader alloc fr = (Ok, fr1)" "frReader fr1 = Some r" "Reader_inv r"
    "unread r = pending fr" "mMaxBodySize r = frMaxBodySize fr"
proof (cases "frReader fr")
  case (Some r)
  with assms(1) show ?thesis
    by (intro that [of fr r]) (auto simp: EnsureReader_def live_def FrameReader_inv_def abs_simps)
next
  case None
  have "4 + unat (frMaxBodySize fr) \<le> SIZE_MAX"
    using unat32_less [of "frMaxBodySize fr"] by (simp add: SIZE_MAX_eval)
  then show ?thesis
    using None assms(2) fresh_reader [of "frMaxBodySize fr"]
    by (intro that [of "fr\<lparr>frReader := Some (Reader_create (replicate (4 + unat (frMaxBodySize fr)) 0)
          (frMaxBodySize fr))\<rparr>"]) (auto simp: EnsureReader_def Let_def pending_def)
qed

lemma FrameReader_Append_live:
  assumes live: "live fr" and alloc: "\<And>n. alloc n"
    and split: "split_frames (frMaxBodySize fr) (pending fr @ bytes) = (bodies, rest, broken)"
    and room: "frCompletedBodyBytes fr + sum_list (map length bodies) \<le> SIZE_MAX"
  shows "\<exists>fr'. FrameReader_Append alloc None a bytes fr = Some (if broken then TooLarge else Ok, a, fr') \<and>
    frCompleted fr' = frCompleted fr @ bodies \<and> FrameReader_inv fr' \<and>
    frMaxBodySize fr' = frMaxBodySize fr \<and> (\<not> broken \<longrightarrow> live fr' \<and> pending fr' = rest)"
proof -
  obtain fr1 r where e: "EnsureReader alloc fr = (Ok, fr1)" "frReader fr1 = Some r" "Reader_inv r"
      "unread r = pending fr" "mMaxBodySize r = frMaxBodySize fr"
    using EnsureReader_alloc [OF live alloc] .
  have inv: "FrameReader_inv fr" and nt: "\<not> frAdmissionTerminal fr" using live by (auto simp: live_def)
  note p = EnsureReader_props [OF inv e(1)]
  let ?f = "CopyCompletedFrame alloc (None :: 'a admission option)"
  have split': "split_frames (mMaxBodySize r) (unread r @ bytes) = (bodies, rest, broken)"
    using split e by simp
  obtain n r' where c: "Append (Some (plain ?f)) r (a, reset_flags fr1) bytes =
      Some (\<lparr>ar_error = (if broken then FE_TooLarge else FE_None), ar_consumed = n\<rparr>,
            foldl ?f (a, reset_flags fr1) bodies, r')"
      "if broken then mTerminalError r' = FE_TooLarge else Reader_inv r' \<and> unread r' = rest"
      "mMaxBodySize r' = mMaxBodySize r"
    using Append_plain_spec [OF e(3), of ?f "(a, reset_flags fr1)" bytes] split'
    by (auto simp: Append_outcome_def split: if_splits)
  obtain a3 fr3 where f: "foldl ?f (a, reset_flags fr1) bodies = (a3, fr3)" by fastforce
  have nf: "\<not> failed fr3"
    using foldl_copy_all [of alloc "reset_flags fr1" bodies a] alloc room p f
    by (auto simp: failed_def)
  with foldl_copied [OF f] have cp: "copied (reset_flags fr1) bodies fr3" by auto
  have "a3 = a" using f foldl_copy_context [of alloc a "reset_flags fr1" bodies] by simp
  note eq = FrameReader_Append_prepared [OF nt e(1,2) c(1) [unfolded f]]
  show ?thesis unfolding eq
    using nf cp c(2,3) e(5) inv p nt \<open>a3 = a\<close>
    by (auto simp: failed_def copied_def Let_def live_def FrameReader_inv_def pending_def)
qed


text \<open>
  The books of an admission context that keeps a running total: every admitted body is counted
  before it is queued, so the queue never grows by more than the total does.
\<close>

definition keeps_total :: "('a \<Rightarrow> nat) \<Rightarrow> 'a admission \<Rightarrow> bool" where
  "keeps_total used adm \<longleftrightarrow>
     (\<forall>a n. used (snd (adm a n)) = (if fst (adm a n) then used a + n else used a))"

lemma CopyCompletedFrame_total:
  assumes "keeps_total used adm" "CopyCompletedFrame alloc (Some adm) (a, fr) body = (a1, fr1)"
  shows "frCompletedBodyBytes fr1 + used a \<le> frCompletedBodyBytes fr + used a1 \<and>
    (\<not> frCallbackAllocationFailed fr1 \<longrightarrow>
       frCompletedBodyBytes fr1 + used a = frCompletedBodyBytes fr + used a1) \<and>
    (frCallbackAllocationFailed fr \<longrightarrow> frCallbackAllocationFailed fr1)"
proof -
  obtain ok a2 where r: "adm a (length body) = (ok, a2)" by fastforce
  then have "used a2 = (if ok then used a + length body else used a)"
    using assms(1) by (metis fst_conv keeps_total_def snd_conv)
  with r show ?thesis using assms(2) by (auto simp: CopyCompletedFrame_def Let_def split: if_splits)
qed

lemma foldl_copy_total:
  assumes "keeps_total used adm"
  shows "foldl (CopyCompletedFrame alloc (Some adm)) (a, fr) bodies = (a', fr') \<Longrightarrow>
    frCompletedBodyBytes fr' + used a \<le> frCompletedBodyBytes fr + used a' \<and>
    (\<not> frCallbackAllocationFailed fr' \<longrightarrow>
       frCompletedBodyBytes fr' + used a = frCompletedBodyBytes fr + used a') \<and>
    (frCallbackAllocationFailed fr \<longrightarrow> frCallbackAllocationFailed fr')"
proof (induction bodies arbitrary: a fr)
  case (Cons body bodies)
  obtain a1 fr1 where s1: "CopyCompletedFrame alloc (Some adm) (a, fr) body = (a1, fr1)" by fastforce
  then have "foldl (CopyCompletedFrame alloc (Some adm)) (a1, fr1) bodies = (a', fr')"
    using Cons.prems by simp
  from Cons.IH [OF this] CopyCompletedFrame_total [OF assms s1] show ?case by auto
qed simp

section \<open>Taking completed frames\<close>

lemma TakeNextFrame_spec:
  assumes "FrameReader_inv fr"
  shows "TakeNextFrame fr = Some (case frCompleted fr of
      [] \<Rightarrow> (Inl WouldBlock, fr\<lparr>frCurrent := []\<rparr>)
    | body # rest \<Rightarrow> (Inr body, fr\<lparr>frCurrent := [], frCompleted := rest,
        frCompletedBodyBytes := frCompletedBodyBytes fr - length body\<rparr>))"
  using assms by (auto simp: TakeNextFrame_def FrameReader_inv_def Let_def split: list.splits)

lemma NextFrame_spec:
  assumes "FrameReader_inv fr"
  shows "NextFrame fr = Some (case frCompleted fr of
      [] \<Rightarrow> (Inl WouldBlock, fr\<lparr>frCurrent := []\<rparr>)
    | body # rest \<Rightarrow> (Inr body, fr\<lparr>frCurrent := body, frCompleted := rest,
        frCompletedBodyBytes := frCompletedBodyBytes fr - length body\<rparr>))"
  using assms by (auto simp: NextFrame_def FrameReader_inv_def Let_def split: list.splits)

lemma TakeNextFrame_inv:
  "FrameReader_inv fr \<Longrightarrow> \<exists>x fr'. TakeNextFrame fr = Some (x, fr') \<and> FrameReader_inv fr'"
  by (auto simp: TakeNextFrame_spec FrameReader_inv_def split: list.splits)

lemma NextFrame_inv:
  "FrameReader_inv fr \<Longrightarrow> \<exists>x fr'. NextFrame fr = Some (x, fr') \<and> FrameReader_inv fr'"
  by (auto simp: NextFrame_spec FrameReader_inv_def split: list.splits)

lemma Discard_inv: "FrameReader_inv fr \<Longrightarrow> FrameReader_inv (DiscardCompletedFrames fr)"
  by (auto simp: DiscardCompletedFrames_def FrameReader_inv_def)

lemma ReleaseStorage_inv: "FrameReader_inv (ReleaseStorage fr)"
  by (auto simp: ReleaseStorage_def DiscardCompletedFrames_def FrameReader_inv_def)

text \<open>Any sequence of operations of a reader, with whatever the callbacks and allocator answer.\<close>

inductive reader_step :: "FrameReader \<Rightarrow> FrameReader option \<Rightarrow> bool" where
  step_append: "reader_step fr (map_option (\<lambda>(st, a', fr'). fr') (FrameReader_Append alloc adm (a::nat) bytes fr))"
| step_next: "reader_step fr (map_option snd (NextFrame fr))"
| step_take: "reader_step fr (map_option snd (TakeNextFrame fr))"
| step_discard: "reader_step fr (Some (DiscardCompletedFrames fr))"
| step_release: "reader_step fr (Some (ReleaseStorage fr))"

inductive reader_reachable :: "32 word \<Rightarrow> FrameReader option \<Rightarrow> bool" for m where
  reach_create: "reader_reachable m (Some (FrameReader_create m))"
| reach_step: "reader_reachable m (Some fr) \<Longrightarrow> reader_step fr out \<Longrightarrow> reader_reachable m out"

lemma reader_step_inv:
  "reader_step fr out \<Longrightarrow> FrameReader_inv fr \<Longrightarrow> \<exists>fr'. out = Some fr' \<and> FrameReader_inv fr'"
proof (induction rule: reader_step.induct)
  case (step_append fr alloc adm a bytes)
  then show ?case
    using FrameReader_Append_returns [OF step_append, of alloc adm a bytes] by (auto simp: append_result_def)
next
  case (step_next fr)
  then show ?case using NextFrame_inv [of fr] by auto
next
  case (step_take fr)
  then show ?case using TakeNextFrame_inv [of fr] by auto
qed (simp_all add: Discard_inv ReleaseStorage_inv)

lemma reader_reachable_inv:
  "reader_reachable m out \<Longrightarrow> \<exists>fr. out = Some fr \<and> FrameReader_inv fr"
proof (induction rule: reader_reachable.induct)
  case reach_create
  show ?case by (simp add: FrameReader_create_inv)
next
  case (reach_step fr out)
  then show ?case using reader_step_inv [of fr out] by simp
qed


section \<open>The owning reader and the encoder together\<close>

lemma EncodeFrame_spec:
  assumes "\<And>n. alloc n"
  shows "EncodeFrame alloc body m =
    (if length body \<le> unat m then Inr (encode_frame body) else Inl TooLarge)"
proof (cases "length body \<le> unat m")
  case True
  then have "length body \<le> SIZE_MAX - 4" using unat32_less [of m] by (simp add: SIZE_MAX_eval)
  then show ?thesis
    using True assms EncodeTo_spec [of body m "replicate (4 + length body) 0"]
    by (simp add: EncodeFrame_def not_less)
qed (simp add: EncodeFrame_def)

text \<open>Feeding the pieces of a stream, stopping at the first failure, and emptying the queue.\<close>

fun append_all :: "(nat \<Rightarrow> bool) \<Rightarrow> byte list list \<Rightarrow> FrameReader \<Rightarrow> (status \<times> FrameReader) option" where
  "append_all alloc [] fr = Some (Ok, fr)"
| "append_all alloc (p # ps) fr =
     (case FrameReader_Append alloc None () p fr of
        None \<Rightarrow> None
      | Some (st, _, fr') \<Rightarrow> if st = Ok then append_all alloc ps fr' else Some (st, fr'))"

fun take_all :: "nat \<Rightarrow> FrameReader \<Rightarrow> byte list list" where
  "take_all 0 fr = []"
| "take_all (Suc n) fr =
     (case TakeNextFrame fr of Some (Inr body, fr') \<Rightarrow> body # take_all n fr' | _ \<Rightarrow> [])"

lemma take_all_completed: "FrameReader_inv fr \<Longrightarrow> take_all n fr = take n (frCompleted fr)"
proof (induction n arbitrary: fr)
  case (Suc n)
  then show ?case
    by (cases "frCompleted fr") (auto simp: TakeNextFrame_spec FrameReader_inv_def)
qed simp

lemma append_all_spec:
  assumes "\<And>n. alloc n" "live fr" "split_frames (frMaxBodySize fr) (pending fr) = ([], pending fr, False)"
    "split_frames (frMaxBodySize fr) (pending fr @ concat ps) = (bodies, rest, False)"
    "frCompletedBodyBytes fr + sum_list (map length bodies) \<le> SIZE_MAX"
  shows "\<exists>fr'. append_all alloc ps fr = Some (Ok, fr') \<and> live fr' \<and>
    frCompleted fr' = frCompleted fr @ bodies \<and> pending fr' = rest"
  using assms(2-)
proof (induction ps arbitrary: fr bodies)
  case Nil
  then show ?case by auto
next
  case (Cons p ps)
  let ?m = "frMaxBodySize fr"
  obtain bs1 r1 b1 where s1: "split_frames ?m (pending fr @ p) = (bs1, r1, b1)"
    by (cases "split_frames ?m (pending fr @ p)") auto
  note app = split_frames_append [OF s1, of "concat ps"]
  have nb: "\<not> b1" using app Cons.prems(3) by auto
  obtain bs2 r2 b2 where s2: "split_frames ?m (r1 @ concat ps) = (bs2, r2, b2)"
    by (cases "split_frames ?m (r1 @ concat ps)") auto
  have parts: "bodies = bs1 @ bs2" "r2 = rest" "\<not> b2" using app nb s2 Cons.prems(3) by auto
  then have room: "frCompletedBodyBytes fr + sum_list (map length bs1) \<le> SIZE_MAX"
    using Cons.prems(4) by simp
  obtain fr' where fr': "FrameReader_Append alloc None () p fr = Some (Ok, (), fr')" "live fr'"
      "frCompleted fr' = frCompleted fr @ bs1" "frMaxBodySize fr' = ?m" "pending fr' = r1"
    using FrameReader_Append_live [where alloc = alloc, OF Cons.prems(1) assms(1) s1 room, of "()"] nb
    by auto
  have "frCompletedBodyBytes fr' + sum_list (map length bs2) \<le> SIZE_MAX"
    using Cons.prems(1,4) fr'(2,3) parts by (simp add: live_def FrameReader_inv_def)
  moreover have "split_frames ?m r1 = ([], r1, False)" using split_frames_rest [of ?m _ bs1 r1] s1 nb by auto
  ultimately show ?case
    using Cons.IH [of fr' bs2] fr' s2 parts by auto
qed

text \<open>
  Bodies within the maximum that \<^verbatim>\<open>EncodeFrame\<close> framed, sent as one stream that arrives in any
  pieces, come out of the owning reader with \<^verbatim>\<open>TakeNextFrame\<close> as exactly those bodies in that
  order; every \<^verbatim>\<open>Append\<close> returns Ok and \<^verbatim>\<open>Finish\<close> reports a complete stream.
\<close>

theorem FrameReader_round_trip:
  assumes "\<forall>n. alloc n" and "\<forall>body \<in> set bodies. length body \<le> unat maxBody"
    and "sum_list (map length bodies) \<le> SIZE_MAX"
    and "concat pieces = concat (map (\<lambda>body. projr (EncodeFrame alloc body maxBody)) bodies)"
  shows "\<exists>fr. append_all alloc pieces (FrameReader_create maxBody) = Some (Ok, fr) \<and>
    take_all (length bodies) fr = bodies \<and> FrameReader_Finish fr = Ok \<and>
    \<not> FrameReader_HasIncompleteFrame fr"
proof -
  let ?fr = "FrameReader_create maxBody"
  have "map (\<lambda>body. projr (EncodeFrame alloc body maxBody)) bodies = map encode_frame bodies"
    using assms(1,2) by (simp add: EncodeFrame_spec)
  then have cat: "concat pieces = concat (map encode_frame bodies)" using assms(4) by metis
  have m: "frMaxBodySize ?fr = maxBody" "frCompletedBodyBytes ?fr = 0" "frCompleted ?fr = []"
    by (simp_all add: FrameReader_create_def)
  obtain fr where fr: "append_all alloc pieces ?fr = Some (Ok, fr)" "live fr"
      "frCompleted fr = bodies" "pending fr = []"
    using append_all_spec [of alloc ?fr pieces bodies "[]"] live_create [of maxBody] m cat assms
      split_frames_encode_all [of bodies maxBody] split_frames_short [of "[]" maxBody] by auto
  have "mStart r = mEnd r \<and> mTerminalError r = FE_None" if "frReader fr = Some r" for r
    using that fr(2,4) length_unread [of r] by (auto simp: live_def Reader_inv_def pending_def)
  then show ?thesis
    using fr take_all_completed [of fr "length bodies"]
    by (auto simp: live_def FrameReader_Finish_def FrameReader_HasIncompleteFrame_def Finish_def
        HasIncompleteFrame_def split: option.splits)
qed

theorem FrameReader_round_trip_witness:
  "\<exists>fr. append_all (\<lambda>_. True) [[1, 0, 0, 0], [9, 0, 0], [0, 0]] (FrameReader_create 1) = Some (Ok, fr) \<and>
     take_all 2 fr = [[9], []]"
proof -
  have "concat [[1, 0, 0, 0], [9, 0, 0], [0, 0]] =
      concat (map (\<lambda>body. projr (EncodeFrame (\<lambda>_. True) body 1)) [[9], []])"
    by (simp add: EncodeFrame_spec encode_frame_def frame_header_def)
  from FrameReader_round_trip [OF _ _ _ this] show ?thesis by (auto simp: SIZE_MAX_eval numeral_2_eq_2)
qed

text \<open>
  C5. A reader never asserts, never hangs and never loses count of its queue: from a new reader,
  after any sequence of appends (any bytes, any admission callback, any allocator), takes,
  discards and releases, the operation has returned, the byte counter equals the sum of the
  queued body lengths, and the next body to be taken is covered by the counter, so both ways of
  taking a frame return the oldest one.
\<close>

theorem FrameReader_counter_exact:
  assumes "reader_reachable maxBody out"
  shows "\<exists>fr. out = Some fr \<and> CompletedBodyBytes fr = sum_list (map length (frCompleted fr)) \<and>
    map_option fst (TakeNextFrame fr) =
      Some (if CompletedFrameCount fr = 0 then Inl WouldBlock else Inr (hd (frCompleted fr))) \<and>
    map_option fst (NextFrame fr) = map_option fst (TakeNextFrame fr)"
proof -
  obtain fr where "out = Some fr" "FrameReader_inv fr" using reader_reachable_inv [OF assms] by auto
  then show ?thesis
    by (cases "frCompleted fr")
      (auto simp: CompletedBodyBytes_def CompletedFrameCount_def TakeNextFrame_spec NextFrame_spec
        FrameReader_inv_def)
qed

theorem FrameReader_counter_exact_witness:
  "\<exists>fr. map_option (\<lambda>(st, a', fr'). fr')
       (FrameReader_Append (\<lambda>n. n < 100) (Some (\<lambda>a n. (a + n \<le> 3, a + n))) (0::nat)
         [2, 0, 0, 0, 5, 6, 2, 0, 0, 0, 7, 8] (FrameReader_create 2)) = Some fr \<and>
     CompletedBodyBytes fr = sum_list (map length (frCompleted fr))"
  using FrameReader_counter_exact [OF reach_step [OF reach_create step_append]] by blast


text \<open>
  When the admission callback keeps a running total of what it granted, one \<^verbatim>\<open>Append\<close> queues
  at most the bytes granted during the call, and exactly those when it returns Ok; and once an
  admission was refused the reader is finished: every later \<^verbatim>\<open>Append\<close> and \<^verbatim>\<open>Finish\<close> is TooLarge
  and changes nothing.
\<close>

theorem Append_queues_only_admitted:
  assumes "FrameReader_inv fr" and "keeps_total used adm"
    and "FrameReader_Append alloc (Some adm) a bytes fr = Some (st, a', fr')"
  shows "CompletedBodyBytes fr' + used a \<le> CompletedBodyBytes fr + used a' \<and>
    (st = Ok \<longrightarrow> CompletedBodyBytes fr' + used a = CompletedBodyBytes fr + used a') \<and>
    (frAdmissionTerminal fr' \<longrightarrow> st = TooLarge \<and> FrameReader_Finish fr' = TooLarge \<and>
       FrameReader_Append alloc (Some adm) a' later fr' = Some (TooLarge, a', fr'))"
proof -
  have final: "frAdmissionTerminal fr' \<longrightarrow> st = TooLarge"
    using FrameReader_Append_returns [OF assms(1), of alloc "Some adm" a bytes] assms(3)
    by (auto simp: append_result_def)
  have "CompletedBodyBytes fr' + used a \<le> CompletedBodyBytes fr + used a' \<and>
    (st = Ok \<longrightarrow> CompletedBodyBytes fr' + used a = CompletedBodyBytes fr + used a')"
    using assms(1)
  proof (cases rule: FrameReader_Append_runs [where alloc = alloc and adm = "Some adm" and a = a and bytes = bytes])
    case (early st1 fr1)
    then show ?thesis using assms(3) by (simp add: CompletedBodyBytes_def)
  next
    case (ran bodies fr1 a3 fr3 res r')
    then show ?thesis
      using assms(3) foldl_copy_total [OF assms(2) ran(2)]
      by (auto simp: CompletedBodyBytes_def Let_def split: if_splits)
  qed
  with final show ?thesis by (auto simp: FrameReader_Finish_def FrameReader_Append_def)
qed


theorem Append_queues_only_admitted_witness:
  "\<exists>st a' fr'. FrameReader_Append (\<lambda>n. True) (Some (\<lambda>a n. (a + n \<le> 3, if a + n \<le> 3 then a + n else a)))
      (0::nat) [2, 0, 0, 0, 5, 6, 2, 0, 0, 0, 7, 8] (FrameReader_create 2) = Some (st, a', fr') \<and>
      CompletedBodyBytes fr' \<le> a'"
proof -
  let ?adm = "\<lambda>(a::nat) n. (a + n \<le> 3, if a + n \<le> 3 then a + n else a)"
  obtain st a' fr' where r: "FrameReader_Append (\<lambda>n. True) (Some ?adm) 0
      [2, 0, 0, 0, 5, 6, 2, 0, 0, 0, 7, 8] (FrameReader_create 2) = Some (st, a', fr')"
    using FrameReader_Append_returns [OF FrameReader_create_inv, of "\<lambda>n. True" "Some ?adm" 0
        "[2, 0, 0, 0, 5, 6, 2, 0, 0, 0, 7, 8]" 2] that by auto
  have "keeps_total id ?adm" by (simp add: keeps_total_def)
  from Append_queues_only_admitted [OF FrameReader_create_inv this r]
  have "CompletedBodyBytes fr' \<le> a'" by (simp add: CompletedBodyBytes_def FrameReader_create_def)
  with r show ?thesis by blast
qed

end
