(* ===== verification/Budget.thy ===== *)
theory Budget
  imports Prelude
begin

text \<open>
  Shared budgets: the lock-free reservation of \<^verbatim>\<open>src/Core/AtomicBudgetInternal.h\<close>, the receive and
  parse budgets of the host (\<^verbatim>\<open>src/Runtime/ServerHostSessions.cpp\<close>) and the parse account of a
  network session (\<^verbatim>\<open>ParseAccounting\<close> in \<^verbatim>\<open>src/Runtime/ServerHostNetworkSession.h\<close>).

  The contract of a budget is the locale \<open>lease_budget\<close>: reservations are all or nothing for every
  resource they touch, and giving back what is held always succeeds. From it follows, once, that
  over any history the counters equal what is outstanding. \<open>None\<close> is a failed assertion.
\<close>

section \<open>Leases against a budget\<close>

datatype 'a lease_op = Acquire 'a | Return nat

locale lease_budget =
  fixes used :: "'b \<Rightarrow> 'r \<Rightarrow> nat" and limit :: "'b \<Rightarrow> 'r \<Rightarrow> nat" and cost :: "'a \<Rightarrow> 'r \<Rightarrow> nat"
    and reserve :: "'b \<Rightarrow> 'a \<Rightarrow> (bool \<times> 'b) option" and release :: "'b \<Rightarrow> 'a \<Rightarrow> 'b option"
  assumes reserve_total: "\<exists>ok b'. reserve b a = Some (ok, b')"
    and reserve_granted: "reserve b a = Some (True, b') \<Longrightarrow>
        used b' r = used b r + cost a r \<and> limit b' r = limit b r \<and> (used b r \<le> limit b r \<longrightarrow> used b' r \<le> limit b r)"
    and reserve_refused: "reserve b a = Some (False, b') \<Longrightarrow> used b' r = used b r \<and> limit b' r = limit b r"
    and release_ok: "(\<And>r. cost a r \<le> used b r) \<Longrightarrow>
        \<exists>b'. release b a = Some b' \<and> (\<forall>r. used b' r = used b r - cost a r \<and> limit b' r = limit b r)"
begin

text \<open>One operation on a budget and the list of the leases that are out.\<close>

fun lease_step :: "'a lease_op \<Rightarrow> 'b \<times> 'a list \<Rightarrow> ('b \<times> 'a list) option" where
  "lease_step (Acquire a) (b, held) =
     (case reserve b a of
        None \<Rightarrow> None
      | Some (ok, b') \<Rightarrow> Some (b', if ok then a # held else held))"
| "lease_step (Return i) (b, held) =
     (if i < length held
      then (case release b (held ! i) of
              None \<Rightarrow> None
            | Some b' \<Rightarrow> Some (b', take i held @ drop (Suc i) held))
      else Some (b, held))"

fun lease_run :: "'a lease_op list \<Rightarrow> 'b \<times> 'a list \<Rightarrow> ('b \<times> 'a list) option" where
  "lease_run [] s = Some s"
| "lease_run (op # ops) s = (case lease_step op s of None \<Rightarrow> None | Some s' \<Rightarrow> lease_run ops s')"

definition exact :: "'b \<times> 'a list \<Rightarrow> bool" where
  "exact s \<longleftrightarrow> (\<forall>r. used (fst s) r = sum_list (map (\<lambda>a. cost a r) (snd s)) \<and> used (fst s) r \<le> limit (fst s) r)"

lemma sum_list_remove:
  assumes "i < length xs"
  shows "f (xs ! i) + sum_list (map f (take i xs @ drop (Suc i) xs)) = (sum_list (map f xs) :: nat)"
proof -
  have "sum_list (map f xs) = sum_list (map f (take i xs @ xs ! i # drop (Suc i) xs))"
    using id_take_nth_drop [OF assms] by (rule arg_cong)
  then show ?thesis by simp
qed

lemma lease_step_exact:
  assumes "exact s"
  shows "\<exists>s'. lease_step op s = Some s' \<and> exact s' \<and> (\<forall>r. limit (fst s') r = limit (fst s) r)"
proof (cases op)
  case (Acquire a)
  obtain b held where s: "s = (b, held)" by (cases s)
  obtain ok b' where res: "reserve b a = Some (ok, b')" using reserve_total by blast
  have now: "used b r = sum_list (map (\<lambda>a. cost a r) held)" "used b r \<le> limit b r" for r
    using assms unfolding s exact_def fst_conv snd_conv by blast+
  have "used b' r = sum_list (map (\<lambda>a. cost a r) (if ok then a # held else held)) \<and> used b' r \<le> limit b' r \<and>
      limit b' r = limit b r" for r
    using now [of r] reserve_granted [of b a b' r] reserve_refused [of b a b' r] res by (cases ok) auto
  then have "exact (b', if ok then a # held else held) \<and> (\<forall>r. limit b' r = limit b r)"
    unfolding exact_def fst_conv snd_conv by blast
  then show ?thesis using Acquire s res by simp
next
  case (Return i)
  obtain b held where s: "s = (b, held)" by (cases s)
  show ?thesis
  proof (cases "i < length held")
    case True
    have ub: "used b r = cost (held ! i) r + sum_list (map (\<lambda>a. cost a r) (take i held @ drop (Suc i) held))" for r
      using assms s sum_list_remove [OF True, of "\<lambda>a. cost a r"] by (simp add: exact_def)
    then have "cost (held ! i) r \<le> used b r" for r by simp
    from release_ok [OF this] obtain b' where b': "release b (held ! i) = Some b'"
        "\<forall>r. used b' r = used b r - cost (held ! i) r \<and> limit b' r = limit b r" by blast
    have "used b r \<le> limit b r" for r using assms unfolding s exact_def fst_conv by blast
    then have "used b' r \<le> limit b' r" for r using b'(2) by (metis diff_le_self le_trans)
    moreover have "used b' r = sum_list (map (\<lambda>a. cost a r) (take i held @ drop (Suc i) held))" for r
      using b'(2) ub by simp
    ultimately show ?thesis using True Return s b' by (simp add: exact_def)
  qed (use assms Return s in simp)
qed

lemma lease_run_exact:
  "exact s \<Longrightarrow> \<exists>s'. lease_run ops s = Some s' \<and> exact s' \<and> (\<forall>r. limit (fst s') r = limit (fst s) r)"
proof (induction ops arbitrary: s)
  case (Cons op ops)
  from lease_step_exact [OF Cons.prems] obtain s1 where s1: "lease_step op s = Some s1" "exact s1"
      "\<forall>r. limit (fst s1) r = limit (fst s) r" by blast
  with Cons.IH [OF s1(2)] show ?case by auto
qed simp

end

section \<open>Atomic counters\<close>

text \<open>
  \<^verbatim>\<open>TryReserveBudget\<close> and \<^verbatim>\<open>ReleaseBudget\<close> loop over a compare-and-exchange. Each turn of the loop sees
  the counter as the other threads left it, and the exchange may fail spuriously: a turn is the
  pair of the counter's value and that flag. The loops return the outcome with the counter before
  and after it; \<open>None\<close> for the loop that is still running at the end of the list.
\<close>

datatype budget_outcome = Granted | Refused | AssertFailed

fun TryReserveBudget_loop :: "nat \<Rightarrow> nat \<Rightarrow> nat \<Rightarrow> (nat \<times> bool) list \<Rightarrow> (budget_outcome \<times> nat \<times> nat) option" where
  "TryReserveBudget_loop limit amount current [] = None"
| "TryReserveBudget_loop limit amount current ((used, spurious) # turns) =
     (if current > limit \<or> amount > limit - current then Some (Refused, used, used)
      else if used = current \<and> \<not> spurious then Some (Granted, used, used + amount)
      else TryReserveBudget_loop limit amount used turns)"

fun ReleaseBudget_loop :: "nat \<Rightarrow> nat \<Rightarrow> (nat \<times> bool) list \<Rightarrow> (budget_outcome \<times> nat \<times> nat) option" where
  "ReleaseBudget_loop amount current [] = None"
| "ReleaseBudget_loop amount current ((used, spurious) # turns) =
     (if current < amount then Some (AssertFailed, used, used)
      else if used = current \<and> \<not> spurious then Some (Granted, used, used - amount)
      else ReleaseBudget_loop amount used turns)"

text \<open>The same operations as atomic actions, which is how the rest of the code relies on them.\<close>

definition TryReserveBudget :: "nat \<Rightarrow> nat \<Rightarrow> nat \<Rightarrow> bool \<times> nat" where
  "TryReserveBudget used limit amount =
     (if amount = 0 then (True, used)
      else if used > limit \<or> amount > limit - used then (False, used)
      else (True, used + amount))"

definition ReleaseBudget :: "nat \<Rightarrow> nat \<Rightarrow> nat option" where
  "ReleaseBudget used amount =
     (if amount = 0 then Some used else if used < amount then None else Some (used - amount))"

lemma TryReserveBudget_loop_granted:
  "TryReserveBudget_loop limit amount current turns = Some (Granted, u, u') \<Longrightarrow>
   u' = u + amount \<and> u' \<le> limit"
  by (induction limit amount current turns rule: TryReserveBudget_loop.induct) (auto split: if_splits)

lemma TryReserveBudget_loop_refused:
  "TryReserveBudget_loop limit amount current turns = Some (Refused, u, u') \<Longrightarrow>
   u' = u \<and> (\<exists>seen \<in> insert current (fst ` set turns). limit < seen + amount)"
proof (induction limit amount current turns rule: TryReserveBudget_loop.induct)
  case (2 limit amount current used spurious turns)
  then show ?case by (cases "current > limit \<or> amount > limit - current") (auto split: if_splits)
qed simp

lemma ReleaseBudget_loop_granted:
  "ReleaseBudget_loop amount current turns = Some (Granted, u, u') \<Longrightarrow> amount \<le> u \<and> u' = u - amount"
  by (induction amount current turns rule: ReleaseBudget_loop.induct) (auto split: if_splits)

lemma ReleaseBudget_loop_no_assert:
  "amount \<le> current \<Longrightarrow> \<forall>(used, _) \<in> set turns. amount \<le> used \<Longrightarrow>
   ReleaseBudget_loop amount current turns \<noteq> Some (AssertFailed, u, u')"
  by (induction amount current turns rule: ReleaseBudget_loop.induct) auto

section \<open>The budgets of the host and of a session\<close>

record HostState =
  mPendingReceiveBytes :: nat
  maxTotalPendingReceiveBytes :: nat
  mPendingParseBytes :: nat
  maxTotalPendingParseBytes :: nat
  mPendingParseTasks :: nat
  maxTotalPendingParseTasks :: nat

definition TryReservePendingReceiveBytes :: "HostState \<Rightarrow> nat \<Rightarrow> bool \<times> HostState" where
  "TryReservePendingReceiveBytes h byteCount =
     (case TryReserveBudget (mPendingReceiveBytes h) (maxTotalPendingReceiveBytes h) byteCount of
        (ok, n) \<Rightarrow> (ok, h\<lparr>mPendingReceiveBytes := n\<rparr>))"

definition ReleasePendingReceiveBytes :: "HostState \<Rightarrow> nat \<Rightarrow> HostState option" where
  "ReleasePendingReceiveBytes h byteCount =
     (case ReleaseBudget (mPendingReceiveBytes h) byteCount of
        None \<Rightarrow> None
      | Some n \<Rightarrow> Some (h\<lparr>mPendingReceiveBytes := n\<rparr>))"

definition TryReservePendingParseWork :: "HostState \<Rightarrow> nat \<Rightarrow> nat \<Rightarrow> (bool \<times> HostState) option" where
  "TryReservePendingParseWork h byteCount taskCount =
     (case TryReserveBudget (mPendingParseBytes h) (maxTotalPendingParseBytes h) byteCount of
        (False, _) \<Rightarrow> Some (False, h)
      | (True, n) \<Rightarrow>
          let h1 = h\<lparr>mPendingParseBytes := n\<rparr> in
          (case TryReserveBudget (mPendingParseTasks h1) (maxTotalPendingParseTasks h1) taskCount of
             (True, m) \<Rightarrow> Some (True, h1\<lparr>mPendingParseTasks := m\<rparr>)
           | (False, _) \<Rightarrow>
               (case ReleaseBudget (mPendingParseBytes h1) byteCount of
                  None \<Rightarrow> None
                | Some k \<Rightarrow> Some (False, h1\<lparr>mPendingParseBytes := k\<rparr>))))"

definition ReleasePendingParseWork :: "HostState \<Rightarrow> nat \<Rightarrow> nat \<Rightarrow> HostState option" where
  "ReleasePendingParseWork h byteCount taskCount =
     (case ReleaseBudget (mPendingParseBytes h) byteCount of
        None \<Rightarrow> None
      | Some n \<Rightarrow>
          (case ReleaseBudget (mPendingParseTasks h) taskCount of
             None \<Rightarrow> None
           | Some m \<Rightarrow> Some (h\<lparr>mPendingParseBytes := n, mPendingParseTasks := m\<rparr>)))"

text \<open>The account of one session; its host is \<open>None\<close> once the host is gone.\<close>

record ParseAccounting =
  mByteLimit :: nat
  mTaskLimit :: nat
  mPendingBytes :: nat
  mPendingTasks :: nat

definition ParseAccounting_create :: "nat \<Rightarrow> nat \<Rightarrow> ParseAccounting" where
  "ParseAccounting_create byteLimit taskLimit =
     \<lparr>mByteLimit = byteLimit, mTaskLimit = taskLimit, mPendingBytes = 0, mPendingTasks = 0\<rparr>"

definition ReleaseLocalBoth :: "ParseAccounting \<Rightarrow> nat \<Rightarrow> nat \<Rightarrow> ParseAccounting option" where
  "ReleaseLocalBoth acc byteCount taskCount =
     (case ReleaseBudget (mPendingBytes acc) byteCount of
        None \<Rightarrow> None
      | Some n \<Rightarrow>
          (case ReleaseBudget (mPendingTasks acc) taskCount of
             None \<Rightarrow> None
           | Some m \<Rightarrow> Some (acc\<lparr>mPendingBytes := n, mPendingTasks := m\<rparr>)))"

definition ParseAccounting_TryReserve ::
    "ParseAccounting \<Rightarrow> HostState option \<Rightarrow> nat \<Rightarrow> nat \<Rightarrow> (bool \<times> ParseAccounting \<times> HostState option) option" where
  "ParseAccounting_TryReserve acc host byteCount taskCount =
     (case TryReserveBudget (mPendingBytes acc) (mByteLimit acc) byteCount of
        (False, _) \<Rightarrow> Some (False, acc, host)
      | (True, n) \<Rightarrow>
          let acc1 = acc\<lparr>mPendingBytes := n\<rparr> in
          (case TryReserveBudget (mPendingTasks acc1) (mTaskLimit acc1) taskCount of
             (False, _) \<Rightarrow>
               (case ReleaseBudget (mPendingBytes acc1) byteCount of
                  None \<Rightarrow> None
                | Some k \<Rightarrow> Some (False, acc1\<lparr>mPendingBytes := k\<rparr>, host))
           | (True, m) \<Rightarrow>
               let acc2 = acc1\<lparr>mPendingTasks := m\<rparr>;
                   granted = (case host of
                                None \<Rightarrow> Some (False, None)
                              | Some h \<Rightarrow>
                                  (case TryReservePendingParseWork h byteCount taskCount of
                                     None \<Rightarrow> None
                                   | Some (ok, h') \<Rightarrow> Some (ok, Some h')))
               in (case granted of
                     None \<Rightarrow> None
                   | Some (True, host') \<Rightarrow> Some (True, acc2, host')
                   | Some (False, host') \<Rightarrow>
                       (case ReleaseLocalBoth acc2 byteCount taskCount of
                          None \<Rightarrow> None
                        | Some acc3 \<Rightarrow> Some (False, acc3, host')))))"

definition ParseAccounting_Release ::
    "ParseAccounting \<Rightarrow> HostState option \<Rightarrow> nat \<Rightarrow> nat \<Rightarrow> (ParseAccounting \<times> HostState option) option" where
  "ParseAccounting_Release acc host byteCount taskCount =
     (case ReleaseLocalBoth acc byteCount taskCount of
        None \<Rightarrow> None
      | Some acc' \<Rightarrow>
          (case host of
             None \<Rightarrow> Some (acc', None)
           | Some h \<Rightarrow>
               (case ReleasePendingParseWork h byteCount taskCount of
                  None \<Rightarrow> None
                | Some h' \<Rightarrow> Some (acc', Some h'))))"

section \<open>All sessions of a host together\<close>

lemma TryReserveBudget_cases:
  "TryReserveBudget used limit amount =
     (amount = 0 \<or> used + amount \<le> limit, if amount = 0 \<or> used + amount \<le> limit then used + amount else used)"
  by (auto simp: TryReserveBudget_def)

lemma ReleaseBudget_cases:
  "ReleaseBudget used amount = (if amount \<le> used then Some (used - amount) else None)"
  by (auto simp: ReleaseBudget_def)

lemmas budget_simps = TryReserveBudget_cases ReleaseBudget_cases TryReservePendingParseWork_def
  ReleasePendingParseWork_def ReleaseLocalBoth_def

lemma TryReservePendingParseWork_eq:
  "TryReservePendingParseWork h b t =
     (let ok = (b = 0 \<or> mPendingParseBytes h + b \<le> maxTotalPendingParseBytes h) \<and>
               (t = 0 \<or> mPendingParseTasks h + t \<le> maxTotalPendingParseTasks h)
      in Some (ok, if ok then h\<lparr>mPendingParseBytes := mPendingParseBytes h + b,
                               mPendingParseTasks := mPendingParseTasks h + t\<rparr> else h))"
  by (simp add: budget_simps Let_def)

lemma ParseAccounting_TryReserve_eq:
  "ParseAccounting_TryReserve acc (Some h) b t =
     (let ok = (b = 0 \<or> mPendingBytes acc + b \<le> mByteLimit acc) \<and> (t = 0 \<or> mPendingTasks acc + t \<le> mTaskLimit acc) \<and>
               fst (the (TryReservePendingParseWork h b t))
      in Some (ok, if ok then acc\<lparr>mPendingBytes := mPendingBytes acc + b, mPendingTasks := mPendingTasks acc + t\<rparr> else acc,
               Some (if ok then snd (the (TryReservePendingParseWork h b t)) else h)))"
  by (simp add: ParseAccounting_TryReserve_def TryReservePendingParseWork_eq TryReserveBudget_cases ReleaseBudget_cases
      ReleaseLocalBoth_def Let_def)

text \<open>The receive budget of the host is a budget with one resource.\<close>

interpretation receive: lease_budget "\<lambda>h (_ :: unit). mPendingReceiveBytes h" "\<lambda>h _. maxTotalPendingReceiveBytes h"
    "\<lambda>n _. n" "\<lambda>h n. Some (TryReservePendingReceiveBytes h n)" ReleasePendingReceiveBytes
  by unfold_locales
    (auto simp: TryReservePendingReceiveBytes_def ReleasePendingReceiveBytes_def TryReserveBudget_cases
      ReleaseBudget_cases split: if_splits)

text \<open>
  The parse budgets: a lease of a session takes bytes and tasks from the session's account and from
  the host, which all sessions share.
\<close>

datatype parse_resource = HostBytes | HostTasks | SessionBytes nat | SessionTasks nat

record parse_lease =
  pl_session :: nat
  pl_bytes :: nat
  pl_tasks :: nat

record ParseSystem =
  ps_host :: HostState
  ps_accounts :: "nat \<Rightarrow> ParseAccounting"

fun parse_used :: "ParseSystem \<Rightarrow> parse_resource \<Rightarrow> nat" where
  "parse_used sys HostBytes = mPendingParseBytes (ps_host sys)"
| "parse_used sys HostTasks = mPendingParseTasks (ps_host sys)"
| "parse_used sys (SessionBytes i) = mPendingBytes (ps_accounts sys i)"
| "parse_used sys (SessionTasks i) = mPendingTasks (ps_accounts sys i)"

fun parse_limit :: "ParseSystem \<Rightarrow> parse_resource \<Rightarrow> nat" where
  "parse_limit sys HostBytes = maxTotalPendingParseBytes (ps_host sys)"
| "parse_limit sys HostTasks = maxTotalPendingParseTasks (ps_host sys)"
| "parse_limit sys (SessionBytes i) = mByteLimit (ps_accounts sys i)"
| "parse_limit sys (SessionTasks i) = mTaskLimit (ps_accounts sys i)"

fun parse_cost :: "parse_lease \<Rightarrow> parse_resource \<Rightarrow> nat" where
  "parse_cost l HostBytes = pl_bytes l"
| "parse_cost l HostTasks = pl_tasks l"
| "parse_cost l (SessionBytes i) = (if i = pl_session l then pl_bytes l else 0)"
| "parse_cost l (SessionTasks i) = (if i = pl_session l then pl_tasks l else 0)"

definition parse_reserve :: "ParseSystem \<Rightarrow> parse_lease \<Rightarrow> (bool \<times> ParseSystem) option" where
  "parse_reserve sys l =
     (case ParseAccounting_TryReserve (ps_accounts sys (pl_session l)) (Some (ps_host sys)) (pl_bytes l) (pl_tasks l) of
        None \<Rightarrow> None
      | Some (ok, acc, h) \<Rightarrow>
          Some (ok, sys\<lparr>ps_host := the h, ps_accounts := (ps_accounts sys)(pl_session l := acc)\<rparr>))"

definition parse_release :: "ParseSystem \<Rightarrow> parse_lease \<Rightarrow> ParseSystem option" where
  "parse_release sys l =
     (case ParseAccounting_Release (ps_accounts sys (pl_session l)) (Some (ps_host sys)) (pl_bytes l) (pl_tasks l) of
        None \<Rightarrow> None
      | Some (acc, h) \<Rightarrow> Some (sys\<lparr>ps_host := the h, ps_accounts := (ps_accounts sys)(pl_session l := acc)\<rparr>))"

lemma parse_reserve_granted:
  "parse_reserve sys l = Some (True, sys') \<Longrightarrow>
   parse_used sys' r = parse_used sys r + parse_cost l r \<and> parse_limit sys' r = parse_limit sys r \<and>
   (parse_used sys r \<le> parse_limit sys r \<longrightarrow> parse_used sys' r \<le> parse_limit sys r)"
  by (cases r)
    (auto simp: parse_reserve_def ParseAccounting_TryReserve_eq TryReservePendingParseWork_eq Let_def split: if_splits)

lemma parse_reserve_refused: "parse_reserve sys l = Some (False, sys') \<Longrightarrow> sys' = sys"
  by (auto simp: parse_reserve_def ParseAccounting_TryReserve_eq Let_def split: if_splits)

lemma parse_release_ok:
  assumes "\<And>r. parse_cost l r \<le> parse_used sys r"
  shows "\<exists>sys'. parse_release sys l = Some sys' \<and>
    (\<forall>r. parse_used sys' r = parse_used sys r - parse_cost l r \<and> parse_limit sys' r = parse_limit sys r)"
proof -
  have "pl_bytes l \<le> mPendingBytes (ps_accounts sys (pl_session l))" "pl_tasks l \<le> mPendingTasks (ps_accounts sys (pl_session l))"
      "pl_bytes l \<le> mPendingParseBytes (ps_host sys)" "pl_tasks l \<le> mPendingParseTasks (ps_host sys)"
    using assms [of "SessionBytes (pl_session l)"] assms [of "SessionTasks (pl_session l)"] assms [of HostBytes]
      assms [of HostTasks] by simp_all
  then obtain sys' where sys': "parse_release sys l = Some sys'" "sys' = sys\<lparr>ps_host := (ps_host sys)
      \<lparr>mPendingParseBytes := mPendingParseBytes (ps_host sys) - pl_bytes l,
       mPendingParseTasks := mPendingParseTasks (ps_host sys) - pl_tasks l\<rparr>,
      ps_accounts := (ps_accounts sys)(pl_session l := ps_accounts sys (pl_session l)
      \<lparr>mPendingBytes := mPendingBytes (ps_accounts sys (pl_session l)) - pl_bytes l,
       mPendingTasks := mPendingTasks (ps_accounts sys (pl_session l)) - pl_tasks l\<rparr>)\<rparr>"
    by (simp add: parse_release_def ParseAccounting_Release_def budget_simps)
  have "parse_used sys' r = parse_used sys r - parse_cost l r \<and> parse_limit sys' r = parse_limit sys r" for r
    by (cases r) (simp_all add: sys'(2))
  with sys'(1) show ?thesis by blast
qed

interpretation parse: lease_budget parse_used parse_limit parse_cost parse_reserve parse_release
proof
  fix b a b' r
  show "\<exists>ok b'. parse_reserve b a = Some (ok, b')"
    by (simp add: parse_reserve_def ParseAccounting_TryReserve_eq Let_def)
  show "parse_reserve b a = Some (True, b') \<Longrightarrow> parse_used b' r = parse_used b r + parse_cost a r \<and>
      parse_limit b' r = parse_limit b r \<and> (parse_used b r \<le> parse_limit b r \<longrightarrow> parse_used b' r \<le> parse_limit b r)"
    by (rule parse_reserve_granted)
  show "parse_reserve b a = Some (False, b') \<Longrightarrow> parse_used b' r = parse_used b r \<and> parse_limit b' r = parse_limit b r"
    using parse_reserve_refused by blast
qed (rule parse_release_ok)

text \<open>A host without work and the accounts of its sessions.\<close>

definition parse_system :: "nat \<Rightarrow> nat \<Rightarrow> nat \<Rightarrow> nat \<Rightarrow> ParseSystem" where
  "parse_system hostBytes hostTasks byteLimit taskLimit =
     \<lparr>ps_host = \<lparr>mPendingReceiveBytes = 0, maxTotalPendingReceiveBytes = 0, mPendingParseBytes = 0,
        maxTotalPendingParseBytes = hostBytes, mPendingParseTasks = 0, maxTotalPendingParseTasks = hostTasks\<rparr>,
      ps_accounts = (\<lambda>i. ParseAccounting_create byteLimit taskLimit)\<rparr>"

lemma parse_system_exact: "parse.exact (parse_system hb ht lb lt, [])"
proof -
  have "parse_used (parse_system hb ht lb lt) r = 0" for r
    by (cases r) (simp_all add: parse_system_def ParseAccounting_create_def)
  then show ?thesis by (simp add: parse.exact_def)
qed

text \<open>
  C13. The parse budgets are exact. Over any history of reservations and releases by any number of
  sessions, no assertion fails, each of the host's and the sessions' byte and task counters is the
  sum of the reservations that are out, and none ever exceeds its limit; in particular a
  reservation that one of the four counters refuses leaves no trace in the others.
\<close>

theorem ParseAccounting_exact:
  "\<exists>sys held. parse.lease_run ops (parse_system hostBytes hostTasks byteLimit taskLimit, []) = Some (sys, held) \<and>
     mPendingParseBytes (ps_host sys) = sum_list (map pl_bytes held) \<and>
     mPendingParseTasks (ps_host sys) = sum_list (map pl_tasks held) \<and>
     mPendingParseBytes (ps_host sys) \<le> hostBytes \<and> mPendingParseTasks (ps_host sys) \<le> hostTasks \<and>
     (\<forall>i. mPendingBytes (ps_accounts sys i) = sum_list (map pl_bytes (filter (\<lambda>l. pl_session l = i) held)) \<and>
          mPendingTasks (ps_accounts sys i) = sum_list (map pl_tasks (filter (\<lambda>l. pl_session l = i) held)) \<and>
          mPendingBytes (ps_accounts sys i) \<le> byteLimit \<and> mPendingTasks (ps_accounts sys i) \<le> taskLimit)"
proof -
  from parse.lease_run_exact [OF parse_system_exact, of ops hostBytes hostTasks byteLimit taskLimit]
  obtain sys held where run: "parse.lease_run ops (parse_system hostBytes hostTasks byteLimit taskLimit, []) = Some (sys, held)"
      and ex: "parse.exact (sys, held)"
      and lim: "\<And>r. parse_limit sys r = parse_limit (parse_system hostBytes hostTasks byteLimit taskLimit) r"
    by auto
  have used: "parse_used sys r = sum_list (map (\<lambda>l. parse_cost l r) held)" "parse_used sys r \<le> parse_limit sys r" for r
    using ex unfolding parse.exact_def fst_conv snd_conv by blast+
  have only: "sum_list (map (\<lambda>l. if i = pl_session l then f l else 0) held) =
      (sum_list (map f (filter (\<lambda>l. pl_session l = i) held)) :: nat)" for f i
    by (induction held) auto
  have "mPendingParseBytes (ps_host sys) = sum_list (map pl_bytes held)"
    "mPendingParseTasks (ps_host sys) = sum_list (map pl_tasks held)"
    "mPendingParseBytes (ps_host sys) \<le> hostBytes" "mPendingParseTasks (ps_host sys) \<le> hostTasks"
    using used [of HostBytes] used [of HostTasks] lim [of HostBytes] lim [of HostTasks]
    by (simp_all add: parse_system_def)
  moreover have "mPendingBytes (ps_accounts sys i) = sum_list (map pl_bytes (filter (\<lambda>l. pl_session l = i) held)) \<and>
      mPendingTasks (ps_accounts sys i) = sum_list (map pl_tasks (filter (\<lambda>l. pl_session l = i) held)) \<and>
      mPendingBytes (ps_accounts sys i) \<le> byteLimit \<and> mPendingTasks (ps_accounts sys i) \<le> taskLimit" for i
    using used [of "SessionBytes i"] used [of "SessionTasks i"] lim [of "SessionBytes i"] lim [of "SessionTasks i"]
    by (simp add: only parse_system_def ParseAccounting_create_def)
  ultimately show ?thesis using run by blast
qed

section \<open>Releasing in other portions than reserved\<close>

text \<open>
  A session may give back parts of what it reserved. The books stay exact: they always have a
  reading in which a session holds a single lease with its whole account.
\<close>

definition balanced :: "ParseSystem \<Rightarrow> bool" where
  "balanced sys \<longleftrightarrow> (\<exists>held. parse.exact (sys, held))"

abbreviation lease :: "nat \<Rightarrow> nat \<Rightarrow> nat \<Rightarrow> parse_lease" where
  "lease i b t \<equiv> \<lparr>pl_session = i, pl_bytes = b, pl_tasks = t\<rparr>"

lemma parse_exactD:
  assumes "parse.exact (sys, held)"
  shows "parse_used sys r = sum_list (map (\<lambda>l. parse_cost l r) held)" "parse_used sys r \<le> parse_limit sys r"
  using assms unfolding parse.exact_def fst_conv snd_conv by blast+

lemma sum_list_split:
  "sum_list (map f xs) = sum_list (map f (filter P xs)) + (sum_list (map f (filter (\<lambda>x. \<not> P x) xs)) :: nat)"
  by (induction xs) auto

lemma session_share:
  assumes "\<forall>l \<in> set ls. pl_session l = i"
  shows "sum_list (map (\<lambda>l. parse_cost l r) ls) = parse_cost (lease i (sum_list (map pl_bytes ls)) (sum_list (map pl_tasks ls))) r"
proof (cases r)
  case HostBytes
  then show ?thesis by simp
next
  case HostTasks
  then show ?thesis by simp
next
  case (SessionBytes j)
  have "map (\<lambda>l. parse_cost l (SessionBytes j)) ls = map (\<lambda>l. if j = i then pl_bytes l else 0) ls"
    by (rule map_cong) (use assms in auto)
  then have "sum_list (map (\<lambda>l. parse_cost l (SessionBytes j)) ls) = sum_list (map (\<lambda>l. if j = i then pl_bytes l else 0) ls)"
    by (rule arg_cong)
  moreover have "\<dots> = (if j = i then sum_list (map pl_bytes ls) else 0)" by simp
  ultimately show ?thesis unfolding SessionBytes by simp
next
  case (SessionTasks j)
  have "map (\<lambda>l. parse_cost l (SessionTasks j)) ls = map (\<lambda>l. if j = i then pl_tasks l else 0) ls"
    by (rule map_cong) (use assms in auto)
  then have "sum_list (map (\<lambda>l. parse_cost l (SessionTasks j)) ls) = sum_list (map (\<lambda>l. if j = i then pl_tasks l else 0) ls)"
    by (rule arg_cong)
  moreover have "\<dots> = (if j = i then sum_list (map pl_tasks ls) else 0)" by simp
  ultimately show ?thesis unfolding SessionTasks by simp
qed

lemma session_rest:
  "\<forall>l \<in> set ls. pl_session l \<noteq> i \<Longrightarrow> sum_list (map (\<lambda>l. parse_cost l (SessionBytes i)) ls) = 0 \<and>
     sum_list (map (\<lambda>l. parse_cost l (SessionTasks i)) ls) = 0"
  by (simp only: sum_list_eq_0_iff) auto

lemma parse_exact_merged:
  assumes ex: "parse.exact (sys, held)"
  shows "parse_used sys r =
    parse_cost (lease i (mPendingBytes (ps_accounts sys i)) (mPendingTasks (ps_accounts sys i))) r +
    sum_list (map (\<lambda>l. parse_cost l r) (filter (\<lambda>l. pl_session l \<noteq> i) held))"
proof -
  let ?mine = "filter (\<lambda>l. pl_session l = i) held" and ?rest = "filter (\<lambda>l. pl_session l \<noteq> i) held"
  have split: "parse_used sys r =
      parse_cost (lease i (sum_list (map pl_bytes ?mine)) (sum_list (map pl_tasks ?mine))) r +
      sum_list (map (\<lambda>l. parse_cost l r) ?rest)" for r
    using parse_exactD(1) [OF ex, of r] sum_list_split [of "\<lambda>l. parse_cost l r" held "\<lambda>l. pl_session l = i"]
      session_share [of ?mine i r] by simp
  have "mPendingBytes (ps_accounts sys i) = sum_list (map pl_bytes ?mine)"
      "mPendingTasks (ps_accounts sys i) = sum_list (map pl_tasks ?mine)"
    using split [of "SessionBytes i"] split [of "SessionTasks i"] session_rest [of ?rest i] by auto
  with split show ?thesis by simp
qed

lemma balanced_release:
  assumes bal: "balanced sys" and b: "b \<le> mPendingBytes (ps_accounts sys i)" and t: "t \<le> mPendingTasks (ps_accounts sys i)"
  shows "\<exists>sys'. parse_release sys (lease i b t) = Some sys' \<and> balanced sys' \<and>
    (\<forall>r. parse_used sys' r = parse_used sys r - parse_cost (lease i b t) r \<and> parse_limit sys' r = parse_limit sys r)"
proof -
  obtain held where ex: "parse.exact (sys, held)" using bal by (auto simp: balanced_def)
  let ?B = "mPendingBytes (ps_accounts sys i)" and ?T = "mPendingTasks (ps_accounts sys i)"
  let ?rest = "filter (\<lambda>l. pl_session l \<noteq> i) held"
  note merged = parse_exact_merged [OF ex, of _ i]
  have diff: "parse_cost (lease i (?B - b) (?T - t)) r = parse_cost (lease i ?B ?T) r - parse_cost (lease i b t) r"
      "parse_cost (lease i b t) r \<le> parse_cost (lease i ?B ?T) r" for r
    using b t by (cases r; simp)+
  then have "parse_cost (lease i b t) r \<le> parse_used sys r" for r using merged [of r] diff(2) [of r] by linarith
  from parse_release_ok [OF this] obtain sys' where sys': "parse_release sys (lease i b t) = Some sys'"
      "\<forall>r. parse_used sys' r = parse_used sys r - parse_cost (lease i b t) r \<and> parse_limit sys' r = parse_limit sys r"
    by blast
  have "parse_used sys' r = sum_list (map (\<lambda>l. parse_cost l r) (lease i (?B - b) (?T - t) # ?rest))" for r
    using sys'(2) merged [of r] diff [of r] by simp
  moreover have "parse_used sys' r \<le> parse_limit sys' r" for r
    using sys'(2) parse_exactD(2) [OF ex, of r] by (metis diff_le_self le_trans)
  ultimately have "parse.exact (sys', lease i (?B - b) (?T - t) # ?rest)"
    unfolding parse.exact_def fst_conv snd_conv by blast
  then show ?thesis using sys' by (auto simp: balanced_def)
qed

lemma balanced_reserve:
  assumes "balanced sys"
  shows "\<exists>ok sys'. parse_reserve sys l = Some (ok, sys') \<and> balanced sys' \<and>
    (\<forall>r. parse_used sys' r = parse_used sys r + (if ok then parse_cost l r else 0) \<and> parse_limit sys' r = parse_limit sys r)"
proof -
  obtain held where ex: "parse.exact (sys, held)" using assms by (auto simp: balanced_def)
  obtain ok sys' where res: "parse_reserve sys l = Some (ok, sys')" using parse.reserve_total by blast
  have "balanced sys'" using parse.lease_step_exact [OF ex, of "Acquire l"] res by (auto simp: balanced_def)
  moreover have "parse_used sys' r = parse_used sys r + (if ok then parse_cost l r else 0) \<and> parse_limit sys' r = parse_limit sys r" for r
    using res parse.reserve_granted [of sys l sys' r] parse.reserve_refused [of sys l sys' r] by (cases ok) auto
  ultimately show ?thesis using res by blast
qed

lemma balanced_limits: "balanced sys \<Longrightarrow> parse_used sys r \<le> parse_limit sys r"
  using parse_exactD(2) by (auto simp: balanced_def)

end
