(* ===== verification/ReceivePath.thy ===== *)
theory ReceivePath
  imports Framing Budget
begin

text \<open>
  How a network session charges received frames (\<^verbatim>\<open>src/Runtime/ServerHostNetworkSession.h\<close>): every
  frame is reserved in the parse budget before the frame reader copies it, what was reserved but
  not stored is given back, a queued frame is handed to a parse work item, and the work item gives
  its share back when it is destroyed. The theory composes the frame reader with the budgets.

  Not included are the calls that leave the ledger: disconnecting the session, posting the work
  item, and dispatching its message. The host outlives its sessions here; \<open>None\<close> is a failed assertion.
\<close>

section \<open>Admission of frames\<close>

record ParseAdmission =
  mReservedBytes :: nat
  mReservedTasks :: nat

record FrameWindow =
  mFrameWindowStarted :: "64 word"
  mFrameWindowCount :: nat

text \<open>What the admission callback can change: the window, the admission object, and the budgets.\<close>

record AdmitContext =
  ac_window :: FrameWindow
  ac_admission :: ParseAdmission
  ac_ledger :: ParseSystem

definition Admit :: "nat \<Rightarrow> AdmitContext \<Rightarrow> nat \<Rightarrow> bool \<times> AdmitContext" where
  "Admit i ctx byteCount =
     (case parse_reserve (ac_ledger ctx) (lease i byteCount 1) of
        Some (True, ledger) \<Rightarrow>
          (True, ctx\<lparr>ac_ledger := ledger, ac_admission := \<lparr>mReservedBytes = mReservedBytes (ac_admission ctx) + byteCount,
             mReservedTasks = mReservedTasks (ac_admission ctx) + 1\<rparr>\<rparr>)
      | Some (False, ledger) \<Rightarrow> (False, ctx\<lparr>ac_ledger := ledger\<rparr>)
      | None \<Rightarrow> (False, ctx))"

definition AdmitFrame :: "nat \<Rightarrow> nat \<Rightarrow> 64 word \<Rightarrow> AdmitContext admission" where
  "AdmitFrame i maximum receivedAt ctx byteCount =
     (let w0 = ac_window ctx;
          w = (if receivedAt - mFrameWindowStarted w0 \<ge> 1000
               then \<lparr>mFrameWindowStarted = receivedAt, mFrameWindowCount = 0\<rparr> else w0)
      in if maximum \<noteq> 0 \<and> mFrameWindowCount w \<ge> maximum then (False, ctx\<lparr>ac_window := w\<rparr>)
         else Admit i (ctx\<lparr>ac_window := (if maximum \<noteq> 0 then w\<lparr>mFrameWindowCount := mFrameWindowCount w + 1\<rparr> else w)\<rparr>)
                byteCount)"

definition ReleaseNotStored :: "nat \<Rightarrow> AdmitContext \<Rightarrow> nat \<Rightarrow> nat \<Rightarrow> ParseSystem option" where
  "ReleaseNotStored i ctx storedBytes storedTasks =
     (if mReservedBytes (ac_admission ctx) < storedBytes then None
      else if mReservedTasks (ac_admission ctx) < storedTasks then None
      else parse_release (ac_ledger ctx) \<lparr>pl_session = i, pl_bytes = mReservedBytes (ac_admission ctx) - storedBytes,
             pl_tasks = mReservedTasks (ac_admission ctx) - storedTasks\<rparr>)"

section \<open>The session's queue of frames\<close>

record NetworkSession =
  nsFrameReader :: FrameReader
  mUnscheduledParseBytes :: nat
  mUnscheduledParseTasks :: nat
  mParseInFlight :: bool
  nsWindow :: FrameWindow
  mIncompleteStarted :: "64 word"
  nsClosed :: bool
  nsItems :: "nat list"

definition NetworkSession_create :: "32 word \<Rightarrow> NetworkSession" where
  "NetworkSession_create maxBodySize =
     \<lparr>nsFrameReader = FrameReader_create maxBodySize, mUnscheduledParseBytes = 0, mUnscheduledParseTasks = 0,
      mParseInFlight = False, nsWindow = \<lparr>mFrameWindowStarted = 0, mFrameWindowCount = 0\<rparr>,
      mIncompleteStarted = 0, nsClosed = False, nsItems = []\<rparr>"

definition UpdateFrameDeadline :: "64 word \<Rightarrow> nat \<Rightarrow> NetworkSession \<Rightarrow> NetworkSession" where
  "UpdateFrameDeadline receivedAt completedBefore se =
     (if \<not> FrameReader_HasIncompleteFrame (nsFrameReader se) then se\<lparr>mIncompleteStarted := 0\<rparr>
      else if mIncompleteStarted se = 0 \<or> CompletedFrameCount (nsFrameReader se) > completedBefore
      then se\<lparr>mIncompleteStarted := receivedAt + 1\<rparr>
      else se)"

definition DiscardQueuedParseFramesLocked ::
    "nat \<Rightarrow> NetworkSession \<Rightarrow> ParseSystem \<Rightarrow> (NetworkSession \<times> ParseSystem) option" where
  "DiscardQueuedParseFramesLocked i se sys =
     (case parse_release sys \<lparr>pl_session = i, pl_bytes = mUnscheduledParseBytes se, pl_tasks = mUnscheduledParseTasks se\<rparr> of
        None \<Rightarrow> None
      | Some sys' \<Rightarrow> Some (se\<lparr>nsFrameReader := ReleaseStorage (nsFrameReader se),
                             mUnscheduledParseBytes := 0, mUnscheduledParseTasks := 0\<rparr>, sys'))"

text \<open>
  \<^verbatim>\<open>ConsumeWithParseWorkersOnRunner\<close> up to the end of its locked section; the status it returns is
  what the caller disconnects with.
\<close>

definition ConsumeWithParseWorkers ::
    "(nat \<Rightarrow> bool) \<Rightarrow> nat \<Rightarrow> 64 word \<Rightarrow> nat \<Rightarrow> byte list \<Rightarrow> NetworkSession \<Rightarrow> ParseSystem \<Rightarrow>
     (status \<times> NetworkSession \<times> ParseSystem) option" where
  "ConsumeWithParseWorkers alloc maximum receivedAt i bytes se sys =
     (if nsClosed se then Some (Ok, se, sys)
      else
        let bytesBefore = CompletedBodyBytes (nsFrameReader se);
            framesBefore = CompletedFrameCount (nsFrameReader se);
            ctx = \<lparr>ac_window = nsWindow se, ac_admission = \<lparr>mReservedBytes = 0, mReservedTasks = 0\<rparr>, ac_ledger = sys\<rparr>
        in case FrameReader_Append alloc (Some (AdmitFrame i maximum receivedAt)) ctx bytes (nsFrameReader se) of
             None \<Rightarrow> None
           | Some (appended, ctx', fr) \<Rightarrow>
               let se1 = UpdateFrameDeadline receivedAt framesBefore (se\<lparr>nsFrameReader := fr, nsWindow := ac_window ctx'\<rparr>)
               in if CompletedBodyBytes fr < bytesBefore then None
                  else if CompletedFrameCount fr < framesBefore then None
                  else
                    let newBytes = CompletedBodyBytes fr - bytesBefore;
                        newFrames = CompletedFrameCount fr - framesBefore
                    in case ReleaseNotStored i ctx' newBytes newFrames of
                         None \<Rightarrow> None
                       | Some sys1 \<Rightarrow>
                           let se2 = se1\<lparr>mUnscheduledParseBytes := mUnscheduledParseBytes se1 + newBytes,
                                         mUnscheduledParseTasks := mUnscheduledParseTasks se1 + newFrames\<rparr>
                           in if appended \<noteq> Ok
                              then (case DiscardQueuedParseFramesLocked i se2 sys1 of
                                      None \<Rightarrow> None
                                    | Some (se3, sys2) \<Rightarrow> Some (appended, se3, sys2))
                              else Some (Ok, se2, sys1))"

text \<open>
  \<^verbatim>\<open>StartNextParseOnRunner\<close>: the locked section that moves one frame from the reader into a work
  item, whose length joins \<open>nsItems\<close>. \<open>WouldBlock\<close> says that there was nothing to do.
\<close>

definition StartNextParse ::
    "bool \<Rightarrow> nat \<Rightarrow> NetworkSession \<Rightarrow> ParseSystem \<Rightarrow> (status \<times> NetworkSession \<times> ParseSystem) option" where
  "StartNextParse alloc i se sys =
     (if nsClosed se \<or> mParseInFlight se then Some (WouldBlock, se, sys)
      else case TakeNextFrame (nsFrameReader se) of
        None \<Rightarrow> None
      | Some (Inl e, fr) \<Rightarrow> Some (e, se\<lparr>nsFrameReader := fr\<rparr>, sys)
      | Some (Inr body, fr) \<Rightarrow>
          if mUnscheduledParseTasks se = 0 then None
          else if mUnscheduledParseBytes se < length body then None
          else
            let se1 = se\<lparr>nsFrameReader := fr, mUnscheduledParseTasks := mUnscheduledParseTasks se - 1,
                         mUnscheduledParseBytes := mUnscheduledParseBytes se - length body\<rparr>
            in if alloc then Some (Ok, se1\<lparr>mParseInFlight := True, nsItems := length body # nsItems se1\<rparr>, sys)
               else (case parse_release sys \<lparr>pl_session = i, pl_bytes = length body, pl_tasks = 1\<rparr> of
                       None \<Rightarrow> None
                     | Some sys' \<Rightarrow> Some (PlatformError, se1, sys')))"

text \<open>The destructor of a work item, and the completion that ends the flight.\<close>

definition DestroyWorkItem ::
    "nat \<Rightarrow> nat \<Rightarrow> NetworkSession \<Rightarrow> ParseSystem \<Rightarrow> (NetworkSession \<times> ParseSystem) option" where
  "DestroyWorkItem i k se sys =
     (if k < length (nsItems se) then
        (case parse_release sys \<lparr>pl_session = i, pl_bytes = nsItems se ! k, pl_tasks = 1\<rparr> of
           None \<Rightarrow> None
         | Some sys' \<Rightarrow> Some (se\<lparr>nsItems := take k (nsItems se) @ drop (Suc k) (nsItems se)\<rparr>, sys'))
      else Some (se, sys))"

section \<open>Every frame is charged exactly once\<close>

text \<open>
  The books while the reader copies frames: what the admission object has reserved is on top of the
  account at the start, and covers the frames stored since then.
\<close>

definition admit_inv :: "nat \<Rightarrow> ParseSystem \<Rightarrow> FrameReader \<Rightarrow> AdmitContext \<times> FrameReader \<Rightarrow> bool" where
  "admit_inv i sys fr s \<longleftrightarrow>
     (case s of (ctx, fr') \<Rightarrow>
        balanced (ac_ledger ctx) \<and>
        (\<forall>r. parse_used (ac_ledger ctx) r = parse_used sys r +
             parse_cost (lease i (mReservedBytes (ac_admission ctx)) (mReservedTasks (ac_admission ctx))) r \<and>
             parse_limit (ac_ledger ctx) r = parse_limit sys r) \<and>
        frCompletedBodyBytes fr \<le> frCompletedBodyBytes fr' \<and> length (frCompleted fr) \<le> length (frCompleted fr') \<and>
        frCompletedBodyBytes fr' \<le> frCompletedBodyBytes fr + mReservedBytes (ac_admission ctx) \<and>
        length (frCompleted fr') \<le> length (frCompleted fr) + mReservedTasks (ac_admission ctx))"

text \<open>The context after an admission: reserved, or untouched but for the window.\<close>

lemma Admit_inv:
  assumes "admit_inv i sys fr (ctx, fr')" "Admit i ctx n = (ok, ctx')"
  shows "admit_inv i sys fr (ctx', fr')"
    and "ok \<Longrightarrow> mReservedBytes (ac_admission ctx') = mReservedBytes (ac_admission ctx) + n"
    and "ok \<Longrightarrow> mReservedTasks (ac_admission ctx') = mReservedTasks (ac_admission ctx) + 1"
    and "ok \<Longrightarrow> frCompletedBodyBytes fr' + n \<le> frCompletedBodyBytes fr + mReservedBytes (ac_admission ctx')"
    and "ok \<Longrightarrow> length (frCompleted fr') + 1 \<le> length (frCompleted fr) + mReservedTasks (ac_admission ctx')"
proof -
  let ?L = "ac_ledger ctx" and ?A = "ac_admission ctx"
  have bal: "balanced ?L" and used: "\<And>r. parse_used ?L r = parse_used sys r +
        parse_cost (lease i (mReservedBytes ?A) (mReservedTasks ?A)) r" "\<And>r. parse_limit ?L r = parse_limit sys r"
    and fits: "frCompletedBodyBytes fr \<le> frCompletedBodyBytes fr'" "length (frCompleted fr) \<le> length (frCompleted fr')"
      "frCompletedBodyBytes fr' \<le> frCompletedBodyBytes fr + mReservedBytes ?A"
      "length (frCompleted fr') \<le> length (frCompleted fr) + mReservedTasks ?A"
    using assms(1) unfolding admit_inv_def prod.case by blast+
  from balanced_reserve [OF bal, of "lease i n 1"] obtain ok' L' where res: "parse_reserve ?L (lease i n 1) = Some (ok', L')"
      "balanced L'" "\<And>r. parse_used L' r = parse_used ?L r + (if ok' then parse_cost (lease i n 1) r else 0)"
      "\<And>r. parse_limit L' r = parse_limit ?L r" by blast
  have cost: "parse_cost (lease i (b + n) (Suc t)) r = parse_cost (lease i b t) r + parse_cost (lease i n 1) r" for b t r
    by (cases r) auto
  have new: "ok = ok'" "ctx' = ctx\<lparr>ac_ledger := L', ac_admission := if ok' then \<lparr>mReservedBytes = mReservedBytes ?A + n,
      mReservedTasks = mReservedTasks ?A + 1\<rparr> else ?A\<rparr>"
    using assms(2) res(1) by (cases ok'; auto simp: Admit_def)+
  show "admit_inv i sys fr (ctx', fr')"
    unfolding admit_inv_def prod.case
  proof (intro conjI allI)
    show "balanced (ac_ledger ctx')" using res(2) new(2) by simp
    show "parse_used (ac_ledger ctx') r = parse_used sys r +
        parse_cost (lease i (mReservedBytes (ac_admission ctx')) (mReservedTasks (ac_admission ctx'))) r" for r
      using res(3) [of r] used(1) [of r] new(2) cost [of "mReservedBytes ?A" "mReservedTasks ?A" r] by (cases ok') simp_all
    show "parse_limit (ac_ledger ctx') r = parse_limit sys r" for r using res(4) used(2) new(2) by simp
  qed (use fits new(2) in \<open>auto\<close>)
  show "ok \<Longrightarrow> mReservedBytes (ac_admission ctx') = mReservedBytes ?A + n"
    "ok \<Longrightarrow> mReservedTasks (ac_admission ctx') = mReservedTasks ?A + 1"
    "ok \<Longrightarrow> frCompletedBodyBytes fr' + n \<le> frCompletedBodyBytes fr + mReservedBytes (ac_admission ctx')"
    "ok \<Longrightarrow> length (frCompleted fr') + 1 \<le> length (frCompleted fr) + mReservedTasks (ac_admission ctx')"
    using new fits by simp_all
qed

lemma refused_or: "(if P then (False, a) else b) = (ok, c) \<Longrightarrow> \<not> ok \<and> c = a \<or> b = (ok, c)"
  by (auto split: if_splits)

lemma AdmitFrame_cases:
  assumes "AdmitFrame i maximum receivedAt ctx n = (ok, ctx')"
  obtains (window) w where "\<not> ok" "ctx' = ctx\<lparr>ac_window := w\<rparr>"
  | (admitted) w where "Admit i (ctx\<lparr>ac_window := w\<rparr>) n = (ok, ctx')"
  using refused_or [OF assms [unfolded AdmitFrame_def Let_def]] by blast

lemma admit_inv_window: "admit_inv i sys fr (ctx\<lparr>ac_window := w\<rparr>, fr') = admit_inv i sys fr (ctx, fr')"
  by (simp add: admit_inv_def)

lemma CopyCompletedFrame_admit:
  assumes inv: "admit_inv i sys fr (ctx, fr1)"
    and copy: "CopyCompletedFrame alloc (Some (AdmitFrame i maximum receivedAt)) (ctx, fr1) body = (ctx2, fr2)"
  shows "admit_inv i sys fr (ctx2, fr2)"
proof -
  obtain ok ctx' where adm: "AdmitFrame i maximum receivedAt ctx (length body) = (ok, ctx')" by fastforce
  have "admit_inv i sys fr (ctx', fr1) \<and> (ok \<longrightarrow>
      frCompletedBodyBytes fr1 + length body \<le> frCompletedBodyBytes fr + mReservedBytes (ac_admission ctx') \<and>
      length (frCompleted fr1) + 1 \<le> length (frCompleted fr) + mReservedTasks (ac_admission ctx'))"
    using adm
  proof (cases rule: AdmitFrame_cases)
    case (window w)
    then show ?thesis using inv by (simp add: admit_inv_window)
  next
    case (admitted w)
    have "admit_inv i sys fr (ctx\<lparr>ac_window := w\<rparr>, fr1)" using inv by (simp add: admit_inv_window)
    from Admit_inv(1,4,5) [OF this admitted] show ?thesis by blast
  qed
  then have inv': "admit_inv i sys fr (ctx', fr1)" and room: "ok \<Longrightarrow>
      frCompletedBodyBytes fr1 + length body \<le> frCompletedBodyBytes fr + mReservedBytes (ac_admission ctx') \<and>
      length (frCompleted fr1) + 1 \<le> length (frCompleted fr) + mReservedTasks (ac_admission ctx')" by blast+
  have flags: "admit_inv i sys fr (c, f\<lparr>frCallbackAllocationFailed := x\<rparr>) = admit_inv i sys fr (c, f)"
      "admit_inv i sys fr (c, f\<lparr>frCallbackAdmissionRejected := x\<rparr>) = admit_inv i sys fr (c, f)" for c f x
    by (simp_all add: admit_inv_def)
  have "ok \<Longrightarrow> admit_inv i sys fr (ctx', fr1\<lparr>frCompleted := frCompleted fr1 @ [body],
      frCompletedBodyBytes := frCompletedBodyBytes fr1 + length body\<rparr>)"
    using inv' room unfolding admit_inv_def prod.case by simp
  with inv inv' copy adm show ?thesis
    by (simp add: CopyCompletedFrame_def split: if_splits) (auto simp: flags)
qed

lemma foldl_admit:
  "admit_inv i sys fr s \<Longrightarrow>
   admit_inv i sys fr (foldl (CopyCompletedFrame alloc (Some (AdmitFrame i maximum receivedAt))) s bodies)"
proof (induction bodies arbitrary: s)
  case (Cons body bodies)
  then show ?case using CopyCompletedFrame_admit by (cases s) (metis foldl_Cons surj_pair)
qed simp

lemma Append_admit:
  assumes "FrameReader_inv fr" "admit_inv i sys fr (ctx, fr)"
    "FrameReader_Append alloc (Some (AdmitFrame i maximum receivedAt)) ctx bytes fr = Some (st, ctx', fr')"
  shows "admit_inv i sys fr (ctx', fr')"
  using assms(1)
proof (cases rule: FrameReader_Append_runs [where alloc = alloc and adm = "Some (AdmitFrame i maximum receivedAt)"
      and a = ctx and bytes = bytes])
  case (early st1 fr1)
  then show ?thesis using assms(2,3) by (simp add: admit_inv_def append_result_def)
next
  case (ran bodies fr1 a3 fr3 res r')
  have "admit_inv i sys fr (ctx, reset_flags fr1)" using assms(2) ran(3,4) by (simp add: admit_inv_def)
  from foldl_admit [OF this, of alloc maximum receivedAt bodies] ran(2) have "admit_inv i sys fr (a3, fr3)" by simp
  then show ?thesis using assms(3) ran(1) by (auto simp: admit_inv_def Let_def split: if_splits)
qed

section \<open>The ledger of all sessions\<close>

text \<open>What a session holds: the frames queued in its reader and the work items that are alive.\<close>

definition session_inv :: "nat \<Rightarrow> NetworkSession \<Rightarrow> ParseSystem \<Rightarrow> bool" where
  "session_inv i se sys \<longleftrightarrow>
     FrameReader_inv (nsFrameReader se) \<and>
     mUnscheduledParseBytes se = CompletedBodyBytes (nsFrameReader se) \<and>
     mUnscheduledParseTasks se = CompletedFrameCount (nsFrameReader se) \<and>
     mPendingBytes (ps_accounts sys i) = CompletedBodyBytes (nsFrameReader se) + sum_list (nsItems se) \<and>
     mPendingTasks (ps_accounts sys i) = CompletedFrameCount (nsFrameReader se) + length (nsItems se)"

text \<open>The effect of one session's operation on the ledger: it moves only that session's account.\<close>

definition ledger_moved :: "nat \<Rightarrow> ParseSystem \<Rightarrow> ParseSystem \<Rightarrow> bool" where
  "ledger_moved i sys sys' \<longleftrightarrow> balanced sys' \<and> (\<forall>r. parse_limit sys' r = parse_limit sys r) \<and>
     (\<forall>j. j \<noteq> i \<longrightarrow> parse_used sys' (SessionBytes j) = parse_used sys (SessionBytes j) \<and>
        parse_used sys' (SessionTasks j) = parse_used sys (SessionTasks j))"

lemma ledger_moved_refl: "balanced sys \<Longrightarrow> ledger_moved i sys sys"
  by (simp add: ledger_moved_def)

lemma ledger_moved_trans: "ledger_moved i sys sys1 \<Longrightarrow> ledger_moved i sys1 sys2 \<Longrightarrow> ledger_moved i sys sys2"
  by (simp add: ledger_moved_def)

lemma release_ledger_moved:
  assumes "balanced sys" "b \<le> mPendingBytes (ps_accounts sys i)" "t \<le> mPendingTasks (ps_accounts sys i)"
  obtains sys' where "parse_release sys (lease i b t) = Some sys'" "ledger_moved i sys sys'"
    "mPendingBytes (ps_accounts sys' i) = mPendingBytes (ps_accounts sys i) - b"
    "mPendingTasks (ps_accounts sys' i) = mPendingTasks (ps_accounts sys i) - t"
proof -
  from balanced_release [OF assms] obtain sys' where sys': "parse_release sys (lease i b t) = Some sys'" "balanced sys'"
      and used: "\<And>r. parse_used sys' r = parse_used sys r - parse_cost (lease i b t) r"
        "\<And>r. parse_limit sys' r = parse_limit sys r" by blast
  have "ledger_moved i sys sys'"
    unfolding ledger_moved_def
  proof (intro conjI allI impI)
    fix j assume "j \<noteq> i"
    then show "parse_used sys' (SessionBytes j) = parse_used sys (SessionBytes j)"
        "parse_used sys' (SessionTasks j) = parse_used sys (SessionTasks j)"
      using used(1) [of "SessionBytes j"] used(1) [of "SessionTasks j"] by simp_all
  qed (use sys'(2) used(2) in simp_all)
  then show thesis
    using that [OF sys'(1)] used(1) [of "SessionBytes i"] used(1) [of "SessionTasks i"] by simp
qed

lemma Discard_inv_session:
  assumes "session_inv i se sys" "balanced sys"
  shows "\<exists>se' sys'. DiscardQueuedParseFramesLocked i se sys = Some (se', sys') \<and> session_inv i se' sys' \<and> ledger_moved i sys sys'"
proof -
  have le: "mUnscheduledParseBytes se \<le> mPendingBytes (ps_accounts sys i)"
      "mUnscheduledParseTasks se \<le> mPendingTasks (ps_accounts sys i)"
    using assms(1) by (simp_all add: session_inv_def)
  from release_ledger_moved [OF assms(2) le] obtain sys' where
    "parse_release sys (lease i (mUnscheduledParseBytes se) (mUnscheduledParseTasks se)) = Some sys'" "ledger_moved i sys sys'"
    "mPendingBytes (ps_accounts sys' i) = mPendingBytes (ps_accounts sys i) - mUnscheduledParseBytes se"
    "mPendingTasks (ps_accounts sys' i) = mPendingTasks (ps_accounts sys i) - mUnscheduledParseTasks se" .
  then show ?thesis
    using assms(1) ReleaseStorage_inv
    by (simp add: DiscardQueuedParseFramesLocked_def session_inv_def ReleaseStorage_def DiscardCompletedFrames_def
        CompletedBodyBytes_def CompletedFrameCount_def)
qed

lemma DestroyWorkItem_inv:
  assumes "session_inv i se sys" "balanced sys"
  shows "\<exists>se' sys'. DestroyWorkItem i k se sys = Some (se', sys') \<and> session_inv i se' sys' \<and> ledger_moved i sys sys'"
proof (cases "k < length (nsItems se)")
  case True
  have sum: "nsItems se ! k + sum_list (take k (nsItems se) @ drop (Suc k) (nsItems se)) = sum_list (nsItems se)"
    using parse.sum_list_remove [OF True, of id] by simp
  have "1 \<le> length (nsItems se)" using True by simp
  then have le: "nsItems se ! k \<le> mPendingBytes (ps_accounts sys i)" "1 \<le> mPendingTasks (ps_accounts sys i)"
    using assms(1) sum by (auto simp: session_inv_def)
  from release_ledger_moved [OF assms(2) le] obtain sys' where
    "parse_release sys (lease i (nsItems se ! k) 1) = Some sys'" "ledger_moved i sys sys'"
    "mPendingBytes (ps_accounts sys' i) = mPendingBytes (ps_accounts sys i) - nsItems se ! k"
    "mPendingTasks (ps_accounts sys' i) = mPendingTasks (ps_accounts sys i) - 1" .
  with assms(1) sum True show ?thesis by (simp add: DestroyWorkItem_def session_inv_def)
qed (use assms ledger_moved_refl in \<open>simp add: DestroyWorkItem_def\<close>)

lemma StartNextParse_inv:
  assumes inv: "session_inv i se sys" and bal: "balanced sys"
  shows "\<exists>st se' sys'. StartNextParse alloc i se sys = Some (st, se', sys') \<and> session_inv i se' sys' \<and> ledger_moved i sys sys'"
proof (cases "nsClosed se \<or> mParseInFlight se")
  case True
  then show ?thesis using inv ledger_moved_refl [OF bal] by (simp add: StartNextParse_def)
next
  case False
  let ?fr = "nsFrameReader se"
  have fr: "FrameReader_inv ?fr" using inv by (simp add: session_inv_def)
  show ?thesis
  proof (cases "frCompleted ?fr")
    case Nil
    then show ?thesis using False inv ledger_moved_refl [OF bal]
      by (simp add: StartNextParse_def TakeNextFrame_def session_inv_def FrameReader_inv_def CompletedBodyBytes_def
          CompletedFrameCount_def)
  next
    case (Cons body rest)
    let ?fr1 = "?fr\<lparr>frCurrent := [], frCompleted := rest, frCompletedBodyBytes := frCompletedBodyBytes ?fr - length body\<rparr>"
    have take: "TakeNextFrame ?fr = Some (Inr body, ?fr1)"
      using fr Cons by (simp add: TakeNextFrame_def FrameReader_inv_def)
    have fr1: "FrameReader_inv ?fr1" using fr Cons by (simp add: FrameReader_inv_def)
    have le: "length body \<le> mPendingBytes (ps_accounts sys i)" "1 \<le> mPendingTasks (ps_accounts sys i)"
      using inv fr Cons by (simp_all add: session_inv_def FrameReader_inv_def CompletedBodyBytes_def CompletedFrameCount_def)
    from release_ledger_moved [OF bal le] obtain sys' where
      "parse_release sys (lease i (length body) 1) = Some sys'" "ledger_moved i sys sys'"
      "mPendingBytes (ps_accounts sys' i) = mPendingBytes (ps_accounts sys i) - length body"
      "mPendingTasks (ps_accounts sys' i) = mPendingTasks (ps_accounts sys i) - 1" .
    then show ?thesis
      using False inv take fr1 Cons fr ledger_moved_refl [OF bal, of i]
      by (cases alloc) (simp_all add: StartNextParse_def session_inv_def CompletedBodyBytes_def CompletedFrameCount_def
          FrameReader_inv_def Let_def)
  qed
qed

lemma UpdateFrameDeadline_inv: "session_inv i (UpdateFrameDeadline now before se) sys = session_inv i se sys"
  "mUnscheduledParseBytes (UpdateFrameDeadline now before se) = mUnscheduledParseBytes se"
  "mUnscheduledParseTasks (UpdateFrameDeadline now before se) = mUnscheduledParseTasks se"
  "nsFrameReader (UpdateFrameDeadline now before se) = nsFrameReader se"
  "nsItems (UpdateFrameDeadline now before se) = nsItems se"
  by (simp_all add: UpdateFrameDeadline_def session_inv_def)

text \<open>After the reader has stored what was admitted, the surplus goes back and the books are even.\<close>

lemma ReleaseNotStored_ledger:
  assumes adm: "admit_inv i sys fr (ctx, fr')" and bal: "balanced sys"
  obtains sys' where
    "ReleaseNotStored i ctx (frCompletedBodyBytes fr' - frCompletedBodyBytes fr) (length (frCompleted fr') - length (frCompleted fr)) = Some sys'"
    "ledger_moved i sys sys'"
    "mPendingBytes (ps_accounts sys' i) = mPendingBytes (ps_accounts sys i) + (frCompletedBodyBytes fr' - frCompletedBodyBytes fr)"
    "mPendingTasks (ps_accounts sys' i) = mPendingTasks (ps_accounts sys i) + (length (frCompleted fr') - length (frCompleted fr))"
proof -
  let ?L = "ac_ledger ctx" and ?A = "ac_admission ctx"
  let ?b = "frCompletedBodyBytes fr' - frCompletedBodyBytes fr" and ?t = "length (frCompleted fr') - length (frCompleted fr)"
  have balL: "balanced ?L" and used: "\<And>r. parse_used ?L r = parse_used sys r +
        parse_cost (lease i (mReservedBytes ?A) (mReservedTasks ?A)) r" "\<And>r. parse_limit ?L r = parse_limit sys r"
    and fits: "?b \<le> mReservedBytes ?A" "?t \<le> mReservedTasks ?A"
    using adm unfolding admit_inv_def prod.case by auto
  have acc: "mPendingBytes (ps_accounts ?L i) = mPendingBytes (ps_accounts sys i) + mReservedBytes ?A"
      "mPendingTasks (ps_accounts ?L i) = mPendingTasks (ps_accounts sys i) + mReservedTasks ?A"
    using used(1) [of "SessionBytes i"] used(1) [of "SessionTasks i"] by simp_all
  have "ledger_moved i sys ?L"
    unfolding ledger_moved_def
  proof (intro conjI allI impI)
    fix j assume "j \<noteq> i"
    then show "parse_used ?L (SessionBytes j) = parse_used sys (SessionBytes j)"
        "parse_used ?L (SessionTasks j) = parse_used sys (SessionTasks j)"
      using used(1) [of "SessionBytes j"] used(1) [of "SessionTasks j"] by simp_all
  qed (use balL used(2) in simp_all)
  have "mReservedBytes ?A - ?b \<le> mPendingBytes (ps_accounts ?L i)" "mReservedTasks ?A - ?t \<le> mPendingTasks (ps_accounts ?L i)"
    using acc by simp_all
  from release_ledger_moved [OF balL this] obtain sys' where rel:
    "parse_release ?L (lease i (mReservedBytes ?A - ?b) (mReservedTasks ?A - ?t)) = Some sys'" "ledger_moved i ?L sys'"
    "mPendingBytes (ps_accounts sys' i) = mPendingBytes (ps_accounts ?L i) - (mReservedBytes ?A - ?b)"
    "mPendingTasks (ps_accounts sys' i) = mPendingTasks (ps_accounts ?L i) - (mReservedTasks ?A - ?t)" .
  show thesis
  proof (rule that)
    show "ReleaseNotStored i ctx ?b ?t = Some sys'" using fits rel(1) by (simp add: ReleaseNotStored_def)
    show "ledger_moved i sys sys'" using \<open>ledger_moved i sys ?L\<close> rel(2) by (rule ledger_moved_trans)
  qed (use rel(3,4) acc fits in simp_all)
qed

lemma Consume_inv:
  assumes inv: "session_inv i se sys" and bal: "balanced sys"
  shows "\<exists>st se' sys'. ConsumeWithParseWorkers alloc maximum now i bytes se sys = Some (st, se', sys') \<and>
    session_inv i se' sys' \<and> ledger_moved i sys sys'"
proof (cases "nsClosed se")
  case True
  then show ?thesis using inv ledger_moved_refl [OF bal] by (simp add: ConsumeWithParseWorkers_def)
next
  case False
  let ?fr = "nsFrameReader se"
  let ?ctx = "\<lparr>ac_window = nsWindow se, ac_admission = \<lparr>mReservedBytes = 0, mReservedTasks = 0\<rparr>, ac_ledger = sys\<rparr>"
  have fr: "FrameReader_inv ?fr" using inv by (simp add: session_inv_def)
  from FrameReader_Append_returns [OF fr, of alloc "Some (AdmitFrame i maximum now)" ?ctx bytes] obtain st ctx fr' copies where
    run: "FrameReader_Append alloc (Some (AdmitFrame i maximum now)) ?ctx bytes ?fr = Some (st, ctx, fr')"
    and fr': "FrameReader_inv fr'" by (auto simp: append_result_def)
  have zero: "parse_cost (lease i 0 0) r = 0" for r by (cases r) simp_all
  have "admit_inv i sys ?fr (?ctx, ?fr)" using bal by (simp add: admit_inv_def zero)
  from Append_admit [OF fr this run] have adm: "admit_inv i sys ?fr (ctx, fr')" .
  then have grow: "CompletedBodyBytes ?fr \<le> CompletedBodyBytes fr'" "CompletedFrameCount ?fr \<le> CompletedFrameCount fr'"
    by (simp_all add: admit_inv_def CompletedBodyBytes_def CompletedFrameCount_def)
  from ReleaseNotStored_ledger [OF adm bal] obtain sys1 where rel:
    "ReleaseNotStored i ctx (CompletedBodyBytes fr' - CompletedBodyBytes ?fr) (CompletedFrameCount fr' - CompletedFrameCount ?fr) = Some sys1"
    "ledger_moved i sys sys1"
    "mPendingBytes (ps_accounts sys1 i) = mPendingBytes (ps_accounts sys i) + (CompletedBodyBytes fr' - CompletedBodyBytes ?fr)"
    "mPendingTasks (ps_accounts sys1 i) = mPendingTasks (ps_accounts sys i) + (CompletedFrameCount fr' - CompletedFrameCount ?fr)"
    unfolding CompletedBodyBytes_def CompletedFrameCount_def .
  define se1 where "se1 = UpdateFrameDeadline now (CompletedFrameCount ?fr) (se\<lparr>nsFrameReader := fr', nsWindow := ac_window ctx\<rparr>)"
  define se2 where "se2 = se1\<lparr>mUnscheduledParseBytes := mUnscheduledParseBytes se1 + (CompletedBodyBytes fr' - CompletedBodyBytes ?fr),
      mUnscheduledParseTasks := mUnscheduledParseTasks se1 + (CompletedFrameCount fr' - CompletedFrameCount ?fr)\<rparr>"
  have inv2: "session_inv i se2 sys1"
    using inv fr' grow rel(3,4) by (simp add: session_inv_def se2_def se1_def UpdateFrameDeadline_inv)
  have bal1: "balanced sys1" using rel(2) by (simp add: ledger_moved_def)
  have result: "ConsumeWithParseWorkers alloc maximum now i bytes se sys =
      (if st \<noteq> Ok then (case DiscardQueuedParseFramesLocked i se2 sys1 of
          None \<Rightarrow> None | Some (se3, sys2) \<Rightarrow> Some (st, se3, sys2)) else Some (Ok, se2, sys1))"
    using False run grow rel(1) by (simp add: ConsumeWithParseWorkers_def se2_def se1_def Let_def)
  show ?thesis
  proof (cases "st = Ok")
    case True
    then show ?thesis using result inv2 rel(2) by simp
  next
    case False
    with Discard_inv_session [OF inv2 bal1] result rel(2) ledger_moved_trans show ?thesis by fastforce
  qed
qed

datatype receive_op =
    ReceiveBytes "nat \<Rightarrow> bool" nat "64 word" "byte list"
  | ParseNext bool
  | DropItem nat
  | EndFlight
  | DiscardFrames
  | CloseSession

fun session_step :: "nat \<Rightarrow> receive_op \<Rightarrow> NetworkSession \<times> ParseSystem \<Rightarrow> (NetworkSession \<times> ParseSystem) option" where
  "session_step i (ReceiveBytes alloc maximum now bytes) (se, sys) =
     map_option snd (ConsumeWithParseWorkers alloc maximum now i bytes se sys)"
| "session_step i (ParseNext alloc) (se, sys) = map_option snd (StartNextParse alloc i se sys)"
| "session_step i (DropItem k) (se, sys) = DestroyWorkItem i k se sys"
| "session_step i EndFlight (se, sys) = Some (se\<lparr>mParseInFlight := False\<rparr>, sys)"
| "session_step i DiscardFrames (se, sys) = DiscardQueuedParseFramesLocked i se sys"
| "session_step i CloseSession (se, sys) = Some (se\<lparr>nsClosed := True\<rparr>, sys)"

fun receive_run :: "(nat \<times> receive_op) list \<Rightarrow> (nat \<Rightarrow> NetworkSession) \<Rightarrow> ParseSystem \<Rightarrow>
    ((nat \<Rightarrow> NetworkSession) \<times> ParseSystem) option" where
  "receive_run [] ses sys = Some (ses, sys)"
| "receive_run ((i, op) # ops) ses sys =
     (case session_step i op (ses i, sys) of
        None \<Rightarrow> None
      | Some (se, sys') \<Rightarrow> receive_run ops (ses(i := se)) sys')"

lemma session_step_inv:
  assumes inv: "session_inv i se sys" and bal: "balanced sys"
  shows "\<exists>se' sys'. session_step i op (se, sys) = Some (se', sys') \<and> session_inv i se' sys' \<and> ledger_moved i sys sys'"
proof (cases op)
  case (ReceiveBytes alloc maximum now bytes)
  then show ?thesis using Consume_inv [OF inv bal, of alloc maximum now bytes] by auto
next
  case (ParseNext alloc)
  then show ?thesis using StartNextParse_inv [OF inv bal, of alloc] by auto
next
  case (DropItem k)
  then show ?thesis using DestroyWorkItem_inv [OF inv bal, of k] by simp
next
  case DiscardFrames
  then show ?thesis using Discard_inv_session [OF inv bal] by simp
qed (use inv ledger_moved_refl [OF bal] in \<open>simp_all add: session_inv_def\<close>)

lemma session_inv_other: "session_inv j se sys \<Longrightarrow> ledger_moved i sys sys' \<Longrightarrow> j \<noteq> i \<Longrightarrow> session_inv j se sys'"
  by (simp add: session_inv_def ledger_moved_def)

lemma receive_run_inv:
  "(\<forall>i. session_inv i (ses i) sys) \<Longrightarrow> balanced sys \<Longrightarrow>
   \<exists>ses' sys'. receive_run ops ses sys = Some (ses', sys') \<and> (\<forall>i. session_inv i (ses' i) sys') \<and> balanced sys' \<and>
     (\<forall>r. parse_limit sys' r = parse_limit sys r)"
proof (induction ops arbitrary: ses sys)
  case (Cons p ops)
  obtain i op where p: "p = (i, op)" by (cases p)
  from session_step_inv [of i "ses i" sys op] Cons.prems obtain se' sys' where step:
    "session_step i op (ses i, sys) = Some (se', sys')" "session_inv i se' sys'" "ledger_moved i sys sys'" by blast
  have "\<forall>j. session_inv j ((ses(i := se')) j) sys'" using step(2,3) Cons.prems(1) session_inv_other [OF _ step(3)] by simp
  moreover have "balanced sys'" using step(3) by (simp add: ledger_moved_def)
  ultimately obtain ses2 sys2 where
    "receive_run ops (ses(i := se')) sys' = Some (ses2, sys2)" "\<forall>i. session_inv i (ses2 i) sys2" "balanced sys2"
    "\<forall>r. parse_limit sys2 r = parse_limit sys' r" using Cons.IH by blast
  then show ?case using step(1,3) p by (simp add: ledger_moved_def)
qed simp


end
