(* ===== verification/SendQueue.thy ===== *)
theory SendQueue
  imports Budget
begin

text \<open>
  The send side of a connection: the budget all connections of a host share
  (\<^verbatim>\<open>src/Net/SendBudgetInternal.cpp\<close>) and the queue of owned payloads of one connection
  (\<^verbatim>\<open>src/Net/SendQueueInternal.cpp\<close>). A payload is charged from the moment it is queued until its
  storage is released, which is when its last byte was sent. \<open>None\<close> is a failed assertion.
\<close>

section \<open>The shared budget\<close>

record SendBudget =
  mLimitBytes :: nat
  mConnectionLimitBytes :: nat
  mUsedBytes :: nat
  mChanged :: bool

definition SendBudget_create :: "nat \<Rightarrow> nat \<Rightarrow> SendBudget option" where
  "SendBudget_create limitBytes connectionLimitBytes =
     (if limitBytes = 0 \<or> connectionLimitBytes = 0 then None
      else Some \<lparr>mLimitBytes = limitBytes, mConnectionLimitBytes = connectionLimitBytes, mUsedBytes = 0, mChanged = False\<rparr>)"

definition TryReserve :: "SendBudget \<Rightarrow> nat \<Rightarrow> bool \<times> SendBudget" where
  "TryReserve b byteCount =
     (case TryReserveBudget (mUsedBytes b) (mLimitBytes b) byteCount of (ok, n) \<Rightarrow> (ok, b\<lparr>mUsedBytes := n\<rparr>))"

definition MarkChanged :: "SendBudget \<Rightarrow> SendBudget" where
  "MarkChanged b = b\<lparr>mChanged := True\<rparr>"

definition Release :: "SendBudget \<Rightarrow> nat \<Rightarrow> SendBudget option" where
  "Release b byteCount =
     (case ReleaseBudget (mUsedBytes b) byteCount of
        None \<Rightarrow> None
      | Some n \<Rightarrow>
          let b1 = b\<lparr>mUsedBytes := n\<rparr> in Some (if byteCount \<noteq> 0 then MarkChanged b1 else b1))"

interpretation send: lease_budget "\<lambda>b (_ :: unit). mUsedBytes b" "\<lambda>b _. mLimitBytes b" "\<lambda>n _. n"
    "\<lambda>b n. Some (TryReserve b n)" Release
  by unfold_locales
    (auto simp: TryReserve_def Release_def MarkChanged_def TryReserveBudget_cases ReleaseBudget_cases Let_def
      split: if_splits)

section \<open>The queue of a connection\<close>

record SendQueue =
  mPayloads :: "byte list list"
  mOffset :: nat
  mQueuedBytes :: nat
  mRetainedBytes :: nat
  mCapacityRetained :: nat

definition SendQueue_create :: SendQueue where
  "SendQueue_create = \<lparr>mPayloads = [], mOffset = 0, mQueuedBytes = 0, mRetainedBytes = 0, mCapacityRetained = 0\<rparr>"

definition Enqueue :: "bool \<Rightarrow> SendBudget \<Rightarrow> SendQueue \<Rightarrow> byte list \<Rightarrow> (status \<times> SendBudget \<times> SendQueue) option" where
  "Enqueue alloc b q bytes =
     (if bytes = [] then Some (Ok, b, q)
      else if mRetainedBytes q > mConnectionLimitBytes b \<or> length bytes > mConnectionLimitBytes b - mRetainedBytes q
      then Some (WouldBlock, b, q)
      else case TryReserve b (length bytes) of
        (False, b1) \<Rightarrow> Some (WouldBlock, b1, q)
      | (True, b1) \<Rightarrow>
          if \<not> alloc then
            (case Release b1 (length bytes) of None \<Rightarrow> None | Some b2 \<Rightarrow> Some (PlatformError, b2, q))
          else Some (Ok, b1, q\<lparr>mPayloads := mPayloads q @ [bytes],
                              mQueuedBytes := mQueuedBytes q + length bytes,
                              mRetainedBytes := mRetainedBytes q + length bytes,
                              mCapacityRetained := mRetainedBytes q + length bytes\<rparr>))"

definition SendQueue_Empty :: "SendQueue \<Rightarrow> bool" where
  "SendQueue_Empty q \<longleftrightarrow> mPayloads q = []"

definition Front :: "SendQueue \<Rightarrow> byte list option" where
  "Front q = (case mPayloads q of [] \<Rightarrow> None | p # _ \<Rightarrow> Some (drop (mOffset q) p))"

definition SendQueue_Consume :: "SendBudget \<Rightarrow> SendQueue \<Rightarrow> nat \<Rightarrow> (SendBudget \<times> SendQueue) option" where
  "SendQueue_Consume b q bytes =
     (case mPayloads q of
        [] \<Rightarrow> None
      | p # ps \<Rightarrow>
          if bytes > length p - mOffset q then None
          else
            let q1 = q\<lparr>mOffset := mOffset q + bytes, mQueuedBytes := mQueuedBytes q - bytes\<rparr>
            in if mOffset q1 = length p then
                 let released = length p;
                     q2 = q1\<lparr>mPayloads := ps, mOffset := 0, mRetainedBytes := mRetainedBytes q1 - released,
                             mCapacityRetained := mRetainedBytes q1 - released\<rparr>
                 in (case Release b released of None \<Rightarrow> None | Some b1 \<Rightarrow> Some (b1, q2))
               else Some (b, q1))"

definition SendQueue_Clear :: "SendBudget \<Rightarrow> SendQueue \<Rightarrow> (SendBudget \<times> SendQueue) option" where
  "SendQueue_Clear b q =
     (let released = mRetainedBytes q;
          q1 = \<lparr>mPayloads = [], mOffset = 0, mQueuedBytes = 0, mRetainedBytes = 0, mCapacityRetained = 0\<rparr>
      in case Release b released of None \<Rightarrow> None | Some b1 \<Rightarrow> Some (b1, q1))"

text \<open>The bytes that are still to be sent.\<close>

definition unsent :: "SendQueue \<Rightarrow> byte list" where
  [abs_simps]: "unsent q = drop (mOffset q) (concat (mPayloads q))"

definition queue_inv :: "SendQueue \<Rightarrow> bool" where
  [inv_simps]: "queue_inv q \<longleftrightarrow>
     mRetainedBytes q = length (concat (mPayloads q)) \<and> mQueuedBytes q + mOffset q = mRetainedBytes q \<and>
     mCapacityRetained q = mRetainedBytes q \<and> list_all (\<lambda>p. p \<noteq> []) (mPayloads q) \<and>
     (case mPayloads q of [] \<Rightarrow> mOffset q = 0 | p # _ \<Rightarrow> mOffset q < length p)"

lemma queue_inv_create: "queue_inv SendQueue_create"
  by (simp add: queue_inv_def SendQueue_create_def)

lemma Front_unsent:
  assumes "queue_inv q" "Front q = Some f"
  shows "f \<noteq> [] \<and> (\<exists>rest. unsent q = f @ rest)"
  using assms by (auto simp: queue_inv_def Front_def unsent_def split: list.splits)

lemma Release_some: "n \<le> mUsedBytes b \<Longrightarrow> \<exists>b'. Release b n = Some b' \<and> mUsedBytes b' = mUsedBytes b - n \<and>
   mLimitBytes b' = mLimitBytes b \<and> mConnectionLimitBytes b' = mConnectionLimitBytes b \<and> (mChanged b' = (mChanged b \<or> n \<noteq> 0))"
  by (simp add: Release_def ReleaseBudget_cases MarkChanged_def Let_def)

lemma TryReserve_eq: "TryReserve b n =
  (n = 0 \<or> mUsedBytes b + n \<le> mLimitBytes b,
   if n = 0 \<or> mUsedBytes b + n \<le> mLimitBytes b then b\<lparr>mUsedBytes := mUsedBytes b + n\<rparr> else b)"
  by (simp add: TryReserve_def TryReserveBudget_cases)

text \<open>What each operation does to the queue and the budget, given that the budget covers the queue.\<close>

lemma Enqueue_spec:
  assumes "queue_inv q" "mUsedBytes b \<le> mLimitBytes b"
  obtains (queued) b' q' where "Enqueue alloc b q bytes = Some (Ok, b', q')" "queue_inv q'" "unsent q' = unsent q @ bytes"
      "mRetainedBytes q' = mRetainedBytes q + length bytes" "mUsedBytes b' = mUsedBytes b + length bytes"
      "mUsedBytes b' \<le> mLimitBytes b" "mLimitBytes b' = mLimitBytes b" "mConnectionLimitBytes b' = mConnectionLimitBytes b"
      "bytes = [] \<or> mRetainedBytes q' \<le> mConnectionLimitBytes b"
  | (refused) e b' where "Enqueue alloc b q bytes = Some (e, b', q)" "e \<noteq> Ok" "mUsedBytes b' = mUsedBytes b"
      "mLimitBytes b' = mLimitBytes b" "mConnectionLimitBytes b' = mConnectionLimitBytes b"
proof (cases "bytes = []")
  case True
  then show ?thesis using queued [of b q] assms by (simp add: Enqueue_def)
next
  case False
  show ?thesis
  proof (cases "mRetainedBytes q > mConnectionLimitBytes b \<or> length bytes > mConnectionLimitBytes b - mRetainedBytes q \<or>
      \<not> mUsedBytes b + length bytes \<le> mLimitBytes b")
    case True
    then have "Enqueue alloc b q bytes = Some (WouldBlock, b, q)" using False by (auto simp: Enqueue_def TryReserve_eq)
    then show ?thesis using refused [of WouldBlock b] by simp
  next
    case fits: False
    let ?b1 = "b\<lparr>mUsedBytes := mUsedBytes b + length bytes\<rparr>"
    obtain b2 where b2: "Release ?b1 (length bytes) = Some b2" "mUsedBytes b2 = mUsedBytes b" "mLimitBytes b2 = mLimitBytes b"
        "mConnectionLimitBytes b2 = mConnectionLimitBytes b"
      using Release_some [of "length bytes" ?b1] by auto
    show ?thesis
    proof (cases alloc)
      case False
      with fits \<open>bytes \<noteq> []\<close> b2 show ?thesis
        using refused [of PlatformError b2] by (simp add: Enqueue_def TryReserve_eq)
    next
      case True
      let ?q = "q\<lparr>mPayloads := mPayloads q @ [bytes], mQueuedBytes := mQueuedBytes q + length bytes,
        mRetainedBytes := mRetainedBytes q + length bytes, mCapacityRetained := mRetainedBytes q + length bytes\<rparr>"
      have "Enqueue alloc b q bytes = Some (Ok, ?b1, ?q)"
        using True fits \<open>bytes \<noteq> []\<close> by (simp add: Enqueue_def TryReserve_eq)
      moreover have "queue_inv ?q" using assms(1) \<open>bytes \<noteq> []\<close> by (auto simp: queue_inv_def split: list.splits)
      moreover have "unsent ?q = unsent q @ bytes" using assms(1) by (auto simp: queue_inv_def unsent_def)
      moreover have "mRetainedBytes q + length bytes \<le> mConnectionLimitBytes b" using fits by linarith
      ultimately show ?thesis using queued [of ?b1 ?q] fits by simp
    qed
  qed
qed

lemma Consume_spec:
  assumes inv: "queue_inv q" and covered: "mRetainedBytes q \<le> mUsedBytes b" and front: "Front q = Some f" and n: "n \<le> length f"
  obtains b' q' where "SendQueue_Consume b q n = Some (b', q')" "queue_inv q'" "unsent q = take n f @ unsent q'"
    "mRetainedBytes q' \<le> mRetainedBytes q" "mUsedBytes b' = mUsedBytes b - (mRetainedBytes q - mRetainedBytes q')"
    "mLimitBytes b' = mLimitBytes b" "mConnectionLimitBytes b' = mConnectionLimitBytes b"
proof -
  obtain p ps where q: "mPayloads q = p # ps" and f: "f = drop (mOffset q) p"
    using front by (auto simp: Front_def split: list.splits)
  have off: "mOffset q < length p" and ret: "mRetainedBytes q = length p + length (concat ps)"
    using inv q by (simp_all add: queue_inv_def)
  have le: "n \<le> length p - mOffset q" using n f by simp
  show ?thesis
  proof (cases "mOffset q + n = length p")
    case True
    let ?q = "q\<lparr>mOffset := 0, mQueuedBytes := mQueuedBytes q - n, mPayloads := ps,
      mRetainedBytes := mRetainedBytes q - length p, mCapacityRetained := mRetainedBytes q - length p\<rparr>"
    have "length p \<le> mUsedBytes b" using covered ret by simp
    from Release_some [OF this] obtain b' where b': "Release b (length p) = Some b'" "mUsedBytes b' = mUsedBytes b - length p"
        "mLimitBytes b' = mLimitBytes b" "mConnectionLimitBytes b' = mConnectionLimitBytes b" by blast
    show ?thesis
    proof (rule that)
      show "SendQueue_Consume b q n = Some (b', ?q)" using q True b'(1) le by (simp add: SendQueue_Consume_def Let_def)
      show "queue_inv ?q" using inv q True by (auto simp: queue_inv_def split: list.splits)
      have "take n f = drop (mOffset q) p" using True f by simp
      then show "unsent q = take n f @ unsent ?q" using q off by (simp add: unsent_def)
    qed (use b' ret in simp_all)
  next
    case False
    let ?q = "q\<lparr>mOffset := mOffset q + n, mQueuedBytes := mQueuedBytes q - n\<rparr>"
    show ?thesis
    proof (rule that)
      show "SendQueue_Consume b q n = Some (b, ?q)" using q False le by (simp add: SendQueue_Consume_def Let_def)
      show "queue_inv ?q" using inv q False le off by (auto simp: queue_inv_def)
      show "unsent q = take n f @ unsent ?q"
        using q off le f by (simp add: unsent_def) (metis add.commute append_take_drop_id drop_drop)
    qed (use ret in simp_all)
  qed
qed

lemma Clear_spec:
  assumes "mRetainedBytes q \<le> mUsedBytes b"
  obtains b' where "SendQueue_Clear b q = Some (b', SendQueue_create)" "mUsedBytes b' = mUsedBytes b - mRetainedBytes q"
    "mLimitBytes b' = mLimitBytes b" "mConnectionLimitBytes b' = mConnectionLimitBytes b"
proof -
  from Release_some [OF assms] obtain b' where "Release b (mRetainedBytes q) = Some b'"
    "mUsedBytes b' = mUsedBytes b - mRetainedBytes q" "mLimitBytes b' = mLimitBytes b"
    "mConnectionLimitBytes b' = mConnectionLimitBytes b" by blast
  then show thesis using that by (simp add: SendQueue_Clear_def SendQueue_create_def Let_def)
qed

section \<open>All connections of a host\<close>

text \<open>
  Connections queue payloads, the transport reports how many bytes of the front payload were sent
  (at most as many as it was given), and connections drop their queues. The ghost fields record
  what a connection has handed over since it last dropped its queue, and what went out.
\<close>

datatype send_op = OpEnqueue bool "byte list" | OpSent nat | OpClear

record SendSystem =
  ss_budget :: SendBudget
  ss_queues :: "nat \<Rightarrow> SendQueue"
  ss_accepted :: "nat \<Rightarrow> byte list"
  ss_sent :: "nat \<Rightarrow> byte list"

fun send_step :: "nat \<Rightarrow> send_op \<Rightarrow> SendSystem \<Rightarrow> SendSystem option" where
  "send_step c (OpEnqueue alloc bytes) s =
     (case Enqueue alloc (ss_budget s) (ss_queues s c) bytes of
        None \<Rightarrow> None
      | Some (st, b, q) \<Rightarrow>
          Some (s\<lparr>ss_budget := b, ss_queues := (ss_queues s)(c := q),
                  ss_accepted := (ss_accepted s)(c := ss_accepted s c @ (if st = Ok then bytes else []))\<rparr>))"
| "send_step c (OpSent n) s =
     (if SendQueue_Empty (ss_queues s c) then Some s
      else case Front (ss_queues s c) of
        None \<Rightarrow> None
      | Some f \<Rightarrow>
          let k = min n (length f) in
          (case SendQueue_Consume (ss_budget s) (ss_queues s c) k of
             None \<Rightarrow> None
           | Some (b, q) \<Rightarrow> Some (s\<lparr>ss_budget := b, ss_queues := (ss_queues s)(c := q),
                                    ss_sent := (ss_sent s)(c := ss_sent s c @ take k f)\<rparr>)))"
| "send_step c OpClear s =
     (case SendQueue_Clear (ss_budget s) (ss_queues s c) of
        None \<Rightarrow> None
      | Some (b, q) \<Rightarrow> Some (s\<lparr>ss_budget := b, ss_queues := (ss_queues s)(c := q),
                               ss_accepted := (ss_accepted s)(c := ss_sent s c)\<rparr>))"

fun send_run :: "(nat \<times> send_op) list \<Rightarrow> SendSystem \<Rightarrow> SendSystem option" where
  "send_run [] s = Some s"
| "send_run ((c, op) # ops) s = (case send_step c op s of None \<Rightarrow> None | Some s' \<Rightarrow> send_run ops s')"

definition send_inv :: "nat set \<Rightarrow> SendSystem \<Rightarrow> bool" where
  "send_inv C s \<longleftrightarrow>
     mUsedBytes (ss_budget s) = (\<Sum>c\<in>C. mRetainedBytes (ss_queues s c)) \<and>
     mUsedBytes (ss_budget s) \<le> mLimitBytes (ss_budget s) \<and>
     (\<forall>c. queue_inv (ss_queues s c) \<and> mRetainedBytes (ss_queues s c) \<le> mConnectionLimitBytes (ss_budget s) \<and>
          ss_accepted s c = ss_sent s c @ unsent (ss_queues s c))"

definition send_start :: "SendBudget \<Rightarrow> SendSystem" where
  "send_start b = \<lparr>ss_budget = b, ss_queues = (\<lambda>c. SendQueue_create), ss_accepted = (\<lambda>c. []), ss_sent = (\<lambda>c. [])\<rparr>"

text \<open>One connection's step changes the sum by what it changes itself.\<close>

lemma sum_retained:
  assumes "finite C" "c \<in> C"
  shows "(\<Sum>d\<in>C. mRetainedBytes ((qs(c := q)) d)) + mRetainedBytes (qs c) = (\<Sum>d\<in>C. mRetainedBytes (qs d)) + mRetainedBytes q"
  using assms sum.remove [OF assms, of "\<lambda>d. mRetainedBytes (qs d)"] sum.remove [OF assms, of "\<lambda>d. mRetainedBytes ((qs(c := q)) d)"]
  by simp

lemma send_inv_update:
  assumes inv: "send_inv C s" and C: "finite C" "c \<in> C"
    and q: "queue_inv q" "mRetainedBytes q \<le> mConnectionLimitBytes (ss_budget s)" "acc = sent @ unsent q"
    and used: "mUsedBytes b + mRetainedBytes (ss_queues s c) = mUsedBytes (ss_budget s) + mRetainedBytes q"
      "mUsedBytes b \<le> mLimitBytes (ss_budget s)"
    and same: "mLimitBytes b = mLimitBytes (ss_budget s)" "mConnectionLimitBytes b = mConnectionLimitBytes (ss_budget s)"
  shows "send_inv C (s\<lparr>ss_budget := b, ss_queues := (ss_queues s)(c := q), ss_accepted := (ss_accepted s)(c := acc),
    ss_sent := (ss_sent s)(c := sent)\<rparr>)"
proof -
  have "mUsedBytes b = (\<Sum>d\<in>C. mRetainedBytes (((ss_queues s)(c := q)) d))"
    using used(1) inv sum_retained [OF C, of "ss_queues s" q] by (simp add: send_inv_def)
  then show ?thesis using inv q used(2) same by (simp add: send_inv_def)
qed

lemma send_inv_covered: "send_inv C s \<Longrightarrow> finite C \<Longrightarrow> c \<in> C \<Longrightarrow> mRetainedBytes (ss_queues s c) \<le> mUsedBytes (ss_budget s)"
  using member_le_sum [of c C "\<lambda>d. mRetainedBytes (ss_queues s d)"] by (simp add: send_inv_def)

lemma send_step_inv:
  assumes inv: "send_inv C s" and C: "finite C" "c \<in> C"
  shows "\<exists>s'. send_step c op s = Some s' \<and> send_inv C s' \<and> mLimitBytes (ss_budget s') = mLimitBytes (ss_budget s) \<and>
    mConnectionLimitBytes (ss_budget s') = mConnectionLimitBytes (ss_budget s)"
proof -
  let ?q = "ss_queues s c" and ?b = "ss_budget s"
  have q: "queue_inv ?q" "mRetainedBytes ?q \<le> mConnectionLimitBytes ?b" "ss_accepted s c = ss_sent s c @ unsent ?q"
      and b: "mUsedBytes ?b \<le> mLimitBytes ?b" using inv by (simp_all add: send_inv_def)
  note upd = send_inv_update [OF inv C]
  note covered = send_inv_covered [OF inv C]
  show ?thesis
  proof (cases op)
    case (OpEnqueue alloc bytes)
    from q(1) b show ?thesis
    proof (cases rule: Enqueue_spec [where alloc = alloc and bytes = bytes])
      case (queued b' q')
      have "mRetainedBytes q' \<le> mConnectionLimitBytes ?b" using queued(9,4) q(2) by auto
      with upd [of q' "ss_accepted s c @ bytes" "ss_sent s c" b'] queued q OpEnqueue show ?thesis by simp
    next
      case (refused e b')
      with upd [of ?q "ss_accepted s c" "ss_sent s c" b'] q b OpEnqueue show ?thesis by simp
    qed
  next
    case (OpSent n)
    show ?thesis
    proof (cases "mPayloads ?q")
      case Nil
      then show ?thesis using OpSent inv by (simp add: SendQueue_Empty_def)
    next
      case (Cons p ps)
      then obtain f where f: "Front ?q = Some f" by (simp add: Front_def)
      from Consume_spec [OF q(1) covered f min.cobounded2, of n] obtain b' q' where
        con: "SendQueue_Consume ?b ?q (min n (length f)) = Some (b', q')" "queue_inv q'" "unsent ?q = take (min n (length f)) f @ unsent q'"
        "mRetainedBytes q' \<le> mRetainedBytes ?q" "mUsedBytes b' = mUsedBytes ?b - (mRetainedBytes ?q - mRetainedBytes q')"
        "mLimitBytes b' = mLimitBytes ?b" "mConnectionLimitBytes b' = mConnectionLimitBytes ?b" .
      have "mUsedBytes b' + mRetainedBytes ?q = mUsedBytes ?b + mRetainedBytes q'" using con(4,5) covered by simp
      then have "send_inv C (s\<lparr>ss_budget := b', ss_queues := (ss_queues s)(c := q'), ss_accepted := (ss_accepted s)(c := ss_accepted s c),
          ss_sent := (ss_sent s)(c := ss_sent s c @ take (min n (length f)) f)\<rparr>)"
        by (intro upd) (use con q b in simp_all)
      then show ?thesis using con(1,6,7) Cons f OpSent by (simp add: SendQueue_Empty_def)
    qed
  next
    case OpClear
    from Clear_spec [OF covered] obtain b' where cl: "SendQueue_Clear ?b ?q = Some (b', SendQueue_create)"
      "mUsedBytes b' = mUsedBytes ?b - mRetainedBytes ?q" "mLimitBytes b' = mLimitBytes ?b"
      "mConnectionLimitBytes b' = mConnectionLimitBytes ?b" .
    have "unsent SendQueue_create = []" "mRetainedBytes SendQueue_create = 0" by (simp_all add: unsent_def SendQueue_create_def)
    with upd [of SendQueue_create "ss_sent s c" "ss_sent s c" b'] cl queue_inv_create b covered OpClear show ?thesis by simp
  qed
qed

lemma send_run_inv:
  "send_inv C s \<Longrightarrow> finite C \<Longrightarrow> \<forall>(c, op) \<in> set ops. c \<in> C \<Longrightarrow>
   \<exists>s'. send_run ops s = Some s' \<and> send_inv C s' \<and> mLimitBytes (ss_budget s') = mLimitBytes (ss_budget s) \<and>
     mConnectionLimitBytes (ss_budget s') = mConnectionLimitBytes (ss_budget s)"
proof (induction ops arbitrary: s)
  case (Cons p ops)
  obtain c op where p: "p = (c, op)" by (cases p)
  then have "c \<in> C" using Cons.prems(3) by simp
  from send_step_inv [OF Cons.prems(1,2) this, of op] obtain s1 where s1: "send_step c op s = Some s1" "send_inv C s1"
    "mLimitBytes (ss_budget s1) = mLimitBytes (ss_budget s)"
    "mConnectionLimitBytes (ss_budget s1) = mConnectionLimitBytes (ss_budget s)" by blast
  moreover have "\<forall>(c, op) \<in> set ops. c \<in> C" using Cons.prems(3) by simp
  ultimately show ?case using Cons.IH [OF s1(2) Cons.prems(2)] p by auto
qed simp

lemma send_start_inv:
  "SendBudget_create limit connectionLimit = Some b \<Longrightarrow> send_inv C (send_start b)"
  using queue_inv_create
  by (auto simp: send_inv_def send_start_def SendBudget_create_def SendQueue_create_def unsent_def split: if_splits)

text \<open>
  C15. Sending is lossless, ordered and within its budgets. Over any interleaving of the connections
  of a host: no assertion fails; what a connection has sent, followed by what it still has queued, is
  exactly what it accepted since it last dropped its queue, in order; and the storage retained, sent
  prefixes included, never exceeds the limit of the connection, nor over all connections the limit
  of the host, whose counter is exactly their sum.
\<close>

theorem SendQueue_lossless_within_budget:
  assumes "SendBudget_create limit connectionLimit = Some b" and "finite C"
    and "\<forall>(c, op) \<in> set ops. c \<in> C"
  shows "\<exists>s. send_run ops (send_start b) = Some s \<and>
    (\<forall>c. ss_accepted s c = ss_sent s c @ unsent (ss_queues s c) \<and> mRetainedBytes (ss_queues s c) \<le> connectionLimit \<and>
       length (unsent (ss_queues s c)) = mQueuedBytes (ss_queues s c)) \<and>
    mUsedBytes (ss_budget s) = (\<Sum>c\<in>C. mRetainedBytes (ss_queues s c)) \<and> mUsedBytes (ss_budget s) \<le> limit"
proof -
  have lim: "mLimitBytes (ss_budget (send_start b)) = limit" "mConnectionLimitBytes (ss_budget (send_start b)) = connectionLimit"
    using assms(1) by (auto simp: SendBudget_create_def send_start_def split: if_splits)
  from send_run_inv [OF send_start_inv [OF assms(1)] assms(2,3)] lim obtain s where
    s: "send_run ops (send_start b) = Some s" "send_inv C s" "mLimitBytes (ss_budget s) = limit"
      "mConnectionLimitBytes (ss_budget s) = connectionLimit" by auto
  moreover have "length (unsent (ss_queues s c)) = mQueuedBytes (ss_queues s c)" for c
  proof -
    have "queue_inv (ss_queues s c)" using s(2) by (simp add: send_inv_def)
    then show ?thesis by (auto simp: queue_inv_def unsent_def simp flip: length_concat)
  qed
  ultimately show ?thesis by (auto simp: send_inv_def)
qed

theorem SendQueue_lossless_within_budget_witness:
  "\<exists>b s. SendBudget_create 5 4 = Some b \<and>
     send_run [(0, OpEnqueue True [1, 2, 3]), (1, OpEnqueue True [4, 5, 6]), (0, OpSent 2), (1, OpEnqueue True [7, 8])]
       (send_start b) = Some s \<and> mUsedBytes (ss_budget s) \<le> 5 \<and> ss_accepted s 0 = ss_sent s 0 @ unsent (ss_queues s 0)"
proof -
  obtain b where b: "SendBudget_create 5 4 = Some b" by (simp add: SendBudget_create_def)
  have "\<forall>(c, op) \<in> set [(0, OpEnqueue True [1, 2, 3]), (1, OpEnqueue True [4, 5, 6]), (0, OpSent 2), (1, OpEnqueue True [7, 8])].
      c \<in> {0, 1 :: nat}" by simp
  from SendQueue_lossless_within_budget [OF b _ this] b show ?thesis by auto
qed

end
