(* ===== verification/Completion.thy ===== *)
theory Completion
  imports Prelude
begin

text \<open>
  One-shot completion (\<^verbatim>\<open>src/Core/CompletionSubscription.cpp\<close>): the first of several racing
  completions delivers its code to the callback, \<^verbatim>\<open>Reset\<close> suppresses a delivery that has not begun
  and waits for one that is running, except when it is called by that callback itself.

  Each critical section is one atomic step; the callback runs between the two sections of
  \<^verbatim>\<open>Complete\<close>. Threads are numbers, and the observable events are recorded in a trace.
\<close>

section \<open>The shared state and its critical sections\<close>

record CompletionState =
  mCallback :: bool
  mDone :: bool
  mInvoking :: bool
  mThread :: "nat option"

definition CompletionState_create :: CompletionState where
  "CompletionState_create = \<lparr>mCallback = True, mDone = False, mInvoking = False, mThread = None\<rparr>"

definition CompletionSubscription_Create :: "bool \<Rightarrow> bool \<Rightarrow> CompletionState result" where
  "CompletionSubscription_Create hasCallback alloc =
     (if \<not> hasCallback then Inl InvalidArgument
      else if alloc then Inr CompletionState_create else Inl PlatformError)"

text \<open>\<^verbatim>\<open>Complete\<close>: the section that takes the callback, and the one after the callback returned.\<close>

definition Complete_begin :: "nat \<Rightarrow> CompletionState \<Rightarrow> bool \<times> CompletionState" where
  "Complete_begin t s =
     (if mDone s then (False, s)
      else (True, s\<lparr>mDone := True, mInvoking := True, mThread := Some t, mCallback := False\<rparr>))"

definition Complete_end :: "CompletionState \<Rightarrow> CompletionState" where
  "Complete_end s = s\<lparr>mInvoking := False, mThread := None\<rparr>"

text \<open>\<^verbatim>\<open>Reset\<close>: the section up to the wait, and the condition of the wait.\<close>

definition Reset_begin :: "CompletionState \<Rightarrow> CompletionState" where
  "Reset_begin s = s\<lparr>mDone := True, mCallback := False\<rparr>"

definition Reset_may_return :: "nat \<Rightarrow> CompletionState \<Rightarrow> bool" where
  "Reset_may_return t s \<longleftrightarrow> mThread s = Some t \<or> \<not> mInvoking s"

definition IsPending :: "CompletionState \<Rightarrow> bool" where
  "IsPending s \<longleftrightarrow> \<not> mDone s"

section \<open>Interleavings\<close>

datatype event = Invoked nat ErrorCode | Finished nat | ResetReturned nat

text \<open>
  A thread is outside, inside the callback it invokes, or inside \<^verbatim>\<open>Reset\<close>; a thread inside the
  callback may call \<^verbatim>\<open>Reset\<close> from there.
\<close>

datatype place = Outside | InCallback | Resetting | ResettingInCallback

record world =
  shared :: CompletionState
  place_of :: "nat \<Rightarrow> place"

inductive completion_step :: "world \<Rightarrow> event list \<Rightarrow> world \<Rightarrow> bool" where
  complete: "place_of w t = Outside \<Longrightarrow> Complete_begin t (shared w) = (True, s) \<Longrightarrow>
     completion_step w [Invoked t code] (w\<lparr>shared := s, place_of := (place_of w)(t := InCallback)\<rparr>)"
| complete_late: "Complete_begin t (shared w) = (False, s) \<Longrightarrow> completion_step w [] (w\<lparr>shared := s\<rparr>)"
| finish: "place_of w t = InCallback \<Longrightarrow>
     completion_step w [Finished t] (w\<lparr>shared := Complete_end (shared w), place_of := (place_of w)(t := Outside)\<rparr>)"
| reset: "place_of w t = Outside \<Longrightarrow>
     completion_step w [] (w\<lparr>shared := Reset_begin (shared w), place_of := (place_of w)(t := Resetting)\<rparr>)"
| reset_inside: "place_of w t = InCallback \<Longrightarrow>
     completion_step w [] (w\<lparr>shared := Reset_begin (shared w), place_of := (place_of w)(t := ResettingInCallback)\<rparr>)"
| reset_return: "place_of w t = Resetting \<Longrightarrow> Reset_may_return t (shared w) \<Longrightarrow>
     completion_step w [ResetReturned t] (w\<lparr>place_of := (place_of w)(t := Outside)\<rparr>)"
| reset_return_inside: "place_of w t = ResettingInCallback \<Longrightarrow> Reset_may_return t (shared w) \<Longrightarrow>
     completion_step w [] (w\<lparr>place_of := (place_of w)(t := InCallback)\<rparr>)"

definition fresh_world :: world where
  "fresh_world = \<lparr>shared = CompletionState_create, place_of = (\<lambda>t. Outside)\<rparr>"

inductive completion_trace :: "event list \<Rightarrow> world \<Rightarrow> bool" where
  start: "completion_trace [] fresh_world"
| step: "completion_trace tr w \<Longrightarrow> completion_step w evs w' \<Longrightarrow> completion_trace (tr @ evs) w'"

inductive_cases completion_stepE: "completion_step w evs w'"

definition invocations :: "event list \<Rightarrow> event list" where
  "invocations tr = filter (\<lambda>e. case e of Invoked _ _ \<Rightarrow> True | _ \<Rightarrow> False) tr"

lemma invocations_simps [simp]:
  "invocations [] = []" "invocations (tr @ tr') = invocations tr @ invocations tr'"
  "invocations (Invoked t c # tr) = Invoked t c # invocations tr" "invocations (Finished t # tr) = invocations tr"
  "invocations (ResetReturned t # tr) = invocations tr"
  by (simp_all add: invocations_def)

abbreviation inside :: "place \<Rightarrow> bool" where
  "inside p \<equiv> p = InCallback \<or> p = ResettingInCallback"

text \<open>
  The callback is taken exactly when it was invoked or suppressed, the flags name the thread inside
  it, and a finished reset means that nothing is left to run.
\<close>

definition completion_inv :: "event list \<Rightarrow> world \<Rightarrow> bool" where
  "completion_inv tr w \<longleftrightarrow>
     length (invocations tr) \<le> 1 \<and>
     (\<not> mDone (shared w) \<longrightarrow> invocations tr = [] \<and> (\<forall>t. \<not> inside (place_of w t))) \<and>
     (mCallback (shared w) = (\<not> mDone (shared w))) \<and>
     (\<forall>t. inside (place_of w t) \<longrightarrow> mInvoking (shared w) \<and> mThread (shared w) = Some t) \<and>
     (\<forall>t. mThread (shared w) = Some t \<longrightarrow> inside (place_of w t)) \<and>
     (mInvoking (shared w) \<longrightarrow> mThread (shared w) \<noteq> None) \<and>
     (\<forall>t. place_of w t = Resetting \<longrightarrow> mDone (shared w)) \<and>
     (\<forall>t. ResetReturned t \<in> set tr \<longrightarrow> mDone (shared w) \<and> (\<forall>u. \<not> inside (place_of w u)))"

lemma completion_invD:
  assumes "completion_inv tr w"
  shows "length (invocations tr) \<le> 1" "\<not> mDone (shared w) \<Longrightarrow> invocations tr = []"
    "inside (place_of w t) \<Longrightarrow> mDone (shared w)" "mCallback (shared w) = (\<not> mDone (shared w))"
    "inside (place_of w t) \<Longrightarrow> mInvoking (shared w)" "inside (place_of w t) \<Longrightarrow> mThread (shared w) = Some t"
    "mThread (shared w) = Some t \<Longrightarrow> inside (place_of w t)" "place_of w t = Resetting \<Longrightarrow> mDone (shared w)"
    "ResetReturned t \<in> set tr \<Longrightarrow> mDone (shared w)" "ResetReturned t \<in> set tr \<Longrightarrow> \<not> inside (place_of w u)"
  using assms unfolding completion_inv_def by metis+

text \<open>Moving a thread between places of the same kind keeps the invariant.\<close>

lemma completion_inv_place:
  assumes "completion_inv tr w" "shared w' = shared w" "\<And>u. inside (place_of w' u) = inside (place_of w u)"
    "\<And>u. place_of w' u = Resetting \<Longrightarrow> place_of w u = Resetting"
  shows "completion_inv tr w'"
  using assms(1) unfolding completion_inv_def assms(2,3) using assms(4) by blast

lemma completion_inv_returned:
  assumes "completion_inv tr w" "mDone (shared w)" "\<And>u. \<not> inside (place_of w u)"
  shows "completion_inv (tr @ [ResetReturned t]) w"
  using assms unfolding completion_inv_def by (elim conjE, intro conjI) auto

lemma completion_step_inv:
  assumes inv: "completion_inv tr w" and step: "completion_step w evs w'"
  shows "completion_inv (tr @ evs) w'"
  using step
proof cases
  case (complete t s code)
  then show ?thesis using inv by (auto simp: completion_inv_def Complete_begin_def split: if_splits)
next
  case (complete_late t s)
  then show ?thesis using inv by (auto simp: completion_inv_def Complete_begin_def split: if_splits)
next
  case (finish t)
  have only: "inside (place_of w u) \<Longrightarrow> u = t" for u
    using completion_invD(6) [OF inv, of u] completion_invD(6) [OF inv, of t] finish(3) by simp
  have "mDone (shared w)" using completion_invD(3) [OF inv, of t] finish(3) by simp
  then show ?thesis using inv only finish by (auto simp: completion_inv_def Complete_end_def)
next
  case (reset t)
  then show ?thesis using inv by (auto simp: completion_inv_def Reset_begin_def)
next
  case (reset_inside t)
  have "mDone (shared w)" "\<not> mCallback (shared w)" 
    using completion_invD(3) [OF inv, of t] completion_invD(4) [OF inv] reset_inside(3) by simp_all
  then have "Reset_begin (shared w) = shared w" by (simp add: Reset_begin_def)
  then have "completion_inv tr w'"
    by (intro completion_inv_place [OF inv]) (use reset_inside in \<open>auto split: if_splits\<close>)
  then show ?thesis using reset_inside(1) by simp
next
  case (reset_return t)
  have "mThread (shared w) \<noteq> Some t" "mDone (shared w)"
    using completion_invD(7,8) [OF inv, of t] reset_return(3) by auto
  then have idle: "\<not> mInvoking (shared w)" using reset_return(4) by (simp add: Reset_may_return_def)
  then have quiet: "\<not> inside (place_of w u)" for u using idle completion_invD(5) [OF inv, of u] by blast
  have "completion_inv tr w'"
    by (intro completion_inv_place [OF inv]) (use reset_return in \<open>auto split: if_splits\<close>)
  moreover have "\<not> inside (place_of w' u)" for u using quiet reset_return(2) by simp
  ultimately show ?thesis
    using completion_inv_returned [of tr w' t] \<open>mDone (shared w)\<close> reset_return(1,2) by simp
next
  case (reset_return_inside t)
  have "completion_inv tr w'"
    by (intro completion_inv_place [OF inv]) (use reset_return_inside in \<open>auto split: if_splits\<close>)
  then show ?thesis using reset_return_inside(1) by simp
qed

lemma completion_trace_inv: "completion_trace tr w \<Longrightarrow> completion_inv tr w"
proof (induction rule: completion_trace.induct)
  case start
  show ?case by (simp add: completion_inv_def fresh_world_def CompletionState_create_def)
qed (rule completion_step_inv)

text \<open>Once a reset has returned, only other resets return: no delivery begins or is still running.\<close>

definition calm :: "event \<Rightarrow> event \<Rightarrow> bool" where
  "calm e e' \<longleftrightarrow> (case e of ResetReturned _ \<Rightarrow> (case e' of ResetReturned _ \<Rightarrow> True | _ \<Rightarrow> False) | _ \<Rightarrow> True)"

lemma completion_step_calm:
  assumes "completion_inv tr w" "completion_step w evs w'" "e \<in> set tr" "e' \<in> set evs"
  shows "calm e e'"
proof (cases e)
  case (ResetReturned t)
  with assms(1,3) have quiet: "mDone (shared w)" "\<And>u. \<not> inside (place_of w u)"
    unfolding completion_inv_def by blast+
  from assms(2) show ?thesis
    by cases (use assms(4) quiet in \<open>auto simp: calm_def Complete_begin_def split: event.splits if_splits\<close>)
qed (simp_all add: calm_def)

lemma completion_step_single: "completion_step w evs w' \<Longrightarrow> length evs \<le> 1"
  by (cases rule: completion_step.cases) auto

lemma completion_trace_calm: "completion_trace tr w \<Longrightarrow> sorted_wrt calm tr"
proof (induction rule: completion_trace.induct)
  case (step tr w evs w')
  have "sorted_wrt calm evs" using completion_step_single [OF step.hyps(2)] by (cases evs) auto
  with step completion_step_calm [OF completion_trace_inv [OF step.hyps(1)] step.hyps(2)] show ?case
    by (simp add: sorted_wrt_append)
qed simp

text \<open>
  C16. A completion is delivered at most once and never after \<^verbatim>\<open>Reset\<close>. However completions and
  resets of many threads interleave: the callback is invoked at most once, by the first completion;
  when a \<^verbatim>\<open>Reset\<close> from outside the callback has returned, the callback is not running and never
  runs again; and while the subscription is pending a completion is accepted and invokes it.
\<close>

theorem Completion_at_most_once:
  assumes "completion_trace tr w"
  shows "length (invocations tr) \<le> 1 \<and> sorted_wrt calm tr \<and>
    (IsPending (shared w) \<longrightarrow> invocations tr = [] \<and> fst (Complete_begin t (shared w)))"
  using completion_trace_inv [OF assms] completion_trace_calm [OF assms]
  by (auto simp: completion_inv_def IsPending_def Complete_begin_def)

theorem Completion_at_most_once_witness:
  "\<exists>w. completion_trace [Invoked 3 Cancelled] w \<and> length (invocations [Invoked 3 Cancelled]) \<le> 1"
proof -
  have "completion_trace ([] @ [Invoked 3 Cancelled]) (fresh_world\<lparr>shared := snd (Complete_begin 3 CompletionState_create),
      place_of := (\<lambda>t. Outside)(3 := InCallback)\<rparr>)"
    by (rule completion_trace.step [OF completion_trace.start])
      (use completion_step.complete [of fresh_world 3 _ Cancelled] in
        \<open>auto simp: fresh_world_def Complete_begin_def CompletionState_create_def\<close>)
  then have tr: "completion_trace [Invoked 3 Cancelled] (fresh_world\<lparr>shared := snd (Complete_begin 3 CompletionState_create),
      place_of := (\<lambda>t. Outside)(3 := InCallback)\<rparr>)" by simp
  from Completion_at_most_once [OF tr] tr show ?thesis by blast
qed

end
