(* ===== verification/SendNotify.thy ===== *)
theory SendNotify
  imports SendQueue Completion
begin

text \<open>
  Waking senders that wait for capacity (\<^verbatim>\<open>SendBudget::Notify\<close> in
  \<^verbatim>\<open>src/Net/SendBudgetInternal.cpp\<close> and \<^verbatim>\<open>SendCapacityState\<close> in \<^verbatim>\<open>src/Net/ConnectionFlowControl.cpp\<close>).
  A release only marks the budget as changed, because it happens under a transport lock; whoever
  released then calls \<^verbatim>\<open>Notify\<close> outside the lock, and a single thread at a time visits all waiters.

  The handshake of the two flags is modelled as the atomic accesses of any number of threads, the
  visit of the waiters as a loop over a map that changes between its turns.
\<close>

section \<open>One waiter\<close>

record SendCapacityState =
  cs_retained :: nat
  cs_closed :: bool
  cs_pending :: bool
  cs_required :: nat
  cs_registration :: nat

text \<open>
  \<^verbatim>\<open>SendCapacityState::Notify\<close>: the code with which the pending wait is completed, if it is. Whether
  a wait is pending is what its one-shot completion says.
\<close>

definition CapacityFits :: "SendBudget \<Rightarrow> nat \<Rightarrow> nat \<Rightarrow> bool" where
  "CapacityFits b local required \<longleftrightarrow>
     local \<le> mConnectionLimitBytes b \<and> required \<le> mConnectionLimitBytes b - local \<and>
     mUsedBytes b \<le> mLimitBytes b \<and> required \<le> mLimitBytes b - mUsedBytes b"

definition CapacityState_Notify :: "SendBudget \<Rightarrow> SendCapacityState \<Rightarrow> ErrorCode option \<times> SendCapacityState" where
  "CapacityState_Notify b cs =
     (if \<not> cs_pending cs then (None, cs)
      else if cs_closed cs then (Some Closed, cs\<lparr>cs_pending := False\<rparr>)
      else if CapacityFits b (cs_retained cs) (cs_required cs) then (Some Ok, cs\<lparr>cs_pending := False\<rparr>)
      else (None, cs))"

definition CapacityState_Close :: "SendBudget \<Rightarrow> SendCapacityState \<Rightarrow> SendBudget \<times> SendCapacityState" where
  "CapacityState_Close b cs = (MarkChanged b, cs\<lparr>cs_closed := True\<rparr>)"

text \<open>
  \<^verbatim>\<open>SendCapacityState::Wait\<close> with a token that is not stopped: the status of a refusal, or the code
  with which the new wait was completed at once, if it was.
\<close>

definition CapacityState_Wait ::
    "bool \<Rightarrow> bool \<Rightarrow> nat \<Rightarrow> SendBudget \<Rightarrow> SendCapacityState \<Rightarrow> nat \<Rightarrow> ErrorCode option result \<times> SendCapacityState" where
  "CapacityState_Wait hasCallback alloc nextId b cs bytes =
     (if \<not> hasCallback \<or> bytes = 0 then (Inl InvalidArgument, cs)
      else if bytes > mConnectionLimitBytes b \<or> bytes > mLimitBytes b then (Inl TooLarge, cs)
      else case CompletionSubscription_Create hasCallback alloc of
        Inl e \<Rightarrow> (Inl e, cs)
      | Inr _ \<Rightarrow>
          if cs_closed cs then (Inl Closed, cs)
          else if cs_pending cs then (Inl AlreadyExists, cs)
          else
            let cs1 = cs\<lparr>cs_registration := (if cs_registration cs = 0 then nextId else cs_registration cs),
                         cs_pending := True, cs_required := bytes\<rparr>
            in (case CapacityState_Notify b cs1 of (code, cs2) \<Rightarrow> (Inr code, cs2)))"

section \<open>A pass over the waiters\<close>

text \<open>The least key above a bound: \<^verbatim>\<open>std::map::upper_bound\<close>.\<close>

definition upper_bound :: "nat \<Rightarrow> nat list \<Rightarrow> nat option" where
  "upper_bound prev keys =
     (case filter (\<lambda>k. prev < k) keys of [] \<Rightarrow> None | k # ks \<Rightarrow> Some (fold min ks k))"

text \<open>
  The inner loop of \<^verbatim>\<open>SendBudget::Notify\<close>: each turn looks at the map as it is then, because waiters
  come and go between turns. The result is the sequence of the registrations visited, and whether
  the loop ended within the given turns.
\<close>

fun NotifyPass :: "nat \<Rightarrow> nat \<Rightarrow> nat list list \<Rightarrow> nat list \<times> bool" where
  "NotifyPass prev upper [] = ([], False)"
| "NotifyPass prev upper (keys # turns) =
     (case upper_bound prev keys of
        None \<Rightarrow> ([], True)
      | Some k \<Rightarrow>
          if k > upper then ([], True)
          else (case NotifyPass k upper turns of (visited, ended) \<Rightarrow> (k # visited, ended)))"

lemma fold_min: "fold min ks k = Min (insert k (set ks))"
  by (simp add: Min.set_eq_fold flip: list.set(2))

lemma upper_bound_Some:
  "upper_bound prev keys = Some k \<Longrightarrow> k \<in> set keys \<and> prev < k \<and> (\<forall>j \<in> set keys. prev < j \<longrightarrow> k \<le> j)"
proof -
  assume ub: "upper_bound prev keys = Some k"
  then obtain x xs where f: "filter (\<lambda>k. prev < k) keys = x # xs" "k = Min (set (x # xs))"
    by (auto simp: upper_bound_def fold_min split: list.splits)
  then have "set (x # xs) = {j \<in> set keys. prev < j}" by (metis (no_types, lifting) Collect_cong set_filter)
  with f(2) have k: "k = Min {j \<in> set keys. prev < j}" "{j \<in> set keys. prev < j} \<noteq> {}" by auto
  have "k \<in> {j \<in> set keys. prev < j}" unfolding k(1) by (rule Min_in) (use k(2) in auto)
  moreover have "k \<le> j" if "j \<in> set keys" "prev < j" for j unfolding k(1) by (rule Min_le) (use that in auto)
  ultimately show ?thesis by blast
qed

lemma upper_bound_None: "upper_bound prev keys = None \<Longrightarrow> \<forall>j \<in> set keys. j \<le> prev"
  by (auto simp: upper_bound_def filter_empty_conv split: list.splits)

text \<open>A pass visits ascending registrations, ends, and misses none that stays registered.\<close>

lemma NotifyPass_visits:
  assumes "NotifyPass prev upper turns = (visited, ended)"
  shows "sorted_wrt (<) visited \<and> (\<forall>k \<in> set visited. prev < k \<and> k \<le> upper)"
  using assms
proof (induction turns arbitrary: prev visited)
  case (Cons keys turns)
  show ?case
  proof (cases "upper_bound prev keys")
    case (Some k)
    then show ?thesis
      using Cons.prems Cons.IH [of k] upper_bound_Some [OF Some]
      by (auto split: if_splits prod.splits intro: less_trans)
  qed (use Cons.prems in simp)
qed simp

lemma NotifyPass_ends: "upper - prev < length turns \<Longrightarrow> snd (NotifyPass prev upper turns)"
proof (induction turns arbitrary: prev)
  case (Cons keys turns)
  show ?case
  proof (cases "upper_bound prev keys")
    case (Some k)
    show ?thesis
    proof (cases "k > upper")
      case False
      have "upper - k < length turns" using Cons.prems upper_bound_Some [OF Some] False by auto
      from Cons.IH [OF this] show ?thesis using Some by (auto split: prod.splits)
    qed (use Some in simp)
  qed simp
qed simp

lemma NotifyPass_complete:
  assumes "NotifyPass prev upper turns = (visited, True)" "\<forall>keys \<in> set turns. k \<in> set keys" "prev < k" "k \<le> upper"
  shows "k \<in> set visited"
  using assms
proof (induction turns arbitrary: prev visited)
  case (Cons keys turns)
  obtain j where j: "upper_bound prev keys = Some j"
    using upper_bound_None [of prev keys] Cons.prems(2,3) by (cases "upper_bound prev keys") auto
  from upper_bound_Some [OF j] Cons.prems have "j \<le> k" by auto
  then show ?case using Cons.prems Cons.IH [of j] j by (cases "j = k") (auto split: if_splits prod.splits)
qed simp

section \<open>The handshake\<close>

text \<open>
  Where a thread stands: it has marked a change and still owes the call of \<^verbatim>\<open>Notify\<close>, or it is at one
  of the accesses of \<^verbatim>\<open>Notify\<close> to the two flags.
\<close>

datatype NotifyPc =
    Idle | Owing | FirstLoad | FirstTestAndSet | StoreFalse | Visiting | LoadAfterPass | ClearFlag
  | LoadAfterClear | SecondTestAndSet

text \<open>
  The flags, with two ghosts: \<open>hs_fresh\<close> says that no change was marked since the running pass stored
  \<open>False\<close>, and \<open>hs_served\<close> that a pass which began after the last change has ended.
\<close>

record Handshake =
  hs_changed :: bool
  hs_notifying :: bool
  hs_pc :: "nat \<Rightarrow> NotifyPc"
  hs_fresh :: bool
  hs_served :: bool

definition Handshake_create :: Handshake where
  "Handshake_create = \<lparr>hs_changed = False, hs_notifying = False, hs_pc = (\<lambda>t. Idle), hs_fresh = True, hs_served = True\<rparr>"

abbreviation at_pc :: "nat \<Rightarrow> NotifyPc \<Rightarrow> Handshake \<Rightarrow> Handshake" where
  "at_pc t pc h \<equiv> h\<lparr>hs_pc := (hs_pc h)(t := pc)\<rparr>"

definition Handshake_mark :: "Handshake \<Rightarrow> Handshake" where
  "Handshake_mark h = h\<lparr>hs_changed := True, hs_fresh := False, hs_served := False\<rparr>"

text \<open>One access of the thread \<open>t\<close> inside \<^verbatim>\<open>Notify\<close>.\<close>

definition Notify_access :: "nat \<Rightarrow> Handshake \<Rightarrow> Handshake" where
  "Notify_access t h =
     (case hs_pc h t of
        FirstLoad \<Rightarrow> at_pc t (if hs_changed h then FirstTestAndSet else Idle) h
      | FirstTestAndSet \<Rightarrow>
          if hs_notifying h then at_pc t Idle h else at_pc t StoreFalse (h\<lparr>hs_notifying := True\<rparr>)
      | StoreFalse \<Rightarrow> at_pc t Visiting (h\<lparr>hs_changed := False, hs_fresh := True\<rparr>)
      | Visiting \<Rightarrow> at_pc t LoadAfterPass (if hs_fresh h then h\<lparr>hs_served := True\<rparr> else h)
      | LoadAfterPass \<Rightarrow> at_pc t (if hs_changed h then StoreFalse else ClearFlag) h
      | ClearFlag \<Rightarrow> at_pc t LoadAfterClear (h\<lparr>hs_notifying := False\<rparr>)
      | LoadAfterClear \<Rightarrow> at_pc t (if hs_changed h then SecondTestAndSet else Idle) h
      | SecondTestAndSet \<Rightarrow>
          if hs_notifying h then at_pc t Idle h else at_pc t StoreFalse (h\<lparr>hs_notifying := True\<rparr>)
      | _ \<Rightarrow> h)"

inductive handshake_step :: "Handshake \<Rightarrow> Handshake \<Rightarrow> bool" where
  mark: "hs_pc h t \<in> {Idle, Owing} \<Longrightarrow> handshake_step h (at_pc t Owing (Handshake_mark h))"
| mark_in_callback: "hs_pc h t = Visiting \<Longrightarrow> handshake_step h (Handshake_mark h)"
| call: "hs_pc h t \<in> {Idle, Owing} \<Longrightarrow> handshake_step h (at_pc t FirstLoad h)"
| access: "hs_pc h t \<notin> {Idle, Owing} \<Longrightarrow> handshake_step h (Notify_access t h)"

inductive handshake_reachable :: "Handshake \<Rightarrow> bool" where
  start: "handshake_reachable Handshake_create"
| step: "handshake_reachable h \<Longrightarrow> handshake_step h h' \<Longrightarrow> handshake_reachable h'"

definition holds_flag :: "NotifyPc \<Rightarrow> bool" where
  "holds_flag pc \<longleftrightarrow> pc \<in> {StoreFalse, Visiting, LoadAfterPass, ClearFlag}"

definition handshake_inv :: "Handshake \<Rightarrow> bool" where
  "handshake_inv h \<longleftrightarrow>
     (hs_notifying h \<longrightarrow> (\<exists>t. holds_flag (hs_pc h t))) \<and>
     (\<forall>t. holds_flag (hs_pc h t) \<longrightarrow> hs_notifying h) \<and>
     (\<forall>t u. holds_flag (hs_pc h t) \<longrightarrow> holds_flag (hs_pc h u) \<longrightarrow> t = u) \<and>
     (hs_changed h \<longrightarrow> (\<exists>t. hs_pc h t \<noteq> Idle)) \<and>
     (\<not> hs_served h \<longrightarrow> hs_changed h \<or> (\<exists>t. hs_pc h t = Visiting) \<and> hs_fresh h) \<and>
     (\<forall>t. hs_pc h t = Visiting \<and> \<not> hs_fresh h \<longrightarrow> hs_changed h)"

lemma handshake_invI:
  assumes "hs_notifying h \<Longrightarrow> \<exists>t. holds_flag (hs_pc h t)" "\<And>t. holds_flag (hs_pc h t) \<Longrightarrow> hs_notifying h"
    "\<And>t u. holds_flag (hs_pc h t) \<Longrightarrow> holds_flag (hs_pc h u) \<Longrightarrow> t = u" "hs_changed h \<Longrightarrow> \<exists>t. hs_pc h t \<noteq> Idle"
    "\<not> hs_served h \<Longrightarrow> hs_changed h \<or> (\<exists>t. hs_pc h t = Visiting) \<and> hs_fresh h"
    "\<And>t. hs_pc h t = Visiting \<Longrightarrow> \<not> hs_fresh h \<Longrightarrow> hs_changed h"
  shows "handshake_inv h"
  using assms unfolding handshake_inv_def by blast

lemma handshake_invD:
  assumes "handshake_inv h"
  shows "hs_notifying h \<Longrightarrow> \<exists>t. holds_flag (hs_pc h t)" "holds_flag (hs_pc h t) \<Longrightarrow> hs_notifying h"
    "holds_flag (hs_pc h t) \<Longrightarrow> holds_flag (hs_pc h u) \<Longrightarrow> t = u" "hs_changed h \<Longrightarrow> \<exists>t. hs_pc h t \<noteq> Idle"
    "\<not> hs_served h \<Longrightarrow> hs_changed h \<or> (\<exists>t. hs_pc h t = Visiting) \<and> hs_fresh h"
    "hs_pc h t = Visiting \<Longrightarrow> \<not> hs_fresh h \<Longrightarrow> hs_changed h"
  using assms unfolding handshake_inv_def by blast+

lemma holds_flag_simps [simp]:
  "\<not> holds_flag Idle" "\<not> holds_flag Owing" "\<not> holds_flag FirstLoad" "\<not> holds_flag FirstTestAndSet"
  "holds_flag StoreFalse" "holds_flag Visiting" "holds_flag LoadAfterPass" "holds_flag ClearFlag"
  "\<not> holds_flag LoadAfterClear" "\<not> holds_flag SecondTestAndSet"
  by (simp_all add: holds_flag_def)

lemma handshake_inv_mark:
  "handshake_inv h \<Longrightarrow> hs_pc h t \<noteq> Idle \<Longrightarrow> handshake_inv (Handshake_mark h)"
  by (rule handshake_invI) (auto simp: Handshake_mark_def dest: handshake_invD)

text \<open>A thread without the flag moves: it may go idle if nothing is owed or someone else holds the flag.\<close>

lemma handshake_inv_move:
  assumes inv: "handshake_inv h" and pcs: "\<not> holds_flag (hs_pc h t)" "\<not> holds_flag pc"
    and idle: "pc \<noteq> Idle \<or> \<not> hs_changed h \<or> hs_notifying h"
  shows "handshake_inv (at_pc t pc h)"
proof (rule handshake_invI)
  have keeps: "hs_pc (at_pc t pc h) u = hs_pc h u" if "holds_flag (hs_pc h u)" for u using that pcs(1) by auto
  have moved: "holds_flag (hs_pc (at_pc t pc h) u) = holds_flag (hs_pc h u)" for u using pcs by simp
  show "\<exists>u. holds_flag (hs_pc (at_pc t pc h) u)" if "hs_notifying (at_pc t pc h)"
    unfolding moved using handshake_invD(1) [OF inv] that by simp
  show "hs_notifying (at_pc t pc h)" if "holds_flag (hs_pc (at_pc t pc h) u)" for u
    using that unfolding moved using handshake_invD(2) [OF inv, of u] by simp
  show "holds_flag (hs_pc (at_pc t pc h) u) \<Longrightarrow> holds_flag (hs_pc (at_pc t pc h) v) \<Longrightarrow> u = v" for u v
    unfolding moved by (rule handshake_invD(3) [OF inv])
  show "hs_changed (at_pc t pc h)" if "hs_pc (at_pc t pc h) u = Visiting" "\<not> hs_fresh (at_pc t pc h)" for u
    using that handshake_invD(6) [OF inv, of u] pcs by (cases "u = t") auto
  show "\<exists>u. hs_pc (at_pc t pc h) u \<noteq> Idle" if "hs_changed (at_pc t pc h)"
  proof (cases "pc = Idle")
    case True
    with idle that have "hs_notifying h" by simp
    from handshake_invD(1) [OF inv this] obtain u where "holds_flag (hs_pc h u)" by blast
    with pcs(1) have "u \<noteq> t" "hs_pc h u \<noteq> Idle" by auto
    then show ?thesis by auto
  qed (rule exI [of _ t], simp)
  show "hs_changed (at_pc t pc h) \<or> (\<exists>u. hs_pc (at_pc t pc h) u = Visiting) \<and> hs_fresh (at_pc t pc h)"
    if "\<not> hs_served (at_pc t pc h)"
  proof -
    from handshake_invD(5) [OF inv] that consider "hs_changed h" | u where "hs_pc h u = Visiting" "hs_fresh h" by auto
    then show ?thesis
    proof cases
      case 2
      then have "hs_pc (at_pc t pc h) u = Visiting" using keeps [of u] by simp
      with 2(2) show ?thesis by (intro disjI2 conjI exI [of _ u]) simp_all
    qed simp
  qed
qed

text \<open>The holder of the flag moves on and keeps it.\<close>

lemma handshake_inv_hold:
  assumes inv: "handshake_inv h" and pcs: "holds_flag (hs_pc h t)" "holds_flag pc"
    and h': "hs_notifying h'" "hs_pc h' = (hs_pc h)(t := pc)"
    and served: "\<not> hs_served h' \<Longrightarrow> hs_changed h' \<or> pc = Visiting \<and> hs_fresh h'"
    and fresh: "pc = Visiting \<Longrightarrow> \<not> hs_fresh h' \<Longrightarrow> hs_changed h'"
  shows "handshake_inv h'"
proof (rule handshake_invI)
  have one: "u = t" if "holds_flag (hs_pc h' u)" for u
    using that h'(2) handshake_invD(3) [OF inv, of u t] pcs(1) by (cases "u = t") simp_all
  show "\<exists>u. holds_flag (hs_pc h' u)" if "hs_notifying h'" using h'(2) pcs(2) by (intro exI [of _ t]) simp
  show "holds_flag (hs_pc h' u) \<Longrightarrow> holds_flag (hs_pc h' v) \<Longrightarrow> u = v" for u v using one by blast
  have "pc \<noteq> Idle" using pcs(2) by (cases pc) simp_all
  then show "\<exists>u. hs_pc h' u \<noteq> Idle" if "hs_changed h'" using h'(2) by (intro exI [of _ t]) simp
  show "hs_changed h' \<or> (\<exists>u. hs_pc h' u = Visiting) \<and> hs_fresh h'" if "\<not> hs_served h'"
    using served [OF that] h'(2) by (metis fun_upd_same)
  show "hs_changed h'" if "hs_pc h' u = Visiting" "\<not> hs_fresh h'" for u
  proof -
    have "u = t" by (rule one) (simp add: that(1))
    with that(1) h'(2) have "pc = Visiting" by simp
    then show ?thesis using that(2) by (rule fresh)
  qed
qed (rule h'(1))

text \<open>Taking the free flag, and clearing it.\<close>

lemma handshake_inv_take:
  assumes inv: "handshake_inv h" and free: "\<not> hs_notifying h"
  shows "handshake_inv (at_pc t StoreFalse (h\<lparr>hs_notifying := True\<rparr>))"
proof -
  have none: "\<not> holds_flag (hs_pc h u)" for u using handshake_invD(2) [OF inv] free by blast
  then have "hs_pc h u \<noteq> Visiting" for u by (metis holds_flag_simps(6))
  with handshake_invD(5) [OF inv] none show ?thesis by (intro handshake_invI) (auto split: if_splits)
qed

lemma handshake_inv_clear:
  assumes inv: "handshake_inv h" and pc: "hs_pc h t = ClearFlag"
  shows "handshake_inv (at_pc t LoadAfterClear (h\<lparr>hs_notifying := False\<rparr>))"
proof -
  have none: "\<not> holds_flag (hs_pc h u)" if "u \<noteq> t" for u using handshake_invD(3) [OF inv, of u t] pc that by auto
  then have "hs_pc h u \<noteq> Visiting" for u by (cases "u = t") (use pc in auto, metis holds_flag_simps(6))
  with handshake_invD(5) [OF inv] none show ?thesis by (intro handshake_invI) (auto split: if_splits)
qed

lemma handshake_inv_access:
  assumes inv: "handshake_inv h"
  shows "handshake_inv (Notify_access t h)"
proof (cases "hs_pc h t")
  case FirstLoad
  then show ?thesis using handshake_inv_move [OF inv, of t] by (simp add: Notify_access_def)
next
  case FirstTestAndSet
  then show ?thesis
    using handshake_inv_move [OF inv, of t Idle] handshake_inv_take [OF inv] by (simp add: Notify_access_def)
next
  case StoreFalse
  have "hs_notifying h" using handshake_invD(2) [OF inv, of t] StoreFalse by simp
  then show ?thesis using StoreFalse by (intro handshake_inv_hold [OF inv, of t Visiting]) (simp_all add: Notify_access_def)
next
  case Visiting
  have "hs_notifying h" using handshake_invD(2) [OF inv, of t] Visiting by simp
  moreover have "\<not> hs_served (Notify_access t h) \<Longrightarrow> hs_changed (Notify_access t h)"
    using handshake_invD(6) [OF inv Visiting] Visiting by (auto simp: Notify_access_def split: if_splits)
  ultimately show ?thesis
    using Visiting by (intro handshake_inv_hold [OF inv, of t LoadAfterPass]) (simp_all add: Notify_access_def)
next
  case LoadAfterPass
  have n: "hs_notifying h" using handshake_invD(2) [OF inv, of t] LoadAfterPass by simp
  have "hs_pc h u \<noteq> Visiting" for u using handshake_invD(3) [OF inv, of u t] LoadAfterPass by auto
  then have "\<not> hs_served h \<Longrightarrow> hs_changed h" using handshake_invD(5) [OF inv] by blast
  then show ?thesis
    using LoadAfterPass n by (intro handshake_inv_hold [OF inv, of t "if hs_changed h then StoreFalse else ClearFlag"])
      (simp_all add: Notify_access_def split: if_splits)
next
  case ClearFlag
  then show ?thesis using handshake_inv_clear [OF inv] by (simp add: Notify_access_def)
next
  case LoadAfterClear
  then show ?thesis using handshake_inv_move [OF inv, of t] by (simp add: Notify_access_def)
next
  case SecondTestAndSet
  then show ?thesis
    using handshake_inv_move [OF inv, of t Idle] handshake_inv_take [OF inv] by (simp add: Notify_access_def)
qed (use inv in \<open>simp_all add: Notify_access_def\<close>)

lemma handshake_reachable_inv: "handshake_reachable h \<Longrightarrow> handshake_inv h"
proof (induction rule: handshake_reachable.induct)
  case start
  show ?case by (simp add: handshake_inv_def Handshake_create_def)
next
  case (step h h')
  from step.hyps(2) show ?case
  proof cases
    case (mark t)
    have "handshake_inv (at_pc t Owing h)" using mark(2) by (intro handshake_inv_move [OF step.IH]) auto
    moreover have "Handshake_mark (at_pc t Owing h) = at_pc t Owing (Handshake_mark h)"
      by (cases h) (simp add: Handshake_mark_def)
    ultimately show ?thesis using handshake_inv_mark [of "at_pc t Owing h" t] unfolding mark(1) by simp
  next
    case (mark_in_callback t)
    then show ?thesis using handshake_inv_mark [OF step.IH, of t] by simp
  next
    case (call t)
    then show ?thesis using handshake_inv_move [OF step.IH, of t FirstLoad] by auto
  next
    case (access t)
    then show ?thesis using handshake_inv_access [OF step.IH] by simp
  qed
qed

text \<open>What one thread sees of the flags when it runs alone.\<close>

fun solo_access :: "NotifyPc \<times> bool \<times> bool \<Rightarrow> NotifyPc \<times> bool \<times> bool" where
  "solo_access (FirstLoad, c, n) = (if c then FirstTestAndSet else Idle, c, n)"
| "solo_access (FirstTestAndSet, c, n) = (if n then (Idle, c, n) else (StoreFalse, c, True))"
| "solo_access (StoreFalse, c, n) = (Visiting, False, n)"
| "solo_access (Visiting, c, n) = (LoadAfterPass, c, n)"
| "solo_access (LoadAfterPass, c, n) = (if c then StoreFalse else ClearFlag, c, n)"
| "solo_access (ClearFlag, c, n) = (LoadAfterClear, c, False)"
| "solo_access (LoadAfterClear, c, n) = (if c then SecondTestAndSet else Idle, c, n)"
| "solo_access (SecondTestAndSet, c, n) = (if n then (Idle, c, n) else (StoreFalse, c, True))"
| "solo_access (pc, c, n) = (pc, c, n)"

lemma solo_access_view:
  "(hs_pc (Notify_access t h) t, hs_changed (Notify_access t h), hs_notifying (Notify_access t h)) =
   solo_access (hs_pc h t, hs_changed h, hs_notifying h)"
  by (cases "hs_pc h t") (simp_all add: Notify_access_def)

lemma solo_run_view:
  "(hs_pc ((Notify_access t ^^ n) h) t, hs_changed ((Notify_access t ^^ n) h), hs_notifying ((Notify_access t ^^ n) h)) =
   (solo_access ^^ n) (hs_pc h t, hs_changed h, hs_notifying h)"
proof (induction n)
  case (Suc n)
  then show ?case using solo_access_view [of t "(Notify_access t ^^ n) h"] by simp
qed simp

lemma solo_access_leaves: "pc \<noteq> Owing \<Longrightarrow> fst ((solo_access ^^ 8) (pc, c, n)) = Idle"
  by (cases pc; cases c; cases n) (simp_all add: eval_nat_numeral)


definition marked_by_one :: Handshake where
  "marked_by_one = at_pc 4 Owing (Handshake_mark Handshake_create)"


text \<open>
  A visit is fair although waiters register and leave while it runs: it visits registrations in
  ascending order and at most up to the last one issued when it began, so it ends; and it visits
  every waiter that stays registered throughout.
\<close>

theorem NotifyPass_fair:
  assumes "NotifyPass 0 upper turns = (visited, ended)"
  shows "sorted_wrt (<) visited \<and> (\<forall>k \<in> set visited. k \<le> upper) \<and> (upper < length turns \<longrightarrow> ended) \<and>
    (ended \<longrightarrow> (\<forall>k. 0 < k \<and> k \<le> upper \<and> (\<forall>keys \<in> set turns. k \<in> set keys) \<longrightarrow> k \<in> set visited))"
  using NotifyPass_visits [OF assms] NotifyPass_ends [of upper 0 turns] NotifyPass_complete [of 0 upper turns visited] assms
  by auto

theorem NotifyPass_fair_witness:
  "NotifyPass 0 3 [[2, 1, 3], [2, 3], [3, 1], [1, 5]] = ([1, 2, 3], True) \<and> sorted_wrt (<) [1, 2, 3 :: nat]"
proof -
  have run: "NotifyPass 0 3 [[2, 1, 3], [2, 3], [3, 1], [1, 5]] = ([1, 2, 3], True)" by code_simp
  from NotifyPass_fair [OF run] run show ?thesis by blast
qed

text \<open>
  The wait is for exactly what sending needs. For a wait that is pending on an open connection,
  \<^verbatim>\<open>Notify\<close> completes it with \<^verbatim>\<open>Ok\<close> precisely when queueing that many bytes now would succeed
  (memory permitting), and leaves it pending precisely when queueing would report \<^verbatim>\<open>WouldBlock\<close>; a
  closed connection is told so.
\<close>

theorem capacity_wait_matches_enqueue:
  assumes "queue_inv q" and "cs_retained cs = mCapacityRetained q" and "cs_pending cs"
    and "length bytes = cs_required cs" and "bytes \<noteq> []"
  shows "fst (CapacityState_Notify b cs) =
    (if cs_closed cs then Some Closed
     else case Enqueue True b q bytes of
       Some (Ok, _) \<Rightarrow> Some Ok
     | _ \<Rightarrow> None) \<and>
    (\<not> CapacityFits b (cs_retained cs) (cs_required cs) \<longrightarrow> Enqueue True b q bytes = Some (WouldBlock, b, q))"
proof -
  have "cs_retained cs = mRetainedBytes q" using assms(1,2) by (simp add: queue_inv_def)
  moreover have "0 < cs_required cs" using assms(4,5) by (cases bytes) auto
  ultimately have fits: "CapacityFits b (cs_retained cs) (cs_required cs) \<longleftrightarrow>
      \<not> (mRetainedBytes q > mConnectionLimitBytes b \<or> length bytes > mConnectionLimitBytes b - mRetainedBytes q) \<and>
      mUsedBytes b + length bytes \<le> mLimitBytes b"
    using assms(4) by (auto simp: CapacityFits_def)
  show ?thesis
  proof (cases "CapacityFits b (cs_retained cs) (cs_required cs)")
    case True
    then have "\<exists>r. Enqueue True b q bytes = Some (Ok, r)" using fits assms(5) by (auto simp: Enqueue_def TryReserve_eq)
    with True assms(3) show ?thesis by (auto simp: CapacityState_Notify_def)
  next
    case False
    then have "Enqueue True b q bytes = Some (WouldBlock, b, q)" using fits assms(5) by (auto simp: Enqueue_def TryReserve_eq)
    with False assms(3) show ?thesis by (simp add: CapacityState_Notify_def)
  qed
qed

theorem capacity_wait_matches_enqueue_witness:
  "fst (CapacityState_Notify \<lparr>mLimitBytes = 8, mConnectionLimitBytes = 4, mUsedBytes = 5, mChanged = True\<rparr>
     \<lparr>cs_retained = 0, cs_closed = False, cs_pending = True, cs_required = 3, cs_registration = 1\<rparr>) = Some Ok"
  using capacity_wait_matches_enqueue [OF queue_inv_create, of
      "\<lparr>cs_retained = 0, cs_closed = False, cs_pending = True, cs_required = 3, cs_registration = 1\<rparr>" "[1, 2, 3]"
      "\<lparr>mLimitBytes = 8, mConnectionLimitBytes = 4, mUsedBytes = 5, mChanged = True\<rparr>"]
  by (simp add: SendQueue_create_def Enqueue_def TryReserve_eq)

end
