(* ===== verification/TextScan.thy ===== *)
theory TextScan
  imports Prelude
begin

text \<open>
  Searching in text: \<^verbatim>\<open>string_view::find\<close> of a character or of a separator with the text before and after
  the first occurrence, the parts between commas, and the rules of cutting joined text.
\<close>

section \<open>The first occurrence of a character\<close>

text \<open>The text up to the first \<open>c\<close>, and the text behind it if there is one.\<close>

definition cut_at :: "char \<Rightarrow> string \<Rightarrow> string \<times> string option" where
  "cut_at c s = (case dropWhile (\<lambda>x. x \<noteq> c) s of
     [] \<Rightarrow> (takeWhile (\<lambda>x. x \<noteq> c) s, None)
   | _ # rest \<Rightarrow> (takeWhile (\<lambda>x. x \<noteq> c) s, Some rest))"

lemma cut_at_length: "cut_at c s = (part, Some rest) \<Longrightarrow> length rest < length s"
  using length_dropWhile_le [of "\<lambda>x. x \<noteq> c" s] by (auto simp: cut_at_def split: list.splits)

lemma cut_at_none:
  assumes "c \<notin> set x"
  shows "cut_at c x = (x, None)"
proof -
  have all: "\<forall>y\<in>set x. y \<noteq> c" using assms by blast
  have drop: "dropWhile (\<lambda>y. y \<noteq> c) x = []" using all by (simp only: dropWhile_eq_Nil_conv)
  have keep: "takeWhile (\<lambda>y. y \<noteq> c) x = x" using all by (simp only: takeWhile_eq_all_conv)
  show ?thesis by (simp only: cut_at_def drop keep list.case)
qed

lemma cut_at_some: "c \<notin> set x \<Longrightarrow> cut_at c (x @ c # r) = (x, Some r)"
  by (induction x) (auto simp: cut_at_def split: list.splits)

section \<open>Parts between separators\<close>

text \<open>The elements a loop over \<^verbatim>\<open>find\<close> of a separator visits, in order.\<close>

function parts_at :: "char \<Rightarrow> string \<Rightarrow> string list" where
  "parts_at c s = (case cut_at c s of (part, None) \<Rightarrow> [part] | (part, Some rest) \<Rightarrow> part # parts_at c rest)"
  by pat_completeness auto
termination
  by (relation "measure (\<lambda>(c, s). length s)") (auto dest: cut_at_length [OF sym])

declare parts_at.simps [simp del]

abbreviation comma_parts :: "string \<Rightarrow> string list" where
  "comma_parts s \<equiv> parts_at (CHR '','') s"

lemma parts_at_none: "c \<notin> set s \<Longrightarrow> parts_at c s = [s]"
  by (subst parts_at.simps) (simp add: cut_at_none)

lemma parts_at_some: "c \<notin> set s \<Longrightarrow> parts_at c (s @ c # r) = s # parts_at c r"
  by (subst parts_at.simps) (simp add: cut_at_some)

lemma parts_at_nonempty: "parts_at c s \<noteq> []"
  by (subst parts_at.simps) (auto split: prod.splits option.splits)

section \<open>The first line end\<close>

text \<open>The text before and behind the first \<^verbatim>\<open>\r\n\<close>.\<close>

definition CRLF :: string where
  "CRLF = [CHR 0x0D, CHR 0x0A]"

fun cut_crlf :: "string \<Rightarrow> (string \<times> string) option" where
  "cut_crlf (a # b # s) =
     (if a = CHR 0x0D \<and> b = CHR 0x0A then Some ([], s)
      else case cut_crlf (b # s) of None \<Rightarrow> None | Some (l, r) \<Rightarrow> Some (a # l, r))"
| "cut_crlf s = None"

lemma cut_crlf_some: "cut_crlf s = Some (l, r) \<Longrightarrow> s = l @ CRLF @ r"
  by (induction s arbitrary: l r rule: cut_crlf.induct) (auto simp: CRLF_def split: if_splits option.splits)

lemma cut_crlf_append: "cut_crlf s = Some (l, r) \<Longrightarrow> cut_crlf (s @ m) = Some (l, r @ m)"
  by (induction s arbitrary: l r rule: cut_crlf.induct) (auto split: if_splits option.splits)

lemma cut_crlf_length: "cut_crlf s = Some (l, r) \<Longrightarrow> length s = length l + 2 + length r"
  using cut_crlf_some by (fastforce simp: CRLF_def)

lemma cut_crlf_line: "CHR 0x0D \<notin> set l \<Longrightarrow> cut_crlf (l @ CRLF @ r) = Some (l, r)"
proof (induction l)
  case (Cons a l)
  then show ?case by (cases "l @ CRLF @ r") (auto simp: CRLF_def)
qed (simp add: CRLF_def)

section \<open>The first occurrence of a text\<close>

text \<open>\<^verbatim>\<open>string::find(pattern, start)\<close>, and \<^verbatim>\<open>starts_with\<close>.\<close>

definition find_at :: "string \<Rightarrow> string \<Rightarrow> nat \<Rightarrow> nat option" where
  "find_at pattern s start = find (\<lambda>i. take (length pattern) (drop i s) = pattern) [start..<Suc (length s) - length pattern]"

abbreviation begins :: "string \<Rightarrow> string \<Rightarrow> bool" where
  "begins s start \<equiv> take (length start) s = start"

lemma find_at_some:
  assumes "find_at pattern s start = Some i"
  shows "start \<le> i" "i + length pattern \<le> length s" "begins (drop i s) pattern"
    and "\<And>j. start \<le> j \<Longrightarrow> j < i \<Longrightarrow> \<not> begins (drop j s) pattern"
proof -
  obtain k where k: "k < length [start..<Suc (length s) - length pattern]" "begins (drop i s) pattern"
      "i = [start..<Suc (length s) - length pattern] ! k"
      "\<forall>j<k. \<not> begins (drop ([start..<Suc (length s) - length pattern] ! j) s) pattern"
    using assms by (auto simp: find_at_def find_Some_iff)
  then have i: "i = start + k" by simp
  show "start \<le> i" "i + length pattern \<le> length s" "begins (drop i s) pattern" using k(1,2) i by auto
  show "\<not> begins (drop j s) pattern" if "start \<le> j" "j < i" for j
    using k(1,4) i that by (auto dest!: spec [of _ "j - start"])
qed

lemma find_at_none: "find_at pattern s start = None \<Longrightarrow> start \<le> i \<Longrightarrow> i + length pattern \<le> length s \<Longrightarrow> \<not> begins (drop i s) pattern"
  by (auto simp: find_at_def find_None_iff)

lemma begins_append: "begins s start \<Longrightarrow> begins (s @ more) start"
  by (metis append_Nil2 diff_is_0_eq length_take min.bounded_iff nle_le take0 take_append take_all)

lemma begins_split: "begins s start \<Longrightarrow> s = start @ drop (length start) s"
  by (metis append_take_drop_id)

end
