(* ===== verification/Endpoint.thy ===== *)
theory Endpoint
  imports Decimals TextScan
begin

text \<open>
  Numeric network addresses (\<^verbatim>\<open>src/Core/Endpoint.cpp\<close>): parsing and printing of IPv4 and IPv6
  addresses with a decimal scope, IPv4-mapped addresses, and CIDR networks.

  A \<^verbatim>\<open>string_view\<close> is a character list; \<open>find\<close> of a character splits it at the first occurrence.
  Output parameters of the parsing helpers are results here: \<open>None\<close> is the return value \<^verbatim>\<open>false\<close>.
\<close>

section \<open>Parsing helpers\<close>

datatype IpFamily = Unspecified | V4Family | V6Family

record IpAddress =
  mFamily :: IpFamily
  mBytes :: "byte list"
  mScopeId :: "32 word"

definition IpAddress_default :: IpAddress where
  "IpAddress_default = \<lparr>mFamily = Unspecified, mBytes = replicate 16 0, mScopeId = 0\<rparr>"

text \<open>\<^verbatim>\<open>Decimal<T>\<close>, with the largest value of \<open>T\<close>; \<^verbatim>\<open>from_chars\<close> reports overflow.\<close>

definition Decimal :: "nat \<Rightarrow> string \<Rightarrow> nat option" where
  "Decimal maximum s =
     (if s = [] then None
      else if \<not> list_all isdigit s then None
      else if decimal_value s > maximum then None
      else Some (decimal_value s))"

fun V4_loop :: "nat \<Rightarrow> string \<Rightarrow> byte list option" where
  "V4_loop 0 s = None"
| "V4_loop (Suc n) s =
     (case cut_at (CHR ''.'') s of (part, rest) \<Rightarrow>
        if length part > 3 \<or> (length part > 1 \<and> hd part = CHR ''0'') then None
        else case Decimal UINT32_MAX part of
          None \<Rightarrow> None
        | Some value \<Rightarrow>
            if value > 255 then None
            else if n = 0 then (case rest of None \<Rightarrow> Some [of_nat value] | Some _ \<Rightarrow> None)
            else (case rest of
                    None \<Rightarrow> None
                  | Some s' \<Rightarrow> (case V4_loop n s' of None \<Rightarrow> None | Some bs \<Rightarrow> Some (of_nat value # bs))))"

definition V4 :: "string \<Rightarrow> byte list option" where
  "V4 s = V4_loop 4 s"

definition hex_nibble :: "char \<Rightarrow> nat option" where
  "hex_nibble c =
     (if 48 \<le> uchar c \<and> uchar c \<le> 57 then Some (uchar c - 48)
      else if 97 \<le> uchar c \<and> uchar c \<le> 102 then Some (uchar c - 97 + 10)
      else if 65 \<le> uchar c \<and> uchar c \<le> 70 then Some (uchar c - 65 + 10)
      else None)"

fun hex_word :: "nat \<Rightarrow> string \<Rightarrow> nat option" where
  "hex_word value [] = Some value"
| "hex_word value (c # cs) =
     (case hex_nibble c of None \<Rightarrow> None | Some h \<Rightarrow> hex_word (push_bit 4 value OR h) cs)"

text \<open>
  \<^verbatim>\<open>Words\<close>: the groups between colons, with \<open>count\<close> groups already stored; a dotted tail fills two of
  them. The result are the groups found here.
\<close>

function Words :: "bool \<Rightarrow> nat \<Rightarrow> string \<Rightarrow> 16 word list option" where
  "Words allowV4 count s =
     (if s = [] then Some []
      else case cut_at (CHR '':'') s of (part, rest) \<Rightarrow>
        if part = [] \<or> count = 8 then None
        else if CHR ''.'' \<in> set part then
          (if \<not> allowV4 \<or> rest \<noteq> None \<or> count > 6 then None
           else case V4 part of
             None \<Rightarrow> None
           | Some bs \<Rightarrow> Some [push_bit 8 (ucast (bs ! 0)) OR ucast (bs ! 1), push_bit 8 (ucast (bs ! 2)) OR ucast (bs ! 3)])
        else if length part > 4 then None
        else case hex_word 0 part of
          None \<Rightarrow> None
        | Some value \<Rightarrow>
            (case rest of
               None \<Rightarrow> Some [of_nat value]
             | Some s' \<Rightarrow>
                 if s' = [] then None
                 else (case Words allowV4 (count + 1) s' of None \<Rightarrow> None | Some ws \<Rightarrow> Some (of_nat value # ws))))"
  by pat_completeness auto
termination
  by (relation "measure (\<lambda>(a, n, s). length s)") (auto dest: cut_at_length [OF sym])

declare Words.simps [simp del]

section \<open>Addresses\<close>

definition FromBytes :: "IpFamily \<Rightarrow> byte list \<Rightarrow> 32 word \<Rightarrow> IpAddress result" where
  "FromBytes family bytes scope =
     (if family = Unspecified \<or> length bytes \<noteq> (if family = V4Family then 4 else 16) \<or> (family = V4Family \<and> scope \<noteq> 0)
      then Inl InvalidArgument
      else Inr \<lparr>mFamily = family, mBytes = bytes @ replicate (16 - length bytes) 0, mScopeId = scope\<rparr>)"

text \<open>The position of the first \<open>::\<close>, as the text before and after it.\<close>

fun cut_double_colon :: "string \<Rightarrow> (string \<times> string) option" where
  "cut_double_colon (a # b # s) =
     (if a = CHR '':'' \<and> b = CHR '':'' then Some ([], s)
      else case cut_double_colon (b # s) of None \<Rightarrow> None | Some (l, r) \<Rightarrow> Some (a # l, r))"
| "cut_double_colon s = None"

definition bytes_of_words :: "16 word list \<Rightarrow> byte list" where
  "bytes_of_words ws = concat (map (\<lambda>w. [ucast (drop_bit 8 w), ucast (w AND 255)]) ws)"

definition ParseV6 :: "string \<Rightarrow> 32 word \<Rightarrow> IpAddress result" where
  "ParseV6 s scope =
     (let words = (case cut_double_colon s of
          None \<Rightarrow> (case Words True 0 s of None \<Rightarrow> None | Some ws \<Rightarrow> if length ws \<noteq> 8 then None else Some ws)
        | Some (l, r) \<Rightarrow>
            if cut_double_colon r \<noteq> None then None
            else (case Words False 0 l of
                    None \<Rightarrow> None
                  | Some lw \<Rightarrow>
                      (case Words True 0 r of
                         None \<Rightarrow> None
                       | Some rw \<Rightarrow>
                           if length lw + length rw \<ge> 8 then None
                           else Some (lw @ replicate (8 - length lw - length rw) 0 @ rw))))
      in case words of
           None \<Rightarrow> Inl InvalidArgument
         | Some ws \<Rightarrow> Inr \<lparr>mFamily = V6Family, mBytes = bytes_of_words ws, mScopeId = scope\<rparr>)"

definition IpAddress_Parse :: "string \<Rightarrow> IpAddress result" where
  "IpAddress_Parse s =
     (if s = [] \<or> length s > 64 then Inl InvalidArgument
      else if CHR '':'' \<notin> set s then
        (case V4 s of
           None \<Rightarrow> Inl InvalidArgument
         | Some bs \<Rightarrow> Inr \<lparr>mFamily = V4Family, mBytes = bs @ replicate 12 0, mScopeId = 0\<rparr>)
      else
        (case cut_at (CHR ''%'') s of
           (t, None) \<Rightarrow> ParseV6 t 0
         | (t, Some zone) \<Rightarrow>
             (case Decimal UINT32_MAX zone of
                None \<Rightarrow> Inl InvalidArgument
              | Some scope \<Rightarrow> ParseV6 t (of_nat scope))))"

definition IsV4Mapped :: "IpAddress \<Rightarrow> bool" where
  "IsV4Mapped a \<longleftrightarrow> mFamily a = V6Family \<and> list_all (\<lambda>i. mBytes a ! i = 0) [0..<10] \<and>
     mBytes a ! 10 = 255 \<and> mBytes a ! 11 = 255"

definition Normalized :: "IpAddress \<Rightarrow> IpAddress" where
  "Normalized a =
     (if \<not> IsV4Mapped a \<or> mScopeId a \<noteq> 0 then a
      else (case FromBytes V4Family (region (mBytes a) 12 16) 0 of Inr b \<Rightarrow> b | Inl _ \<Rightarrow> a))"

section \<open>Printing\<close>

definition words_of_bytes :: "byte list \<Rightarrow> 16 word list" where
  "words_of_bytes bs = map (\<lambda>i. push_bit 8 (ucast (bs ! (2 * i))) OR ucast (bs ! (2 * i + 1))) [0..<8]"

text \<open>\<^verbatim>\<open>std::to_chars\<close> in base 16.\<close>

definition hex_char :: "nat \<Rightarrow> char" where
  "hex_char n = (if n < 10 then char_of (48 + n) else char_of (87 + n))"

fun to_chars_hex :: "nat \<Rightarrow> string" where
  "to_chars_hex n = (if n < 16 then [hex_char n] else to_chars_hex (n div 16) @ [hex_char (n mod 16)])"

declare to_chars_hex.simps [simp del]

text \<open>The first longest run of at least two zero words, as its start and length; \<open>8\<close> if there is none.\<close>

function best_run :: "nat \<Rightarrow> 16 word list \<Rightarrow> nat \<Rightarrow> nat \<Rightarrow> nat \<times> nat" where
  "best_run index [] best len = (best, len)"
| "best_run index (w # ws) best len =
     (if w \<noteq> 0 then best_run (index + 1) ws best len
      else
        let run = Suc (length (takeWhile (\<lambda>x. x = 0) ws));
            rest = dropWhile (\<lambda>x. x = 0) ws
        in if run \<ge> 2 \<and> run > len then best_run (index + run) rest index run
           else best_run (index + run) rest best len)"
  by pat_completeness auto
termination
  by (relation "measure (\<lambda>(i, ws, b, l). length ws)") (auto simp: le_imp_less_Suc length_dropWhile_le)

text \<open>
  The printing loop over the words from \<open>index\<close> on. It takes one turn per word, or one for the whole
  run; \<open>None\<close> is the loop that is still running when the fuel is used up.
\<close>

fun print_words :: "nat \<Rightarrow> nat \<Rightarrow> nat \<Rightarrow> nat \<Rightarrow> 16 word list \<Rightarrow> string \<Rightarrow> string option" where
  "print_words 0 best len index rest result = None"
| "print_words (Suc k) best len index rest result =
     (if rest = [] then Some result
      else if index = best then print_words k best len (index + len) (drop len rest) (result @ ''::'')
      else print_words k best len (index + 1) (tl rest)
             ((if result \<noteq> [] \<and> last result \<noteq> CHR '':'' then result @ '':'' else result) @ to_chars_hex (unat (hd rest))))"

definition IpAddress_ToString :: "IpAddress \<Rightarrow> string option" where
  "IpAddress_ToString a =
     (case mFamily a of
        Unspecified \<Rightarrow> Some []
      | V4Family \<Rightarrow>
          Some (to_chars_nat (unat (mBytes a ! 0)) @ ''.'' @ to_chars_nat (unat (mBytes a ! 1)) @ ''.'' @
                to_chars_nat (unat (mBytes a ! 2)) @ ''.'' @ to_chars_nat (unat (mBytes a ! 3)))
      | V6Family \<Rightarrow>
          (case best_run 0 (words_of_bytes (mBytes a)) 8 0 of (best, len) \<Rightarrow>
             (case print_words 9 best len 0 (words_of_bytes (mBytes a)) [] of
                None \<Rightarrow> None
              | Some result \<Rightarrow>
                  Some (result @ (if mScopeId a \<noteq> 0 then ''%'' @ to_chars_nat (unat (mScopeId a)) else [])))))"

definition address_valid :: "IpAddress \<Rightarrow> bool" where
  "address_valid a \<longleftrightarrow> mFamily a \<noteq> Unspecified"

record IpEndpoint =
  ep_address :: IpAddress
  ep_port :: "16 word"

definition IpEndpoint_Parse :: "string \<Rightarrow> 16 word \<Rightarrow> IpEndpoint result" where
  "IpEndpoint_Parse s port =
     (case IpAddress_Parse s of Inl e \<Rightarrow> Inl e | Inr a \<Rightarrow> Inr \<lparr>ep_address = a, ep_port = port\<rparr>)"

definition IpEndpoint_ToString :: "IpEndpoint \<Rightarrow> string option" where
  "IpEndpoint_ToString e =
     (if \<not> address_valid (ep_address e) then Some []
      else case IpAddress_ToString (ep_address e) of
        None \<Rightarrow> None
      | Some t \<Rightarrow> Some ((if mFamily (ep_address e) = V6Family then ''['' @ t @ '']'' else t) @ '':'' @
                        to_chars_nat (unat (ep_port e))))"

section \<open>Networks\<close>

text \<open>\<^verbatim>\<open>IpAddress::Bytes\<close>: the part of the storage the family uses.\<close>

definition Bytes :: "IpAddress \<Rightarrow> byte list" where
  "Bytes a = take (case mFamily a of V4Family \<Rightarrow> 4 | V6Family \<Rightarrow> 16 | Unspecified \<Rightarrow> 0) (mBytes a)"

record IpNetwork =
  net_address :: IpAddress
  net_prefix :: nat

definition prefix_mask :: "nat \<Rightarrow> nat \<Rightarrow> nat" where
  "prefix_mask prefix index =
     (let remaining = (if prefix > index * 8 then prefix - index * 8 else 0)
      in if remaining \<ge> 8 then 255 else if remaining = 0 then 0 else push_bit (8 - remaining) 255 AND 255)"

definition IpNetwork_Parse :: "string \<Rightarrow> IpNetwork result" where
  "IpNetwork_Parse s =
     (case cut_at (CHR ''/'') s of
        (t, None) \<Rightarrow> Inl InvalidArgument
      | (t, Some digits) \<Rightarrow>
          if CHR ''%'' \<in> set s then Inl InvalidArgument
          else (case IpAddress_Parse t of
                  Inl e \<Rightarrow> Inl InvalidArgument
                | Inr a \<Rightarrow>
                    (case Decimal UINT32_MAX digits of
                       None \<Rightarrow> Inl InvalidArgument
                     | Some prefix \<Rightarrow>
                         if prefix > (if mFamily a = V4Family then 32 else 128) then Inl InvalidArgument
                         else Inr \<lparr>net_address = a\<lparr>mBytes := map (\<lambda>i.
                                     if i < length (Bytes a) then mBytes a ! i AND of_nat (prefix_mask prefix i)
                                     else mBytes a ! i) [0..<length (mBytes a)]\<rparr>,
                                   net_prefix = prefix\<rparr>)))"

definition Contains :: "IpNetwork \<Rightarrow> IpAddress \<Rightarrow> bool" where
  "Contains n a \<longleftrightarrow>
     address_valid (net_address n) \<and> mFamily a = mFamily (net_address n) \<and>
     list_all (\<lambda>i. mBytes a ! i AND of_nat (prefix_mask (net_prefix n) i) =
                   mBytes (net_address n) ! i AND of_nat (prefix_mask (net_prefix n) i)) [0..<length (Bytes a)]"

end
