(* ===== verification/EndpointProps.thy ===== *)
theory EndpointProps
  imports Endpoint
begin

text \<open>
  Properties of network addresses: what is printed parses back to the same address, a parsed address
  is well formed, and membership in a CIDR network is agreement on the prefix bits.
\<close>

section \<open>Well-formed addresses\<close>

definition address_ok :: "IpAddress \<Rightarrow> bool" where
  "address_ok a \<longleftrightarrow> length (mBytes a) = 16 \<and>
     (case mFamily a of
        Unspecified \<Rightarrow> False
      | V4Family \<Rightarrow> mScopeId a = 0 \<and> drop 4 (mBytes a) = replicate 12 0
      | V6Family \<Rightarrow> True)"

lemma FromBytes_ok: "FromBytes family bytes scope = Inr a \<Longrightarrow> address_ok a"
  by (auto simp: FromBytes_def address_ok_def split: if_splits IpFamily.splits)

section \<open>Digits\<close>

lemma length_to_chars_nat: "n < 10 ^ k \<Longrightarrow> 0 < k \<Longrightarrow> length (to_chars_nat n) \<le> k"
proof (induction k arbitrary: n)
  case (Suc k)
  show ?case
  proof (cases "n < 10")
    case False
    then have "k \<noteq> 0" using Suc.prems by (cases k) auto
    moreover have "n div 10 < 10 ^ k" using Suc.prems(1) by (simp add: less_mult_imp_div_less)
    ultimately have "length (to_chars_nat (n div 10)) \<le> k" using Suc.IH by simp
    then show ?thesis using False by (simp add: to_chars_nat_large)
  qed (simp add: to_chars_nat_small)
qed simp

lemma to_chars_nat_digits: "to_chars_nat n \<noteq> []" "list_all isdigit (to_chars_nat n)" "decimal_value (to_chars_nat n) = n"
  "hd (to_chars_nat n) = CHR ''0'' \<Longrightarrow> length (to_chars_nat n) = 1"
  using to_chars_nat_spec [of n] by (auto simp: int_part_def)

lemma Decimal_to_chars: "n \<le> maximum \<Longrightarrow> Decimal maximum (to_chars_nat n) = Some n"
  by (simp add: Decimal_def to_chars_nat_digits)

lemma to_chars_hex_small: "n < 16 \<Longrightarrow> to_chars_hex n = [hex_char n]"
  by (subst to_chars_hex.simps) simp

lemma to_chars_hex_large: "16 \<le> n \<Longrightarrow> to_chars_hex n = to_chars_hex (n div 16) @ [hex_char (n mod 16)]"
  by (subst to_chars_hex.simps) simp

lemma uchar_hex_char: "n < 16 \<Longrightarrow> uchar (hex_char n) = (if n < 10 then 48 + n else 87 + n)"
  by (simp add: hex_char_def uchar_char_of)

lemma hex_nibble_char: "n < 16 \<Longrightarrow> hex_nibble (hex_char n) = Some n"
  by (simp add: hex_nibble_def uchar_hex_char)

text \<open>The characters a printed address group is made of.\<close>

definition plain :: "char \<Rightarrow> bool" where
  "plain c \<longleftrightarrow> c \<notin> set '':.%/''"

lemma plain_uchar: "plain c \<longleftrightarrow> uchar c \<notin> {58, 46, 37, 47}"
  using uchar_eq_iff [of c "CHR '':''"] uchar_eq_iff [of c "CHR ''.''"] uchar_eq_iff [of c "CHR ''%''"]
    uchar_eq_iff [of c "CHR ''/''"] by (simp add: plain_def)

lemma plain_hex_char: "n < 16 \<Longrightarrow> plain (hex_char n)"
  by (simp add: plain_uchar uchar_hex_char)

lemma plain_digit: "isdigit c \<Longrightarrow> plain c"
  by (auto simp: plain_uchar isdigit_uchar)

lemma hex_word_append:
  "hex_word v (xs @ ys) = (case hex_word v xs of None \<Rightarrow> None | Some v' \<Rightarrow> hex_word v' ys)"
  by (induction v xs rule: hex_word.induct) (auto split: option.splits)

lemma to_chars_hex_spec:
  "hex_word 0 (to_chars_hex n) = Some n \<and> to_chars_hex n \<noteq> [] \<and> list_all plain (to_chars_hex n)"
proof (induction n rule: less_induct)
  case (less n)
  show ?case
  proof (cases "n < 16")
    case True
    then show ?thesis by (simp add: to_chars_hex_small hex_nibble_char plain_hex_char)
  next
    case False
    have IH: "hex_word 0 (to_chars_hex (n div 16)) = Some (n div 16)" "list_all plain (to_chars_hex (n div 16))"
      using less [of "n div 16"] False by auto
    have digit: "n mod 16 < 16" by simp
    have "push_bit 4 (n div 16) OR n mod 16 = n"
      using or_disjoint_nat [of "n mod 16" 4 "n div 16"] by simp
    then show ?thesis
      using IH hex_nibble_char [OF digit] plain_hex_char [OF digit] False
      by (simp add: to_chars_hex_large hex_word_append)
  qed
qed

lemma length_to_chars_hex: "n < 16 ^ k \<Longrightarrow> 0 < k \<Longrightarrow> length (to_chars_hex n) \<le> k"
proof (induction k arbitrary: n)
  case (Suc k)
  show ?case
  proof (cases "n < 16")
    case False
    then have "k \<noteq> 0" using Suc.prems by (cases k) auto
    moreover have "n div 16 < 16 ^ k" using Suc.prems(1) by (simp add: less_mult_imp_div_less)
    ultimately have "length (to_chars_hex (n div 16)) \<le> k" using Suc.IH by simp
    then show ?thesis using False by (simp add: to_chars_hex_large)
  qed (simp add: to_chars_hex_small)
qed simp

definition hexw :: "16 word \<Rightarrow> string" where
  "hexw w = to_chars_hex (unat w)"

lemma hexw_spec: "hex_word 0 (hexw w) = Some (unat w)" "hexw w \<noteq> []" "list_all plain (hexw w)" "length (hexw w) \<le> 4"
  using to_chars_hex_spec [of "unat w"] length_to_chars_hex [of "unat w" 4] unsigned_less [of w, where 'a = nat]
  by (simp_all add: hexw_def)

section \<open>Cutting joined text\<close>

fun join_colon :: "string list \<Rightarrow> string" where
  "join_colon [] = []"
| "join_colon [x] = x"
| "join_colon (x # y # r) = x @ CHR '':'' # join_colon (y # r)"

definition group :: "string \<Rightarrow> bool" where
  "group x \<longleftrightarrow> x \<noteq> [] \<and> CHR '':'' \<notin> set x"

lemma group_hexw: "group (hexw w)"
  using hexw_spec [of w] by (auto simp: group_def plain_def list_all_iff)

lemma cut_double_colon_group:
  "CHR '':'' \<notin> set x \<Longrightarrow> cut_double_colon (x @ r) = map_option (\<lambda>(a, b). (x @ a, b)) (cut_double_colon r)"
proof (induction x)
  case (Cons c x)
  then have "c \<noteq> CHR '':''" "cut_double_colon (x @ r) = map_option (\<lambda>(a, b). (x @ a, b)) (cut_double_colon r)" by auto
  then show ?case by (cases "x @ r") (auto split: option.splits)
qed (simp add: option.map_id)

lemma cut_double_colon_single:
  "group x \<Longrightarrow> cut_double_colon (CHR '':'' # x @ r) = map_option (\<lambda>(a, b). (CHR '':'' # a, b)) (cut_double_colon (x @ r))"
  by (cases x) (auto simp: group_def split: option.splits)

lemma cut_double_colon_join: "list_all group xs \<Longrightarrow> cut_double_colon (join_colon xs) = None"
proof (induction xs rule: join_colon.induct)
  case (2 x)
  then show ?case using cut_double_colon_group [of x "[]"] by (simp add: group_def)
next
  case (3 x y r)
  have j: "join_colon (y # r) = y @ (if r = [] then [] else CHR '':'' # join_colon r)" by (cases r) auto
  have "cut_double_colon (CHR '':'' # join_colon (y # r)) = None"
    using 3 cut_double_colon_single [of y] unfolding j by simp
  then show ?case using 3 cut_double_colon_group [of x] by (simp add: group_def)
qed simp

lemma cut_double_colon_run:
  "list_all group xs \<Longrightarrow> cut_double_colon (join_colon xs @ CHR '':'' # CHR '':'' # r) = Some (join_colon xs, r)"
proof (induction xs rule: join_colon.induct)
  case (2 x)
  then show ?case by (simp add: cut_double_colon_group group_def)
next
  case (3 x y zs)
  have j: "join_colon (y # zs) = y @ (if zs = [] then [] else CHR '':'' # join_colon zs)" by (cases zs) auto
  have "cut_double_colon (CHR '':'' # join_colon (y # zs) @ CHR '':'' # CHR '':'' # r) = Some (CHR '':'' # join_colon (y # zs), r)"
    using 3 cut_double_colon_single [of y] unfolding j by simp
  then show ?case using 3 by (simp add: cut_double_colon_group group_def)
qed simp

section \<open>The printing loop\<close>

abbreviation separator :: "string \<Rightarrow> 16 word list \<Rightarrow> string" where
  "separator result ws \<equiv> (if ws \<noteq> [] \<and> result \<noteq> [] \<and> last result \<noteq> CHR '':'' then '':'' else [])"

lemma last_hexw: "last (r @ hexw w) \<noteq> CHR '':''"
  using last_in_set [OF hexw_spec(2) [of w]] group_hexw [of w] hexw_spec(2) [of w]
  by (metis group_def last_append)

lemma join_colon_Cons: "join_colon (x # xs) = x @ (if xs = [] then [] else CHR '':'' # join_colon xs)"
  by (cases xs) auto

lemma print_words_plain:
  "best \<notin> {index..<index + length ws} \<Longrightarrow> length ws < k \<Longrightarrow>
   print_words k best len index ws result = Some (result @ separator result ws @ join_colon (map hexw ws))"
proof (induction ws arbitrary: k index result)
  case Nil
  then show ?case by (cases k) auto
next
  case (Cons w ws)
  obtain k' where k: "k = Suc k'" using Cons.prems by (cases k) auto
  have "best \<noteq> index" "best \<notin> {Suc index..<Suc index + length ws}" "length ws < k'"
    using Cons.prems k by auto
  then show ?case
    using Cons.IH [of "Suc index" k'] hexw_spec(2) [of w] last_hexw [of _ w]
    by (simp add: k hexw_def [symmetric] join_colon_Cons)
qed

lemma print_words_run:
  "best = index + length ls \<Longrightarrow> length mid = len \<Longrightarrow> 0 < len \<Longrightarrow> length ls + length rs + 1 < k \<Longrightarrow>
   print_words k best len index (ls @ mid @ rs) result =
     Some (result @ separator result ls @ join_colon (map hexw ls) @ ''::'' @ join_colon (map hexw rs))"
proof (induction ls arbitrary: k index result)
  case Nil
  then obtain k' where k: "k = Suc k'" by (cases k) auto
  have "print_words k' best len (index + len) rs (result @ ''::'') = Some (result @ ''::'' @ join_colon (map hexw rs))"
    using print_words_plain [of best "index + len" rs k' len "result @ ''::''"] Nil k by simp
  then show ?case using Nil k by auto
next
  case (Cons w ws)
  obtain k' where k: "k = Suc k'" using Cons.prems by (cases k) auto
  have "best \<noteq> index" "best = Suc index + length ws" "length ws + length rs + 1 < k'"
    using Cons.prems k by auto
  then show ?case
    using Cons.IH [of "Suc index" k'] Cons.prems(2,3) hexw_spec(2) [of w] last_hexw [of _ w]
    by (simp add: k hexw_def [symmetric] join_colon_Cons)
qed

text \<open>The run the search returns is the initial choice, or a block of at least two zero words.\<close>

lemma best_run_spec:
  "best_run index ws best len = (best', len') \<Longrightarrow>
   (best' = best \<and> len' = len) \<or>
   (\<exists>ls rs. ws = ls @ replicate len' 0 @ rs \<and> best' = index + length ls \<and> 2 \<le> len')"
proof (induction index ws best len rule: best_run.induct)
  case (2 index w ws best len)
  define run where "run = Suc (length (takeWhile (\<lambda>x. x = 0) ws))"
  define rest where "rest = dropWhile (\<lambda>x. x = 0) ws"
  have "takeWhile (\<lambda>x. x = 0) ws = replicate (run - 1) 0"
    by (rule replicate_eqI) (auto simp: run_def dest: set_takeWhileD)
  then have zeros: "w = 0 \<Longrightarrow> w # ws = replicate run 0 @ rest"
    using takeWhile_dropWhile_id [of "\<lambda>x. x = 0" ws] by (simp add: run_def rest_def)
  have shift: "(best' = b \<and> len' = l) \<or> (\<exists>ls rs. w # ws = ls @ replicate len' 0 @ rs \<and> best' = index + length ls \<and> 2 \<le> len')"
    if "w # ws = front @ tail"
      "(best' = b \<and> len' = l) \<or> (\<exists>ls rs. tail = ls @ replicate len' 0 @ rs \<and> best' = index + length front + length ls \<and> 2 \<le> len')"
    for front tail b l
    using that(2)
  proof (elim disjE exE conjE)
    fix ls rs
    assume "tail = ls @ replicate len' 0 @ rs" "best' = index + length front + length ls" "2 \<le> len'"
    then have "w # ws = (front @ ls) @ replicate len' 0 @ rs \<and> best' = index + length (front @ ls) \<and> 2 \<le> len'"
      using that(1) by simp
    then show ?thesis by blast
  qed simp
  consider (word) "w \<noteq> 0" | (longer) "w = 0" "run \<ge> 2 \<and> run > len" | (kept) "w = 0" "\<not> (run \<ge> 2 \<and> run > len)" by blast
  then show ?case
  proof cases
    case word
    then have "best_run (index + 1) ws best len = (best', len')" using "2.prems" by simp
    then show ?thesis using shift [of "[w]" ws best len] "2.IH"(1) word by simp
  next
    case longer
    then have "best_run (index + run) rest index run = (best', len')"
      using "2.prems" by (simp add: run_def rest_def Let_def)
    then have "(best' = index \<and> len' = run) \<or>
        (\<exists>ls rs. rest = ls @ replicate len' 0 @ rs \<and> best' = index + run + length ls \<and> 2 \<le> len')"
      using "2.IH"(2) [OF _ run_def rest_def] longer by simp
    then show ?thesis using shift [of "replicate run 0" rest index run] zeros [OF longer(1)] longer(2)
      by (metis add.right_neutral append_Nil length_replicate list.size(3))
  next
    case kept
    then have "best_run (index + run) rest best len = (best', len')"
      using "2.prems" by (auto simp: run_def rest_def Let_def split: if_splits)
    then have "(best' = best \<and> len' = len) \<or>
        (\<exists>ls rs. rest = ls @ replicate len' 0 @ rs \<and> best' = index + run + length ls \<and> 2 \<le> len')"
      using "2.IH"(3) [OF _ run_def rest_def] kept by simp
    then show ?thesis using shift [of "replicate run 0" rest best len] zeros [OF kept(1)] by simp
  qed
qed simp

section \<open>Reading the printed words\<close>

lemma hexw_no_dot: "CHR ''.'' \<notin> set (hexw w)"
  using hexw_spec(3) [of w] by (auto simp: plain_def list_all_iff)

lemma Words_join: "count + length ws \<le> 8 \<Longrightarrow> Words allow count (join_colon (map hexw ws)) = Some ws"
proof (induction ws arbitrary: count)
  case (Cons w ws)
  have no_colon: "CHR '':'' \<notin> set (hexw w)" using group_hexw [of w] by (simp add: group_def)
  have room: "count \<noteq> 8" using Cons.prems by auto
  show ?case
  proof (cases ws)
    case Nil
    then show ?thesis
      using hexw_spec [of w] room hexw_no_dot [of w]
      by (simp add: Words.simps [of _ _ "hexw w"] cut_at_none [OF no_colon])
  next
    case tail: (Cons w' ws')
    have join: "join_colon (map hexw (w # ws)) = hexw w @ CHR '':'' # join_colon (map hexw ws)"
      and tail_text: "join_colon (map hexw ws) \<noteq> []"
      using hexw_spec(2) [of w'] by (auto simp: tail join_colon_Cons)
    have "Words allow (count + 1) (join_colon (map hexw ws)) = Some ws" using Cons by simp
    then show ?thesis
      unfolding join using hexw_spec [of w] room hexw_no_dot [of w] tail_text
      by (simp add: Words.simps [of _ _ "hexw w @ r" for r] cut_at_some [OF no_colon])
  qed
qed (simp add: Words.simps)

lemma join_chars: "list_all (\<lambda>c. plain c \<or> c = CHR '':'') (join_colon (map hexw ws))"
  by (induction ws) (use hexw_spec(3) in \<open>auto simp: join_colon_Cons list_all_iff\<close>)

lemma length_join: "length (join_colon (map hexw ws)) \<le> 5 * length ws"
proof (induction ws)
  case (Cons w ws)
  then show ?case using hexw_spec(4) [of w] by (auto simp: join_colon_Cons)
qed simp

lemma list_all_groups: "list_all group (map hexw ws)"
  by (simp add: list_all_iff group_hexw)

lemma upto_words:
  "[0..<8] = [0, 1, 2, 3, 4, 5, 6, 7 :: nat]"
  "[0..<16] = [0, 1, 2, 3, 4, 5, 6, 7, 8, 9, 10, 11, 12, 13, 14, 15 :: nat]"
  by (simp_all add: upt_rec)

lemma bytes_of_words_of_bytes:
  assumes "length bs = 16"
  shows "bytes_of_words (words_of_bytes bs) = bs"
proof -
  have mask: "(255 :: 16 word) = mask 8" by (simp add: mask_eq_exp_minus_1)
  have word: "ucast (drop_bit 8 (push_bit 8 (ucast a) OR ucast b :: 16 word)) = (a :: byte)"
    "ucast ((push_bit 8 (ucast a) OR ucast b :: 16 word) AND 255) = (b :: byte)" for a b :: byte
    subgoal by (rule bit_word_eqI) (auto simp: bit_simps dest: bit_imp_le_length)
    subgoal unfolding mask by (rule bit_word_eqI) (auto simp: bit_simps)
    done
  have "bytes_of_words (words_of_bytes bs) = concat (map (\<lambda>i. [bs ! (2 * i), bs ! (2 * i + 1)]) [0..<8])"
    by (simp only: bytes_of_words_def words_of_bytes_def map_map comp_def word)
  also have "\<dots> = map (nth bs) [0..<16]" by (simp add: upto_words)
  finally have "bytes_of_words (words_of_bytes bs) = map (nth bs) [0..<16]" .
  then show ?thesis using map_nth [of bs] assms by simp
qed

section \<open>Printing and parsing addresses\<close>

lemma length_words_of_bytes [simp]: "length (words_of_bytes bs) = 8"
  by (simp add: words_of_bytes_def)

text \<open>What the loops print for eight words, and how it reads back.\<close>

lemma printed_words:
  assumes "length ws = 8" and "best_run 0 ws 8 0 = (best, len)"
  obtains t where "print_words 9 best len 0 ws [] = Some t" and "CHR '':'' \<in> set t"
    and "list_all (\<lambda>c. plain c \<or> c = CHR '':'') t" and "length t \<le> 40"
    and "\<And>scope. ParseV6 t scope = Inr \<lparr>mFamily = V6Family, mBytes = bytes_of_words ws, mScopeId = scope\<rparr>"
proof -
  consider (none) "best = 8" | (run) ls rs where "ws = ls @ replicate len 0 @ rs" "best = length ls" "2 \<le> len"
    using best_run_spec [OF assms(2)] by auto
  then show thesis
  proof cases
    case none
    let ?t = "join_colon (map hexw ws)"
    have printed: "print_words 9 best len 0 ws [] = Some ?t"
      using print_words_plain [of best 0 ws 9 len "[]"] none assms(1) by simp
    obtain w w' r where ws: "ws = w # w' # r" using assms(1) by (cases ws rule: remdups_adj.cases) auto
    then have colon: "CHR '':'' \<in> set ?t" by simp
    show thesis
    proof (rule that [OF printed colon join_chars])
      show "length ?t \<le> 40" using length_join [of ws] assms(1) by simp
      show "ParseV6 ?t scope = Inr \<lparr>mFamily = V6Family, mBytes = bytes_of_words ws, mScopeId = scope\<rparr>" for scope
        using assms(1) by (simp add: ParseV6_def cut_double_colon_join list_all_groups Words_join)
    qed
  next
    case run
    let ?t = "join_colon (map hexw ls) @ ''::'' @ join_colon (map hexw rs)"
    have len: "length ls + length rs + len = 8" using run(1) assms(1) by simp
    have printed: "print_words 9 best len 0 ws [] = Some ?t"
      using print_words_run [of best 0 ls "replicate len 0" len rs 9 "[]"] run len by simp
    have colon: "CHR '':'' \<in> set ?t" by simp
    have chars: "list_all (\<lambda>c. plain c \<or> c = CHR '':'') ?t" using join_chars by simp
    show thesis
    proof (rule that [OF printed colon chars])
      show "length ?t \<le> 40" using length_join [of ls] length_join [of rs] len run(3) by simp
      have "8 - length ls - length rs = len" "\<not> 8 \<le> length ls + length rs" using len run(3) by auto
      then show "ParseV6 ?t scope = Inr \<lparr>mFamily = V6Family, mBytes = bytes_of_words ws, mScopeId = scope\<rparr>" for scope
        using cut_double_colon_run [OF list_all_groups] cut_double_colon_join [OF list_all_groups, of rs] len
        by (simp add: ParseV6_def Words_join run(1))
    qed
  qed
qed

text \<open>The dotted form.\<close>

lemma V4_loop_part:
  assumes "n \<noteq> 0"
  shows "V4_loop (Suc n) (to_chars_nat (unat (b :: byte)) @ CHR ''.'' # r) = map_option (Cons b) (V4_loop n r)"
proof -
  have b: "unat b < 256" using unsigned_less [of b, where 'a = nat] by simp
  have dot: "CHR ''.'' \<notin> set (to_chars_nat (unat b))"
    using to_chars_nat_digits(2) [of "unat b"] by (auto simp: list_all_iff isdigit_uchar)
  show ?thesis
    using assms b to_chars_nat_digits [of "unat b"] length_to_chars_nat [of "unat b" 3]
    by (auto simp: cut_at_some [OF dot] Decimal_to_chars UINT32_MAX_def split: option.splits)
qed

lemma V4_loop_last: "V4_loop (Suc 0) (to_chars_nat (unat (b :: byte))) = Some [b]"
proof -
  have b: "unat b < 256" using unsigned_less [of b, where 'a = nat] by simp
  have dot: "CHR ''.'' \<notin> set (to_chars_nat (unat b))"
    using to_chars_nat_digits(2) [of "unat b"] by (auto simp: list_all_iff isdigit_uchar)
  show ?thesis
    using b to_chars_nat_digits [of "unat b"] length_to_chars_nat [of "unat b" 3]
    by (auto simp: cut_at_none [OF dot] Decimal_to_chars UINT32_MAX_def)
qed

lemma V4_loop_length: "V4_loop n s = Some bs \<Longrightarrow> length bs = n"
  by (induction n s arbitrary: bs rule: V4_loop.induct) (auto split: prod.splits if_splits option.splits)

lemma ParseV6_ok: "ParseV6 t scope = Inr a \<Longrightarrow> address_ok a"
proof -
  have bytes: "length (bytes_of_words ws) = 2 * length ws" for ws
    by (induction ws) (simp_all add: bytes_of_words_def)
  show "ParseV6 t scope = Inr a \<Longrightarrow> address_ok a"
    by (auto simp: ParseV6_def Let_def address_ok_def bytes split: option.splits if_splits prod.splits)
qed

lemma IpAddress_Parse_cases:
  "IpAddress_Parse s = Inr a \<Longrightarrow>
   (\<exists>bs. V4 s = Some bs \<and> a = \<lparr>mFamily = V4Family, mBytes = bs @ replicate 12 0, mScopeId = 0\<rparr>) \<or>
   (\<exists>t scope. ParseV6 t scope = Inr a)"
  unfolding IpAddress_Parse_def by (fastforce split: if_splits option.splits prod.splits)

lemma IpAddress_Parse_ok: "IpAddress_Parse s = Inr a \<Longrightarrow> address_ok a"
  using IpAddress_Parse_cases [of s a] V4_loop_length [of 4 s] ParseV6_ok [of _ _ a]
  by (auto simp: V4_def address_ok_def)

lemma Normalized_ok: "address_ok a \<Longrightarrow> address_ok (Normalized a)"
  by (auto simp: Normalized_def FromBytes_ok split: sum.splits)

lemma V6_round_trip:
  assumes "address_ok a" "mFamily a = V6Family"
  shows "\<exists>s. IpAddress_ToString a = Some s \<and> IpAddress_Parse s = Inr a"
proof -
  obtain best len where run: "best_run 0 (words_of_bytes (mBytes a)) 8 0 = (best, len)" by fastforce
  obtain t where t: "print_words 9 best len 0 (words_of_bytes (mBytes a)) [] = Some t" "CHR '':'' \<in> set t"
    "list_all (\<lambda>c. plain c \<or> c = CHR '':'') t" "length t \<le> 40"
    and parse: "\<And>scope. ParseV6 t scope =
      Inr \<lparr>mFamily = V6Family, mBytes = bytes_of_words (words_of_bytes (mBytes a)), mScopeId = scope\<rparr>"
    using printed_words [OF length_words_of_bytes run] by blast
  have bytes: "bytes_of_words (words_of_bytes (mBytes a)) = mBytes a"
    using assms(1) by (simp add: bytes_of_words_of_bytes address_ok_def)
  have parse: "ParseV6 t (mScopeId a) = Inr a" using parse assms(2) bytes by simp
  have zone: "CHR ''%'' \<notin> set t" using t(3) by (auto simp: list_all_iff plain_def)
  have scope: "unat (mScopeId a) < 10 ^ 10" "unat (mScopeId a) \<le> UINT32_MAX"
    using unsigned_less [of "mScopeId a", where 'a = nat] by (simp_all add: UINT32_MAX_def)
  have digits: "length (to_chars_nat (unat (mScopeId a))) \<le> 10"
    using length_to_chars_nat [of "unat (mScopeId a)" 10] scope(1) by simp
  show ?thesis
  proof (cases "mScopeId a = 0")
    case True
    then have "IpAddress_ToString a = Some t" using run t(1) assms(2) by (simp add: IpAddress_ToString_def)
    moreover have "IpAddress_Parse t = Inr a"
      using parse True t by (auto simp: IpAddress_Parse_def cut_at_none [OF zone])
    ultimately show ?thesis by blast
  next
    case False
    let ?s = "t @ CHR ''%'' # to_chars_nat (unat (mScopeId a))"
    have "IpAddress_ToString a = Some ?s" using run t(1) False assms(2) by (simp add: IpAddress_ToString_def)
    moreover have "IpAddress_Parse ?s = Inr a"
      using parse t digits scope(2) by (auto simp: IpAddress_Parse_def cut_at_some [OF zone] Decimal_to_chars)
    ultimately show ?thesis by blast
  qed
qed

lemma V4_round_trip:
  assumes "address_ok a" "mFamily a = V4Family"
  shows "\<exists>s. IpAddress_ToString a = Some s \<and> IpAddress_Parse s = Inr a"
proof -
  have len: "length (mBytes a) = 16" and zero: "drop 4 (mBytes a) = replicate 12 0" "mScopeId a = 0"
    using assms by (simp_all add: address_ok_def)
  let ?p = "\<lambda>i. to_chars_nat (unat (mBytes a ! i))"
  let ?s = "?p 0 @ CHR ''.'' # ?p 1 @ CHR ''.'' # ?p 2 @ CHR ''.'' # ?p 3"
  have digits: "length (?p i) \<le> 3" "CHR '':'' \<notin> set (?p i)" "?p i \<noteq> []" for i
    using length_to_chars_nat [of "unat (mBytes a ! i)" 3] unsigned_less [of "mBytes a ! i", where 'a = nat]
      to_chars_nat_digits [of "unat (mBytes a ! i)"] by (auto simp: list_all_iff isdigit_uchar)
  have four: "mBytes a = [mBytes a ! 0, mBytes a ! 1, mBytes a ! 2, mBytes a ! 3] @ replicate 12 0"
    using append_take_drop_id [of 4 "mBytes a"] len zero(1) by (simp add: take_Suc_conv_app_nth eval_nat_numeral)
  have "V4 ?s = Some [mBytes a ! 0, mBytes a ! 1, mBytes a ! 2, mBytes a ! 3]"
    unfolding V4_def by (simp add: V4_loop_part V4_loop_last eval_nat_numeral del: V4_loop.simps)
  moreover have "IpAddress_ToString a = Some ?s" using assms(2) by (simp add: IpAddress_ToString_def)
  moreover have "length ?s \<le> 64" "CHR '':'' \<notin> set ?s" "?s \<noteq> []"
    using digits(1) [of 0] digits(1) [of 1] digits(1) [of 2] digits(1) [of 3] digits(2) by auto
  ultimately have "IpAddress_Parse ?s = Inr a" "IpAddress_ToString a = Some ?s"
    using four zero(2) assms(2) by (auto simp: IpAddress_Parse_def)
  then show ?thesis by blast
qed

section \<open>Networks\<close>

text \<open>Bit \<open>k\<close> of an address, counted from the most significant bit of the first byte.\<close>

definition address_bit :: "IpAddress \<Rightarrow> nat \<Rightarrow> bool" where
  "address_bit a k = bit (mBytes a ! (k div 8)) (7 - k mod 8)"

lemma bit_prefix_mask: "j < 8 \<Longrightarrow> bit (of_nat (prefix_mask p i) :: byte) j \<longleftrightarrow> 8 * i + (7 - j) < p"
proof -
  assume j: "j < 8"
  have "bit (prefix_mask p i) j \<longleftrightarrow> 8 * i + (7 - j) < p"
  proof -
    have full: "bit (255 :: nat) n \<longleftrightarrow> n < 8" for n
      using bit_mask_iff [of 8 n, where 'a = nat] by (simp add: mask_eq_exp_minus_1)
    show ?thesis
      using j by (auto simp: prefix_mask_def Let_def full bit_and_iff bit_push_bit_iff)
  qed
  then show ?thesis using j by (simp add: bit_of_nat_iff)
qed

lemma masked_eq_iff:
  "(x :: byte) AND of_nat (prefix_mask p i) = y AND of_nat (prefix_mask p i) \<longleftrightarrow>
   (\<forall>j<8. 8 * i + (7 - j) < p \<longrightarrow> bit x j = bit y j)"
proof -
  have "u = v \<longleftrightarrow> (\<forall>j<8. bit u j = bit v j)" for u v :: byte
    by (auto intro: bit_word_eqI)
  then show ?thesis by (auto simp: bit_and_iff bit_prefix_mask)
qed

lemma byte_bits_iff:
  "(\<forall>i<n. \<forall>j<8. 8 * i + (7 - j) < p \<longrightarrow> bit (mBytes a ! i) j = bit (mBytes b ! i) j) \<longleftrightarrow>
   (\<forall>k<8 * n. k < p \<longrightarrow> address_bit a k = address_bit b k)" (is "?bytes \<longleftrightarrow> ?bits")
proof
  assume bytes: ?bytes
  show ?bits
  proof (intro allI impI)
    fix k :: nat
    assume k: "k < 8 * n" "k < p"
    have "8 * (k div 8) + (7 - (7 - k mod 8)) = k" by simp
    then show "address_bit a k = address_bit b k"
      using k bytes [rule_format, of "k div 8" "7 - k mod 8"] by (simp add: address_bit_def less_mult_imp_div_less)
  qed
next
  assume bits: ?bits
  show ?bytes
  proof (intro allI impI)
    fix i j :: nat
    assume ij: "i < n" "j < 8" "8 * i + (7 - j) < p"
    obtain d where d: "j = 7 - d" "d < 8" using that [of "7 - j"] ij(2) by simp
    have "(8 * i + (7 - j)) div 8 = i" "7 - (8 * i + (7 - j)) mod 8 = j" using d by simp_all
    then show "bit (mBytes a ! i) j = bit (mBytes b ! i) j"
      using ij bits [rule_format, of "8 * i + (7 - j)"] by (simp add: address_bit_def)
  qed
qed

text \<open>The address bits of a family.\<close>

definition family_bits :: "IpFamily \<Rightarrow> nat" where
  "family_bits f = (case f of Unspecified \<Rightarrow> 0 | V4Family \<Rightarrow> 32 | V6Family \<Rightarrow> 128)"

lemma length_Bytes: "address_ok a \<Longrightarrow> 8 * length (Bytes a) = family_bits (mFamily a)"
  by (auto simp: address_ok_def Bytes_def family_bits_def split: IpFamily.splits)

lemma Contains_bits:
  assumes "address_ok a" and "address_ok (net_address n)" and "net_prefix n \<le> family_bits (mFamily (net_address n))"
  shows "Contains n a \<longleftrightarrow> mFamily a = mFamily (net_address n) \<and>
           (\<forall>k<net_prefix n. address_bit a k = address_bit (net_address n) k)"
proof (cases "mFamily a = mFamily (net_address n)")
  case True
  have valid: "address_valid (net_address n)"
    using assms(2) by (auto simp: address_ok_def address_valid_def)
  have range: "k < net_prefix n \<Longrightarrow> k < 8 * length (Bytes a)" for k
    using assms(3) True length_Bytes [OF assms(1)] by simp
  show ?thesis
    using True valid range byte_bits_iff [of "length (Bytes a)" "net_prefix n" a "net_address n"]
    by (auto simp: Contains_def list_all_iff masked_eq_iff)
qed (simp add: Contains_def)

text \<open>What a parsed network is: the parsed address with the bits behind the prefix cleared.\<close>

lemma IpNetwork_ParseD:
  assumes "IpNetwork_Parse s = Inr n"
  obtains t a where "IpAddress_Parse t = Inr a" "mFamily (net_address n) = mFamily a" "mScopeId (net_address n) = mScopeId a"
    "net_prefix n \<le> family_bits (mFamily a)"
    "mBytes (net_address n) = map (\<lambda>i. if i < length (Bytes a) then mBytes a ! i AND of_nat (prefix_mask (net_prefix n) i)
                                     else mBytes a ! i) [0..<length (mBytes a)]"
proof -
  obtain t digits where cut: "cut_at (CHR ''/'') s = (t, Some digits)"
    using assms by (auto simp: IpNetwork_Parse_def split: prod.splits option.splits)
  obtain a where a: "IpAddress_Parse t = Inr a"
    using assms cut by (auto simp: IpNetwork_Parse_def split: sum.splits if_splits)
  have "mFamily a \<noteq> Unspecified" using IpAddress_Parse_ok [OF a] by (auto simp: address_ok_def)
  then show thesis
    using that [of t a] a assms cut
    by (cases "mFamily a") (auto simp: IpNetwork_Parse_def family_bits_def split: option.splits if_splits)
qed

lemma IpNetwork_Parse_ok:
  assumes "IpNetwork_Parse s = Inr n"
  shows "address_ok (net_address n)" and "net_prefix n \<le> family_bits (mFamily (net_address n))"
    and "net_prefix n \<le> k \<Longrightarrow> k < family_bits (mFamily (net_address n)) \<Longrightarrow> \<not> address_bit (net_address n) k"
proof -
  obtain t a where n: "IpAddress_Parse t = Inr a" "mFamily (net_address n) = mFamily a" "mScopeId (net_address n) = mScopeId a"
    "net_prefix n \<le> family_bits (mFamily a)"
    "mBytes (net_address n) = map (\<lambda>i. if i < length (Bytes a) then mBytes a ! i AND of_nat (prefix_mask (net_prefix n) i)
                                     else mBytes a ! i) [0..<length (mBytes a)]"
    by (rule IpNetwork_ParseD [OF assms])
  have ok: "address_ok a" by (rule IpAddress_Parse_ok [OF n(1)])
  have len: "length (mBytes a) = 16" using ok by (simp add: address_ok_def)
  have "drop 4 (mBytes (net_address n)) = drop 4 (mBytes a)" if "mFamily a = V4Family"
    using that len n(5) by (intro nth_equalityI) (auto simp: Bytes_def)
  then show "address_ok (net_address n)"
    using ok n(2,3) len by (auto simp: address_ok_def n(5) [THEN arg_cong [where f = length]] split: IpFamily.splits)
  show "net_prefix n \<le> family_bits (mFamily (net_address n))" using n(2,4) by simp
  show "\<not> address_bit (net_address n) k"
    if k: "net_prefix n \<le> k" "k < family_bits (mFamily (net_address n))"
  proof -
    have i: "k div 8 < length (Bytes a)" "k div 8 < 16"
      using k(2) n(2) length_Bytes [OF ok] by (auto simp: Bytes_def len)
    have "8 * (k div 8) + (7 - (7 - k mod 8)) = k" by simp
    then show ?thesis
      using i k(1) by (simp add: address_bit_def n(5) len bit_and_iff bit_prefix_mask)
  qed
qed

section \<open>Correctness of addresses\<close>

text \<open>
  C18. Round trip of printed addresses: for every well-formed IPv4 or IPv6 address (with or without a
  scope), \<^verbatim>\<open>ToString\<close> ends and \<^verbatim>\<open>Parse\<close> of the text it returns is the same address. In particular the
  run of zero groups that \<^verbatim>\<open>::\<close> replaces is restored exactly.
\<close>

theorem IpAddress_round_trip:
  assumes "address_ok a"
  shows "\<exists>s. IpAddress_ToString a = Some s \<and> IpAddress_Parse s = Inr a"
proof (cases "mFamily a")
  case Unspecified
  then show ?thesis using assms by (simp add: address_ok_def)
next
  case V4Family
  then show ?thesis by (rule V4_round_trip [OF assms])
next
  case V6Family
  then show ?thesis by (rule V6_round_trip [OF assms])
qed

theorem IpAddress_round_trip_witness:
  "\<exists>s. IpAddress_ToString \<lparr>mFamily = V6Family, mBytes = 32 # 1 # replicate 12 0 @ [0, 7], mScopeId = 3\<rparr> = Some s \<and>
       IpAddress_Parse s = Inr \<lparr>mFamily = V6Family, mBytes = 32 # 1 # replicate 12 0 @ [0, 7], mScopeId = 3\<rparr>"
  by (rule IpAddress_round_trip) (simp add: address_ok_def)



text \<open>
  C20. Membership in a parsed CIDR network is agreement with the network on the prefix: an address is
  contained exactly if it has the same family and the same first \<open>prefix\<close> bits, where the prefix is at
  most the number of bits of the family and the bits behind it are zero in the stored network.
\<close>

theorem IpNetwork_Contains_prefix:
  assumes "IpNetwork_Parse s = Inr n" and "address_ok a"
  shows "(Contains n a \<longleftrightarrow> mFamily a = mFamily (net_address n) \<and>
            (\<forall>k<net_prefix n. address_bit a k = address_bit (net_address n) k)) \<and>
         net_prefix n \<le> family_bits (mFamily (net_address n)) \<and>
         (\<forall>k. net_prefix n \<le> k \<and> k < family_bits (mFamily (net_address n)) \<longrightarrow> \<not> address_bit (net_address n) k)"
  using IpNetwork_Parse_ok [OF assms(1)] Contains_bits [OF assms(2)] by blast

definition ten_network :: IpNetwork where
  "ten_network = \<lparr>net_address = \<lparr>mFamily = V4Family, mBytes = 10 # replicate 15 0, mScopeId = 0\<rparr>, net_prefix = 12\<rparr>"

definition ten_host :: IpAddress where
  "ten_host = \<lparr>mFamily = V4Family, mBytes = 10 # 15 # replicate 14 0, mScopeId = 0\<rparr>"

theorem IpNetwork_Contains_prefix_witness:
  "Contains ten_network ten_host \<longleftrightarrow> (\<forall>k<12. address_bit ten_host k = address_bit (net_address ten_network) k)"
proof -
  have four: "4 = Suc (Suc (Suc (Suc 0)))" by simp
  have "V4 ''10.3.0.0'' = Some [10, 3, 0, 0]"
    unfolding V4_def four by (simp add: cut_at_def Decimal_def isdigit_uchar decimal_value_def UINT32_MAX_eval)
  moreover have "replicate 15 (0 :: byte) = [0, 0, 0, 0, 0, 0, 0, 0, 0, 0, 0, 0, 0, 0, 0]"
    by (simp add: numeral_eq_Suc)
  ultimately have "IpNetwork_Parse ''10.3.0.0/12'' = Inr ten_network"
    by (simp add: IpNetwork_Parse_def IpAddress_Parse_def cut_at_def Decimal_def isdigit_uchar decimal_value_def
        UINT32_MAX_eval ten_network_def Bytes_def prefix_mask_def upto_words)
  moreover have "address_ok ten_host" by (simp add: address_ok_def ten_host_def)
  ultimately show ?thesis
    using IpNetwork_Contains_prefix [of "''10.3.0.0/12''" ten_network ten_host] by (simp add: ten_network_def ten_host_def)
qed

end
