(* ===== verification/Utf8Fragments.thy ===== *)
theory Utf8Fragments
  imports Utf8
begin

text \<open>
  Incremental validation of the text of a fragmented WebSocket message (\<^verbatim>\<open>Utf8FragmentState\<close> of
  \<^verbatim>\<open>src/Web/WebProtocol.cpp\<close>). At most one incomplete code point is kept between two fragments.
  Accepting the fragments one by one is shown to be the same as validating the whole message, and a
  fragment is refused at the first byte after which no continuation can make the message valid.
\<close>

section \<open>The fragment validator\<close>

record Utf8FragmentState =
  u_pending :: string
  u_size :: nat

definition Utf8FragmentState_create :: Utf8FragmentState where
  "Utf8FragmentState_create = \<lparr>u_pending = replicate 4 (char_of (0 :: nat)), u_size = 0\<rparr>"

definition utf8_width :: "nat \<Rightarrow> nat" where
  "utf8_width ch =
     (if ch < 0x80 then 1
      else if ch \<ge> 0xC2 \<and> ch \<le> 0xDF then 2
      else if ch \<ge> 0xE0 \<and> ch \<le> 0xEF then 3
      else if ch \<ge> 0xF0 \<and> ch \<le> 0xF4 then 4
      else 0)"

definition pad_byte :: "nat \<Rightarrow> nat \<Rightarrow> nat" where
  "pad_byte lead index =
     (if index = 1 \<and> lead = 0xE0 then 0xA0 else if index = 1 \<and> lead = 0xF0 then 0x90 else 0x80)"

definition validPartial :: "Utf8FragmentState \<Rightarrow> bool" where
  "validPartial st =
     (let lead = uchar (u_pending st ! 0);
          expected = utf8_width lead
      in if expected = 0 then False
         else IsValidUtf8 (take expected (take (u_size st) (u_pending st) @
                map (\<lambda>index. char_of (pad_byte lead index)) [u_size st..<expected])))"

text \<open>The loop that looks for the start of the last code point, from \<open>n\<close> downwards.\<close>

fun last_lead :: "string \<Rightarrow> nat \<Rightarrow> nat" where
  "last_lead s 0 = 0"
| "last_lead s (Suc n) = (if uchar (s ! Suc n) AND 0xC0 = 0x80 then last_lead s n else Suc n)"

text \<open>The part of \<^verbatim>\<open>Append\<close> behind the completion of a pending code point.\<close>

definition Append_rest :: "Utf8FragmentState \<Rightarrow> string \<Rightarrow> bool \<Rightarrow> bool \<times> Utf8FragmentState" where
  "Append_rest st s final =
     (if s = [] then (\<not> final \<or> u_size st = 0, st)
      else
        let start = last_lead s (length s - 1);
            expected = utf8_width (uchar (s ! start))
        in if expected > length s - start then
             let st1 = st\<lparr>u_size := length s - start, u_pending := store_at (u_pending st) 0 (drop start s)\<rparr>
             in if \<not> validPartial st1 then (False, st1)
                else if \<not> IsValidUtf8 (take start s) then (False, st1)
                else (\<not> final \<or> u_size st1 = 0, st1)
           else if \<not> IsValidUtf8 s then (False, st)
           else (\<not> final \<or> u_size st = 0, st))"

text \<open>
  \<^verbatim>\<open>Append\<close>. While a code point is pending its size is below its width, so the difference below does
  not wrap around (\<open>fragment_ok\<close>).
\<close>

definition Fragment_Append :: "Utf8FragmentState \<Rightarrow> string \<Rightarrow> bool \<Rightarrow> bool \<times> Utf8FragmentState" where
  "Fragment_Append st s final =
     (if u_size st \<noteq> 0 then
        let expected = utf8_width (uchar (u_pending st ! 0));
            n = min (expected - u_size st) (length s);
            st1 = st\<lparr>u_pending := store_at (u_pending st) (u_size st) (take n s), u_size := u_size st + n\<rparr>
        in if u_size st1 \<noteq> expected then (\<not> final \<and> validPartial st1, st1)
           else if \<not> IsValidUtf8 (take (u_size st1) (u_pending st1)) then (False, st1)
           else Append_rest (st1\<lparr>u_size := 0\<rparr>) (drop n s) final
      else Append_rest st s final)"

section \<open>Code points as a lead byte with continuation bytes\<close>

definition is_cont :: "char \<Rightarrow> bool" where
  "is_cont c \<longleftrightarrow> 128 \<le> uchar c \<and> uchar c < 192"

text \<open>The range of the second byte, as in table 3-7 of the Unicode standard.\<close>

definition second_ok :: "nat \<Rightarrow> nat \<Rightarrow> bool" where
  "second_ok lead d \<longleftrightarrow> (lead = 0xE0 \<longrightarrow> 0xA0 \<le> d) \<and> (lead = 0xED \<longrightarrow> d \<le> 0x9F) \<and>
     (lead = 0xF0 \<longrightarrow> 0x90 \<le> d) \<and> (lead = 0xF4 \<longrightarrow> d \<le> 0x8F)"

definition conts_ok :: "char \<Rightarrow> string \<Rightarrow> bool" where
  "conts_ok c ds \<longleftrightarrow> list_all is_cont ds \<and> (ds \<noteq> [] \<longrightarrow> second_ok (uchar c) (uchar (hd ds)))"

lemma utf8_width_le: "utf8_width n \<le> 4"
  by (simp add: utf8_width_def)

lemma is_cont_and: "uchar c AND 0xC0 = 0x80 \<longleftrightarrow> is_cont c"
  by (simp add: lead_ranges is_cont_def)

lemma width_not_cont: "utf8_width (uchar c) \<noteq> 0 \<Longrightarrow> \<not> is_cont c"
  by (auto simp: utf8_width_def is_cont_def split: if_splits)

lemma list_of_length:
  "length ds = 1 \<longleftrightarrow> (\<exists>a. ds = [a])" "length ds = 2 \<longleftrightarrow> (\<exists>a b. ds = [a, b])"
  "length ds = 3 \<longleftrightarrow> (\<exists>a b c. ds = [a, b, c])"
  by (auto simp: length_Suc_conv numeral_eq_Suc)

text \<open>The range checks on the code point are checks of the first two bytes.\<close>

lemma range_3:
  assumes "a < 16" "b < 64" "e < 64"
  shows "utf8_in_range ((a * 64 + b) * 64 + e) 2048 \<longleftrightarrow> (a = 0 \<longrightarrow> 32 \<le> b) \<and> (a = 13 \<longrightarrow> b < 32)"
proof -
  consider "a = 0" | "0 < a" "a < 13" | "a = 13" | "13 < a" by linarith
  then show ?thesis using assms by cases (auto simp: utf8_in_range_def)
qed

lemma range_4:
  assumes "a < 5" "b < 64" "e < 64" "f < 64"
  shows "utf8_in_range (((a * 64 + b) * 64 + e) * 64 + f) 65536 \<longleftrightarrow> (a = 0 \<longrightarrow> 16 \<le> b) \<and> (a = 4 \<longrightarrow> b < 16)"
proof -
  consider "a = 0" | "0 < a" "a < 4" | "a = 4" using assms by linarith
  then show ?thesis using assms by cases (auto simp: utf8_in_range_def)
qed

text \<open>A complete sequence behind a lead byte of its width.\<close>

lemma IsValidUtf8_sequence:
  assumes "utf8_width (uchar c) = Suc (length ds)"
  shows "IsValidUtf8 (c # ds @ s) \<longleftrightarrow> conts_ok c ds \<and> IsValidUtf8 s"
proof -
  consider (one) "ds = []" "uchar c < 128"
    | (two) d where "ds = [d]" "194 \<le> uchar c" "uchar c \<le> 223"
    | (three) d e where "ds = [d, e]" "224 \<le> uchar c" "uchar c \<le> 239"
    | (four) d e f where "ds = [d, e, f]" "240 \<le> uchar c" "uchar c \<le> 244"
    using assms list_of_length [of ds] by (auto simp: utf8_width_def split: if_splits)
  then show ?thesis
  proof cases
    case one
    then show ?thesis by (simp add: IsValidUtf8_ascii conts_ok_def del: IsValidUtf8.simps)
  next
    case two
    then show ?thesis
      by (auto simp: utf8_lead_arith utf8_continue_arith conts_ok_def is_cont_def second_ok_def utf8_in_range_def)
  next
    case three
    have "utf8_in_range (((uchar c - 224) * 64 + (uchar d - 128)) * 64 + (uchar e - 128)) 2048 \<longleftrightarrow>
        second_ok (uchar c) (uchar d)" if "is_cont d" "is_cont e"
      using three that range_3 [of "uchar c - 224" "uchar d - 128" "uchar e - 128"]
      by (auto simp: is_cont_def second_ok_def)
    then show ?thesis
      using three by (auto simp: utf8_lead_arith utf8_continue_arith conts_ok_def is_cont_def)
  next
    case four
    have "utf8_in_range ((((uchar c - 240) * 64 + (uchar d - 128)) * 64 + (uchar e - 128)) * 64 + (uchar f - 128)) 65536 \<longleftrightarrow>
        second_ok (uchar c) (uchar d)" if "is_cont d" "is_cont e" "is_cont f"
      using four that range_4 [of "uchar c - 240" "uchar d - 128" "uchar e - 128" "uchar f - 128"]
      by (auto simp: is_cont_def second_ok_def)
    then show ?thesis
      using four by (auto simp: utf8_lead_arith utf8_continue_arith conts_ok_def is_cont_def)
  qed
qed

text \<open>What starts a valid text.\<close>

lemma utf8_width_encode:
  assumes "scalar_value cp"
  shows "utf8_width (uchar (hd (AppendUtf8 cp))) = length (AppendUtf8 cp)"
proof -
  have le: "cp \<le> 0x10FFFF" using assms by (simp add: scalar_value_def)
  have "2 \<le> cp div 64" if "128 \<le> cp" using that div_le_mono [of 128 cp 64] by simp
  moreover have "cp div 64 < 32" if "cp < 2048" using that by (simp add: less_mult_imp_div_less)
  moreover have "cp div 4096 < 16" if "cp < 65536" using that by (simp add: less_mult_imp_div_less)
  moreover have "cp div 262144 \<le> 4" using div_le_mono [OF le, of 262144] by simp
  ultimately show ?thesis
    by (auto simp: AppendUtf8_arith [OF le] utf8_width_def uchar_char_of)
qed

lemma IsValidUtf8_head:
  assumes "IsValidUtf8 (c # r)"
  obtains ds s where "r = ds @ s" "utf8_width (uchar c) = Suc (length ds)" "conts_ok c ds" "IsValidUtf8 s"
proof -
  obtain cp s where s: "c # r = AppendUtf8 cp @ s" "scalar_value cp" "IsValidUtf8 s"
    using IsValidUtf8_decode [OF assms] by blast
  obtain ds where ds: "AppendUtf8 cp = c # ds" "r = ds @ s"
    using s(1) by (cases "AppendUtf8 cp") auto
  have width: "utf8_width (uchar c) = Suc (length ds)" using utf8_width_encode [OF s(2)] ds(1) by simp
  have "conts_ok c ds" using IsValidUtf8_sequence [OF width, of s] assms ds(2) by simp
  then show thesis using that ds(2) width s(3) by blast
qed

lemma IsValidUtf8_Cons_width:
  "IsValidUtf8 (c # r) \<longleftrightarrow> utf8_width (uchar c) \<noteq> 0 \<and> utf8_width (uchar c) \<le> Suc (length r) \<and>
     conts_ok c (take (utf8_width (uchar c) - 1) r) \<and> IsValidUtf8 (drop (utf8_width (uchar c) - 1) r)"
  (is "?valid \<longleftrightarrow> ?parts")
proof
  assume ?valid
  then show ?parts by (elim IsValidUtf8_head) simp
next
  assume parts: ?parts
  let ?n = "utf8_width (uchar c) - 1"
  have "utf8_width (uchar c) = Suc (length (take ?n r))" using parts by auto
  then show ?valid using IsValidUtf8_sequence [of c "take ?n r" "drop ?n r"] parts by simp
qed

declare IsValidUtf8.simps(2) [simp del]

text \<open>A byte that is not a continuation starts a code point.\<close>

lemma IsValidUtf8_boundary:
  "\<not> is_cont l \<Longrightarrow> IsValidUtf8 (u @ l # r) \<longleftrightarrow> IsValidUtf8 u \<and> IsValidUtf8 (l # r)"
proof (induction u rule: length_induct)
  case (1 u)
  show ?case
  proof (cases u)
    case (Cons c u')
    show ?thesis
    proof
      assume "IsValidUtf8 (u @ l # r)"
      then obtain ds s where ds: "u' @ l # r = ds @ s" "utf8_width (uchar c) = Suc (length ds)" "conts_ok c ds" "IsValidUtf8 s"
        using Cons by (metis IsValidUtf8_head append_Cons)
      have "length ds \<le> length u'"
      proof (rule ccontr)
        assume "\<not> ?thesis"
        then have "l \<in> set ds" using ds(1) by (metis linorder_not_le nth_append_length nth_append nth_mem)
        then show False using ds(3) 1(2) by (auto simp: conts_ok_def list_all_iff)
      qed
      then obtain v where v: "u' = ds @ v" "s = v @ l # r"
        using ds(1) by (auto simp: append_eq_append_conv2)
      have "IsValidUtf8 v \<and> IsValidUtf8 (l # r)" using 1 ds(4) v Cons by simp
      then show "IsValidUtf8 u \<and> IsValidUtf8 (l # r)"
        using IsValidUtf8_sequence [OF ds(2), of v] ds(3) v(1) Cons by simp
    qed (simp add: IsValidUtf8_append)
  qed simp
qed

section \<open>Incomplete code points\<close>

definition partial :: "string \<Rightarrow> bool" where
  "partial p \<longleftrightarrow> p \<noteq> [] \<and> length p < utf8_width (uchar (hd p)) \<and> conts_ok (hd p) (tl p)"

abbreviation extendable :: "string \<Rightarrow> bool" where
  "extendable s \<equiv> \<exists>q. IsValidUtf8 (s @ q)"

lemma conts_ok_Nil [simp]: "conts_ok c []"
  by (simp add: conts_ok_def)

lemma conts_ok_append:
  "conts_ok c (ds @ es) \<longleftrightarrow> (if ds = [] then conts_ok c es else conts_ok c ds \<and> list_all is_cont es)"
  by (auto simp: conts_ok_def)

abbreviation padding :: "char \<Rightarrow> nat \<Rightarrow> string" where
  "padding c n \<equiv> map (\<lambda>index. char_of (pad_byte (uchar c) index)) [n..<utf8_width (uchar c)]"

lemma padding_ok: "0 < n \<Longrightarrow> list_all is_cont (padding c n)" "conts_ok c (padding c 1)"
proof -
  have cont: "is_cont (char_of (pad_byte l i))" for l i
    by (auto simp: is_cont_def pad_byte_def uchar_char_of)
  then show "list_all is_cont (padding c n)" by (simp add: list_all_iff)
  have "second_ok (uchar c) (pad_byte (uchar c) 1)" by (auto simp: second_ok_def pad_byte_def)
  moreover have "uchar (char_of (pad_byte l i)) = pad_byte l i" for l i
    by (simp add: pad_byte_def)
  ultimately show "conts_ok c (padding c 1)"
    using cont by (auto simp: conts_ok_def list_all_iff hd_map)
qed

lemma partial_padded:
  assumes "length p < utf8_width (uchar (hd p))" "p \<noteq> []"
  shows "IsValidUtf8 (p @ padding (hd p) (length p)) \<longleftrightarrow> partial p"
proof -
  obtain c ds where p: "p = c # ds" using assms(2) by (cases p) auto
  have "utf8_width (uchar c) = Suc (length (ds @ padding c (length p)))" using assms(1) p by simp
  from IsValidUtf8_sequence [OF this, of "[]"]
  show ?thesis
    using assms p padding_ok(1) [of "length p" c] padding_ok(2) [of c] by (cases "ds = []") (auto simp: conts_ok_append partial_def)
qed

lemma partial_extendable:
  assumes "length p < utf8_width (uchar (hd p))" "p \<noteq> []"
  shows "extendable p \<longleftrightarrow> partial p"
proof
  assume "extendable p"
  then obtain q where q: "IsValidUtf8 (p @ q)" ..
  obtain c ds where p: "p = c # ds" using assms(2) by (cases p) auto
  let ?n = "utf8_width (uchar c) - 1"
  have "conts_ok c (take ?n (ds @ q))" using q p by (simp add: IsValidUtf8_Cons_width)
  moreover have "take ?n (ds @ q) = ds @ take (?n - length ds) q" using assms(1) p by simp
  ultimately have "conts_ok c ds" by (auto simp: conts_ok_append conts_ok_def split: if_splits)
  then show "partial p" using assms p by (simp add: partial_def)
next
  assume "partial p"
  then show "extendable p" using partial_padded [OF assms] by blast
qed

abbreviation pending_text :: "Utf8FragmentState \<Rightarrow> string" where
  "pending_text st \<equiv> take (u_size st) (u_pending st)"

text \<open>The invariant of the validator: four characters of storage, and a pending code point is incomplete.\<close>

definition fragment_ok :: "Utf8FragmentState \<Rightarrow> bool" where
  "fragment_ok st \<longleftrightarrow> length (u_pending st) = 4 \<and> (u_size st = 0 \<or> partial (pending_text st))"

lemma validPartial_iff:
  assumes "length (u_pending st) = 4" "0 < u_size st" "u_size st < utf8_width (uchar (u_pending st ! 0))"
  shows "validPartial st \<longleftrightarrow> partial (pending_text st)"
proof -
  have size: "u_size st \<le> 4" using assms(3) utf8_width_le [of "uchar (u_pending st ! 0)"] by linarith
  have hd: "hd (pending_text st) = u_pending st ! 0" "pending_text st \<noteq> []"
    using assms by (cases "u_pending st"; auto)+
  have "length (pending_text st) = u_size st" using size assms(1) by simp
  then show ?thesis
    using partial_padded [of "pending_text st"] hd assms(3) by (simp add: validPartial_def Let_def)
qed

lemma last_lead_spec:
  "last_lead s n \<le> n \<and> (\<forall>i. last_lead s n < i \<and> i \<le> n \<longrightarrow> is_cont (s ! i)) \<and>
   (last_lead s n \<noteq> 0 \<longrightarrow> \<not> is_cont (s ! last_lead s n))"
  by (induction n) (auto simp: is_cont_and le_Suc_eq)

lemma last_lead_split:
  assumes "s \<noteq> []"
  obtains u l cs where "s = u @ l # cs" "length u = last_lead s (length s - 1)" "list_all is_cont cs" "is_cont l \<longrightarrow> u = []"
proof -
  let ?k = "last_lead s (length s - 1)"
  have k: "?k < length s"
    using last_lead_spec [of s "length s - 1"] diff_less [of 1 "length s"] assms by (auto intro: le_less_trans)
  have "list_all is_cont (drop (Suc ?k) s)"
    using last_lead_spec [of s "length s - 1"] by (auto simp: list_all_length)
  moreover have "is_cont (s ! ?k) \<longrightarrow> take ?k s = []" using last_lead_spec [of s "length s - 1"] by auto
  ultimately show thesis using that [of "take ?k s" "s ! ?k" "drop (Suc ?k) s"] k id_take_nth_drop [OF k] by simp
qed

text \<open>A text that ends in a complete code point can be continued exactly if it is valid.\<close>

lemma extendable_complete:
  assumes "list_all is_cont cs" "is_cont l \<Longrightarrow> u = []" "utf8_width (uchar l) \<le> Suc (length cs)"
  shows "extendable (u @ l # cs) \<longleftrightarrow> IsValidUtf8 (u @ l # cs)"
proof
  assume "extendable (u @ l # cs)"
  then obtain q where q: "IsValidUtf8 (u @ l # cs @ q)" by auto
  have lead: "\<not> is_cont l"
  proof
    assume cont: "is_cont l"
    then have "utf8_width (uchar l) = 0" using width_not_cont by blast
    then show False using q assms(2) [OF cont] by (simp add: IsValidUtf8_Cons_width)
  qed
  then have u: "IsValidUtf8 u" and tail: "IsValidUtf8 (l # cs @ q)" using q IsValidUtf8_boundary by auto
  let ?n = "utf8_width (uchar l) - 1"
  have "IsValidUtf8 (drop ?n (cs @ q))" using tail by (simp add: IsValidUtf8_Cons_width)
  then have rest: "IsValidUtf8 (drop ?n cs @ q)" using assms(3) by simp
  have "drop ?n cs = []"
  proof (rule ccontr)
    assume ne: "drop ?n cs \<noteq> []"
    then have "is_cont (hd (drop ?n cs))" using assms(1) by (metis hd_in_set in_set_dropD list_all_iff)
    then have "utf8_width (uchar (hd (drop ?n cs))) = 0" using width_not_cont by blast
    moreover have "drop ?n cs @ q = hd (drop ?n cs) # tl (drop ?n cs) @ q" using ne by simp
    ultimately show False using rest by (metis IsValidUtf8_Cons_width)
  qed
  then have "length cs = ?n" using assms(3) by simp
  then have "IsValidUtf8 (l # cs)" using tail by (simp add: IsValidUtf8_Cons_width)
  then show "IsValidUtf8 (u @ l # cs)" using u by (simp add: IsValidUtf8_append)
qed (metis append_Nil2)

section \<open>One fragment\<close>

text \<open>What one call has to promise, for the text \<open>s\<close> that is not yet known to be valid.\<close>

definition fragment_spec :: "string \<Rightarrow> bool \<Rightarrow> bool \<times> Utf8FragmentState \<Rightarrow> bool" where
  "fragment_spec s final r \<longleftrightarrow>
     (fst r \<longleftrightarrow> (if final then IsValidUtf8 s else extendable s)) \<and>
     (fst r \<and> \<not> final \<longrightarrow> fragment_ok (snd r) \<and> (\<exists>v. IsValidUtf8 v \<and> s = v @ pending_text (snd r)))"

lemma partial_invalid: "partial p \<Longrightarrow> \<not> IsValidUtf8 p"
  by (cases p) (auto simp: partial_def IsValidUtf8_Cons_width)

lemma Append_rest_spec:
  assumes "length (u_pending st) = 4" "u_size st = 0"
  shows "fragment_spec s final (Append_rest st s final)"
proof (cases "s = []")
  case True
  then show ?thesis
    using assms by (auto simp: fragment_spec_def Append_rest_def fragment_ok_def intro: exI [of _ "[]"])
next
  case False
  obtain u l cs where s: "s = u @ l # cs" and start: "length u = last_lead s (length s - 1)"
    and conts: "list_all is_cont cs" "is_cont l \<longrightarrow> u = []"
    by (rule last_lead_split [OF False])
  have parts: "s ! length u = l" "take (length u) s = u" "drop (length u) s = l # cs" "length s - length u = Suc (length cs)"
    using s by simp_all
  show ?thesis
  proof (cases "Suc (length cs) < utf8_width (uchar l)")
    case True
    let ?st = "st\<lparr>u_size := Suc (length cs), u_pending := store_at (u_pending st) 0 (l # cs)\<rparr>"
    have lead: "\<not> is_cont l" using True width_not_cont [of l] by auto
    have small: "Suc (length cs) < 4" using True utf8_width_le [of "uchar l"] by linarith
    have pending: "pending_text ?st = l # cs" and len: "length (u_pending ?st) = 4"
      using small assms(1) by (simp_all add: store_at_def)
    have partial: "validPartial ?st \<longleftrightarrow> partial (l # cs)"
      using validPartial_iff [of ?st] pending len True by (simp add: store_at_def)
    have run: "Append_rest st s final =
        (if \<not> partial (l # cs) then (False, ?st) else if \<not> IsValidUtf8 u then (False, ?st) else (\<not> final, ?st))"
      unfolding Append_rest_def Let_def start [symmetric] parts using False True partial by simp
    have "extendable s \<longleftrightarrow> IsValidUtf8 u \<and> partial (l # cs)"
      using partial_extendable [of "l # cs"] True IsValidUtf8_boundary [OF lead] s by auto
    moreover have "\<not> IsValidUtf8 s" if "partial (l # cs)"
      using partial_invalid [OF that] IsValidUtf8_boundary [OF lead] s by simp
    moreover have "\<not> IsValidUtf8 s" if "\<not> extendable s" using that by (metis append_Nil2)
    ultimately show ?thesis
      using run pending len s by (auto simp: fragment_spec_def fragment_ok_def)
  next
    case whole: False
    then have "extendable s \<longleftrightarrow> IsValidUtf8 s"
      using extendable_complete [of cs l u] conts s by simp
    moreover have "Append_rest st s final = (IsValidUtf8 s, st)"
      unfolding Append_rest_def Let_def start [symmetric] parts using False whole assms(2) by simp
    ultimately show ?thesis using assms by (auto simp: fragment_spec_def fragment_ok_def)
  qed
qed

lemma extendable_append: "IsValidUtf8 v \<Longrightarrow> extendable (v @ s) \<longleftrightarrow> extendable s"
  by (simp add: IsValidUtf8_append)

lemma Fragment_Append_spec:
  assumes "fragment_ok st"
  shows "fragment_spec (pending_text st @ s) final (Fragment_Append st s final)"
proof (cases "u_size st = 0")
  case True
  then show ?thesis using Append_rest_spec assms by (simp add: Fragment_Append_def fragment_ok_def)
next
  case False
  let ?p = "pending_text st"
  have len: "length (u_pending st) = 4" and part: "partial ?p"
    using assms False by (auto simp: fragment_ok_def)
  let ?c = "u_pending st ! 0"
  have hd: "hd ?p = ?c" using len False by (cases "u_pending st") auto
  let ?w = "utf8_width (uchar ?c)"
  have short: "length ?p < ?w" using part hd by (simp add: partial_def)
  then have size: "u_size st < ?w" "length ?p = u_size st" "u_size st < 4"
    using len utf8_width_le [of "uchar ?c"] by (auto simp: min_def split: if_splits)
  let ?n = "min (?w - u_size st) (length s)"
  let ?st = "st\<lparr>u_pending := store_at (u_pending st) (u_size st) (take ?n s), u_size := u_size st + ?n\<rparr>"
  let ?t = "?p @ take ?n s"
  have room: "u_size st + ?n \<le> 4" using size utf8_width_le [of "uchar ?c"] by simp
  have pending: "pending_text ?st = ?t" and len': "length (u_pending ?st) = 4" and lead: "u_pending ?st ! 0 = ?c"
    using room len False size by (auto simp: store_at_def nth_append)
  have ne: "?p \<noteq> []" using part by (simp add: partial_def)
  then obtain ds where t: "?t = ?c # ds" using hd by (cases ?p) auto
  show ?thesis
  proof (cases "u_size st + ?n = ?w")
    case incomplete: False
    then have n: "?n = length s" and all: "take ?n s = s" and less: "u_size st + ?n < ?w" using size by (auto simp: min_def split: if_splits)
    have partial: "validPartial ?st \<longleftrightarrow> partial (?p @ s)"
      using validPartial_iff [of ?st] pending len' lead less False all by simp
    have run: "Fragment_Append st s final = (\<not> final \<and> partial (?p @ s), ?st)"
      using False incomplete partial by (simp add: Fragment_Append_def Let_def)
    have "length (?p @ s) < utf8_width (uchar (hd (?p @ s)))"
      using less size(2) n hd ne by simp
    then have "extendable (?p @ s) \<longleftrightarrow> partial (?p @ s)" using partial_extendable [of "?p @ s"] ne by simp
    moreover have "\<not> IsValidUtf8 (?p @ s)" if "\<not> extendable (?p @ s)" using that by (metis append_Nil2)
    ultimately show ?thesis
      using run pending len' all partial_invalid [of "?p @ s"]
      by (auto simp: fragment_spec_def fragment_ok_def intro: exI [of _ "[]"])
  next
    case complete: True
    have "length ?t = ?w" using complete size by simp
    then have width: "utf8_width (uchar ?c) = Suc (length ds)" using t by simp
    have valid: "IsValidUtf8 (?t @ z) \<longleftrightarrow> IsValidUtf8 ?t \<and> IsValidUtf8 z" for z
      using IsValidUtf8_sequence [OF width, of z] IsValidUtf8_sequence [OF width, of "[]"] t by simp
    have split: "?p @ s = ?t @ drop ?n s" by simp
    show ?thesis
    proof (cases "IsValidUtf8 ?t")
      case True
      have "Fragment_Append st s final = Append_rest (?st\<lparr>u_size := 0\<rparr>) (drop ?n s) final"
        using False complete True pending by (simp add: Fragment_Append_def Let_def)
      then have "fragment_spec (drop ?n s) final (Fragment_Append st s final)"
        using Append_rest_spec [of "?st\<lparr>u_size := 0\<rparr>"] len' by simp
      then show ?thesis
        unfolding split fragment_spec_def using valid True
        by (metis append.assoc)
    next
      case invalid: False
      have "Fragment_Append st s final = (False, ?st)"
        using False complete invalid pending by (simp add: Fragment_Append_def Let_def)
      moreover have "\<not> IsValidUtf8 (?p @ s @ q)" for q
        using valid [of "drop ?n s @ q"] invalid split by (metis append.assoc)
      moreover from this [of "[]"] have "\<not> IsValidUtf8 (?p @ s)" by simp
      ultimately show ?thesis by (simp add: fragment_spec_def)
    qed
  qed
qed

section \<open>A message in fragments\<close>

text \<open>
  The fragments of one message in the order of their arrival, each passed to \<^verbatim>\<open>Append\<close>; the last one with
  \<open>final\<close> set if the message is complete. The result is the conjunction of the results up to the first refusal.
\<close>

fun Append_fragments :: "Utf8FragmentState \<Rightarrow> string list \<Rightarrow> bool \<Rightarrow> bool" where
  "Append_fragments st [] complete = True"
| "Append_fragments st (x # xs) complete =
     (case Fragment_Append st x (complete \<and> xs = []) of
        (ok, st') \<Rightarrow> ok \<and> Append_fragments st' xs complete)"

lemma Append_fragments_open:
  "fragment_ok st \<Longrightarrow> extendable (pending_text st) \<Longrightarrow>
   Append_fragments st xs False \<longleftrightarrow> extendable (pending_text st @ concat xs)"
proof (induction xs arbitrary: st)
  case (Cons x xs)
  obtain ok st' where r: "Fragment_Append st x False = (ok, st')" by fastforce
  have spec: "ok \<longleftrightarrow> extendable (pending_text st @ x)"
    "ok \<Longrightarrow> fragment_ok st' \<and> (\<exists>v. IsValidUtf8 v \<and> pending_text st @ x = v @ pending_text st')"
    using Fragment_Append_spec [OF Cons.prems(1), of x False] r by (auto simp: fragment_spec_def)
  show ?case
  proof (cases ok)
    case True
    then obtain v where v: "IsValidUtf8 v" "pending_text st @ x = v @ pending_text st'" and ok: "fragment_ok st'"
      using spec(2) by blast
    have "extendable (pending_text st')" using spec(1) True v extendable_append by simp
    then have "Append_fragments st' xs False \<longleftrightarrow> extendable (pending_text st' @ concat xs)"
      using Cons.IH ok by blast
    also have "\<dots> \<longleftrightarrow> extendable (v @ pending_text st' @ concat xs)" using extendable_append [OF v(1), of "pending_text st' @ concat xs"] by simp
    also have "v @ pending_text st' @ concat xs = pending_text st @ concat (x # xs)" using v(2) by (metis append.assoc concat.simps(2))
    finally show ?thesis using r True by simp
  next
    case False
    have "\<not> extendable (pending_text st @ concat (x # xs))"
      using spec(1) False by (metis append.assoc concat.simps(2))
    then show ?thesis using r False by simp
  qed
qed simp

lemma Append_fragments_complete:
  "fragment_ok st \<Longrightarrow> xs \<noteq> [] \<Longrightarrow>
   Append_fragments st xs True \<longleftrightarrow> IsValidUtf8 (pending_text st @ concat xs)"
proof (induction xs arbitrary: st)
  case (Cons x xs)
  obtain ok st' where r: "Fragment_Append st x (xs = []) = (ok, st')" by fastforce
  note spec = Fragment_Append_spec [OF Cons.prems(1), of x "xs = []", unfolded r]
  show ?case
  proof (cases "xs = []")
    case True
    then show ?thesis using spec r by (simp add: fragment_spec_def)
  next
    case more: False
    have spec: "ok \<longleftrightarrow> extendable (pending_text st @ x)"
      "ok \<Longrightarrow> fragment_ok st' \<and> (\<exists>v. IsValidUtf8 v \<and> pending_text st @ x = v @ pending_text st')"
      using spec more by (auto simp: fragment_spec_def)
    show ?thesis
    proof (cases ok)
      case True
      then obtain v where v: "IsValidUtf8 v" "pending_text st @ x = v @ pending_text st'" "fragment_ok st'"
        using spec(2) by blast
      have "IsValidUtf8 (pending_text st @ concat (x # xs)) \<longleftrightarrow> IsValidUtf8 (pending_text st' @ concat xs)"
        using v(1,2) IsValidUtf8_append by (metis append.assoc concat.simps(2))
      then show ?thesis using Cons.IH [OF v(3) more] r True more by simp
    next
      case False
      then have "\<not> IsValidUtf8 (pending_text st @ concat (x # xs))"
        using spec(1) by (metis append.assoc concat.simps(2))
      then show ?thesis using r False more by simp
    qed
  qed
qed simp

lemma fragment_ok_create: "fragment_ok Utf8FragmentState_create" "pending_text Utf8FragmentState_create = []"
  by (simp_all add: fragment_ok_def Utf8FragmentState_create_def)

text \<open>
  C21. However a text message is cut into fragments (also inside a code point, and with empty fragments),
  the incremental validator accepts the fragments of a complete message exactly if the whole message is
  valid UTF-8; and it accepts the fragments of an unfinished message exactly as long as some
  continuation can still make the message valid, so an invalid message is refused as early as possible.
\<close>

theorem Utf8Fragments_equal_whole:
  assumes "fragments \<noteq> []"
  shows "(Append_fragments Utf8FragmentState_create fragments True \<longleftrightarrow> IsValidUtf8 (concat fragments)) \<and>
         (Append_fragments Utf8FragmentState_create fragments False \<longleftrightarrow>
            (\<exists>rest. IsValidUtf8 (concat fragments @ rest)))"
  using Append_fragments_complete [OF fragment_ok_create(1) assms]
    Append_fragments_open [OF fragment_ok_create(1), of fragments] fragment_ok_create(2)
  by (metis IsValidUtf8.simps(1) append_Nil)

theorem Utf8Fragments_equal_whole_witness:
  "(Append_fragments Utf8FragmentState_create [[char_of (226 :: nat)], [char_of (130 :: nat), char_of (172 :: nat)]] True \<longleftrightarrow>
      IsValidUtf8 (concat [[char_of (226 :: nat)], [char_of (130 :: nat), char_of (172 :: nat)]])) \<and>
   (Append_fragments Utf8FragmentState_create [[char_of (226 :: nat)], [char_of (130 :: nat), char_of (172 :: nat)]] False \<longleftrightarrow>
      (\<exists>rest. IsValidUtf8 (concat [[char_of (226 :: nat)], [char_of (130 :: nat), char_of (172 :: nat)]] @ rest)))"
  by (rule Utf8Fragments_equal_whole) simp

end
