(* ===== verification/WebSocketFrame.thy ===== *)
theory WebSocketFrame
  imports Prelude
begin

text \<open>
  WebSocket frames (\<^verbatim>\<open>ParseClientFrame\<close>, \<^verbatim>\<open>EncodeServerFrame\<close> and \<^verbatim>\<open>ValidCloseCode\<close> of
  \<^verbatim>\<open>src/Web/WebProtocol.cpp\<close>). The frame of a client is the frame a server would write for the same
  message, with the mask bit set, a masking key behind the header and the payload masked; the parser
  reads exactly these frames back and asks for more input on every proper prefix of one.
\<close>

section \<open>Parsing and encoding\<close>

datatype FrameParseKind = FP_NeedMore | FP_Complete | FP_Error

record WebSocketFrame =
  wf_final :: bool
  wf_opcode :: byte
  wf_payload :: "byte list"

record FrameParseResult =
  fp_kind :: FrameParseKind
  fp_consumed :: nat
  fp_closeCode :: nat

definition FrameParseResult_default :: FrameParseResult where
  "FrameParseResult_default = \<lparr>fp_kind = FP_NeedMore, fp_consumed = 0, fp_closeCode = 1002\<rparr>"

definition frame_error :: "nat \<Rightarrow> FrameParseResult" where
  "frame_error code = \<lparr>fp_kind = FP_Error, fp_consumed = 0, fp_closeCode = code\<rparr>"

definition ValidCloseCode :: "nat \<Rightarrow> bool" where
  "ValidCloseCode code \<longleftrightarrow>
     (code \<ge> 1000 \<and> code \<le> 1014 \<and> code \<noteq> 1004 \<and> code \<noteq> 1005 \<and> code \<noteq> 1006) \<or> (code \<ge> 3000 \<and> code \<le> 4999)"

text \<open>The bytes of a length in network order, collected in a 64-bit word.\<close>

definition network_order :: "byte list \<Rightarrow> 64 word" where
  "network_order bs = foldl (\<lambda>v b. push_bit 8 v OR ucast b) 0 bs"

text \<open>
  The length field: the result of the frame as a whole if it is not complete or not allowed, or the
  length of the payload with the size of the header.
\<close>

definition frame_length :: "byte list \<Rightarrow> FrameParseResult + nat \<times> nat" where
  "frame_length input =
     (let len = unat (input ! 1) AND 127 in
      if len = 126 then
        (if length input < 4 then Inl FrameParseResult_default
         else let len = unat (network_order (region input 2 4))
              in if len < 126 then Inl (frame_error 1002) else Inr (len, 4))
      else if len = 127 then
        (if length input < 10 then Inl FrameParseResult_default
         else if unat (input ! 2) AND 128 \<noteq> 0 then Inl (frame_error 1002)
         else let len = unat (network_order (region input 2 10))
              in if len < 65536 then Inl (frame_error 1002) else Inr (len, 10))
      else Inr (len, 2))"

definition ParseClientFrame ::
    "byte list \<Rightarrow> nat \<Rightarrow> WebSocketFrame \<Rightarrow> FrameParseResult \<times> WebSocketFrame" where
  "ParseClientFrame input maxPayload frame =
     (if length input < 2 then (FrameParseResult_default, frame)
      else
        let first = unat (input ! 0);
            second = unat (input ! 1);
            opcode = first AND 15;
            control = opcode \<ge> 8
        in if first AND 0x70 \<noteq> 0 \<or> second AND 0x80 = 0 \<or>
              (opcode \<noteq> 0 \<and> opcode \<noteq> 1 \<and> opcode \<noteq> 2 \<and> opcode \<noteq> 8 \<and> opcode \<noteq> 9 \<and> opcode \<noteq> 10)
           then (frame_error 1002, frame)
           else if control \<and> (first AND 0x80 = 0 \<or> second AND 127 > 125) then (frame_error 1002, frame)
           else case frame_length input of
             Inl r \<Rightarrow> (r, frame)
           | Inr (len, header) \<Rightarrow>
               if \<not> control \<and> len > maxPayload then (frame_error 1009, frame)
               else if len > SIZE_MAX - header - 4 then (frame_error 1009, frame)
               else if length input < header + 4 + len then (FrameParseResult_default, frame)
               else (\<lparr>fp_kind = FP_Complete, fp_consumed = header + 4 + len, fp_closeCode = 1000\<rparr>,
                     \<lparr>wf_final = first AND 128 \<noteq> 0, wf_opcode = of_nat opcode,
                      wf_payload = map (\<lambda>index. input ! (header + 4 + index) XOR input ! (header + index mod 4)) [0..<len]\<rparr>))"

definition EncodeServerFrame :: "byte \<Rightarrow> byte list \<Rightarrow> bool \<Rightarrow> byte list" where
  "EncodeServerFrame opcode payload final =
     [(if final then 0x80 else 0) OR opcode] @
     (if length payload < 126 then [of_nat (length payload)]
      else if length payload \<le> 65535 then
        [126, of_nat (drop_bit 8 (length payload) AND 255), of_nat (length payload AND 255)]
      else 127 # map (\<lambda>shift. of_nat (drop_bit shift (length payload) AND 255)) [56, 48, 40, 32, 24, 16, 8, 0]) @
     payload"

section \<open>The frames of a client\<close>

text \<open>
  RFC 6455, section 5.2: a client sends the frame with the mask bit, the masking key behind the length, and
  every payload byte combined with the byte of the key at its position modulo four.
\<close>

definition mask_payload :: "byte list \<Rightarrow> byte list \<Rightarrow> byte list" where
  "mask_payload key payload = map (\<lambda>i. payload ! i XOR key ! (i mod 4)) [0..<length payload]"

definition client_frame :: "byte list \<Rightarrow> WebSocketFrame \<Rightarrow> byte list" where
  "client_frame key f =
     (let server = EncodeServerFrame (wf_opcode f) (wf_payload f) (wf_final f);
          header = length server - length (wf_payload f)
      in server ! 0 # (server ! 1 OR 0x80) # region server 2 header @ key @ mask_payload key (wf_payload f))"

text \<open>The frames a client may send to a server that allows \<open>maxPayload\<close> bytes.\<close>

definition frame_allowed :: "nat \<Rightarrow> WebSocketFrame \<Rightarrow> bool" where
  "frame_allowed maxPayload f \<longleftrightarrow> wf_opcode f \<in> {0, 1, 2, 8, 9, 10} \<and> length (wf_payload f) < 2 ^ 63 \<and>
     (if wf_opcode f \<in> {8, 9, 10} then wf_final f \<and> length (wf_payload f) \<le> 125
      else length (wf_payload f) \<le> maxPayload)"

section \<open>Bytes of lengths\<close>

lemma and_128_nat: "(v :: nat) AND 128 = v div 128 mod 2 * 128" and and_112_nat: "v AND 112 = v div 16 mod 8 * 16"
  using and_push_bit_nat [of v 7 1] and_push_bit_nat [of v 4 7]
  by (simp_all add: push_bit_eq_mult drop_bit_eq_div and_mask_nat and_one_eq)

lemma byte_of_nat_mod: "(of_nat (n mod 256) :: byte) = of_nat n"
  by (simp add: word_unat_eq_iff unat_of_nat)

primrec network_bytes :: "nat \<Rightarrow> nat \<Rightarrow> byte list" where
  "network_bytes 0 n = []"
| "network_bytes (Suc k) n = network_bytes k (n div 256) @ [of_nat n]"

lemma length_network_bytes [simp]: "length (network_bytes k n) = k"
  by (induction k arbitrary: n) simp_all

lemma network_order_snoc: "network_order (bs @ [b]) = push_bit 8 (network_order bs) OR ucast b"
  by (simp add: network_order_def)

lemma unat_network_order:
  "length bs \<le> 8 \<Longrightarrow> unat (network_order bs) = foldl (\<lambda>v b. v * 256 + unat b) 0 bs \<and>
     unat (network_order bs) < 256 ^ length bs"
proof (induction bs rule: rev_induct)
  case (snoc b bs)
  let ?w = "network_order bs"
  have small: "unat ?w < 256 ^ length bs" "length bs \<le> 7" using snoc by auto
  have "256 ^ length bs \<le> (256 :: nat) ^ 7" using small(2) by (intro power_increasing) auto
  then have bound: "unat ?w < 2 ^ 56" using small(1) by simp
  have b: "unat b < 256" using unsigned_less [of b, where 'a = nat] by simp
  have "unat (push_bit 8 ?w) = unat ?w * 256"
    using bound by (simp add: push_bit_eq_mult unat_mult_lem [THEN iffD1] mult.commute)
  moreover have "unat (push_bit 8 ?w OR ucast b) = unat (push_bit 8 ?w) OR unat b"
    using b by (simp add: unsigned_or_eq unsigned_ucast_eq take_bit_nat_eq_self)
  moreover have "push_bit 8 (unat ?w) OR unat b = unat ?w * 256 + unat b"
    using or_disjoint_nat [of "unat b" 8 "unat ?w"] b by simp
  ultimately have "unat (network_order (bs @ [b])) = unat ?w * 256 + unat b"
    by (simp add: network_order_snoc push_bit_eq_mult mult.commute)
  then show ?case using snoc small b by simp
qed (simp add: network_order_def)

lemma network_order_bytes: "n < 256 ^ k \<Longrightarrow> k \<le> 8 \<Longrightarrow> unat (network_order (network_bytes k n)) = n"
proof -
  have "n < 256 ^ k \<Longrightarrow> foldl (\<lambda>v b. v * 256 + unat b) 0 (network_bytes k n) = n"
  proof (induction k arbitrary: n)
    case (Suc k)
    have "n div 256 < 256 ^ k" using Suc.prems by (simp add: less_mult_imp_div_less mult.commute)
    then show ?case using Suc.IH [of "n div 256"] by (simp add: unat_of_nat)
  qed simp
  then show "n < 256 ^ k \<Longrightarrow> k \<le> 8 \<Longrightarrow> unat (network_order (network_bytes k n)) = n"
    using unat_network_order [of "network_bytes k n"] by simp
qed

lemma network_bytes_order: "length bs \<le> 8 \<Longrightarrow> network_bytes (length bs) (unat (network_order bs)) = bs"
proof (induction bs rule: rev_induct)
  case (snoc b bs)
  have v: "unat (network_order (bs @ [b])) = unat (network_order bs) * 256 + unat b"
    using unat_network_order [of "bs @ [b]"] unat_network_order [of bs] snoc.prems by simp
  have b: "unat b < 256" using unsigned_less [of b, where 'a = nat] by simp
  have "(unat (network_order bs) * 256 + unat b) div 256 = unat (network_order bs)" using b by simp
  moreover have "(of_nat (unat (network_order bs) * 256 + unat b) :: byte) = b" using b byte_of_nat_mod [of "unat (network_order bs) * 256 + unat b"] by simp
  ultimately show ?case using snoc v by simp
qed simp

section \<open>The layout of a frame\<close>

definition length_field :: "nat \<Rightarrow> byte list" where
  "length_field n =
     (if n < 126 then [of_nat n] else if n \<le> 65535 then 126 # network_bytes 2 n else 127 # network_bytes 8 n)"

definition first_byte :: "byte \<Rightarrow> bool \<Rightarrow> byte" where
  "first_byte opcode final = (if final then 0x80 else 0) OR opcode"

lemma low_byte: "(of_nat (n AND 255) :: byte) = of_nat n"
  by (simp add: and_mask_nat byte_of_nat_mod)

lemma network_bytes_eval:
  "network_bytes 2 n = [of_nat (drop_bit 8 n AND 255), of_nat (n AND 255)]"
  "network_bytes 8 n = map (\<lambda>shift. of_nat (drop_bit shift n AND 255)) [56, 48, 40, 32, 24, 16, 8, 0]"
proof -
  have two: "2 = Suc (Suc 0)" and eight: "8 = Suc (Suc (Suc (Suc (Suc (Suc (Suc (Suc 0)))))))" by simp_all
  show "network_bytes 2 n = [of_nat (drop_bit 8 n AND 255), of_nat (n AND 255)]"
    unfolding low_byte two network_bytes.simps by (simp add: drop_bit_eq_div)
  show "network_bytes 8 n = map (\<lambda>shift. of_nat (drop_bit shift n AND 255)) [56, 48, 40, 32, 24, 16, 8, 0]"
    unfolding low_byte eight network_bytes.simps by (simp add: drop_bit_eq_div div_mult2_eq [symmetric])
qed

lemma EncodeServerFrame_layout:
  "EncodeServerFrame opcode payload final = first_byte opcode final # length_field (length payload) @ payload"
  by (simp add: EncodeServerFrame_def first_byte_def length_field_def network_bytes_eval)

lemma length_field_nonempty [simp]: "length_field n \<noteq> []"
  by (simp add: length_field_def)

lemma client_frame_layout:
  "client_frame key f = first_byte (wf_opcode f) (wf_final f) # (hd (length_field (length (wf_payload f))) OR 0x80) #
     tl (length_field (length (wf_payload f))) @ key @ mask_payload key (wf_payload f)"
  by (cases "length_field (length (wf_payload f))")
     (simp_all add: client_frame_def EncodeServerFrame_layout region_def)

lemma length_mask_payload [simp]: "length (mask_payload key payload) = length payload"
  by (simp add: mask_payload_def)

lemma unmask: "i < length payload \<Longrightarrow> mask_payload key payload ! i XOR key ! (i mod 4) = payload ! i"
  by (simp add: mask_payload_def xor.assoc)

section \<open>Reading a prefix of a frame\<close>

lemma first_byte_fields:
  assumes "unat opcode < 16"
  shows "unat (first_byte opcode final) = (if final then 128 else 0) + unat opcode"
proof -
  have "128 OR unat opcode = 128 + unat opcode"
    using assms or_disjoint_nat [of "unat opcode" 7 1] by simp
  then show ?thesis by (simp add: first_byte_def unsigned_or_eq)
qed

lemma second_byte_fields:
  assumes "unat b < 128"
  shows "unat (b OR 0x80 :: byte) = 128 + unat b"
  using assms or_disjoint_nat [of "unat b" 7 1] by (simp add: unsigned_or_eq or.commute)

lemma hd_length_field:
  "unat (hd (length_field n)) = (if n < 126 then n else if n \<le> 65535 then 126 else 127)"
  by (simp add: length_field_def unat_of_nat)

lemma frame_length_prefix:
  assumes "n < 2 ^ 63" and "2 \<le> m"
  shows "frame_length (take m (b # (hd (length_field n) OR 0x80) # tl (length_field n) @ r)) =
     (if m < 1 + length (length_field n) then Inl FrameParseResult_default else Inr (n, 1 + length (length_field n)))"
    (is "frame_length (take m ?t) = _")
proof -
  have second: "unat (take m ?t ! 1) AND 127 = unat (hd (length_field n))"
    using assms second_byte_fields [of "hd (length_field n)"] hd_length_field [of n] by (simp add: and_mask_nat)
  consider (short) "n < 126" | (medium) "126 \<le> n" "n \<le> 65535" | (long) "65535 < n" by linarith
  then show ?thesis
  proof cases
    case short
    then show ?thesis unfolding frame_length_def second hd_length_field Let_def using assms(2) by (simp add: length_field_def)
  next
    case medium
    then have t: "?t = b # (126 OR 0x80) # network_bytes 2 n @ r" and lf: "length (length_field n) = 3"
      by (simp_all add: length_field_def)
    have "region (take m ?t) 2 4 = network_bytes 2 n" if "4 \<le> m" using that by (simp add: t region_def drop_take)
    moreover have "unat (network_order (network_bytes 2 n)) = n" using medium by (intro network_order_bytes) auto
    moreover have "length (take m ?t) < 4 \<longleftrightarrow> m < 4" by (auto simp: t)
    ultimately show ?thesis
      unfolding frame_length_def second hd_length_field Let_def using medium lf by simp
  next
    case long
    then have t: "?t = b # (127 OR 0x80) # network_bytes 8 n @ r" and lf: "length (length_field n) = 9"
      by (simp_all add: length_field_def)
    have region: "region (take m ?t) 2 10 = network_bytes 8 n" if "10 \<le> m" using that by (simp add: t region_def drop_take)
    have "n < 256 ^ 8" using assms(1) by simp
    then have order: "unat (network_order (network_bytes 8 n)) = n" by (intro network_order_bytes) auto
    have "take m ?t ! 2 = of_nat (n div 2 ^ 56)" if "10 \<le> m"
      using that by (simp add: t network_bytes_eval drop_bit_eq_div low_byte)
    moreover have "n div 2 ^ 56 < 128" using assms(1) by (simp add: less_mult_imp_div_less)
    ultimately have top: "unat (take m ?t ! 2) AND 128 = 0" if "10 \<le> m"
      using that by (simp add: unat_of_nat and_128_nat)
    have size: "length (take m ?t) < 10 \<longleftrightarrow> m < 10" by (auto simp: t)
    show ?thesis
      unfolding frame_length_def second hd_length_field Let_def using long lf region order top size by simp
  qed
qed

lemma unmask_prefix:
  assumes "length key = 4" and "length header + 4 + length p \<le> m" and t: "t = header @ key @ mask_payload key p @ rest"
  shows "map (\<lambda>i. take m t ! (length header + 4 + i) XOR take m t ! (length header + i mod 4)) [0..<length p] = p"
proof (rule nth_equalityI)
  fix i
  assume "i < length (map (\<lambda>i. take m t ! (length header + 4 + i) XOR take m t ! (length header + i mod 4)) [0..<length p])"
  then have i: "i < length p" by simp
  have "t ! (length header + j) = (key @ mask_payload key p @ rest) ! j" for j
    unfolding t by (metis nth_append_length_plus)
  from this [of "4 + i"] this [of "i mod 4"]
  have "t ! (length header + 4 + i) = mask_payload key p ! i" "t ! (length header + i mod 4) = key ! (i mod 4)"
    using assms(1) i by (simp_all add: nth_append add.assoc)
  moreover have "length header + i mod 4 < m" "length header + 4 + i < m"
    using assms(2) i mod_less_divisor [of 4 i] by linarith+
  ultimately show "map (\<lambda>i. take m t ! (length header + 4 + i) XOR take m t ! (length header + i mod 4)) [0..<length p] ! i = p ! i"
    using i unmask [OF i, of key] by simp
qed simp

lemma ParseClientFrame_prefix:
  assumes "frame_allowed maxPayload f" and "length key = 4" and "m \<le> length (client_frame key f @ rest)"
  shows "ParseClientFrame (take m (client_frame key f @ rest)) maxPayload g =
     (if m < length (client_frame key f) then (FrameParseResult_default, g)
      else (\<lparr>fp_kind = FP_Complete, fp_consumed = length (client_frame key f), fp_closeCode = 1000\<rparr>, f))"
proof (cases "m < 2")
  case True
  then show ?thesis using assms(3) by (simp add: ParseClientFrame_def client_frame_layout)
next
  case False
  let ?p = "wf_payload f" and ?t = "client_frame key f @ rest"
  let ?n = "length ?p" and ?h = "1 + length (length_field (length ?p))"
  let ?op = "unat (wf_opcode f)" and ?lf = "length_field (length ?p)"
  let ?fin = "wf_final f"
  have t: "?t = first_byte (wf_opcode f) ?fin # (hd ?lf OR 0x80) # tl ?lf @ key @ mask_payload key ?p @ rest"
    by (simp add: client_frame_layout)
  have total: "length (client_frame key f) = ?h + 4 + ?n" using assms(2) by (simp add: client_frame_layout)
  have op: "?op \<in> {0, 1, 2, 8, 9, 10}" and n: "?n < 2 ^ 63"
    using assms(1) by (auto simp: frame_allowed_def)
  have control: "wf_opcode f \<in> {8, 9, 10} \<longleftrightarrow> 8 \<le> ?op"
    using assms(1) by (auto simp: frame_allowed_def)
  have first: "unat (take m ?t ! 0) = (if ?fin then 128 else 0) + ?op"
    using False op first_byte_fields [of "wf_opcode f" ?fin] by (auto simp: t)
  have second: "unat (take m ?t ! 1) = 128 + unat (hd ?lf)"
    using False second_byte_fields [of "hd ?lf"] hd_length_field [of ?n] by (simp add: t)
  have bits: "unat (take m ?t ! 0) AND 15 = ?op" "unat (take m ?t ! 0) AND 0x70 = 0"
    "unat (take m ?t ! 0) AND 0x80 = (if ?fin then 128 else 0)" "unat (take m ?t ! 1) AND 0x80 = 128"
    "unat (take m ?t ! 1) AND 127 = unat (hd ?lf)"
    using op hd_length_field [of ?n] unfolding first second
    by (auto simp: and_mask_nat and_128_nat and_112_nat)
  have fl: "frame_length (take m ?t) = (if m < ?h then Inl FrameParseResult_default else Inr (?n, ?h))"
    using frame_length_prefix [OF n, of m] False unfolding t by simp
  have h: "?h \<le> 10" "2 \<le> ?h" by (simp_all add: length_field_def)
  have room: "\<not> ?n > SIZE_MAX - ?h - 4" using n h by (simp add: SIZE_MAX_def)
  let ?hdr = "first_byte (wf_opcode f) ?fin # (hd ?lf OR 0x80) # tl ?lf"
  have split: "?t = ?hdr @ key @ mask_payload key ?p @ rest" by (simp add: t)
  have hdr: "length ?hdr = ?h" by (cases ?lf) auto
  have nomask: "map (\<lambda>i. take m ?t ! (?h + 4 + i) XOR take m ?t ! (?h + i mod 4)) [0..<?n] = ?p"
    if "?h + 4 + ?n \<le> m"
    using that by (rule unmask_prefix [OF assms(2) _ split, unfolded hdr])
  have len: "length (take m ?t) = m" using assms(3) by simp
  have ok: "\<not> (8 \<le> ?op \<and> (\<not> ?fin \<or> unat (hd ?lf) > 125))" "\<not> (\<not> 8 \<le> ?op \<and> ?n > maxPayload)"
    using assms(1) control hd_length_field [of ?n] by (auto simp: frame_allowed_def)
  show ?thesis
    unfolding ParseClientFrame_def Let_def len bits fl total
    using False op ok room nomask by auto
qed

section \<open>Only frames of clients are accepted\<close>

lemma frame_length_field:
  assumes "frame_length input = Inr (len, header)" and "2 \<le> length input" and "unat (input ! 1) AND 0x80 \<noteq> 0"
  shows "take header input = input ! 0 # (hd (length_field len) OR 0x80) # tl (length_field len) \<and>
         header = 1 + length (length_field len) \<and> len < 2 ^ 63"
proof -
  let ?b = "unat (input ! 1)"
  have b: "?b < 256" using unsigned_less [of "input ! 1", where 'a = nat] by simp
  have high: "128 \<le> ?b" using assms(3) by (auto simp: and_128_nat not_less [symmetric])
  have low: "?b AND 127 = ?b - 128" using b high by (simp add: and_mask_nat le_mod_geq)
  have second: "(of_nat (?b AND 127) :: byte) OR 0x80 = input ! 1"
  proof -
    have "unat (of_nat (?b AND 127) :: byte) = ?b - 128" using b low by (simp add: unat_of_nat)
    then show ?thesis
      using second_byte_fields [of "of_nat (?b AND 127)"] b high by (simp add: word_unat_eq_iff)
  qed
  obtain x y r where input: "input = x # y # r" using assms(2) by (cases input; cases "tl input") auto
  consider (short) "?b AND 127 \<noteq> 126" "?b AND 127 \<noteq> 127" "len = ?b AND 127" "header = 2"
    | (medium) "?b AND 127 = 126" "4 \<le> length input" "len = unat (network_order (region input 2 4))" "126 \<le> len" "header = 4"
    | (long) "?b AND 127 = 127" "10 \<le> length input" "len = unat (network_order (region input 2 10))" "65536 \<le> len" "header = 10"
        "unat (input ! 2) AND 128 = 0"
    using assms(1) unfolding frame_length_def Let_def by (auto split: if_splits)
  then show ?thesis
  proof cases
    case short
    then have "len < 126" using b low by auto
    then show ?thesis using short second input by (simp add: length_field_def)
  next
    case medium
    have r: "length (region input 2 4) = 2" using medium(2) by simp
    have "len < 65536" using unat_network_order [of "region input 2 4"] r medium(3) by simp
    moreover have "network_bytes 2 len = region input 2 4"
      using network_bytes_order [of "region input 2 4"] r medium(3) by simp
    ultimately show ?thesis
      using medium second input by (simp add: length_field_def region_def)
  next
    case long
    have r: "length (region input 2 10) = 8" using long(2) by simp
    have "network_bytes 8 len = region input 2 10"
      using network_bytes_order [of "region input 2 10"] r long(3) by simp
    then have lf: "network_bytes 8 len = take 8 r" using input by (simp add: region_def)
    have "len < 2 ^ 64" using unat64_less [of "network_order (region input 2 10)"] long(3) by simp
    then have top: "len div 2 ^ 56 < 256" by (simp add: less_mult_imp_div_less)
    have "input ! 2 = of_nat (len div 2 ^ 56)"
      using arg_cong [OF lf, of "\<lambda>xs. xs ! 0"] input by (simp add: network_bytes_eval low_byte drop_bit_eq_div)
    then have "len div 2 ^ 56 < 128"
      using long(6) top by (auto simp: unat_of_nat and_128_nat not_less [symmetric])
    then have "len < 2 ^ 63" by (simp add: div_less_iff_less_mult)
    then show ?thesis using long second input lf by (simp add: length_field_def)
  qed
qed

lemma first_byte_exact:
  assumes "unat b AND 0x70 = 0"
  shows "first_byte (of_nat (unat b AND 15)) (unat b AND 128 \<noteq> 0) = b"
proof -
  let ?v = "unat b"
  have v: "?v < 256" using unsigned_less [of b, where 'a = nat] by simp
  have "?v div 16 mod 8 = 0" using assms by (simp add: and_112_nat)
  moreover have "?v div 128 = ?v div 16 div 8" by (simp add: div_mult2_eq [symmetric])
  ultimately have "?v div 16 = 8 * (?v div 128)" by (metis add.right_neutral mult_div_mod_eq)
  then have sum: "?v = 128 * (?v div 128) + ?v mod 16" using mult_div_mod_eq [of 16 ?v] by linarith
  have "?v div 128 < 2" using v by (simp add: less_mult_imp_div_less)
  then have "?v div 128 = 0 \<or> ?v div 128 = 1" by linarith
  moreover have small: "unat (of_nat (?v mod 16) :: byte) = ?v mod 16"
    using mod_less_divisor [of 16 ?v] by (simp add: unat_of_nat)
  ultimately have "unat (first_byte (of_nat (?v AND 15)) (?v AND 128 \<noteq> 0)) = ?v"
    using sum first_byte_fields [of "of_nat (?v mod 16)" "?v AND 128 \<noteq> 0"] small mod_less_divisor [of 16 ?v]
    by (auto simp: and_mask_nat and_128_nat)
  then show ?thesis by (simp add: word_unat_eq_iff)
qed

lemma mask_unmask:
  assumes "header + 4 + len \<le> length input"
  shows "mask_payload (take 4 (drop header input))
           (map (\<lambda>i. input ! (header + 4 + i) XOR input ! (header + i mod 4)) [0..<len]) = take len (drop (header + 4) input)"
proof (rule nth_equalityI)
  fix i
  assume "i < length (mask_payload (take 4 (drop header input))
      (map (\<lambda>i. input ! (header + 4 + i) XOR input ! (header + i mod 4)) [0..<len]))"
  then have i: "i < len" by simp
  have "take 4 (drop header input) ! (i mod 4) = input ! (header + i mod 4)" using assms by simp
  then show "mask_payload (take 4 (drop header input))
      (map (\<lambda>i. input ! (header + 4 + i) XOR input ! (header + i mod 4)) [0..<len]) ! i = take len (drop (header + 4) input) ! i"
    using i assms by (simp add: mask_payload_def xor.assoc)
qed (use assms in simp)

lemma ParseClientFrame_sound:
  assumes "ParseClientFrame input maxPayload g = (r, f)" and "fp_kind r = FP_Complete"
  shows "\<exists>key. length key = 4 \<and> frame_allowed maxPayload f \<and> fp_consumed r = length (client_frame key f) \<and>
           input = client_frame key f @ drop (fp_consumed r) input"
proof -
  let ?first = "unat (input ! 0)" and ?second = "unat (input ! 1)"
  have size: "2 \<le> length input" using assms by (auto simp: ParseClientFrame_def FrameParseResult_default_def split: if_splits)
  have flags: "?first AND 0x70 = 0" "?second AND 0x80 \<noteq> 0" "?first AND 15 \<in> {0, 1, 2, 8, 9, 10}"
    "8 \<le> ?first AND 15 \<Longrightarrow> ?first AND 0x80 \<noteq> 0 \<and> ?second AND 127 \<le> 125"
    using assms size by (auto simp: ParseClientFrame_def frame_error_def Let_def split: if_splits)
  obtain len header where fl: "frame_length input = Inr (len, header)"
    using assms size flags
    by (auto simp: ParseClientFrame_def frame_length_def frame_error_def FrameParseResult_default_def Let_def split: if_splits)
  have rest: "\<not> 8 \<le> ?first AND 15 \<Longrightarrow> len \<le> maxPayload" "header + 4 + len \<le> length input"
    "fp_consumed r = header + 4 + len"
    "f = \<lparr>wf_final = ?first AND 128 \<noteq> 0, wf_opcode = of_nat (?first AND 15),
          wf_payload = map (\<lambda>i. input ! (header + 4 + i) XOR input ! (header + i mod 4)) [0..<len]\<rparr>"
    using assms size flags fl
    by (auto simp: ParseClientFrame_def frame_error_def FrameParseResult_default_def Let_def split: if_splits)
  note field = frame_length_field [OF fl size flags(2)]
  let ?key = "take 4 (drop header input)"
  have short: "len \<le> 125" if "8 \<le> ?first AND 15"
    using fl flags(4) [OF that] by (auto simp: frame_length_def Let_def split: if_splits)
  have opcode: "wf_opcode f \<in> {8, 9, 10} \<longleftrightarrow> 8 \<le> ?first AND 15" "wf_opcode f \<in> {0, 1, 2, 8, 9, 10}"
    using flags(3) rest(4) by auto
  have allowed: "frame_allowed maxPayload f"
    using opcode rest flags(4) short field by (auto simp: frame_allowed_def)
  have key: "length ?key = 4" using rest(2) by simp
  have payload: "length (wf_payload f) = len" using rest(4) by simp
  have "client_frame ?key f = take header input @ ?key @ take len (drop (header + 4) input)"
    using field [THEN conjunct1] rest(4) mask_unmask [OF rest(2)] first_byte_exact [OF flags(1)]
    by (simp add: client_frame_layout payload)
  moreover have "take header input @ ?key @ take len (drop (header + 4) input) = take (header + 4 + len) input"
    by (simp only: take_add append.assoc)
  ultimately have "client_frame ?key f = take (fp_consumed r) input" using rest(3) by simp
  then show ?thesis using allowed key rest(2,3) by (intro exI [of _ ?key]) simp
qed

section \<open>Correctness of WebSocket frames\<close>

text \<open>
  C22. Round trip of client frames: for every allowed message frame, masked with any key and followed by
  any further input, the parser returns the frame with its final flag, opcode and unmasked payload and
  consumes exactly the bytes of the frame; on every proper prefix it asks for more input and leaves the
  output frame untouched. The three forms of the length field are covered.
\<close>

theorem ClientFrame_round_trip:
  assumes "frame_allowed maxPayload f" and "length key = 4"
  shows "ParseClientFrame (client_frame key f @ rest) maxPayload g =
           (\<lparr>fp_kind = FP_Complete, fp_consumed = length (client_frame key f), fp_closeCode = 1000\<rparr>, f) \<and>
         (\<forall>m < length (client_frame key f).
            ParseClientFrame (take m (client_frame key f)) maxPayload g = (FrameParseResult_default, g))"
proof -
  have "ParseClientFrame (take m (client_frame key f)) maxPayload g = (FrameParseResult_default, g)"
    if "m < length (client_frame key f)" for m
    using ParseClientFrame_prefix [OF assms, of m "[]" g] that by simp
  then show ?thesis
    using ParseClientFrame_prefix [OF assms, of "length (client_frame key f @ rest)" rest g] by simp
qed

theorem ClientFrame_round_trip_witness:
  "ParseClientFrame (client_frame [1, 2, 3, 4] \<lparr>wf_final = True, wf_opcode = 1, wf_payload = [72, 105]\<rparr> @ [9]) 10
       \<lparr>wf_final = True, wf_opcode = 0, wf_payload = []\<rparr> =
     (\<lparr>fp_kind = FP_Complete, fp_consumed = 8, fp_closeCode = 1000\<rparr>,
      \<lparr>wf_final = True, wf_opcode = 1, wf_payload = [72, 105]\<rparr>)"
  using ClientFrame_round_trip [of 10 "\<lparr>wf_final = True, wf_opcode = 1, wf_payload = [72, 105]\<rparr>" "[1, 2, 3, 4]" "[9]"
      "\<lparr>wf_final = True, wf_opcode = 0, wf_payload = []\<rparr>"]
  by (simp add: frame_allowed_def client_frame_layout length_field_def)

text \<open>
  C23. Nothing but a client frame is accepted: whenever the parser reports a complete frame, the consumed
  bytes are the encoding of the returned frame under some masking key, in the shortest form of the length
  field, and the frame is allowed: its opcode is defined, a control frame is final and short, and a data
  frame respects the payload limit.
\<close>

theorem ClientFrame_only_canonical:
  assumes "ParseClientFrame input maxPayload g = (r, f)" and "fp_kind r = FP_Complete"
  shows "frame_allowed maxPayload f \<and>
         (\<exists>key. length key = 4 \<and> take (fp_consumed r) input = client_frame key f)"
  using ParseClientFrame_sound [OF assms] by (metis append_eq_conv_conj)

theorem ClientFrame_only_canonical_witness:
  "frame_allowed 10 \<lparr>wf_final = True, wf_opcode = 1, wf_payload = [72]\<rparr> \<and>
   (\<exists>key. length key = 4 \<and> [129, 129, 0, 0, 0, 0, 72] = client_frame key \<lparr>wf_final = True, wf_opcode = 1, wf_payload = [72]\<rparr>)"
proof -
  have "ParseClientFrame [129, 129, 0, 0, 0, 0, 72] 10 \<lparr>wf_final = True, wf_opcode = 0, wf_payload = []\<rparr> =
      (\<lparr>fp_kind = FP_Complete, fp_consumed = 7, fp_closeCode = 1000\<rparr>, \<lparr>wf_final = True, wf_opcode = 1, wf_payload = [72]\<rparr>)"
    by (simp add: ParseClientFrame_def frame_length_def Let_def SIZE_MAX_def)
  from ClientFrame_only_canonical [OF this] show ?thesis by simp
qed

end
