(* ===== verification/HttpText.thy ===== *)
theory HttpText
  imports TextScan Decimals
begin

text \<open>
  The lexical rules of HTTP headers (\<^verbatim>\<open>src/Web/WebProtocol.cpp\<close>): tokens, field values, lists of tokens,
  chunk extensions and the case-insensitive comparison of names.
\<close>

section \<open>Characters and trimming\<close>

definition Lower :: "char \<Rightarrow> char" where
  "Lower c = (if 65 \<le> uchar c \<and> uchar c \<le> 90 then char_of (uchar c + 32) else c)"

abbreviation blank :: "char \<Rightarrow> bool" where
  "blank c \<equiv> c = CHR 0x20 \<or> c = CHR 0x09"

definition Trim :: "string \<Rightarrow> string" where
  "Trim s = rev (dropWhile blank (rev (dropWhile blank s)))"

definition EqualInsensitive :: "string \<Rightarrow> string \<Rightarrow> bool" where
  "EqualInsensitive left right \<longleftrightarrow> length left = length right \<and> list_all2 (\<lambda>a b. Lower a = Lower b) left right"

definition token_char :: "char \<Rightarrow> bool" where
  "token_char c \<longleftrightarrow>
     (97 \<le> uchar c \<and> uchar c \<le> 122) \<or> (65 \<le> uchar c \<and> uchar c \<le> 90) \<or> (48 \<le> uchar c \<and> uchar c \<le> 57) \<or>
     c \<in> set ([CHR ''!'', CHR ''#'', CHR ''$'', CHR ''%'', CHR ''&'', CHR 0x27, CHR ''*'', CHR ''+'', CHR ''-'',
              CHR ''.'', CHR ''^'', CHR ''_'', CHR 0x60, CHR ''|'', CHR ''~''])"

definition IsToken :: "string \<Rightarrow> bool" where
  "IsToken s \<longleftrightarrow> s \<noteq> [] \<and> list_all token_char s"

definition ValidHeaderValue :: "string \<Rightarrow> bool" where
  "ValidHeaderValue s \<longleftrightarrow> list_all (\<lambda>c. \<not> ((uchar c < 32 \<and> uchar c \<noteq> 9) \<or> uchar c = 127)) s"

section \<open>Lists and header lines\<close>

definition TokenList :: "string \<Rightarrow> bool \<Rightarrow> bool" where
  "TokenList s allowEmpty \<longleftrightarrow>
     list_all (\<lambda>part. IsToken (Trim part) \<or> (allowEmpty \<and> Trim part = [])) (comma_parts s)"

definition UpgradeProtocols :: "string \<Rightarrow> bool" where
  "UpgradeProtocols s \<longleftrightarrow>
     list_all (\<lambda>part. case cut_at (CHR ''/'') (Trim part) of
         (name, None) \<Rightarrow> IsToken name
       | (name, Some version) \<Rightarrow> IsToken name \<and> IsToken version) (comma_parts s)"

definition ValidUpgradeProtocols :: "string \<Rightarrow> bool" where
  "ValidUpgradeProtocols s = UpgradeProtocols s"

definition ParseHeader :: "string \<Rightarrow> (string \<times> string) option" where
  "ParseHeader line =
     (case cut_at (CHR '':'') line of
        (_, None) \<Rightarrow> None
      | (name, Some rest) \<Rightarrow>
          if \<not> IsToken name then None
          else if \<not> ValidHeaderValue (Trim rest) then None
          else Some (map Lower name, Trim rest))"

text \<open>A quoted string behind its opening quote: the text behind the closing one.\<close>

fun quoted_rest :: "string \<Rightarrow> string option" where
  "quoted_rest [] = None"
| "quoted_rest (c # s) =
     (if uchar c = 34 then Some s
      else if uchar c = 92 then
        (case s of
           [] \<Rightarrow> None
         | e # s' \<Rightarrow> if (uchar e < 32 \<and> uchar e \<noteq> 9) \<or> uchar e = 127 then None else quoted_rest s')
      else if (uchar c < 32 \<and> uchar c \<noteq> 9) \<or> uchar c = 127 then None
      else quoted_rest s)"

lemma quoted_rest_length: "quoted_rest s = Some r \<Longrightarrow> length r < length s"
proof (induction s arbitrary: r rule: length_induct)
  case (1 s)
  then show ?case by (cases s) (auto split: if_splits list.splits intro: less_SucI)
qed

lemma length_Trim: "length (Trim s) \<le> length s"
  using length_dropWhile_le [of blank s] length_dropWhile_le [of blank "rev (dropWhile blank s)"]
  unfolding Trim_def length_rev by linarith

lemma Trim_Cons_length: "Trim s = c # r \<Longrightarrow> length r < length s"
  using length_Trim [of s] by simp

lemma Trim_dropWhile_length: "length (Trim (dropWhile P s)) \<le> length s"
  using length_Trim [of "dropWhile P s"] length_dropWhile_le [of P s] by linarith

function ValidChunkExtensions :: "string \<Rightarrow> bool" where
  "ValidChunkExtensions s =
     (case Trim s of
        [] \<Rightarrow> True
      | c # s0 \<Rightarrow>
          if c \<noteq> CHR 0x3B then False
          else
            let s1 = Trim s0;
                s2 = Trim (dropWhile token_char s1)
            in if takeWhile token_char s1 = [] then False
               else case s2 of
                 [] \<Rightarrow> ValidChunkExtensions s2
               | d # s3 \<Rightarrow>
                   if d = CHR 0x3B then ValidChunkExtensions s2
                   else if d \<noteq> CHR ''='' then False
                   else case Trim s3 of
                     [] \<Rightarrow> False
                   | q # s4 \<Rightarrow>
                       if uchar q = 34 then
                         (case quoted_rest s4 of None \<Rightarrow> False | Some r \<Rightarrow> ValidChunkExtensions r)
                       else if takeWhile token_char (q # s4) = [] then False
                       else ValidChunkExtensions (dropWhile token_char (q # s4)))"
  by pat_completeness auto
termination
proof (relation "measure length", goal_cases)
  case 1
  then show ?case by simp
next
  case (2 s c s0 s1 s2)
  then show ?case
    using Trim_Cons_length [of s c s0] length_Trim [of s0] Trim_dropWhile_length [of token_char s1] by auto
next
  case (3 s c s0 s1 s2 d s3)
  then show ?case
    using Trim_Cons_length [of s c s0] length_Trim [of s0] Trim_dropWhile_length [of token_char s1] by auto
next
  case (4 s c s0 s1 s2 d s3 q s4 r)
  have "length s2 \<le> length s0"
    using length_Trim [of s0] Trim_dropWhile_length [of token_char s1] 4(3,4) by auto
  moreover have "length r < length s4" using quoted_rest_length 4 by simp
  moreover have "length s3 < length s2" using 4(6) by (metis length_Cons lessI)
  moreover have "length s0 < length s" "length s4 < length s3"
    using Trim_Cons_length [of s c s0] Trim_Cons_length [of s3 q s4] 4 by auto
  ultimately show ?case by simp
next
  case (5 s c s0 s1 s2 d s3 q s4)
  have "length s2 \<le> length s0"
    using length_Trim [of s0] Trim_dropWhile_length [of token_char s1] 5(3,4) by auto
  moreover have "length (dropWhile token_char (q # s4)) \<le> Suc (length s4)"
    using length_dropWhile_le [of token_char "q # s4"] by simp
  moreover have "length s3 < length s2" using 5(6) by (metis length_Cons lessI)
  moreover have "length s0 < length s" "length s4 < length s3"
    using Trim_Cons_length [of s c s0] Trim_Cons_length [of s3 q s4] 5 by auto
  ultimately show ?case by simp
qed

declare ValidChunkExtensions.simps [simp del]

definition ForbiddenTrailer :: "string \<Rightarrow> bool" where
  "ForbiddenTrailer name \<longleftrightarrow>
     name \<in> set [''content-length'', ''transfer-encoding'', ''host'', ''connection'', ''upgrade'', ''trailer'', ''te'',
                ''authorization'', ''proxy-authorization'', ''cookie'', ''content-type'', ''content-encoding'', ''expect''] \<or>
     take (length ''sec-websocket-'') name = ''sec-websocket-''"

section \<open>Requests\<close>

type_synonym HttpHeaders = "(string \<times> string) list"

text \<open>The part of \<^verbatim>\<open>HttpRequest\<close> that the parser fills; routing and the connection add the rest.\<close>

record HttpRequest =
  rq_method :: string
  rq_target :: string
  rq_headers :: HttpHeaders
  rq_body :: string

definition HttpRequest_empty :: HttpRequest where
  "HttpRequest_empty = \<lparr>rq_method = [], rq_target = [], rq_headers = [], rq_body = []\<rparr>"

definition Path :: "HttpRequest \<Rightarrow> string" where
  "Path r = fst (cut_at (CHR 0x3F) (rq_target r))"

definition Header :: "HttpRequest \<Rightarrow> string \<Rightarrow> string" where
  "Header r name = (case find (\<lambda>(n, v). EqualInsensitive n name) (rq_headers r) of None \<Rightarrow> [] | Some (n, v) \<Rightarrow> v)"

definition HasToken :: "HttpRequest \<Rightarrow> string \<Rightarrow> string \<Rightarrow> bool" where
  "HasToken r header token \<longleftrightarrow>
     list_ex (\<lambda>(name, field). EqualInsensitive name header \<and>
                list_ex (\<lambda>part. EqualInsensitive (Trim part) token) (comma_parts field)) (rq_headers r)"

end
