(* ===== verification/ResponseEncoding.thy ===== *)
theory ResponseEncoding
  imports HttpText
begin

text \<open>
  Writing HTTP/1 responses (\<^verbatim>\<open>src/Web/ResponseEncoding.cpp\<close>, and \<^verbatim>\<open>ReasonPhrase\<close>, \<^verbatim>\<open>HttpDate\<close> and
  \<^verbatim>\<open>SerializeResponse\<close> of \<^verbatim>\<open>src/Web/WebProtocol.cpp\<close>): the head with its framing fields, and one chunk of a
  chunked body. Read back with the rules for request headers, a head has exactly the fields it was given
  and one framing, whatever text the application supplied.
\<close>

section \<open>Status lines and dates\<close>

definition ReasonPhrase :: "nat \<Rightarrow> string" where
  "ReasonPhrase status =
     (case map_of
        [(200, ''OK''), (201, ''Created''), (202, ''Accepted''), (204, ''No Content''), (205, ''Reset Content''),
         (206, ''Partial Content''), (301, ''Moved Permanently''), (302, ''Found''), (304, ''Not Modified''),
         (400, ''Bad Request''), (401, ''Unauthorized''), (403, ''Forbidden''), (404, ''Not Found''),
         (405, ''Method Not Allowed''), (408, ''Request Timeout''), (412, ''Precondition Failed''),
         (413, ''Content Too Large''), (416, ''Range Not Satisfiable''), (417, ''Expectation Failed''),
         (426, ''Upgrade Required''), (431, ''Request Header Fields Too Large''), (500, ''Internal Server Error''),
         (501, ''Not Implemented''), (503, ''Service Unavailable''), (505, ''HTTP Version Not Supported'')] status of
        Some phrase \<Rightarrow> phrase
      | None \<Rightarrow> ''Response'')"

text \<open>
  The calendar of \<^verbatim>\<open>std::chrono\<close>: the proleptic Gregorian date of a day counted from 1970-01-01, with the
  year running from March inside the computation.
\<close>

definition year_month_day :: "int \<Rightarrow> int \<times> nat \<times> nat" where
  "year_month_day days =
     (let z = days + 719468;
          era = z div 146097;
          doe = z mod 146097;
          yoe = (doe - doe div 1460 + doe div 36524 - doe div 146096) div 365;
          doy = doe - (365 * yoe + yoe div 4 - yoe div 100);
          mp = (5 * doy + 2) div 153;
          d = doy - (153 * mp + 2) div 5 + 1;
          m = (if mp < 10 then mp + 3 else mp - 9)
      in (yoe + era * 400 + (if m \<le> 2 then 1 else 0), nat m, nat d))"

definition weekday :: "int \<Rightarrow> nat" where
  "weekday days = nat ((days + 4) mod 7)"

text \<open>\<^verbatim>\<open>%0nd\<close>: at least \<open>w\<close> characters, padded with zeros behind the sign.\<close>

definition zero_padded :: "nat \<Rightarrow> nat \<Rightarrow> string" where
  "zero_padded w n = replicate (w - length (to_chars_nat n)) (CHR ''0'') @ to_chars_nat n"

definition zero_padded_int :: "nat \<Rightarrow> int \<Rightarrow> string" where
  "zero_padded_int w n = (if n < 0 then CHR ''-'' # zero_padded (w - 1) (nat (- n)) else zero_padded w (nat n))"

definition HttpDate :: "int \<Rightarrow> string" where
  "HttpDate seconds =
     (let dayPoint = seconds div 86400;
          timeOfDay = nat (seconds mod 86400)
      in case year_month_day dayPoint of (year, month, day) \<Rightarrow>
           let formatted =
             [''Sun'', ''Mon'', ''Tue'', ''Wed'', ''Thu'', ''Fri'', ''Sat''] ! weekday dayPoint @ '', '' @
             zero_padded 2 day @ '' '' @
             [''Jan'', ''Feb'', ''Mar'', ''Apr'', ''May'', ''Jun'', ''Jul'', ''Aug'', ''Sep'', ''Oct'', ''Nov'', ''Dec''] ! (month - 1) @ '' '' @
             zero_padded_int 4 year @ '' '' @
             zero_padded 2 (timeOfDay div 3600) @ '':'' @ zero_padded 2 (timeOfDay div 60 mod 60) @ '':'' @
             zero_padded 2 (timeOfDay mod 60) @ '' GMT''
           in if length formatted = 29 then formatted else [])"

section \<open>The response head\<close>

datatype ResponseBodyMode = BM_None | BM_FixedLength | BM_Chunked | BM_CloseDelimited

record PreparedResponseHead =
  pr_wire :: string
  pr_mode :: ResponseBodyMode
  pr_length :: nat

record HttpResponseHead =
  rh_status :: nat
  rh_headers :: HttpHeaders
  rh_contentLength :: "nat option"
  rh_close :: bool

record HttpResponse =
  rs_status :: nat
  rs_headers :: HttpHeaders
  rs_body :: string
  rs_close :: bool

text \<open>Appending under a limit, and a chain of such calls that stops at the first failure.\<close>

definition Append_limited :: "string \<Rightarrow> string \<Rightarrow> nat \<Rightarrow> string option" where
  "Append_limited output part limit =
     (if length output > limit \<or> length part > limit - length output then None else Some (output @ part))"

fun Append_each :: "string \<Rightarrow> string list \<Rightarrow> nat \<Rightarrow> string option" where
  "Append_each output [] limit = Some output"
| "Append_each output (part # parts) limit =
     (case Append_limited output part limit of None \<Rightarrow> None | Some output1 \<Rightarrow> Append_each output1 parts limit)"

text \<open>The loop over the application's headers, with \<open>haveDate\<close> and \<open>haveUpgrade\<close>.\<close>

fun response_headers :: "nat \<Rightarrow> string \<Rightarrow> bool \<Rightarrow> bool \<Rightarrow> HttpHeaders \<Rightarrow> (string \<times> bool \<times> bool) result" where
  "response_headers maxHeaders wire haveDate haveUpgrade [] = Inr (wire, haveDate, haveUpgrade)"
| "response_headers maxHeaders wire haveDate haveUpgrade ((name, field) # headers) =
     (if \<not> IsToken name \<or> \<not> ValidHeaderValue field \<or> EqualInsensitive name ''content-length'' \<or>
         EqualInsensitive name ''transfer-encoding'' \<or> EqualInsensitive name ''connection'' \<or> EqualInsensitive name ''trailer''
      then Inl InvalidArgument
      else if EqualInsensitive name ''upgrade'' \<and> \<not> ValidUpgradeProtocols field then Inl InvalidArgument
      else if EqualInsensitive name ''date'' \<and> haveDate then Inl InvalidArgument
      else case Append_each wire [name, '': '', field, CRLF] maxHeaders of
        None \<Rightarrow> Inl TooLarge
      | Some wire1 \<Rightarrow>
          response_headers maxHeaders wire1 (haveDate \<or> EqualInsensitive name ''date'')
            (haveUpgrade \<or> EqualInsensitive name ''upgrade'') headers)"

definition body_mode :: "nat \<Rightarrow> nat option \<Rightarrow> bool \<Rightarrow> bool \<Rightarrow> ResponseBodyMode" where
  "body_mode status len head chunkedAllowed =
     (if head \<or> status = 204 \<or> status = 205 \<or> status = 304 then BM_None
      else if len \<noteq> None then BM_FixedLength
      else if chunkedAllowed then BM_Chunked
      else BM_CloseDelimited)"

text \<open>
  The end of the head: the date unless the application gave one, the framing field and the connection
  field.
\<close>

definition append_date :: "int \<Rightarrow> nat \<Rightarrow> string \<Rightarrow> bool \<Rightarrow> string option" where
  "append_date now maxHeaders wire haveDate =
     (if haveDate then Some wire else Append_each wire [''Date: '', HttpDate now, CRLF] maxHeaders)"

definition append_framing :: "nat \<Rightarrow> nat option \<Rightarrow> ResponseBodyMode \<Rightarrow> nat \<Rightarrow> nat \<Rightarrow> string \<Rightarrow> string option" where
  "append_framing status len mode len1 maxHeaders wire =
     (if status = 205 \<or> (status \<noteq> 204 \<and> status \<noteq> 304 \<and> len \<noteq> None)
      then Append_each wire [''Content-Length: '', to_chars_nat len1, CRLF] maxHeaders
      else if mode = BM_Chunked then Append_each wire [''Transfer-Encoding: chunked'' @ CRLF] maxHeaders
      else Some wire)"

definition append_connection :: "bool \<Rightarrow> bool \<Rightarrow> nat \<Rightarrow> string \<Rightarrow> string option" where
  "append_connection close haveUpgrade maxHeaders wire =
     Append_each wire
       ([if close then ''Connection: close'' else ''Connection: keep-alive''] @
        (if haveUpgrade then ['', Upgrade''] else []) @ [CRLF @ CRLF]) maxHeaders"

definition head_end ::
    "int \<Rightarrow> nat \<Rightarrow> nat option \<Rightarrow> bool \<Rightarrow> bool \<Rightarrow> nat \<Rightarrow> bool \<Rightarrow> string \<Rightarrow> bool \<Rightarrow> bool \<Rightarrow> PreparedResponseHead result" where
  "head_end now status len head close maxHeaders chunkedAllowed wire haveDate haveUpgrade =
     (if status = 426 \<and> \<not> haveUpgrade then Inl InvalidArgument
      else case append_date now maxHeaders wire haveDate of
        None \<Rightarrow> Inl TooLarge
      | Some wire1 \<Rightarrow>
          let mode = body_mode status len head chunkedAllowed;
              close1 = (close \<or> mode = BM_CloseDelimited);
              len1 = (if status = 204 \<or> status = 205 \<or> status = 304 then 0 else case len of None \<Rightarrow> 0 | Some n \<Rightarrow> n)
          in case append_framing status len mode len1 maxHeaders wire1 of
               None \<Rightarrow> Inl TooLarge
             | Some wire2 \<Rightarrow>
                 (case append_connection close1 haveUpgrade maxHeaders wire2 of
                    None \<Rightarrow> Inl TooLarge
                  | Some wire3 \<Rightarrow> Inr \<lparr>pr_wire = wire3, pr_mode = mode, pr_length = len1\<rparr>))"

text \<open>\<open>alloc\<close> tells whether every allocation succeeds; \<open>now\<close> is the clock, in seconds since 1970.\<close>

definition PrepareResponseHead ::
    "bool \<Rightarrow> int \<Rightarrow> nat \<Rightarrow> HttpHeaders \<Rightarrow> nat option \<Rightarrow> bool \<Rightarrow> bool \<Rightarrow> nat \<Rightarrow> bool \<Rightarrow> PreparedResponseHead result" where
  "PrepareResponseHead alloc now status headers len head close maxHeaders chunkedAllowed =
     (if status < 200 \<or> status > 599 then Inl InvalidArgument
      else if \<not> alloc then Inl PlatformError
      else case Append_each [] [''HTTP/1.1 '', to_chars_nat status, '' '', ReasonPhrase status, CRLF] maxHeaders of
        None \<Rightarrow> Inl TooLarge
      | Some wire \<Rightarrow>
          (case response_headers maxHeaders wire False False headers of
             Inl e \<Rightarrow> Inl e
           | Inr (wire1, haveDate, haveUpgrade) \<Rightarrow>
               head_end now status len head close maxHeaders chunkedAllowed wire1 haveDate haveUpgrade))"

definition PrepareHead :: "bool \<Rightarrow> int \<Rightarrow> HttpResponseHead \<Rightarrow> bool \<Rightarrow> nat \<Rightarrow> bool \<Rightarrow> PreparedResponseHead result" where
  "PrepareHead alloc now response head maxHeaders chunkedAllowed =
     PrepareResponseHead alloc now (rh_status response) (rh_headers response) (rh_contentLength response) head
       (rh_close response) maxHeaders chunkedAllowed"

definition SerializeResponse :: "bool \<Rightarrow> int \<Rightarrow> HttpResponse \<Rightarrow> bool \<Rightarrow> bool \<Rightarrow> nat \<Rightarrow> nat \<Rightarrow> string option" where
  "SerializeResponse alloc now response head close maxHeaders maxBody =
     (if length (rs_body response) > maxBody then None
      else case PrepareResponseHead alloc now (rs_status response) (rs_headers response) (Some (length (rs_body response)))
                  head close maxHeaders True of
        Inl _ \<Rightarrow> None
      | Inr prepared \<Rightarrow> Some (pr_wire prepared @ (if pr_mode prepared \<noteq> BM_None then rs_body response else [])))"

section \<open>Chunks\<close>

definition size_digit :: "nat \<Rightarrow> char" where
  "size_digit d = char_of (if d < 10 then 48 + d else 87 + d)"

text \<open>\<^verbatim>\<open>std::to_chars\<close> with base 16.\<close>

fun to_hex :: "nat \<Rightarrow> string" where
  "to_hex n = (if n < 16 then [size_digit n] else to_hex (n div 16) @ [size_digit (n mod 16)])"

declare to_hex.simps [simp del]

definition EncodeChunk :: "bool \<Rightarrow> string \<Rightarrow> nat \<Rightarrow> string result" where
  "EncodeChunk alloc bytes maxChunkBytes =
     (if bytes = [] then Inl InvalidArgument
      else if length bytes > maxChunkBytes then Inl TooLarge
      else
        let digits = to_hex (length bytes)
        in if length digits > 16 \<or> length bytes > SIZE_MAX - length digits - 4 then Inl TooLarge
           else if \<not> alloc then Inl PlatformError
           else Inr (digits @ CRLF @ bytes @ CRLF))"

definition FinalChunk :: string where
  "FinalChunk = ''0'' @ CRLF @ CRLF"

section \<open>Reading a head back\<close>

text \<open>The fields up to the empty line, read with the rules for request headers, and the text behind it.\<close>

function read_header_fields :: "string \<Rightarrow> (HttpHeaders \<times> string) option" where
  "read_header_fields s =
     (case cut_crlf s of
        None \<Rightarrow> None
      | Some (line, rest) \<Rightarrow>
          if line = [] then Some ([], rest)
          else case ParseHeader line of
            None \<Rightarrow> None
          | Some f \<Rightarrow> (case read_header_fields rest of None \<Rightarrow> None | Some (fs, body) \<Rightarrow> Some (f # fs, body)))"
  by pat_completeness auto
termination
  by (relation "measure length") (auto dest: cut_crlf_length [OF sym] cut_crlf_length)

declare read_header_fields.simps [simp del]

definition read_head :: "string \<Rightarrow> (string \<times> HttpHeaders \<times> string) option" where
  "read_head s =
     (case cut_crlf s of
        None \<Rightarrow> None
      | Some (line, rest) \<Rightarrow> (case read_header_fields rest of None \<Rightarrow> None | Some (fs, body) \<Rightarrow> Some (line, fs, body)))"

definition field_text :: "string \<times> string \<Rightarrow> string" where
  "field_text f = fst f @ '': '' @ snd f @ CRLF"

definition sendable :: "string \<times> string \<Rightarrow> bool" where
  "sendable f \<longleftrightarrow> IsToken (fst f) \<and> ValidHeaderValue (snd f)"

text \<open>How a field arrives: the name in lower case, the blanks around the value removed.\<close>

definition received :: "string \<times> string \<Rightarrow> string \<times> string" where
  "received f = (map Lower (fst f), Trim (snd f))"

lemma token_char_not_special: "token_char c \<Longrightarrow> c \<noteq> CHR '':'' \<and> c \<noteq> CHR 0x0D"
  by (auto simp: token_char_def)

lemma token_not_special: "IsToken n \<Longrightarrow> CHR '':'' \<notin> set n \<and> CHR 0x0D \<notin> set n"
  using token_char_not_special by (auto simp: IsToken_def list_all_iff)

lemma value_no_cr: "ValidHeaderValue v \<Longrightarrow> CHR 0x0D \<notin> set v"
  by (auto simp: ValidHeaderValue_def list_all_iff)

lemma Trim_blank: "Trim (CHR '' '' # v) = Trim v"
  by (simp add: Trim_def)

lemma set_Trim: "set (Trim v) \<subseteq> set v"
  unfolding Trim_def by (metis set_dropWhileD set_rev subsetI)

lemma ValidHeaderValue_Trim: "ValidHeaderValue v \<Longrightarrow> ValidHeaderValue (Trim v)"
  using set_Trim by (fastforce simp: ValidHeaderValue_def list_all_iff)

lemma ParseHeader_field:
  assumes "sendable f"
  shows "ParseHeader (fst f @ '': '' @ snd f) = Some (received f)"
proof -
  have token: "IsToken (fst f)" and val: "ValidHeaderValue (snd f)" using assms by (simp_all add: sendable_def)
  have "cut_at (CHR '':'') (fst f @ CHR '':'' # CHR '' '' # snd f) = (fst f, Some (CHR '' '' # snd f))"
    using cut_at_some token_not_special [OF token] by blast
  then show ?thesis
    using token ValidHeaderValue_Trim [OF val] by (simp add: ParseHeader_def Trim_blank received_def)
qed

lemma read_header_fields_end: "read_header_fields (CRLF @ body) = Some ([], body)"
proof -
  have "cut_crlf (CRLF @ body) = Some ([], body)" using cut_crlf_line [of "[]" body] by simp
  then show ?thesis by (subst read_header_fields.simps) simp
qed

lemma read_header_fields_field:
  assumes "sendable f"
  shows "read_header_fields (field_text f @ rest) =
           (case read_header_fields rest of None \<Rightarrow> None | Some (fs, body) \<Rightarrow> Some (received f # fs, body))"
proof -
  have "CHR 0x0D \<notin> set (fst f @ '': '' @ snd f)"
    using assms token_not_special value_no_cr by (auto simp: sendable_def)
  from cut_crlf_line [OF this, of rest]
  have cut: "cut_crlf (field_text f @ rest) = Some (fst f @ '': '' @ snd f, rest)" by (simp add: field_text_def)
  show ?thesis
    by (subst read_header_fields.simps) (simp only: cut option.case prod.case append_is_Nil_conv ParseHeader_field [OF assms], simp)
qed

lemma read_header_fields_all:
  "list_all sendable fs \<Longrightarrow> read_header_fields (concat (map field_text fs) @ CRLF @ body) = Some (map received fs, body)"
  by (induction fs) (simp_all add: read_header_fields_end read_header_fields_field)

lemma read_head_all:
  assumes "CHR 0x0D \<notin> set first" "list_all sendable fs"
  shows "read_head (first @ CRLF @ concat (map field_text fs) @ CRLF @ body) = Some (first, map received fs, body)"
  using cut_crlf_line [OF assms(1)] read_header_fields_all [OF assms(2), of body] by (simp add: read_head_def)

section \<open>What is written\<close>

lemma Append_each_some:
  "Append_each pre parts limit = Some wire \<Longrightarrow>
   wire = pre @ concat parts \<and> (parts \<noteq> [] \<longrightarrow> length wire \<le> limit)"
proof (induction parts arbitrary: pre)
  case (Cons part parts)
  then obtain pre1 where one: "Append_limited pre part limit = Some pre1" "Append_each pre1 parts limit = Some wire"
    by (auto split: option.splits)
  have "pre1 = pre @ part" "length pre1 \<le> limit"
    using one(1) by (auto simp: Append_limited_def split: if_splits)
  then show ?case using Cons.IH [OF one(2)] one(2) by (cases parts) auto
qed simp

definition framing_name :: "string \<Rightarrow> bool" where
  "framing_name name \<longleftrightarrow>
     EqualInsensitive name ''content-length'' \<or> EqualInsensitive name ''transfer-encoding'' \<or>
     EqualInsensitive name ''connection'' \<or> EqualInsensitive name ''trailer''"

abbreviation has_field :: "string \<Rightarrow> HttpHeaders \<Rightarrow> bool" where
  "has_field name headers \<equiv> list_ex (\<lambda>f. EqualInsensitive (fst f) name) headers"

lemma response_headers_some:
  "response_headers maxHeaders wire d u headers = Inr (wire1, d1, u1) \<Longrightarrow>
   wire1 = wire @ concat (map field_text headers) \<and> list_all sendable headers \<and>
   list_all (\<lambda>f. \<not> framing_name (fst f)) headers \<and>
   d1 = (d \<or> has_field ''date'' headers) \<and> u1 = (u \<or> has_field ''upgrade'' headers)"
proof (induction maxHeaders wire d u headers rule: response_headers.induct)
  case (2 maxHeaders wire d u name field headers)
  from "2.prems" obtain wire2 where
    good: "sendable (name, field)" "\<not> framing_name name" and
    more: "Append_each wire [name, '': '', field, CRLF] maxHeaders = Some wire2"
      "response_headers maxHeaders wire2 (d \<or> EqualInsensitive name ''date'') (u \<or> EqualInsensitive name ''upgrade'') headers =
         Inr (wire1, d1, u1)"
    by (auto simp: sendable_def framing_name_def simp del: Append_each.simps split: if_split_asm option.split_asm)
  have "wire2 = wire @ field_text (name, field)" using Append_each_some [OF more(1)] by (simp add: field_text_def)
  moreover have "\<not> (EqualInsensitive name ''date'' \<and> d)" "\<not> (EqualInsensitive name ''upgrade'' \<and> \<not> ValidUpgradeProtocols field)"
    using "2.prems" by (auto split: if_split_asm)
  ultimately show ?case using "2.IH" [OF _ _ _ more(1) more(2)] good by (auto simp: sendable_def framing_name_def)
qed simp

section \<open>Digits and dates are plain text\<close>

lemma printable_digits: "list_all (\<lambda>c. 33 \<le> uchar c \<and> uchar c < 127) (to_chars_nat n)"
proof -
  have "list_all isdigit (to_chars_nat n)" using to_chars_nat_spec [of n] by (simp add: int_part_def)
  then show ?thesis by (auto simp: list_all_iff isdigit_uchar)
qed

definition plain_text :: "string \<Rightarrow> bool" where
  "plain_text s \<longleftrightarrow> list_all (\<lambda>c. 32 \<le> uchar c \<and> uchar c < 127) s"

lemma plain_append [simp]: "plain_text (s @ t) \<longleftrightarrow> plain_text s \<and> plain_text t"
  by (simp add: plain_text_def)

lemma plain_digits [simp]: "plain_text (to_chars_nat n)"
  using printable_digits [of n] by (auto simp: plain_text_def list_all_iff)

lemma plain_zero_padded [simp]: "plain_text (zero_padded w n)"
  using plain_digits [of n] by (auto simp: zero_padded_def plain_text_def list_all_iff)

lemma plain_zero_padded_int [simp]: "plain_text (zero_padded_int w n)"
  using plain_zero_padded by (auto simp: zero_padded_int_def plain_text_def list_all_iff)

lemma plain_valid: "plain_text s \<Longrightarrow> ValidHeaderValue s"
  by (auto simp: plain_text_def ValidHeaderValue_def list_all_iff)

lemma month_index: "case year_month_day days of (y, m, d) \<Rightarrow> m - 1 < 12"
proof -
  define doe yoe where "doe = (days + 719468) mod 146097"
    and "yoe = (doe - doe div 1460 + doe div 36524 - doe div 146096) div 365"
  define doy where "doy = doe - (365 * yoe + yoe div 4 - yoe div 100)"
  have doe: "0 \<le> doe" "doe < 146097" by (simp_all add: doe_def)
  have q: "doe div 1460 \<le> 100" "0 \<le> doe div 36524" "doe div 146096 \<le> 1" using doe by (linarith, simp, linarith)
  have y: "doe - doe div 1460 + doe div 36524 - doe div 146096 < 365 * yoe + 365"
    unfolding yoe_def by linarith
  have "0 \<le> doe - doe div 1460 + doe div 36524 - doe div 146096" using doe by linarith
  then have "0 \<le> yoe" unfolding yoe_def by simp
  then have "yoe div 100 \<le> yoe div 4" by linarith
  then have "doy < 500" using q y unfolding doy_def by linarith
  then have mp: "(5 * doy + 2) div 153 < 21" by linarith
  define month where "month = (if (5 * doy + 2) div 153 < 10 then (5 * doy + 2) div 153 + 3 else (5 * doy + 2) div 153 - 9)"
  have "fst (snd (year_month_day days)) = nat month"
    unfolding year_month_day_def Let_def month_def doe_def yoe_def doy_def by (simp only: fst_conv snd_conv)
  moreover have "nat month - 1 < 12" using mp unfolding month_def by (simp split: if_split) linarith
  ultimately show ?thesis by (simp add: case_prod_beta)
qed

lemma plain_nth: "i < length xs \<Longrightarrow> list_all plain_text xs \<Longrightarrow> plain_text (xs ! i)"
  by (simp add: list_all_length)

lemma plain_HttpDate [simp]: "plain_text (HttpDate t)"
proof -
  obtain y m d where ymd: "year_month_day (t div 86400) = (y, m, d)" by (cases "year_month_day (t div 86400)") auto
  have m: "m - 1 < 12" using month_index [of "t div 86400"] ymd by simp
  have w: "weekday (t div 86400) < 7" unfolding weekday_def by (simp add: nat_less_iff)
  have "plain_text ([''Sun'', ''Mon'', ''Tue'', ''Wed'', ''Thu'', ''Fri'', ''Sat''] ! weekday (t div 86400))"
    by (rule plain_nth) (use w in \<open>simp_all add: plain_text_def\<close>)
  moreover have "plain_text ([''Jan'', ''Feb'', ''Mar'', ''Apr'', ''May'', ''Jun'', ''Jul'', ''Aug'', ''Sep'', ''Oct'', ''Nov'', ''Dec''] ! (m - 1))"
    by (rule plain_nth) (use m in \<open>simp_all add: plain_text_def\<close>)
  moreover have "plain_text '', ''" "plain_text '' ''" "plain_text '':''" "plain_text '' GMT''" "plain_text []" by (simp_all add: plain_text_def)
  ultimately show ?thesis unfolding HttpDate_def Let_def ymd prod.case
    by (simp only: plain_append plain_zero_padded plain_zero_padded_int split: if_split) simp
qed

section \<open>The head theorem\<close>

definition status_line :: "nat \<Rightarrow> string" where
  "status_line status = ''HTTP/1.1 '' @ to_chars_nat status @ '' '' @ ReasonPhrase status"

lemma plain_no_cr: "plain_text s \<Longrightarrow> CHR 0x0D \<notin> set s"
  by (auto simp: plain_text_def list_all_iff)

lemma plain_ReasonPhrase: "plain_text (ReasonPhrase status)"
proof -
  have known: "map_of xs k = Some v \<Longrightarrow> list_all (\<lambda>(k, v). plain_text v) xs \<Longrightarrow> plain_text v" for xs :: "(nat \<times> string) list" and k v
    by (auto simp: list_all_iff dest: map_of_SomeD)
  show ?thesis unfolding ReasonPhrase_def
    by (split option.split, intro conjI impI allI, simp add: plain_text_def, erule known) (simp add: plain_text_def)
qed

lemma plain_status_line: "plain_text (status_line status)"
proof -
  have "plain_text ''HTTP/1.1 ''" "plain_text '' ''" by (simp_all add: plain_text_def)
  then show ?thesis unfolding status_line_def by (simp only: plain_append plain_ReasonPhrase plain_digits)
qed

text \<open>The fields the library adds.\<close>

definition framing_fields :: "nat \<Rightarrow> nat option \<Rightarrow> ResponseBodyMode \<Rightarrow> HttpHeaders" where
  "framing_fields status len mode =
     (if status = 205 then [(''Content-Length'', to_chars_nat 0)]
      else if status \<noteq> 204 \<and> status \<noteq> 304 \<and> len \<noteq> None then [(''Content-Length'', to_chars_nat (the len))]
      else if mode = BM_Chunked then [(''Transfer-Encoding'', ''chunked'')]
      else [])"

definition connection_value :: "bool \<Rightarrow> bool \<Rightarrow> string" where
  "connection_value close upgrade = (if close then ''close'' else ''keep-alive'') @ (if upgrade then '', Upgrade'' else [])"

definition added_fields :: "int \<Rightarrow> nat \<Rightarrow> nat option \<Rightarrow> bool \<Rightarrow> ResponseBodyMode \<Rightarrow> HttpHeaders \<Rightarrow> HttpHeaders" where
  "added_fields now status len close mode headers =
     (if has_field ''date'' headers then [] else [(''Date'', HttpDate now)]) @ framing_fields status len mode @
     [(''Connection'', connection_value (close \<or> mode = BM_CloseDelimited) (has_field ''upgrade'' headers))]"

lemma added_sendable: "list_all sendable (added_fields now status len close mode headers)"
proof -
  have "ValidHeaderValue (to_chars_nat n)" "ValidHeaderValue (HttpDate now)" for n
    by (rule plain_valid; simp)+
  moreover have "ValidHeaderValue (connection_value a b)" "ValidHeaderValue ''chunked''" for a b
    by (rule plain_valid; simp add: plain_text_def connection_value_def)+
  moreover have "IsToken ''Date''" "IsToken ''Content-Length''" "IsToken ''Transfer-Encoding''" "IsToken ''Connection''"
    by (simp_all add: IsToken_def token_char_def)
  ultimately show ?thesis unfolding added_fields_def framing_fields_def by (simp add: sendable_def)
qed

lemma head_end_some:
  assumes "head_end now status len head close maxHeaders chunkedAllowed wire (has_field ''date'' headers) (has_field ''upgrade'' headers) = Inr prepared"
  shows "pr_mode prepared = body_mode status len head chunkedAllowed \<and> length (pr_wire prepared) \<le> maxHeaders \<and>
         pr_wire prepared = wire @ concat (map field_text (added_fields now status len close (pr_mode prepared) headers)) @ CRLF"
proof -
  let ?mode = "body_mode status len head chunkedAllowed"
  let ?len = "if status = 204 \<or> status = 205 \<or> status = 304 then 0 else case len of None \<Rightarrow> 0 | Some n \<Rightarrow> n"
  obtain wire1 wire2 where
    date: "append_date now maxHeaders wire (has_field ''date'' headers) = Some wire1" and
    frame: "append_framing status len ?mode ?len maxHeaders wire1 = Some wire2" and
    conn: "append_connection (close \<or> ?mode = BM_CloseDelimited) (has_field ''upgrade'' headers) maxHeaders wire2 = Some (pr_wire prepared)" and
    mode: "pr_mode prepared = ?mode"
    using assms unfolding head_end_def Let_def by (auto split: if_split_asm option.split_asm)
  have wire1: "wire1 = wire @ concat (map field_text (if has_field ''date'' headers then [] else [(''Date'', HttpDate now)]))"
    using date Append_each_some [of wire "[''Date: '', HttpDate now, CRLF]" maxHeaders wire1]
    unfolding append_date_def by (simp add: field_text_def del: Append_each.simps split: if_split_asm)
  have wire2: "wire2 = wire1 @ concat (map field_text (framing_fields status len ?mode))"
  proof (cases "status = 205 \<or> (status \<noteq> 204 \<and> status \<noteq> 304 \<and> len \<noteq> None)")
    case True
    then have "Append_each wire1 [''Content-Length: '', to_chars_nat ?len, CRLF] maxHeaders = Some wire2"
      using frame unfolding append_framing_def by simp
    from Append_each_some [OF this] show ?thesis using True by (auto simp: framing_fields_def field_text_def)
  next
    case False
    show ?thesis
    proof (cases "?mode = BM_Chunked")
      case True
      then have "Append_each wire1 [''Transfer-Encoding: chunked'' @ CRLF] maxHeaders = Some wire2"
        using frame unfolding append_framing_def by (simp only: False True if_True if_False)
      from Append_each_some [OF this] show ?thesis using True False by (auto simp: framing_fields_def field_text_def)
    next
      case other: False
      then show ?thesis using frame False by (auto simp: append_framing_def framing_fields_def)
    qed
  qed
  have wire3: "pr_wire prepared = wire2 @
      field_text (''Connection'', connection_value (close \<or> ?mode = BM_CloseDelimited) (has_field ''upgrade'' headers)) @ CRLF"
    using Append_each_some [OF conn [unfolded append_connection_def]] by (simp add: field_text_def connection_value_def)
  have bound: "length (pr_wire prepared) \<le> maxHeaders"
    using Append_each_some [OF conn [unfolded append_connection_def]] by blast
  have "pr_wire prepared = wire @ concat (map field_text (added_fields now status len close ?mode headers)) @ CRLF"
    using wire3 unfolding wire2 wire1 added_fields_def by simp
  then show ?thesis using mode bound by simp
qed

lemma PrepareResponseHead_some:
  assumes "PrepareResponseHead alloc now status headers len head close maxHeaders chunkedAllowed = Inr prepared"
  shows "pr_mode prepared = body_mode status len head chunkedAllowed \<and> length (pr_wire prepared) \<le> maxHeaders \<and>
         list_all sendable headers \<and> list_all (\<lambda>f. \<not> framing_name (fst f)) headers \<and>
         pr_wire prepared = status_line status @ CRLF @
           concat (map field_text (headers @ added_fields now status len close (pr_mode prepared) headers)) @ CRLF"
proof -
  obtain wire wire1 d u where
    first: "Append_each [] [''HTTP/1.1 '', to_chars_nat status, '' '', ReasonPhrase status, CRLF] maxHeaders = Some wire" and
    rest: "response_headers maxHeaders wire False False headers = Inr (wire1, d, u)"
      "head_end now status len head close maxHeaders chunkedAllowed wire1 d u = Inr prepared"
    using assms unfolding PrepareResponseHead_def
    by (auto simp del: Append_each.simps split: if_split_asm option.split_asm sum.split_asm prod.split_asm)
  have wire: "wire = status_line status @ CRLF" using Append_each_some [OF first] by (simp add: status_line_def)
  note loop = response_headers_some [OF rest(1)]
  have "head_end now status len head close maxHeaders chunkedAllowed wire1 (has_field ''date'' headers) (has_field ''upgrade'' headers) = Inr prepared"
    using rest(2) loop by simp
  note tail = head_end_some [OF this]
  have "pr_wire prepared = status_line status @ CRLF @
           concat (map field_text (headers @ added_fields now status len close (pr_mode prepared) headers)) @ CRLF"
    using tail loop unfolding wire by (simp only: map_append concat_append append_assoc)
  then show ?thesis using tail loop by blast
qed

lemma Trim_plain_digits: "Trim (to_chars_nat n) = to_chars_nat n"
proof -
  have none: "\<And>c. c \<in> set (to_chars_nat n) \<Longrightarrow> \<not> blank c"
    using printable_digits [of n] by (auto simp: list_all_iff)
  have drop: "dropWhile blank s = s" if "\<And>c. c \<in> set s \<Longrightarrow> \<not> blank c" for s
    using that by (cases s) auto
  show ?thesis unfolding Trim_def using drop [of "to_chars_nat n"] drop [of "rev (to_chars_nat n)"] none by simp
qed

lemma received_framing:
  "received (''Content-Length'', to_chars_nat n) = (''content-length'', to_chars_nat n)"
  "received (''Transfer-Encoding'', ''chunked'') = (''transfer-encoding'', ''chunked'')"
  "received (''Connection'', connection_value c u) = (''connection'', connection_value c u)"
  "received (''Date'', v) = (''date'', Trim v)"
proof -
  have low: "char_of (99::nat) = CHR ''c''" "char_of (108::nat) = CHR ''l''" "char_of (116::nat) = CHR ''t''"
    "char_of (101::nat) = CHR ''e''" "char_of (100::nat) = CHR ''d''"
    by (simp_all add: char_of_def bit_0)
  have "Trim ''chunked'' = ''chunked''" "Trim (connection_value c u) = connection_value c u"
    by (simp_all add: Trim_def connection_value_def)
  then show "received (''Content-Length'', to_chars_nat n) = (''content-length'', to_chars_nat n)"
    "received (''Transfer-Encoding'', ''chunked'') = (''transfer-encoding'', ''chunked'')"
    "received (''Connection'', connection_value c u) = (''connection'', connection_value c u)"
    "received (''Date'', v) = (''date'', Trim v)"
    by (simp_all add: received_def Lower_def Trim_plain_digits low)
qed

text \<open>What the body mode promises about the framing fields and the connection field that are sent.\<close>

definition framing_agrees :: "ResponseBodyMode \<Rightarrow> nat option \<Rightarrow> HttpHeaders \<Rightarrow> string \<Rightarrow> bool" where
  "framing_agrees mode len framing connection \<longleftrightarrow>
     (case mode of
        BM_FixedLength \<Rightarrow> (\<exists>n. len = Some n \<and> framing = [(''content-length'', to_chars_nat n)])
      | BM_Chunked \<Rightarrow> len = None \<and> framing = [(''transfer-encoding'', ''chunked'')]
      | BM_CloseDelimited \<Rightarrow> len = None \<and> framing = [] \<and> take 5 connection = ''close''
      | BM_None \<Rightarrow> framing = [] \<or> (\<exists>n. framing = [(''content-length'', to_chars_nat n)]))"

text \<open>
  C24. A response head can be read back: whatever the application puts into names and values, a head that
  is accepted fits the limit, and read with the library's own header rules it is the status line, the
  fields of the application in their order (names in lower case, values trimmed), a date if the
  application gave none, the framing fields and one connection field; what follows the head is the body.
  No field of the application is a framing or connection field, so the framing is the one that the
  body mode says: a length, chunks, the end of the connection, or no body at all, and never two of them.
  No text of a field can add a line to the head.
\<close>

theorem ResponseHead_reads_back:
  assumes "PrepareResponseHead alloc now status headers len head close maxHeaders chunkedAllowed = Inr prepared"
  shows "length (pr_wire prepared) \<le> maxHeaders \<and>
         list_all (\<lambda>f. \<not> framing_name (fst f)) headers \<and>
         (\<exists>framing connection.
            read_head (pr_wire prepared @ body) =
              Some (status_line status,
                    map received headers @ (if has_field ''date'' headers then [] else [(''date'', Trim (HttpDate now))]) @
                    framing @ [(''connection'', connection)], body) \<and>
            framing_agrees (pr_mode prepared) len framing connection) \<and>
         (pr_mode prepared = BM_None \<longleftrightarrow> head \<or> status \<in> {204, 205, 304})"
proof -
  note some = PrepareResponseHead_some [OF assms]
  let ?mode = "pr_mode prepared"
  let ?framing = "map received (framing_fields status len ?mode)"
  let ?connection = "connection_value (close \<or> ?mode = BM_CloseDelimited) (has_field ''upgrade'' headers)"
  have "list_all sendable (headers @ added_fields now status len close ?mode headers)"
    using some added_sendable by (simp only: list_all_append)
  from read_head_all [OF plain_no_cr [OF plain_status_line] this, of status body]
  have "read_head (pr_wire prepared @ body) =
    Some (status_line status, map received (headers @ added_fields now status len close ?mode headers), body)"
    using some by (simp only: append_assoc)
  also have "map received (headers @ added_fields now status len close ?mode headers) =
    map received headers @ (if has_field ''date'' headers then [] else [(''date'', Trim (HttpDate now))]) @
    ?framing @ [(''connection'', ?connection)]"
    by (simp add: added_fields_def received_framing)
  finally have "read_head (pr_wire prepared @ body) = Some (status_line status, map received headers @
    (if has_field ''date'' headers then [] else [(''date'', Trim (HttpDate now))]) @ ?framing @ [(''connection'', ?connection)], body)" .
  moreover have "framing_agrees ?mode len ?framing ?connection"
    using some unfolding framing_agrees_def framing_fields_def connection_value_def
    by (auto simp: body_mode_def received_framing split: ResponseBodyMode.splits if_split_asm)
  moreover have "?mode = BM_None \<longleftrightarrow> head \<or> status \<in> {204, 205, 304}" using some by (auto simp: body_mode_def)
  ultimately show ?thesis using some by blast
qed

theorem ResponseHead_reads_back_witness:
  "\<exists>prepared framing connection.
     PrepareResponseHead True 0 200 [(''Date'', ''x''), (''A'', '' b'')] (Some 3) False False 100 True = Inr prepared \<and>
     read_head (pr_wire prepared @ ''abc'') =
       Some (status_line 200,
             map received [(''Date'', ''x''), (''A'', '' b'')] @
             (if has_field ''date'' [(''Date'', ''x''), (''A'', '' b'')] then [] else [(''date'', Trim (HttpDate 0))]) @
             framing @ [(''connection'', connection)], ''abc'')"
proof -
  obtain prepared where
    "PrepareResponseHead True 0 200 [(''Date'', ''x''), (''A'', '' b'')] (Some 3) False False 100 True = Inr prepared"
    by (cases "PrepareResponseHead True 0 200 [(''Date'', ''x''), (''A'', '' b'')] (Some 3) False False 100 True") (code_simp, blast)
  then show ?thesis using ResponseHead_reads_back [of True 0 200 _ "Some 3" False False 100 True prepared "''abc''"] by blast
qed

end
