(* ===== verification/HttpParser.thy ===== *)
theory HttpParser
  imports HttpText
begin

text \<open>
  The incremental HTTP/1 request parser (\<^verbatim>\<open>HttpParser\<close> of \<^verbatim>\<open>src/Web/WebProtocol.cpp\<close>). \<open>Advance\<close> takes the
  unconsumed input and returns a result, the parser, the input that is left and the output request; the
  caller appends what it receives to the input that is left and calls again.
\<close>

section \<open>State\<close>

datatype Stage = Headers | FixedBody | ChunkSize | ChunkData | ChunkEnd | Trailers | Failed

datatype HttpParseKind = HK_NeedMore | HK_Continue | HK_Complete | HK_Error | HK_Headers | HK_Body

record HttpParseResult =
  hr_kind :: HttpParseKind
  hr_status :: nat

abbreviation http_result :: "HttpParseKind \<Rightarrow> nat \<Rightarrow> HttpParseResult" where
  "http_result kind status \<equiv> \<lparr>hr_kind = kind, hr_status = status\<rparr>"

definition need_more :: HttpParseResult where
  "need_more = http_result HK_NeedMore 400"

record HttpParser =
  hp_stage :: Stage
  hp_maxHeaders :: nat
  hp_maxBody :: nat
  hp_remaining :: nat
  hp_chunkOverhead :: nat
  hp_trailerBytes :: nat
  hp_headerSearch :: nat
  hp_continue :: bool
  hp_headRequest :: bool
  hp_http10 :: bool
  hp_separateHeaders :: bool
  hp_streaming :: bool
  hp_bodyBytes :: nat
  hp_maxChunk :: nat
  hp_request :: HttpRequest

definition HttpParser_create :: "nat \<Rightarrow> nat \<Rightarrow> bool \<Rightarrow> HttpParser" where
  "HttpParser_create maxHeaders maxBody separateHeaders =
     \<lparr>hp_stage = Headers, hp_maxHeaders = maxHeaders, hp_maxBody = maxBody, hp_remaining = 0, hp_chunkOverhead = 0,
      hp_trailerBytes = 0, hp_headerSearch = 0, hp_continue = False, hp_headRequest = False, hp_http10 = False,
      hp_separateHeaders = separateHeaders, hp_streaming = False, hp_bodyBytes = 0, hp_maxChunk = 0,
      hp_request = HttpRequest_empty\<rparr>"

definition ConfigureBody :: "HttpParser \<Rightarrow> bool \<Rightarrow> nat \<Rightarrow> nat \<Rightarrow> bool \<times> HttpParser" where
  "ConfigureBody p streaming maxBody maxChunk =
     ((streaming \<or> maxChunk \<noteq> 0) \<and> hp_remaining p \<le> maxBody,
      p\<lparr>hp_streaming := streaming, hp_maxBody := maxBody, hp_maxChunk := maxChunk\<rparr>)"

definition TakeContinue :: "HttpParser \<Rightarrow> bool \<times> HttpParser" where
  "TakeContinue p = (hp_continue p, p\<lparr>hp_continue := False\<rparr>)"

definition Started :: "HttpParser \<Rightarrow> bool" where
  "Started p \<longleftrightarrow> hp_stage p \<noteq> Headers"

definition Parser_Fail :: "HttpParser \<Rightarrow> nat \<Rightarrow> HttpParseResult \<times> HttpParser" where
  "Parser_Fail p status = (http_result HK_Error status, p\<lparr>hp_stage := Failed\<rparr>)"

definition Parser_Complete :: "HttpParser \<Rightarrow> HttpParseResult \<times> HttpParser \<times> HttpRequest" where
  "Parser_Complete p =
     (http_result HK_Complete 200,
      p\<lparr>hp_request := HttpRequest_empty, hp_stage := Headers, hp_remaining := 0, hp_chunkOverhead := 0,
        hp_trailerBytes := 0, hp_headerSearch := 0, hp_continue := False, hp_headRequest := False, hp_bodyBytes := 0\<rparr>,
      hp_request p)"

section \<open>The header block\<close>

text \<open>The text before and behind the first \<^verbatim>\<open>://\<close>.\<close>

fun cut_scheme :: "string \<Rightarrow> (string \<times> string) option" where
  "cut_scheme (a # b # c # s) =
     (if a = CHR '':'' \<and> b = CHR ''/'' \<and> c = CHR ''/'' then Some ([], s)
      else case cut_scheme (b # c # s) of None \<Rightarrow> None | Some (l, r) \<Rightarrow> Some (a # l, r))"
| "cut_scheme s = None"

text \<open>The request target: \<open>Inl\<close> is a failure, \<open>Inr\<close> the target in origin form with the authority.\<close>

definition request_target :: "string \<Rightarrow> nat + string \<times> string" where
  "request_target target =
     (if \<not> list_all (\<lambda>c. \<not> (uchar c < 33 \<or> uchar c \<ge> 127 \<or> c = CHR ''#'')) target then Inl 400
      else if target \<noteq> [] \<and> hd target \<noteq> CHR ''/'' \<and> target \<noteq> ''*'' then
        (case cut_scheme target of
           None \<Rightarrow> Inl 400
         | Some (scheme, rest) \<Rightarrow>
             if \<not> EqualInsensitive scheme ''http'' \<and> \<not> EqualInsensitive scheme ''https'' then Inl 400
             else
               let authority = takeWhile (\<lambda>c. c \<noteq> CHR ''/'' \<and> c \<noteq> CHR 0x3F) rest;
                   path = dropWhile (\<lambda>c. c \<noteq> CHR ''/'' \<and> c \<noteq> CHR 0x3F) rest
               in if authority = [] \<or> list_ex (\<lambda>c. c = CHR '','' \<or> c = CHR ''@'' \<or> c = CHR 0x5C) authority then Inl 400
                  else Inr ((if path \<noteq> [] \<and> hd path = CHR ''/'' then path else CHR ''/'' # path), authority))
      else if target = [] then Inl 400
      else Inr (target, []))"

text \<open>The request line: the parser with method, target and version, and the authority of the target.\<close>

definition request_line :: "HttpParser \<Rightarrow> string \<Rightarrow> (nat \<times> HttpParser) + HttpParser \<times> string" where
  "request_line p line =
     (case cut_at (CHR 0x20) line of
        (_, None) \<Rightarrow> Inl (400, p)
      | (verb, Some r) \<Rightarrow>
          (case cut_at (CHR 0x20) r of
             (_, None) \<Rightarrow> Inl (400, p)
           | (target, Some version) \<Rightarrow>
               if CHR 0x20 \<in> set version \<or> \<not> IsToken verb then Inl (400, p)
               else if version \<noteq> ''HTTP/1.1'' \<and> version \<noteq> ''HTTP/1.0'' then Inl (505, p)
               else
                 let p1 = p\<lparr>hp_http10 := (version = ''HTTP/1.0'')\<rparr>
                 in case request_target target of
                      Inl status \<Rightarrow> Inl (status, p1)
                    | Inr (path, authority) \<Rightarrow>
                        Inr (p1\<lparr>hp_request := (hp_request p1)\<lparr>rq_target := path, rq_method := verb\<rparr>\<rparr>, authority)))"

record HeaderFlags =
  haveHost :: bool
  haveLength :: bool
  haveTransfer :: bool
  haveExpect :: bool
  transferFailure :: nat

definition no_flags :: HeaderFlags where
  "no_flags = \<lparr>haveHost = False, haveLength = False, haveTransfer = False, haveExpect = False, transferFailure = 0\<rparr>"

definition transfer_codings :: "string \<Rightarrow> nat" where
  "transfer_codings s =
     (if EqualInsensitive s ''chunked'' then 0
      else
        let codings = map (\<lambda>part. EqualInsensitive (Trim part) ''chunked'') (comma_parts s)
        in if length (filter id codings) = 1 \<and> last codings then 501 else 400)"

text \<open>The checks of one header field.\<close>

definition header_field ::
    "HttpParser \<Rightarrow> HeaderFlags \<Rightarrow> string \<Rightarrow> string \<Rightarrow> (nat \<times> HttpParser) + HttpParser \<times> HeaderFlags" where
  "header_field p fl name field =
     (if name = ''host'' then
        if haveHost fl \<or> field = [] \<or>
           list_ex (\<lambda>c. c \<in> set [CHR 0x20, CHR 0x09, CHR '','', CHR ''/'', CHR ''@'', CHR 0x3F, CHR ''#'', CHR 0x5C]) field
        then Inl (400, p)
        else Inr (p, fl\<lparr>haveHost := True\<rparr>)
      else if name = ''content-length'' then
        if haveLength fl \<or> field = [] \<or> \<not> list_all isdigit field then Inl (400, p)
        else if decimal_value field > SIZE_MAX then Inl (413, p)
        else if decimal_value field > hp_maxBody p then Inl (413, p\<lparr>hp_remaining := decimal_value field\<rparr>)
        else Inr (p\<lparr>hp_remaining := decimal_value field\<rparr>, fl\<lparr>haveLength := True\<rparr>)
      else if name = ''transfer-encoding'' then
        if haveTransfer fl \<or> \<not> TokenList field False then Inl (400, p)
        else Inr (p, fl\<lparr>haveTransfer := True, transferFailure := transfer_codings field\<rparr>)
      else if name = ''connection'' then
        if \<not> TokenList field True then Inl (400, p) else Inr (p, fl)
      else if name = ''upgrade'' then
        if \<not> UpgradeProtocols field then Inl (400, p) else Inr (p, fl)
      else if name = ''expect'' then
        if haveExpect fl \<or> \<not> EqualInsensitive field ''100-continue'' then Inl (417, p)
        else Inr (p, fl\<lparr>haveExpect := True\<rparr>)
      else Inr (p, fl))"

definition header_line ::
    "HttpParser \<Rightarrow> HeaderFlags \<Rightarrow> string \<Rightarrow> (nat \<times> HttpParser) + HttpParser \<times> HeaderFlags" where
  "header_line p fl line =
     (case ParseHeader line of
        None \<Rightarrow> Inl (400, p)
      | Some (name, field) \<Rightarrow>
          if length (rq_headers (hp_request p)) \<ge> 128 then Inl (400, p)
          else case header_field p fl name field of
            Inl e \<Rightarrow> Inl e
          | Inr (p1, fl1) \<Rightarrow>
              Inr (p1\<lparr>hp_request := (hp_request p1)\<lparr>rq_headers := rq_headers (hp_request p1) @ [(name, field)]\<rparr>\<rparr>, fl1))"

text \<open>The lines of the block behind the request line.\<close>

function header_lines ::
    "HttpParser \<Rightarrow> HeaderFlags \<Rightarrow> string \<Rightarrow> (nat \<times> HttpParser) + HttpParser \<times> HeaderFlags" where
  "header_lines p fl block =
     (if block = [] then Inr (p, fl)
      else case cut_crlf block of
        None \<Rightarrow> header_line p fl block
      | Some (line, rest) \<Rightarrow>
          (case header_line p fl line of
             Inl e \<Rightarrow> Inl e
           | Inr (p1, fl1) \<Rightarrow> header_lines p1 fl1 rest))"
  by pat_completeness auto
termination
  by (relation "measure (\<lambda>(p, fl, block). length block)") (auto dest: cut_crlf_length)

declare header_lines.simps [simp del]

fun set_host :: "HttpHeaders \<Rightarrow> string \<Rightarrow> HttpHeaders" where
  "set_host [] authority = [(''host'', authority)]"
| "set_host ((n, v) # hs) authority = (if n = ''host'' then (n, authority) # hs else (n, v) # set_host hs authority)"

definition ParseHeaders :: "HttpParser \<Rightarrow> string \<Rightarrow> HttpParseResult \<times> HttpParser" where
  "ParseHeaders p block =
     (case cut_crlf block of
        None \<Rightarrow> Parser_Fail p 400
      | Some (line, rest) \<Rightarrow>
          (case request_line p line of
             Inl (status, p1) \<Rightarrow> Parser_Fail p1 status
           | Inr (p1, authority) \<Rightarrow>
               (case header_lines p1 no_flags rest of
                  Inl (status, p2) \<Rightarrow> Parser_Fail p2 status
                | Inr (p2, fl) \<Rightarrow>
                    if (\<not> haveHost fl \<and> \<not> hp_http10 p2) \<or> (haveLength fl \<and> haveTransfer fl) \<or> (hp_http10 p2 \<and> haveTransfer fl)
                    then Parser_Fail p2 400
                    else if transferFailure fl \<noteq> 0 then Parser_Fail p2 (transferFailure fl)
                    else
                      let p3 = (if authority \<noteq> []
                                then p2\<lparr>hp_request := (hp_request p2)\<lparr>rq_headers := set_host (rq_headers (hp_request p2)) authority\<rparr>\<rparr>
                                else p2)
                      in (need_more,
                          p3\<lparr>hp_stage := (if haveTransfer fl then ChunkSize else FixedBody),
                             hp_continue := haveExpect fl \<and> \<not> hp_http10 p3 \<and> (haveTransfer fl \<or> hp_remaining p3 \<noteq> 0)\<rparr>))))"

section \<open>Advancing through a request\<close>

text \<open>
  The parser with the input that is left and the output request. A stage either returns a result or falls
  through to the next one; \<open>None\<close> is a stage that has fallen through.
\<close>

type_synonym parse_state = "HttpParser \<times> string \<times> HttpRequest"
type_synonym flow = "HttpParseResult option \<times> parse_state"

definition and_then :: "flow \<Rightarrow> (parse_state \<Rightarrow> flow) \<Rightarrow> flow" where
  "and_then a f = (case a of (Some r, st) \<Rightarrow> (Some r, st) | (None, st) \<Rightarrow> f st)"

definition fail_flow :: "HttpParser \<Rightarrow> nat \<Rightarrow> string \<Rightarrow> HttpRequest \<Rightarrow> flow" where
  "fail_flow p status s out = (Some (fst (Parser_Fail p status)), snd (Parser_Fail p status), s, out)"

definition complete_flow :: "HttpParser \<Rightarrow> string \<Rightarrow> flow" where
  "complete_flow p s = (case Parser_Complete p of (r, p1, out) \<Rightarrow> (Some r, p1, s, out))"

text \<open>The empty lines before a request line.\<close>

fun skip_crlf :: "string \<Rightarrow> string" where
  "skip_crlf (a # b # s) = (if a = CHR 0x0D \<and> b = CHR 0x0A then skip_crlf s else a # b # s)"
| "skip_crlf s = s"

text \<open>
  The search for the end of the header block from position \<open>i\<close> on: a line feed or carriage return without
  its partner, no end yet, or the position of the four characters that end the block.
\<close>

datatype scan = ScanBad | ScanMore | ScanEnd nat

function scan_end :: "string \<Rightarrow> nat \<Rightarrow> scan" where
  "scan_end s i =
     (if i < length s then
        let afterCr = (i \<noteq> 0 \<and> s ! (i - 1) = CHR 0x0D)
        in if s ! i = CHR 0x0A then
             (if \<not> afterCr then ScanBad
              else if i \<ge> 3 \<and> s ! (i - 2) = CHR 0x0A then ScanEnd (i - 3)
              else scan_end s (i + 1))
           else if afterCr then ScanBad
           else scan_end s (i + 1)
      else ScanMore)"
  by pat_completeness auto
termination
  by (relation "measure (\<lambda>(s, i). length s - i)") auto

declare scan_end.simps [simp del]

definition stage_headers :: "parse_state \<Rightarrow> flow" where
  "stage_headers st = (case st of (p, input, out) \<Rightarrow>
     if hp_stage p \<noteq> Headers then (None, st)
     else
       let s = (if hp_headerSearch p = 0 then skip_crlf input else input)
       in if hp_headerSearch p = 0 \<and> s = [CHR 0x0D] then (Some need_more, p, s, out)
          else
            let p1 = p\<lparr>hp_headRequest := (take 5 s = ''HEAD '')\<rparr>
            in case scan_end s (hp_headerSearch p) of
                 ScanBad \<Rightarrow> fail_flow p1 400 s out
               | ScanMore \<Rightarrow>
                   if length s \<ge> hp_maxHeaders p then fail_flow p1 431 s out
                   else (Some need_more, p1\<lparr>hp_headerSearch := length s\<rparr>, s, out)
               | ScanEnd e \<Rightarrow>
                   if e + 4 > hp_maxHeaders p then fail_flow p1 431 s out
                   else
                     (case ParseHeaders p1 (take (e + 2) s) of
                        (r, p2) \<Rightarrow>
                          if hr_kind r = HK_Error then (Some r, p2, s, out)
                          else if hp_separateHeaders p2 then
                            (Some (http_result HK_Headers 200), p2\<lparr>hp_request := HttpRequest_empty\<rparr>, drop (e + 4) s, hp_request p2)
                          else (None, p2, drop (e + 4) s, out)))"

definition stage_continue :: "parse_state \<Rightarrow> flow" where
  "stage_continue st = (case st of (p, s, out) \<Rightarrow>
     if hp_continue p then (Some (http_result HK_Continue 100), p\<lparr>hp_continue := False\<rparr>, s, out) else (None, st))"

text \<open>Moving body bytes from the input into the request, and handing them out when streaming.\<close>

definition body_count :: "HttpParser \<Rightarrow> string \<Rightarrow> nat" where
  "body_count p s = min (length s) (min (hp_remaining p) (if hp_streaming p then hp_maxChunk p else hp_remaining p))"

definition take_body :: "HttpParser \<Rightarrow> string \<Rightarrow> HttpParser" where
  "take_body p s =
     p\<lparr>hp_request := (hp_request p)\<lparr>rq_body := rq_body (hp_request p) @ take (body_count p s) s\<rparr>,
       hp_remaining := hp_remaining p - body_count p s,
       hp_bodyBytes := hp_bodyBytes p + body_count p s\<rparr>"

definition hand_out :: "HttpParser \<Rightarrow> string \<Rightarrow> HttpRequest \<Rightarrow> flow" where
  "hand_out p s out =
     (Some (http_result HK_Body 200), p\<lparr>hp_request := (hp_request p)\<lparr>rq_body := []\<rparr>\<rparr>, s,
      out\<lparr>rq_body := rq_body (hp_request p)\<rparr>)"

definition stage_fixed :: "parse_state \<Rightarrow> flow" where
  "stage_fixed st = (case st of (p, s, out) \<Rightarrow>
     if hp_stage p \<noteq> FixedBody then (None, st)
     else
       let p1 = take_body p s; s1 = drop (body_count p s) s
       in if hp_streaming p \<and> body_count p s \<noteq> 0 then hand_out p1 s1 out
          else if hp_remaining p1 = 0 then complete_flow p1 s1
          else (Some need_more, p1, s1, out))"

definition ishex :: "char \<Rightarrow> bool" where
  "ishex c \<longleftrightarrow> (48 \<le> uchar c \<and> uchar c \<le> 57) \<or> (97 \<le> uchar c \<and> uchar c \<le> 102) \<or> (65 \<le> uchar c \<and> uchar c \<le> 70)"

definition chunk_digit :: "char \<Rightarrow> nat" where
  "chunk_digit c =
     (if uchar c \<le> 57 then uchar c - 48 else if 97 \<le> uchar c then uchar c - 97 + 10 else uchar c - 65 + 10)"

definition chunk_value :: "string \<Rightarrow> nat" where
  "chunk_value ds = foldl (\<lambda>v c. v * 16 + chunk_digit c) 0 ds"

definition stage_chunk_size :: "parse_state \<Rightarrow> flow" where
  "stage_chunk_size st = (case st of (p, s, out) \<Rightarrow>
     if hp_stage p \<noteq> ChunkSize then (None, st)
     else case cut_crlf s of
       None \<Rightarrow>
         if length s > hp_maxHeaders p - hp_chunkOverhead p then fail_flow p 431 s out else (Some need_more, p, s, out)
     | Some (line, rest) \<Rightarrow>
         if length line + 2 > hp_maxHeaders p - hp_chunkOverhead p then fail_flow p 431 s out
         else
           let digits = takeWhile ishex line; extension = dropWhile ishex line
           in if digits = [] \<or> (extension \<noteq> [] \<and> \<not> ValidChunkExtensions extension) then fail_flow p 400 s out
              else if chunk_value digits > SIZE_MAX then fail_flow p 413 s out
              else
                let p1 = p\<lparr>hp_remaining := chunk_value digits\<rparr>
                in if hp_remaining p1 > hp_maxBody p - hp_bodyBytes p then fail_flow p1 413 s out
                   else (None, p1\<lparr>hp_chunkOverhead := hp_chunkOverhead p + (length line + 2),
                                 hp_stage := (if hp_remaining p1 = 0 then Trailers else ChunkData)\<rparr>, rest, out))"

definition stage_chunk_data :: "parse_state \<Rightarrow> flow" where
  "stage_chunk_data st = (case st of (p, s, out) \<Rightarrow>
     if hp_stage p \<noteq> ChunkData then (None, st)
     else
       let p1 = take_body p s; s1 = drop (body_count p s) s
       in if hp_streaming p \<and> body_count p s \<noteq> 0 then
            hand_out (if hp_remaining p1 = 0 then p1\<lparr>hp_stage := ChunkEnd\<rparr> else p1) s1 out
          else if hp_remaining p1 \<noteq> 0 then (Some need_more, p1, s1, out)
          else (None, p1\<lparr>hp_stage := ChunkEnd\<rparr>, s1, out))"

definition stage_chunk_end :: "parse_state \<Rightarrow> flow" where
  "stage_chunk_end st = (case st of (p, s, out) \<Rightarrow>
     if hp_stage p \<noteq> ChunkEnd then (None, st)
     else if length s < 2 then (Some need_more, p, s, out)
     else if take 2 s \<noteq> CRLF then fail_flow p 400 s out
     else if hp_chunkOverhead p > hp_maxHeaders p - 2 then fail_flow p 431 s out
     else (None, p\<lparr>hp_chunkOverhead := (if hp_streaming p then 0 else hp_chunkOverhead p + 2), hp_stage := ChunkSize\<rparr>,
           drop 2 s, out))"

definition stage_trailers :: "parse_state \<Rightarrow> flow" where
  "stage_trailers st = (case st of (p, s, out) \<Rightarrow>
     if hp_stage p \<noteq> Trailers then (None, st)
     else case cut_crlf s of
       None \<Rightarrow>
         if length s > hp_maxHeaders p - hp_trailerBytes p then fail_flow p 431 s out else (Some need_more, p, s, out)
     | Some (line, rest) \<Rightarrow>
         if length line + 2 > hp_maxHeaders p - hp_trailerBytes p then fail_flow p 431 s out
         else
           let p1 = p\<lparr>hp_trailerBytes := hp_trailerBytes p + (length line + 2)\<rparr>
           in if line = [] then complete_flow p1 rest
              else case ParseHeader line of
                None \<Rightarrow> fail_flow p1 400 s out
              | Some (name, field) \<Rightarrow>
                  if ForbiddenTrailer name then fail_flow p1 400 s out
                  else (None, p1, rest, out))"

text \<open>One turn of the loop, and the loop.\<close>

definition Advance_turn :: "parse_state \<Rightarrow> flow" where
  "Advance_turn st =
     (if hp_stage (fst st) = Failed then (Some (http_result HK_Error 400), st)
      else and_then (and_then (and_then (and_then (and_then (stage_headers st) stage_continue) stage_fixed)
             stage_chunk_size) stage_chunk_data) (\<lambda>st. if hp_stage (fst st) = ChunkEnd then stage_chunk_end st else stage_trailers st))"

lemma and_then_None:
  "and_then a f = (None, st') \<longleftrightarrow> (\<exists>st. a = (None, st) \<and> f st = (None, st'))"
  by (auto simp: and_then_def split: prod.splits option.splits)

lemma ParseHeaders_stage:
  "ParseHeaders p block = (r, p') \<Longrightarrow> hr_kind r \<noteq> HK_Error \<Longrightarrow> hp_stage p' = FixedBody \<or> hp_stage p' = ChunkSize"
  by (auto simp: ParseHeaders_def Parser_Fail_def Let_def split: option.splits sum.splits prod.splits if_splits)

lemma skip_crlf_length: "length (skip_crlf s) \<le> length s"
  by (induction s rule: skip_crlf.induct) auto

lemma stage_headers_None:
  "stage_headers (p, s, out) = (None, p', s', out') \<Longrightarrow>
   length s' \<le> length s \<and> hp_stage p' \<noteq> Headers \<and> (hp_stage p = Headers \<longrightarrow> hp_stage p' \<noteq> Failed) \<and>
   (hp_stage p \<noteq> Headers \<longrightarrow> p' = p)"
  using skip_crlf_length [of s] ParseHeaders_stage
  by (fastforce simp: stage_headers_def fail_flow_def Let_def split: if_splits scan.splits prod.splits)

lemma stage_continue_None: "stage_continue st = (None, st') \<Longrightarrow> st' = st"
  by (auto simp: stage_continue_def split: if_splits prod.splits)

lemma stage_fixed_None: "stage_fixed (p, s, out) = (None, st') \<Longrightarrow> st' = (p, s, out) \<and> hp_stage p \<noteq> FixedBody"
  by (auto simp: stage_fixed_def hand_out_def complete_flow_def Let_def split: if_splits prod.splits)

lemma stage_chunk_size_None:
  "stage_chunk_size (p, s, out) = (None, p', s', out') \<Longrightarrow>
   length s' \<le> length s \<and> hp_stage p' \<noteq> ChunkSize \<and> (p' = p \<or> hp_stage p' = Trailers \<or> hp_stage p' = ChunkData)"
  by (auto simp: stage_chunk_size_def fail_flow_def Let_def dest: cut_crlf_length split: if_splits option.splits prod.splits)

lemma stage_chunk_data_None:
  "stage_chunk_data (p, s, out) = (None, p', s', out') \<Longrightarrow>
   length s' \<le> length s \<and> hp_stage p' \<noteq> ChunkData \<and> (p' = p \<or> hp_stage p' = ChunkEnd)"
  by (auto simp: stage_chunk_data_def hand_out_def Let_def split: if_splits)

lemma stage_chunk_end_None:
  "stage_chunk_end (p, s, out) = (None, p', s', out') \<Longrightarrow> hp_stage p = ChunkEnd \<Longrightarrow> length s' < length s"
  by (auto simp: stage_chunk_end_def fail_flow_def split: if_splits)

lemma stage_trailers_None:
  "stage_trailers (p, s, out) = (None, p', s', out') \<Longrightarrow> hp_stage p = Trailers \<Longrightarrow> length s' < length s"
  by (auto simp: stage_trailers_def fail_flow_def complete_flow_def Parser_Complete_def Let_def dest: cut_crlf_length
      split: if_splits option.splits prod.splits)

text \<open>A turn that does not return has consumed input, so the loop ends.\<close>

lemma Advance_turn_consumes:
  assumes "Advance_turn (p, s, out) = (None, p', s', out')"
  shows "length s' < length s"
proof -
  have running: "hp_stage p \<noteq> Failed" using assms by (auto simp: Advance_turn_def)
  obtain p1 s1 o1 p2 s2 o2 p3 s3 o3 where
    a: "stage_headers (p, s, out) = (None, p1, s1, o1)" and
    b: "hp_stage p1 \<noteq> FixedBody" and
    c: "stage_chunk_size (p1, s1, o1) = (None, p2, s2, o2)" and
    d: "stage_chunk_data (p2, s2, o2) = (None, p3, s3, o3)" and
    e: "(if hp_stage p3 = ChunkEnd then stage_chunk_end (p3, s3, o3) else stage_trailers (p3, s3, o3)) = (None, p', s', out')"
    using assms running unfolding Advance_turn_def
    by (auto simp: and_then_None dest!: stage_continue_None stage_fixed_None)
  have lengths: "length s3 \<le> length s"
    using stage_headers_None [OF a] stage_chunk_size_None [OF c] stage_chunk_data_None [OF d] by linarith
  have "hp_stage p3 = ChunkEnd \<or> hp_stage p3 = Trailers"
    using stage_headers_None [OF a] b stage_chunk_size_None [OF c] stage_chunk_data_None [OF d] running
    by (cases "hp_stage p3") auto
  then have "length s' < length s3"
    using e stage_chunk_end_None [of p3 s3 o3 p' s' out'] stage_trailers_None [of p3 s3 o3 p' s' out'] by (auto split: if_splits)
  then show ?thesis using lengths by linarith
qed

function Advance :: "parse_state \<Rightarrow> HttpParseResult \<times> parse_state" where
  "Advance st = (case Advance_turn st of (Some r, st') \<Rightarrow> (r, st') | (None, st') \<Rightarrow> Advance st')"
  by pat_completeness auto
termination
  by (relation "measure (\<lambda>(p, s, out). length s)") (auto dest: Advance_turn_consumes [OF sym] Advance_turn_consumes)

declare Advance.simps [simp del]

text \<open>\<^verbatim>\<open>Parse\<close>: the number of consumed bytes, and the overload that erases them from the buffer.\<close>

definition Parser_Parse :: "HttpParser \<Rightarrow> string \<Rightarrow> HttpRequest \<Rightarrow> HttpParseResult \<times> nat \<times> HttpParser \<times> HttpRequest" where
  "Parser_Parse p input out =
     (case Advance (p, input, out) of (r, p', rest, out') \<Rightarrow> (r, length input - length rest, p', out'))"

definition Parser_Parse_erase :: "HttpParser \<Rightarrow> string \<Rightarrow> HttpRequest \<Rightarrow> HttpParseResult \<times> string \<times> HttpParser \<times> HttpRequest" where
  "Parser_Parse_erase p input out =
     (case Parser_Parse p input out of (r, consumed, p', out') \<Rightarrow> (r, drop consumed input, p', out'))"

section \<open>Invariants of the stages\<close>

text \<open>A stage keeps a property of the state; the property may speak of the result that is returned.\<close>

definition keeps :: "(HttpParseResult option \<Rightarrow> parse_state \<Rightarrow> bool) \<Rightarrow> (parse_state \<Rightarrow> flow) \<Rightarrow> bool" where
  "keeps I f \<longleftrightarrow> (\<forall>st r st1. f st = (r, st1) \<longrightarrow> I None st \<longrightarrow> I r st1)"

lemma keepsD: "keeps I f \<Longrightarrow> f st = (r, st1) \<Longrightarrow> I None st \<Longrightarrow> I r st1"
  unfolding keeps_def by blast

lemma keeps_and_then:
  assumes "keeps I f" "keeps I g"
  shows "keeps I (\<lambda>st. and_then (f st) g)"
  unfolding keeps_def
proof (intro allI impI)
  fix st r st2
  assume run: "and_then (f st) g = (r, st2)" and start: "I None st"
  obtain q st1 where q: "f st = (q, st1)" by (cases "f st") auto
  have first: "I q st1" by (rule keepsD [OF assms(1) q start])
  show "I r st2"
  proof (cases q)
    case None
    then have "g st1 = (r, st2)" using run q by (simp add: and_then_def)
    then show ?thesis using keepsD [OF assms(2)] first None by blast
  next
    case (Some x)
    then show ?thesis using run q first by (simp add: and_then_def)
  qed
qed

text \<open>The stages of a turn, the last one with the jump to the start of the loop.\<close>

definition stage_last :: "parse_state \<Rightarrow> flow" where
  "stage_last st = (if hp_stage (fst st) = ChunkEnd then stage_chunk_end st else stage_trailers st)"

lemma keeps_turn:
  assumes "keeps I stage_headers" "keeps I stage_continue" "keeps I stage_fixed" "keeps I stage_chunk_size"
    "keeps I stage_chunk_data" "keeps I stage_last"
    and failed: "\<And>p s out. hp_stage p = Failed \<Longrightarrow> I None (p, s, out) \<Longrightarrow> I (Some (http_result HK_Error 400)) (p, s, out)"
  shows "keeps I Advance_turn"
proof -
  have "keeps I (\<lambda>st. and_then (and_then (and_then (and_then (and_then (stage_headers st) stage_continue) stage_fixed)
             stage_chunk_size) stage_chunk_data) stage_last)"
    using assms by (intro keeps_and_then)
  then show ?thesis
    using failed unfolding keeps_def Advance_turn_def stage_last_def [abs_def] by (auto split: if_splits)
qed

lemma Advance_result: "Advance_turn st = (Some r, st') \<Longrightarrow> Advance st = (r, st')"
  by (subst Advance.simps) simp

lemma Advance_again: "Advance_turn st = (None, st') \<Longrightarrow> Advance st = Advance st'"
  by (subst Advance.simps) simp

lemma Advance_keeps:
  assumes turn: "keeps I Advance_turn" and start: "I None st" and run: "Advance st = (r, st1)"
  shows "I (Some r) st1"
  using start run
proof (induction st rule: Advance.induct)
  case (1 st)
  obtain x st2 where x: "Advance_turn st = (x, st2)" by (cases "Advance_turn st") auto
  show ?case
  proof (cases x)
    case None
    then have "I None st2" using keepsD [OF turn x "1.prems"(1)] by simp
    moreover have "Advance st2 = (r, st1)" using "1.prems"(2) x None Advance_again by simp
    ultimately show ?thesis using "1.IH" [OF x [symmetric] None] by blast
  next
    case (Some y)
    then show ?thesis using keepsD [OF turn x "1.prems"(1)] "1.prems"(2) x Advance_result by simp
  qed
qed

end
