(* ===== verification/HttpParserCut.thy ===== *)
theory HttpParserCut
  imports HttpParser
begin

text \<open>
  The HTTP parser does not depend on how its input is cut: calls on the growing input, each stopping for
  more, end with the result of a single call on the whole input.
\<close>

section \<open>States up to the search position\<close>

text \<open>Behind the header stage the position of the search is no longer read.\<close>

definition norm :: "HttpParser \<Rightarrow> HttpParser" where
  "norm p = (if hp_stage p = Headers then p else p\<lparr>hp_headerSearch := 0\<rparr>)"

definition norm_flow :: "'r \<times> parse_state \<Rightarrow> 'r \<times> parse_state" where
  "norm_flow a = (case a of (r, p, s, out) \<Rightarrow> (r, norm p, s, out))"

definition norm_stable :: "(parse_state \<Rightarrow> flow) \<Rightarrow> bool" where
  "norm_stable f \<longleftrightarrow> (\<forall>p s out. norm_flow (f (norm p, s, out)) = norm_flow (f (p, s, out)))"

lemma norm_norm [simp]: "norm (norm p) = norm p"
  by (simp add: norm_def)

lemma norm_flow_iff:
  "norm_flow (r, p, s, out) = norm_flow (r', p', s', out') \<longleftrightarrow> r = r' \<and> norm p = norm p' \<and> s = s' \<and> out = out'"
  by (auto simp: norm_flow_def)

lemma norm_stable_eq: "norm_stable f \<Longrightarrow> norm p = norm p' \<Longrightarrow> norm_flow (f (p, s, out)) = norm_flow (f (p', s, out))"
  unfolding norm_stable_def by metis

lemma norm_and_then:
  assumes "norm_stable g" and "norm_flow a = norm_flow b"
  shows "norm_flow (and_then a g) = norm_flow (and_then b g)"
proof -
  obtain r p s out r' p' s' out' where ab: "a = (r, p, s, out)" "b = (r', p', s', out')"
    by (cases a; cases b) auto
  then have same: "r = r'" "norm p = norm p'" "s = s'" "out = out'" using assms(2) by (auto simp: norm_flow_iff)
  show ?thesis
  proof (cases r)
    case None
    then show ?thesis using norm_stable_eq [OF assms(1) same(2), of s out] ab same by (simp add: and_then_def)
  next
    case (Some a)
    then show ?thesis using ab same by (simp add: and_then_def norm_flow_iff)
  qed
qed

lemma norm_stable_and_then:
  assumes "norm_stable f" "norm_stable g"
  shows "norm_stable (\<lambda>st. and_then (f st) g)"
  unfolding norm_stable_def using norm_and_then [OF assms(2)] norm_stable_eq [OF assms(1)] by (metis norm_norm)

named_theorems stage_defs \<open>the stages of the parser\<close>

declare stage_continue_def [stage_defs] stage_fixed_def [stage_defs] stage_chunk_size_def [stage_defs]
  stage_chunk_data_def [stage_defs] stage_chunk_end_def [stage_defs] stage_trailers_def [stage_defs]
  fail_flow_def [stage_defs] complete_flow_def [stage_defs] Parser_Fail_def [stage_defs] Parser_Complete_def [stage_defs]
  hand_out_def [stage_defs] take_body_def [stage_defs] Let_def [stage_defs]

lemma body_count_search [simp]: "body_count (p\<lparr>hp_headerSearch := n\<rparr>) s = body_count p s"
  by (simp add: body_count_def)

text \<open>A stage that treats the search position as payload only has to be looked at in its own stage.\<close>

lemma norm_stableI:
  assumes "\<And>p s out. hp_stage p \<noteq> Headers \<Longrightarrow> norm_flow (f (p\<lparr>hp_headerSearch := 0\<rparr>, s, out)) = norm_flow (f (p, s, out))"
  shows "norm_stable f"
  using assms by (simp add: norm_stable_def norm_def)

lemma norm_update: "hp_stage p \<noteq> Headers \<Longrightarrow> norm p = p\<lparr>hp_headerSearch := 0\<rparr>"
  by (simp add: norm_def)

lemma norm_stable_headers: "norm_stable stage_headers"
  unfolding norm_stable_def by (auto simp: norm_def stage_headers_def norm_flow_def)

lemma norm_stable_continue: "norm_stable stage_continue"
  unfolding norm_stable_def by (auto simp: norm_def norm_flow_def stage_defs)

lemma norm_stable_fixed: "norm_stable stage_fixed"
  by (rule norm_stableI) (auto simp: norm_flow_def stage_defs norm_def)

lemma norm_stable_chunk_size: "norm_stable stage_chunk_size"
  by (rule norm_stableI) (auto simp: norm_flow_def stage_defs norm_def split: option.splits)

lemma norm_stable_chunk_data: "norm_stable stage_chunk_data"
  by (rule norm_stableI) (auto simp: norm_flow_def stage_defs norm_def)

lemma norm_stable_last: "norm_stable stage_last"
  by (rule norm_stableI) (auto simp: stage_last_def norm_flow_def stage_defs norm_def split: option.splits)

text \<open>A turn as its two halves.\<close>

definition front :: "parse_state \<Rightarrow> flow" where
  "front st = and_then (stage_headers st) stage_continue"

definition back_stages :: "parse_state \<Rightarrow> flow" where
  "back_stages st = and_then (and_then (and_then (stage_fixed st) stage_chunk_size) stage_chunk_data) stage_last"

lemma and_then_assoc: "and_then (and_then a f) g = and_then a (\<lambda>st. and_then (f st) g)"
  by (auto simp: and_then_def split: prod.splits option.splits)

lemma Advance_turn_halves:
  "hp_stage (fst st) \<noteq> Failed \<Longrightarrow> Advance_turn st = and_then (front st) back_stages"
  unfolding Advance_turn_def front_def back_stages_def stage_last_def [abs_def] by (simp add: and_then_assoc)

lemma norm_stable_back: "norm_stable back_stages"
  unfolding back_stages_def [abs_def]
  by (intro norm_stable_and_then norm_stable_fixed norm_stable_chunk_size norm_stable_chunk_data norm_stable_last)

section \<open>Resuming\<close>

text \<open>
  What a stage promises when the input is continued: a stage that falls through or returns does the same
  with more input behind it; one that asks for more behaves on the longer input as it does when it is
  called again; and a failure stays a failure.
\<close>

definition resume_step ::
    "(parse_state \<Rightarrow> flow) \<Rightarrow> parse_state \<Rightarrow> string \<Rightarrow> HttpParseResult option \<Rightarrow> parse_state \<Rightarrow> bool" where
  "resume_step f longer m r st1 = (case st1 of (p1, s1, out1) \<Rightarrow>
     (case r of
        None \<Rightarrow> f longer = (None, p1, s1 @ m, out1)
      | Some r \<Rightarrow>
          (case hr_kind r of
             HK_NeedMore \<Rightarrow> norm_flow (f longer) = norm_flow (f (p1, s1 @ m, out1))
           | HK_Error \<Rightarrow> (\<exists>r' st'. f longer = (Some r', st') \<and> hr_kind r' = HK_Error)
           | _ \<Rightarrow> f longer = (Some r, p1, s1 @ m, out1))))"

definition resumes :: "(parse_state \<Rightarrow> flow) \<Rightarrow> HttpParser \<Rightarrow> string \<Rightarrow> HttpRequest \<Rightarrow> bool" where
  "resumes f p s out \<longleftrightarrow> (\<forall>m. resume_step f (p, s @ m, out) m (fst (f (p, s, out))) (snd (f (p, s, out))))"

lemma resumesI:
  assumes "\<And>m r p1 s1 out1. f (p, s, out) = (r, p1, s1, out1) \<Longrightarrow> resume_step f (p, s @ m, out) m r (p1, s1, out1)"
  shows "resumes f p s out"
  using assms by (cases "f (p, s, out)") (auto simp: resumes_def)

lemma resumesD: "resumes f p s out \<Longrightarrow> f (p, s, out) = (r, st1) \<Longrightarrow> resume_step f (p, s @ m, out) m r st1"
  by (auto simp: resumes_def)

lemma resumes_and_then:
  assumes f: "resumes f p s out" and g: "norm_stable g"
    and rest: "\<And>p1 s1 out1. f (p, s, out) = (None, p1, s1, out1) \<Longrightarrow> resumes g p1 s1 out1"
    and skip: "\<And>p1 s1 out1 r p2 s2 out2 s'. f (p, s, out) = (None, p1, s1, out1) \<Longrightarrow>
        g (p1, s1, out1) = (Some r, p2, s2, out2) \<Longrightarrow> hr_kind r = HK_NeedMore \<Longrightarrow> f (p2, s', out2) = (None, p2, s', out2)"
  shows "resumes (\<lambda>st. and_then (f st) g) p s out"
proof (rule resumesI)
  fix m r p2 s2 out2
  assume run: "and_then (f (p, s, out)) g = (r, p2, s2, out2)"
  obtain q p1 s1 out1 where q: "f (p, s, out) = (q, p1, s1, out1)" by (cases "f (p, s, out)") auto
  note fm = resumesD [OF f q, of m]
  show "resume_step (\<lambda>st. and_then (f st) g) (p, s @ m, out) m r (p2, s2, out2)"
  proof (cases q)
    case None
    then have more: "f (p, s @ m, out) = (None, p1, s1 @ m, out1)" using fm by (simp add: resume_step_def)
    have gr: "g (p1, s1, out1) = (r, p2, s2, out2)" using run q None by (simp add: and_then_def)
    have gm: "resume_step g (p1, s1 @ m, out1) m r (p2, s2, out2)" using resumesD [OF rest gr] q None by simp
    have skipped: "f (p2, s2 @ m, out2) = (None, p2, s2 @ m, out2)" if "r = Some r'" "hr_kind r' = HK_NeedMore" for r'
      by (rule skip [OF _ _ that(2)]) (use q None gr that(1) in simp_all)
    show ?thesis
    proof (cases r)
      case Nothing: None
      then show ?thesis using gm more by (simp add: resume_step_def and_then_def)
    next
      case (Some r')
      then show ?thesis
        using gm more skipped by (cases "hr_kind r'") (simp_all add: resume_step_def and_then_def)
    qed
  next
    case (Some r')
    then have r: "r = Some r'" "p2 = p1" "s2 = s1" "out2 = out1" using run q by (auto simp: and_then_def)
    show ?thesis
    proof (cases "hr_kind r'")
      case HK_NeedMore
      then have "norm_flow (f (p, s @ m, out)) = norm_flow (f (p1, s1 @ m, out1))"
        using fm Some by (simp add: resume_step_def)
      from norm_and_then [OF g this] show ?thesis using r HK_NeedMore by (simp add: resume_step_def)
    next
      case HK_Error
      then show ?thesis using fm Some r by (auto simp: resume_step_def and_then_def)
    qed (use fm Some r in \<open>simp_all add: resume_step_def and_then_def\<close>)
  qed
qed

lemma resumes_continue: "resumes stage_continue p s out"
  by (simp add: resumes_def resume_step_def stage_continue_def)

text \<open>Body bytes: what is taken from the longer input is taken in two steps.\<close>

lemma body_count_append:
  assumes "\<not> hp_streaming p" and "hp_remaining (take_body p s) \<noteq> 0"
  shows "drop (body_count p s) s = []" and "take_body p (s @ m) = take_body (take_body p s) m"
    and "drop (body_count p (s @ m)) (s @ m) = drop (body_count (take_body p s) m) m"
proof -
  have short: "length s < hp_remaining p" and all: "body_count p s = length s"
    using assms by (auto simp: take_body_def body_count_def)
  have rest: "body_count p (s @ m) = length s + body_count (take_body p s) m"
    using short assms(1) by (auto simp: take_body_def body_count_def)
  show "drop (body_count p s) s = []" using all by simp
  show "drop (body_count p (s @ m)) (s @ m) = drop (body_count (take_body p s) m) m" using rest by simp
  show "take_body p (s @ m) = take_body (take_body p s) m"
    unfolding take_body_def [of p "s @ m"] take_body_def [of "take_body p s" m] rest
    using all by (simp add: take_body_def)
qed

lemma body_count_complete:
  assumes "hp_remaining (take_body p s) = 0" and "\<not> hp_streaming p"
  shows "take_body p (s @ m) = take_body p s" "drop (body_count p (s @ m)) (s @ m) = drop (body_count p s) s @ m"
proof -
  have "body_count p (s @ m) = body_count p s" "body_count p s \<le> length s"
    using assms by (auto simp: take_body_def body_count_def)
  then show "take_body p (s @ m) = take_body p s" "drop (body_count p (s @ m)) (s @ m) = drop (body_count p s) s @ m"
    by (simp_all add: take_body_def)
qed

lemma take_body_kept [simp]: "hp_stage (take_body p s) = hp_stage p" "hp_streaming (take_body p s) = hp_streaming p"
  "hp_continue (take_body p s) = hp_continue p"
  by (simp_all add: take_body_def)

lemma resumes_fixed:
  assumes "\<not> hp_streaming p"
  shows "resumes stage_fixed p s out"
proof (cases "hp_stage p = FixedBody")
  case True
  then show ?thesis
    using assms body_count_append [of p s] body_count_complete [of p s]
    by (cases "hp_remaining (take_body p s) = 0")
       (simp_all add: resumes_def resume_step_def stage_fixed_def Let_def complete_flow_def Parser_Complete_def need_more_def)
qed (simp add: resumes_def resume_step_def stage_fixed_def)

lemma resumes_chunk_data:
  assumes "\<not> hp_streaming p"
  shows "resumes stage_chunk_data p s out"
proof (cases "hp_stage p = ChunkData")
  case True
  then show ?thesis
    using assms body_count_append [of p s] body_count_complete [of p s]
    by (cases "hp_remaining (take_body p s) = 0")
       (simp_all add: resumes_def resume_step_def stage_chunk_data_def Let_def need_more_def)
qed (simp add: resumes_def resume_step_def stage_chunk_data_def)

text \<open>A line end that is not yet there lies behind the input.\<close>

lemma cut_crlf_beyond: "cut_crlf s = None \<Longrightarrow> cut_crlf (s @ m) = Some (l, r) \<Longrightarrow> length s < length l + 2"
proof (induction s arbitrary: l rule: cut_crlf.induct)
  case (1 a b s)
  have start: "\<not> (a = CHR 0x0D \<and> b = CHR 0x0A)" and none: "cut_crlf (b # s) = None"
    using "1.prems"(1) by (auto split: if_splits option.splits)
  obtain l' where l': "cut_crlf ((b # s) @ m) = Some (l', r)" "l = a # l'"
    using "1.prems"(2) start by (auto split: option.splits)
  show ?case using "1.IH" [OF start none l'(1)] l'(2) by simp
qed simp_all

definition is_error :: "flow \<Rightarrow> bool" where
  "is_error a \<longleftrightarrow> (\<exists>r st. a = (Some r, st) \<and> hr_kind r = HK_Error)"

lemma fail_flow_error [simp]: "is_error (fail_flow p status s out)"
  by (simp add: fail_flow_def Parser_Fail_def is_error_def)

lemma resume_step_error: "hr_kind r = HK_Error \<Longrightarrow> is_error (f longer) \<Longrightarrow> resume_step f longer m (Some r) st1"
  by (cases st1) (auto simp: resume_step_def is_error_def)

text \<open>
  The two stages that read a line under a limit: the work \<open>k\<close> on a complete line does not look at the input
  behind it.
\<close>

lemma resumes_line:
  assumes f: "\<And>t. f (p, t, out) = (case cut_crlf t of
        None \<Rightarrow> if length t > limit then fail_flow p 431 t out else (Some need_more, p, t, out)
      | Some (line, rest) \<Rightarrow> if length line + 2 > limit then fail_flow p 431 t out else k line rest t)"
    and k: "\<And>line rest t m. (\<exists>r p1 out1. k line rest t = (r, p1, rest, out1) \<and> k line (rest @ m) (t @ m) = (r, p1, rest @ m, out1) \<and>
          (r = None \<or> r = Some (http_result HK_Complete 200))) \<or> (is_error (k line rest t) \<and> is_error (k line (rest @ m) (t @ m)))"
  shows "resumes f p s out"
proof (rule resumesI)
  fix m r p1 s1 out1
  assume run: "f (p, s, out) = (r, p1, s1, out1)"
  show "resume_step f (p, s @ m, out) m r (p1, s1, out1)"
  proof (cases "cut_crlf s")
    case None
    show ?thesis
    proof (cases "length s > limit")
      case True
      have "is_error (f (p, s @ m, out))"
        using True cut_crlf_beyond [OF None, of m] unfolding f by (cases "cut_crlf (s @ m)") auto
      moreover have "\<exists>x. r = Some x \<and> hr_kind x = HK_Error"
        using run None True unfolding f by (auto simp: fail_flow_def Parser_Fail_def)
      ultimately show ?thesis using resume_step_error by blast
    next
      case False
      then show ?thesis using run None unfolding f [of s] by (auto simp: resume_step_def need_more_def)
    qed
  next
    case (Some lr)
    then obtain line rest where cut: "cut_crlf s = Some (line, rest)" by (cases lr) auto
    show ?thesis
    proof (cases "length line + 2 > limit")
      case True
      then have "is_error (f (p, s @ m, out))" using cut_crlf_append [OF cut, of m] unfolding f by simp
      moreover have "\<exists>x. r = Some x \<and> hr_kind x = HK_Error"
        using run cut True unfolding f by (auto simp: fail_flow_def Parser_Fail_def)
      ultimately show ?thesis using resume_step_error by blast
    next
      case False
      then have "f (p, s, out) = k line rest s" "f (p, s @ m, out) = k line (rest @ m) (s @ m)"
        using cut cut_crlf_append [OF cut, of m] unfolding f by simp_all
      then show ?thesis using k [of line rest s m] run resume_step_error [of _ f "(p, s @ m, out)" m "(p1, s1, out1)"]
        by (auto simp: resume_step_def is_error_def)
    qed
  qed
qed

lemma resumes_chunk_size: "resumes stage_chunk_size p s out"
proof (cases "hp_stage p = ChunkSize")
  case True
  show ?thesis
  proof (rule resumes_line [where limit = "hp_maxHeaders p - hp_chunkOverhead p"])
    show "stage_chunk_size (p, t, out) = (case cut_crlf t of
        None \<Rightarrow> if length t > hp_maxHeaders p - hp_chunkOverhead p then fail_flow p 431 t out else (Some need_more, p, t, out)
      | Some (line, rest) \<Rightarrow> if length line + 2 > hp_maxHeaders p - hp_chunkOverhead p then fail_flow p 431 t out
          else (let digits = takeWhile ishex line; extension = dropWhile ishex line
           in if digits = [] \<or> (extension \<noteq> [] \<and> \<not> ValidChunkExtensions extension) then fail_flow p 400 t out
              else if chunk_value digits > SIZE_MAX then fail_flow p 413 t out
              else
                let p1 = p\<lparr>hp_remaining := chunk_value digits\<rparr>
                in if hp_remaining p1 > hp_maxBody p - hp_bodyBytes p then fail_flow p1 413 t out
                   else (None, p1\<lparr>hp_chunkOverhead := hp_chunkOverhead p + (length line + 2),
                                 hp_stage := (if hp_remaining p1 = 0 then Trailers else ChunkData)\<rparr>, rest, out)))" for t
      using True by (simp add: stage_chunk_size_def)
  qed (auto simp: Let_def)
qed (simp add: resumes_def resume_step_def stage_chunk_size_def)

lemma resumes_trailers: "resumes stage_trailers p s out"
proof (cases "hp_stage p = Trailers")
  case True
  show ?thesis
  proof (rule resumes_line [where limit = "hp_maxHeaders p - hp_trailerBytes p"])
    show "stage_trailers (p, t, out) = (case cut_crlf t of
        None \<Rightarrow> if length t > hp_maxHeaders p - hp_trailerBytes p then fail_flow p 431 t out else (Some need_more, p, t, out)
      | Some (line, rest) \<Rightarrow> if length line + 2 > hp_maxHeaders p - hp_trailerBytes p then fail_flow p 431 t out
          else (let p1 = p\<lparr>hp_trailerBytes := hp_trailerBytes p + (length line + 2)\<rparr>
           in if line = [] then complete_flow p1 rest
              else case ParseHeader line of
                None \<Rightarrow> fail_flow p1 400 t out
              | Some (name, field) \<Rightarrow>
                  if ForbiddenTrailer name then fail_flow p1 400 t out
                  else (None, p1, rest, out)))" for t
      using True by (simp add: stage_trailers_def)
  qed (auto simp: Let_def complete_flow_def Parser_Complete_def split: option.splits)
qed (simp add: resumes_def resume_step_def stage_trailers_def)

lemma resumes_chunk_end: "resumes stage_chunk_end p s out"
  by (cases "length s < 2") (auto simp: resumes_def resume_step_def stage_chunk_end_def need_more_def fail_flow_def Parser_Fail_def)

lemma resume_step_cong:
  assumes "f longer = g longer" and "\<And>x. r = Some x \<Longrightarrow> hr_kind x = HK_NeedMore \<Longrightarrow> f (p1, s1 @ m, out1) = g (p1, s1 @ m, out1)"
  shows "resume_step f longer m r (p1, s1, out1) = resume_step g longer m r (p1, s1, out1)"
proof (cases r)
  case (Some x)
  then show ?thesis using assms by (cases "hr_kind x") (simp_all add: resume_step_def)
qed (simp add: resume_step_def assms(1))

lemma resumes_last: "resumes stage_last p s out"
proof (rule resumesI)
  fix m r p1 s1 out1
  assume run: "stage_last (p, s, out) = (r, p1, s1, out1)"
  have kept: "p1 = p" if "r = Some x" "hr_kind x = HK_NeedMore" for x
    using run that
    by (auto simp: stage_last_def stage_chunk_end_def stage_trailers_def need_more_def fail_flow_def Parser_Fail_def
        complete_flow_def Parser_Complete_def Let_def split: if_splits option.splits)
  show "resume_step stage_last (p, s @ m, out) m r (p1, s1, out1)"
  proof (cases "hp_stage p = ChunkEnd")
    case True
    have "resume_step stage_chunk_end (p, s @ m, out) m r (p1, s1, out1)"
      using resumesD [OF resumes_chunk_end] run True by (simp add: stage_last_def)
    then show ?thesis
      using resume_step_cong [of stage_last _ stage_chunk_end r p1 s1 m out1] kept True by (simp add: stage_last_def)
  next
    case False
    have "resume_step stage_trailers (p, s @ m, out) m r (p1, s1, out1)"
      using resumesD [OF resumes_trailers] run False by (simp add: stage_last_def)
    then show ?thesis
      using resume_step_cong [of stage_last _ stage_trailers r p1 s1 m out1] kept False by (simp add: stage_last_def)
  qed
qed

section \<open>The stages behind the headers\<close>

lemma need_more_stage:
  "stage_chunk_size (p, s, out) = (Some r, p2, s2, out2) \<Longrightarrow> hr_kind r = HK_NeedMore \<Longrightarrow> p2 = p \<and> hp_stage p = ChunkSize \<and> out2 = out"
  "stage_fixed (p, s, out) = (Some r, p2, s2, out2) \<Longrightarrow> hr_kind r = HK_NeedMore \<Longrightarrow> hp_stage p2 = FixedBody \<and> hp_continue p2 = hp_continue p"
  "stage_chunk_data (p, s, out) = (Some r, p2, s2, out2) \<Longrightarrow> hr_kind r = HK_NeedMore \<Longrightarrow> hp_stage p2 = ChunkData \<and> hp_continue p2 = hp_continue p"
  "stage_last (p, s, out) = (Some r, p2, s2, out2) \<Longrightarrow> hr_kind r = HK_NeedMore \<Longrightarrow> p2 = p \<and> (hp_stage p = ChunkEnd \<or> hp_stage p = Trailers)"
  by (auto simp: stage_chunk_size_def stage_fixed_def stage_chunk_data_def stage_last_def stage_chunk_end_def stage_trailers_def
      need_more_def fail_flow_def Parser_Fail_def complete_flow_def Parser_Complete_def hand_out_def Let_def
      split: if_splits option.splits)

lemma stage_None_kept:
  "stage_chunk_size (p, s, out) = (None, p2, s2, out2) \<Longrightarrow> hp_streaming p2 = hp_streaming p \<and> hp_continue p2 = hp_continue p"
  "stage_chunk_data (p, s, out) = (None, p2, s2, out2) \<Longrightarrow> hp_streaming p2 = hp_streaming p \<and> hp_continue p2 = hp_continue p"
  by (auto simp: stage_chunk_size_def stage_chunk_data_def fail_flow_def hand_out_def Let_def split: if_splits option.splits)

lemma stage_skips:
  "hp_stage p \<noteq> FixedBody \<Longrightarrow> stage_fixed (p, s, out) = (None, p, s, out)"
  "hp_stage p \<noteq> ChunkSize \<Longrightarrow> stage_chunk_size (p, s, out) = (None, p, s, out)"
  "hp_stage p \<noteq> ChunkData \<Longrightarrow> stage_chunk_data (p, s, out) = (None, p, s, out)"
  "hp_stage p \<noteq> Headers \<Longrightarrow> stage_headers (p, s, out) = (None, p, s, out)"
  "\<not> hp_continue p \<Longrightarrow> stage_continue (p, s, out) = (None, p, s, out)"
  by (simp_all add: stage_fixed_def stage_chunk_size_def stage_chunk_data_def stage_headers_def stage_continue_def)

lemma resumes_back:
  assumes "\<not> hp_streaming p"
  shows "resumes back_stages p s out"
proof -
  have two: "resumes (\<lambda>st. and_then (stage_fixed st) stage_chunk_size) p s out"
    by (rule resumes_and_then [OF resumes_fixed [OF assms] norm_stable_chunk_size resumes_chunk_size])
       (auto dest!: need_more_stage(1) simp: stage_skips)
  have kept: "\<not> hp_streaming p1" if "and_then (stage_fixed (p, s, out)) stage_chunk_size = (None, p1, s1, out1)" for p1 s1 out1
    using that assms by (auto simp: and_then_None dest!: stage_fixed_None dest: stage_None_kept(1))
  have three: "resumes (\<lambda>st. and_then (and_then (stage_fixed st) stage_chunk_size) stage_chunk_data) p s out"
    by (rule resumes_and_then [OF two norm_stable_chunk_data resumes_chunk_data [OF kept]])
       (auto dest!: need_more_stage(3) simp: stage_skips and_then_def)
  show ?thesis
    unfolding back_stages_def [abs_def]
    by (rule resumes_and_then [OF three norm_stable_last resumes_last])
       (auto dest!: need_more_stage(4) simp: stage_skips and_then_def)
qed

section \<open>The header stage\<close>

text \<open>The look at one position; \<open>ScanMore\<close> is a position that does not end the search.\<close>

definition scan_at :: "string \<Rightarrow> nat \<Rightarrow> scan" where
  "scan_at s i =
     (let afterCr = (i \<noteq> 0 \<and> s ! (i - 1) = CHR 0x0D)
      in if s ! i = CHR 0x0A then
           (if \<not> afterCr then ScanBad
            else if i \<ge> 3 \<and> s ! (i - 2) = CHR 0x0A then ScanEnd (i - 3) else ScanMore)
         else if afterCr then ScanBad else ScanMore)"

lemma scan_end_step:
  "i < length s \<Longrightarrow> scan_end s i = (case scan_at s i of ScanMore \<Rightarrow> scan_end s (Suc i) | r \<Rightarrow> r)"
  by (subst scan_end.simps) (simp add: scan_at_def Let_def)

lemma scan_end_done: "length s \<le> i \<Longrightarrow> scan_end s i = ScanMore"
  by (subst scan_end.simps) simp

lemma scan_at_append: "i < length s \<Longrightarrow> scan_at (s @ m) i = scan_at s i"
proof -
  assume "i < length s"
  then have "(s @ m) ! i = s ! i" "(s @ m) ! (i - 1) = s ! (i - 1)" "(s @ m) ! (i - 2) = s ! (i - 2)"
    by (simp_all add: nth_append less_imp_diff_less)
  then show ?thesis by (simp only: scan_at_def)
qed

lemma scan_at_end: "scan_at s i = ScanEnd e \<Longrightarrow> s ! i = CHR 0x0A \<and> i = e + 3"
  by (auto simp: scan_at_def Let_def split: if_splits)

lemma scan_end_append:
  "i \<le> length s \<Longrightarrow> scan_end (s @ m) i = (case scan_end s i of ScanMore \<Rightarrow> scan_end (s @ m) (length s) | r \<Rightarrow> r)"
proof (induction "length s - i" arbitrary: i)
  case 0
  then show ?case by (simp add: scan_end_done)
next
  case (Suc n)
  then have i: "i < length s" "n = length s - Suc i" by auto
  have "scan_end (s @ m) (Suc i) = (case scan_end s (Suc i) of ScanMore \<Rightarrow> scan_end (s @ m) (length s) | r \<Rightarrow> r)"
    using Suc.hyps(1) [OF i(2)] i(1) by simp
  then show ?case
    using i(1) scan_end_step [of i s] scan_end_step [of i "s @ m"] scan_at_append [OF i(1), of m]
    by (cases "scan_at s i") simp_all
qed

lemma scan_end_found: "scan_end s i = ScanEnd e \<Longrightarrow> i < e + 4 \<and> e + 4 \<le> length s \<and> CHR 0x0A \<in> set s"
proof (induction "length s - i" arbitrary: i)
  case 0
  then show ?case by (simp add: scan_end_done)
next
  case (Suc n)
  then have i: "i < length s" "n = length s - Suc i" by auto
  show ?case
  proof (cases "scan_at s i")
    case ScanMore
    then have "scan_end s (Suc i) = ScanEnd e" using Suc.prems i(1) by (simp add: scan_end_step)
    then show ?thesis using Suc.hyps(1) [OF i(2)] by auto
  next
    case (ScanEnd x)
    then have "x = e" using Suc.prems i(1) by (simp add: scan_end_step)
    then show ?thesis using scan_at_end [OF ScanEnd] i(1) by (auto simp: in_set_conv_nth)
  qed (use Suc.prems i(1) in \<open>simp add: scan_end_step\<close>)
qed

lemma head_prefix:
  assumes "CHR 0x0A \<in> set s"
  shows "take 5 (s @ m) = ''HEAD '' \<longleftrightarrow> take 5 s = ''HEAD ''"
proof (cases "5 \<le> length s")
  case False
  then have "take 5 s = s" "take 5 (s @ m) = s @ take (5 - length s) m" by simp_all
  moreover have "CHR 0x0A \<notin> set ''HEAD ''" by simp
  ultimately show ?thesis using assms by (metis Un_iff set_append)
qed simp

lemma skip_crlf_append:
  "skip_crlf (s @ m) = (if skip_crlf s = [] \<or> skip_crlf s = [CHR 0x0D] then skip_crlf (skip_crlf s @ m) else skip_crlf s @ m)"
  by (induction s rule: skip_crlf.induct; cases m) simp_all

text \<open>The work on the header block does not look at the search position.\<close>

abbreviation at_search :: "nat \<Rightarrow> HttpParser \<Rightarrow> HttpParser" where
  "at_search n p \<equiv> p\<lparr>hp_headerSearch := n\<rparr>"

definition searched :: "nat \<Rightarrow> (nat \<times> HttpParser) + HttpParser \<times> 'a \<Rightarrow> (nat \<times> HttpParser) + HttpParser \<times> 'a" where
  "searched n x = (case x of Inl (status, p) \<Rightarrow> Inl (status, at_search n p) | Inr (p, a) \<Rightarrow> Inr (at_search n p, a))"

lemma searched_simps [simp]:
  "searched n (Inl (status, p)) = Inl (status, at_search n p)" "searched n (Inr (p, a)) = Inr (at_search n p, a)"
  "searched n (if c then x else y) = (if c then searched n x else searched n y)"
  by (simp_all add: searched_def)

lemma searched_cases:
  obtains (fail) status p where "x = Inl (status, p)" | (ok) p a where "x = Inr (p, a)"
  by (cases x) auto

lemma request_line_search: "request_line (at_search n p) line = searched n (request_line p line)"
  by (auto simp: request_line_def Let_def split: prod.splits option.splits sum.splits)

lemma at_search_remaining: "(at_search n p)\<lparr>hp_remaining := v\<rparr> = at_search n (p\<lparr>hp_remaining := v\<rparr>)"
  by simp

lemma header_field_search: "header_field (at_search n p) fl name field = searched n (header_field p fl name field)"
  unfolding header_field_def by (simp add: at_search_remaining cong: if_cong split del: if_split)

lemma header_line_search: "header_line (at_search n p) fl line = searched n (header_line p fl line)"
proof (cases "ParseHeader line")
  case (Some nv)
  then obtain name field where nv: "ParseHeader line = Some (name, field)" by (cases nv) auto
  show ?thesis
    by (cases "header_field p fl name field" rule: searched_cases)
       (simp_all add: header_line_def nv header_field_search)
qed (simp add: header_line_def)

lemma header_lines_search: "header_lines (at_search n p) fl block = searched n (header_lines p fl block)"
proof (induction p fl block rule: header_lines.induct)
  case (1 p fl block)
  note unfold = header_lines.simps [of p fl block] header_lines.simps [of "at_search n p" fl block]
  show ?case
  proof (cases "block = [] \<or> cut_crlf block = None")
    case True
    then show ?thesis by (auto simp: unfold header_line_search)
  next
    case False
    then obtain line rest where cut: "block \<noteq> []" "cut_crlf block = Some (line, rest)" by (cases "cut_crlf block") auto
    show ?thesis
    proof (cases "header_line p fl line" rule: searched_cases)
      case (fail status p')
      then show ?thesis using cut by (simp add: unfold header_line_search)
    next
      case (ok p' fl')
      then have "header_lines (at_search n p') fl' rest = searched n (header_lines p' fl' rest)"
        using "1.IH" cut by blast
      then show ?thesis using cut ok by (simp add: unfold header_line_search)
    qed
  qed
qed

lemma ParseHeaders_search:
  "ParseHeaders (at_search n p) block = (fst (ParseHeaders p block), at_search n (snd (ParseHeaders p block)))"
proof (cases "cut_crlf block")
  case (Some lr)
  then obtain line rest where cut: "cut_crlf block = Some (line, rest)" by (cases lr) auto
  show ?thesis
  proof (cases "request_line p line" rule: searched_cases)
    case (ok p1 authority)
    show ?thesis
      by (cases "header_lines p1 no_flags rest" rule: searched_cases)
         (simp_all add: ParseHeaders_def cut ok request_line_search header_lines_search Parser_Fail_def Let_def)
  qed (simp add: ParseHeaders_def cut request_line_search Parser_Fail_def)
qed (simp add: ParseHeaders_def Parser_Fail_def)

text \<open>The header stage behind the removal of empty lines.\<close>

definition header_work :: "HttpParser \<Rightarrow> string \<Rightarrow> HttpRequest \<Rightarrow> flow" where
  "header_work p s out =
     (let p1 = p\<lparr>hp_headRequest := (take 5 s = ''HEAD '')\<rparr>
      in case scan_end s (hp_headerSearch p) of
           ScanBad \<Rightarrow> fail_flow p1 400 s out
         | ScanMore \<Rightarrow>
             if length s \<ge> hp_maxHeaders p then fail_flow p1 431 s out
             else (Some need_more, p1\<lparr>hp_headerSearch := length s\<rparr>, s, out)
         | ScanEnd e \<Rightarrow>
             if e + 4 > hp_maxHeaders p then fail_flow p1 431 s out
             else
               (case ParseHeaders p1 (take (e + 2) s) of
                  (r, p2) \<Rightarrow>
                    if hr_kind r = HK_Error then (Some r, p2, s, out)
                    else if hp_separateHeaders p2 then
                      (Some (http_result HK_Headers 200), p2\<lparr>hp_request := HttpRequest_empty\<rparr>, drop (e + 4) s, hp_request p2)
                    else (None, p2, drop (e + 4) s, out)))"

lemma stage_headers_work:
  "hp_stage p = Headers \<Longrightarrow> stage_headers (p, input, out) =
     (let s = (if hp_headerSearch p = 0 then skip_crlf input else input)
      in if hp_headerSearch p = 0 \<and> s = [CHR 0x0D] then (Some need_more, p, s, out) else header_work p s out)"
  by (simp add: stage_headers_def header_work_def Let_def)

lemma ParseHeaders_leaves:
  "hp_stage p = Headers \<Longrightarrow> hp_stage (snd (ParseHeaders p block)) \<noteq> Headers"
  using ParseHeaders_stage [of p block "fst (ParseHeaders p block)" "snd (ParseHeaders p block)"]
  by (auto simp: ParseHeaders_def Parser_Fail_def Let_def split: option.splits sum.splits prod.splits if_splits)

lemma header_work_end:
  assumes "scan_end s (hp_headerSearch p) = ScanEnd e" "\<not> e + 4 > hp_maxHeaders p"
    and "ParseHeaders (p\<lparr>hp_headRequest := (take 5 s = ''HEAD '')\<rparr>) (take (e + 2) s) = (x, q)"
  shows "header_work p s out =
     (if hr_kind x = HK_Error then (Some x, q, s, out)
      else if hp_separateHeaders q
      then (Some (http_result HK_Headers 200), q\<lparr>hp_request := HttpRequest_empty\<rparr>, drop (e + 4) s, hp_request q)
      else (None, q, drop (e + 4) s, out))"
  using assms by (simp add: header_work_def Let_def)

lemma header_work_search:
  assumes "hp_stage p = Headers" and "scan_end s (hp_headerSearch p) = scan_end s n"
  shows "norm_flow (header_work (p\<lparr>hp_headRequest := h, hp_headerSearch := n\<rparr>) s out) = norm_flow (header_work p s out)"
proof -
  let ?p = "p\<lparr>hp_headRequest := (take 5 s = ''HEAD '')\<rparr>"
  have reset: "p\<lparr>hp_headRequest := h, hp_headerSearch := n\<rparr>\<lparr>hp_headRequest := (take 5 s = ''HEAD '')\<rparr> = at_search n ?p" by simp
  show ?thesis
  proof (cases "scan_end s n")
    case ScanBad
    then show ?thesis using assms by (simp add: header_work_def fail_flow_def Parser_Fail_def norm_flow_def norm_def)
  next
    case ScanMore
    then show ?thesis using assms by (simp add: header_work_def Let_def fail_flow_def Parser_Fail_def norm_flow_def norm_def)
  next
    case (ScanEnd e)
    obtain x q where pq: "ParseHeaders ?p (take (e + 2) s) = (x, q)" by fastforce
    have left: "hp_stage q \<noteq> Headers" using ParseHeaders_leaves [of ?p "take (e + 2) s"] assms(1) pq by simp
    show ?thesis
    proof (cases "e + 4 > hp_maxHeaders p")
      case True
      then show ?thesis using assms ScanEnd by (simp add: header_work_def fail_flow_def Parser_Fail_def norm_flow_def norm_def)
    next
      case False
      have "ParseHeaders (at_search n ?p) (take (e + 2) s) = (x, at_search n q)" using ParseHeaders_search [of n ?p] pq by simp
      then show ?thesis
        using header_work_end [of s "p\<lparr>hp_headRequest := h, hp_headerSearch := n\<rparr>" e x "at_search n q" out]
          header_work_end [of s p e x q out] ScanEnd assms(2) False pq left
        by (simp add: reset norm_flow_def norm_def)
    qed
  qed
qed

lemma header_work_append:
  assumes stage: "hp_stage p = Headers" and search: "hp_headerSearch p \<le> length s"
    and run: "header_work p s out = (r, p1, s1, out1)"
  shows "case r of
      None \<Rightarrow> header_work p (s @ m) out = (None, p1, s1 @ m, out1)
    | Some r' \<Rightarrow>
        (case hr_kind r' of
           HK_NeedMore \<Rightarrow> s1 = s \<and> out1 = out \<and> p1 = p\<lparr>hp_headRequest := (take 5 s = ''HEAD ''), hp_headerSearch := length s\<rparr> \<and>
             norm_flow (header_work p1 (s @ m) out) = norm_flow (header_work p (s @ m) out)
         | HK_Error \<Rightarrow> is_error (header_work p (s @ m) out)
         | _ \<Rightarrow> header_work p (s @ m) out = (Some r', p1, s1 @ m, out1))"
proof (cases "scan_end s (hp_headerSearch p)")
  case ScanBad
  then have "scan_end (s @ m) (hp_headerSearch p) = ScanBad" using scan_end_append [OF search, of m] by simp
  then have "is_error (header_work p (s @ m) out)" by (simp add: header_work_def)
  then show ?thesis using run ScanBad by (auto simp: header_work_def fail_flow_def Parser_Fail_def)
next
  case ScanMore
  then have more: "scan_end (s @ m) (hp_headerSearch p) = scan_end (s @ m) (length s)"
    using scan_end_append [OF search, of m] by simp
  show ?thesis
  proof (cases "hp_maxHeaders p \<le> length s")
    case True
    then have "is_error (header_work p (s @ m) out)"
      using more scan_end_found [of "s @ m" "length s"]
      by (cases "scan_end (s @ m) (length s)") (auto simp: header_work_def)
    then show ?thesis using run ScanMore True by (auto simp: header_work_def fail_flow_def Parser_Fail_def)
  next
    case False
    then show ?thesis
      using run ScanMore header_work_search [OF stage more] by (auto simp: header_work_def need_more_def)
  qed
next
  case (ScanEnd e)
  have found: "scan_end (s @ m) (hp_headerSearch p) = ScanEnd e" using scan_end_append [OF search, of m] ScanEnd by simp
  have e: "e + 4 \<le> length s" "CHR 0x0A \<in> set s" using scan_end_found [OF ScanEnd] by auto
  have same: "take (e + 2) (s @ m) = take (e + 2) s" "drop (e + 4) (s @ m) = drop (e + 4) s @ m"
    "(take 5 (s @ m) = ''HEAD '') = (take 5 s = ''HEAD '')"
    using e head_prefix by auto
  show ?thesis
  proof (cases "e + 4 > hp_maxHeaders p")
    case True
    then have "is_error (header_work p (s @ m) out)" using found by (simp add: header_work_def)
    then show ?thesis using run ScanEnd True by (auto simp: header_work_def fail_flow_def Parser_Fail_def)
  next
    case False
    obtain x q where pq: "ParseHeaders (p\<lparr>hp_headRequest := (take 5 s = ''HEAD '')\<rparr>) (take (e + 2) s) = (x, q)" by fastforce
    have "header_work p s out =
        (if hr_kind x = HK_Error then (Some x, q, s, out)
         else if hp_separateHeaders q
         then (Some (http_result HK_Headers 200), q\<lparr>hp_request := HttpRequest_empty\<rparr>, drop (e + 4) s, hp_request q)
         else (None, q, drop (e + 4) s, out))"
      by (rule header_work_end [OF ScanEnd False pq])
    moreover have "header_work p (s @ m) out =
        (if hr_kind x = HK_Error then (Some x, q, s @ m, out)
         else if hp_separateHeaders q
         then (Some (http_result HK_Headers 200), q\<lparr>hp_request := HttpRequest_empty\<rparr>, drop (e + 4) s @ m, hp_request q)
         else (None, q, drop (e + 4) s @ m, out))"
      using header_work_end [OF found False, of x q] pq unfolding same by simp
    ultimately show ?thesis using run by (auto simp: is_error_def split: if_splits)
  qed
qed

text \<open>
  What holds between two calls: the search position lies in the input that is left, and the room for
  headers is not empty.
\<close>

definition header_ready :: "HttpParser \<Rightarrow> string \<Rightarrow> bool" where
  "header_ready p s \<longleftrightarrow> 0 < hp_maxHeaders p \<and>
     (hp_stage p = Headers \<longrightarrow> hp_headerSearch p \<le> length s \<and> (hp_headerSearch p = 0 \<longrightarrow> \<not> hp_headRequest p))"

lemma resumes_headers_empty:
  assumes ready: "header_ready p s" and stage: "hp_stage p = Headers" "hp_headerSearch p = 0"
    and t: "skip_crlf s = [] \<or> skip_crlf s = [CHR 0x0D]"
  shows "resumes stage_headers p s out"
proof (rule resumesI)
  fix m r p1 s1 out1
  assume run: "stage_headers (p, s, out) = (r, p1, s1, out1)"
  have same: "p\<lparr>hp_headRequest := False, hp_headerSearch := 0\<rparr> = p"
    using ready stage by (simp add: header_ready_def)
  have "header_work p [] out = (Some need_more, p, [], out)"
    using ready stage same by (simp add: header_work_def scan_end_done header_ready_def Let_def)
  then have r: "r = Some need_more" "p1 = p" "s1 = skip_crlf s" "out1 = out"
    using run stage t by (auto simp: stage_headers_work Let_def)
  have "skip_crlf (s @ m) = skip_crlf (skip_crlf s @ m)" using skip_crlf_append [of s m] t by auto
  then have "stage_headers (p, s @ m, out) = stage_headers (p, skip_crlf s @ m, out)"
    using stage by (simp add: stage_headers_work)
  then show "resume_step stage_headers (p, s @ m, out) m r (p1, s1, out1)"
    using r by (simp add: resume_step_def need_more_def)
qed

lemma resumes_headers:
  assumes ready: "header_ready p s"
  shows "resumes stage_headers p s out"
proof (cases "hp_stage p = Headers \<and> \<not> (hp_headerSearch p = 0 \<and> (skip_crlf s = [] \<or> skip_crlf s = [CHR 0x0D]))")
  case True
  then have stage: "hp_stage p = Headers" by simp
  define t where "t = (if hp_headerSearch p = 0 then skip_crlf s else s)"
  have search: "hp_headerSearch p \<le> length t" using ready stage by (auto simp: header_ready_def t_def)
  have t: "t \<noteq> []" "hp_headerSearch p = 0 \<Longrightarrow> t @ m \<noteq> [CHR 0x0D]" for m
    using True search by (auto simp: t_def append_eq_Cons_conv)
  have longer: "stage_headers (p, s @ m, out) = header_work p (t @ m) out" for m
    using True t(2) [of m] skip_crlf_append [of s m] by (auto simp: stage_headers_work Let_def t_def)
  show ?thesis
  proof (rule resumesI)
    fix m r p1 s1 out1
    assume "stage_headers (p, s, out) = (r, p1, s1, out1)"
    then have run: "header_work p t out = (r, p1, s1, out1)" using longer [of "[]"] by simp
    note step = header_work_append [OF stage search run, of m]
    have again: "stage_headers (p1, t @ m, out) = header_work p1 (t @ m) out"
      if "p1 = p\<lparr>hp_headRequest := h, hp_headerSearch := length t\<rparr>" for h
      using that stage t(1) by (simp add: stage_headers_work)
    show "resume_step stage_headers (p, s @ m, out) m r (p1, s1, out1)"
    proof (cases r)
      case None
      then show ?thesis using step by (simp add: resume_step_def longer)
    next
      case (Some x)
      then show ?thesis using step again
        by (cases "hr_kind x") (auto simp: resume_step_def longer is_error_def)
    qed
  qed
next
  case False
  then show ?thesis
    using resumes_headers_empty [OF ready]
    by (cases "hp_stage p = Headers") (auto simp: resumes_def resume_step_def stage_headers_def)
qed

section \<open>A turn of the loop\<close>

text \<open>The options of the parser that no stage changes.\<close>

definition same_options :: "HttpParser \<Rightarrow> HttpParser \<Rightarrow> bool" where
  "same_options p q \<longleftrightarrow> hp_streaming p = hp_streaming q \<and> hp_maxHeaders p = hp_maxHeaders q \<and>
     hp_maxBody p = hp_maxBody q \<and> hp_maxChunk p = hp_maxChunk q"

lemma header_field_kept:
  "header_field p fl name field = Inl (status, q) \<Longrightarrow> same_options q p"
  "header_field p fl name field = Inr (q, fl') \<Longrightarrow> same_options q p"
  unfolding header_field_def by (simp_all add: same_options_def split: if_split_asm; force)+

lemma header_line_kept:
  "header_line p fl line = Inl (status, q) \<Longrightarrow> same_options q p"
  "header_line p fl line = Inr (q, fl') \<Longrightarrow> same_options q p"
proof -
  have "(header_line p fl line = Inl (status, q) \<or> header_line p fl line = Inr (q, fl')) \<Longrightarrow> same_options q p"
  proof (cases "ParseHeader line")
    case (Some nv)
    then obtain name field where nv: "ParseHeader line = Some (name, field)" by (cases nv) auto
    assume line: "header_line p fl line = Inl (status, q) \<or> header_line p fl line = Inr (q, fl')"
    show ?thesis
    proof (cases "header_field p fl name field" rule: searched_cases)
      case (fail st q')
      then show ?thesis using line header_field_kept(1) [OF fail] by (auto simp: header_line_def nv same_options_def split: if_splits)
    next
      case (ok q' fl1)
      then show ?thesis using line header_field_kept(2) [OF ok] by (auto simp: header_line_def nv same_options_def split: if_splits)
    qed
  qed (auto simp: header_line_def same_options_def)
  then show "header_line p fl line = Inl (status, q) \<Longrightarrow> same_options q p"
    "header_line p fl line = Inr (q, fl') \<Longrightarrow> same_options q p" by simp_all
qed

lemma header_lines_kept:
  "header_lines p fl block = Inl (status, q) \<or> header_lines p fl block = Inr (q, fl') \<Longrightarrow> same_options q p"
proof (induction p fl block rule: header_lines.induct)
  case (1 p fl block)
  show ?case
  proof (cases "block = [] \<or> cut_crlf block = None")
    case True
    then have "header_lines p fl block = (if block = [] then Inr (p, fl) else header_line p fl block)"
      by (subst header_lines.simps) auto
    then show ?thesis
      using "1.prems" header_line_kept(1) [of p fl block status q] header_line_kept(2) [of p fl block q fl']
      by (auto simp: same_options_def split: if_splits)
  next
    case False
    then obtain line rest where cut: "block \<noteq> []" "cut_crlf block = Some (line, rest)" by (cases "cut_crlf block") auto
    show ?thesis
    proof (cases "header_line p fl line" rule: searched_cases)
      case (fail status' p')
      then have "header_lines p fl block = Inl (status', p')" using cut by (subst header_lines.simps) simp
      then show ?thesis using "1.prems" header_line_kept(1) [OF fail] by auto
    next
      case (ok p' fl1)
      have "header_lines p fl block = header_lines p' fl1 rest" using cut ok by (subst header_lines.simps) simp
      then have "same_options q p'" using "1.IH" [OF cut(1) cut(2) refl ok refl] "1.prems" by simp
      then show ?thesis using header_line_kept(2) [OF ok] by (simp add: same_options_def)
    qed
  qed
qed

lemma request_line_kept:
  "request_line p line = Inl (status, q) \<Longrightarrow> same_options q p"
  "request_line p line = Inr (q, a) \<Longrightarrow> same_options q p"
  by (auto simp: request_line_def same_options_def Let_def split: prod.splits option.splits sum.splits if_splits)

lemma ParseHeaders_kept: "same_options (snd (ParseHeaders p block)) p"
proof (cases "cut_crlf block")
  case (Some lr)
  then obtain line rest where cut: "cut_crlf block = Some (line, rest)" by (cases lr) auto
  show ?thesis
  proof (cases "request_line p line" rule: searched_cases)
    case (fail status q)
    then show ?thesis using request_line_kept(1) [OF fail] cut by (simp add: ParseHeaders_def Parser_Fail_def same_options_def)
  next
    case (ok p1 authority)
    note first = request_line_kept(2) [OF ok]
    show ?thesis
    proof (cases "header_lines p1 no_flags rest" rule: searched_cases)
      case (fail status q)
      then have "same_options q p1" using header_lines_kept [of p1 no_flags rest] by blast
      then show ?thesis using first fail cut ok by (simp add: ParseHeaders_def Parser_Fail_def same_options_def)
    next
      case fields: (ok q fl)
      then have "same_options q p1" using header_lines_kept [of p1 no_flags rest] by blast
      then show ?thesis using first fields cut ok
        by (simp add: ParseHeaders_def Parser_Fail_def same_options_def Let_def)
    qed
  qed
qed (simp add: ParseHeaders_def Parser_Fail_def same_options_def)

lemma header_work_kept: "header_work p s out = (r, p1, s1, out1) \<Longrightarrow> same_options p1 p"
proof -
  have headers: "ParseHeaders (p\<lparr>hp_headRequest := h\<rparr>) b = (x, q) \<Longrightarrow> same_options q p" for h b x q
    using ParseHeaders_kept [of "p\<lparr>hp_headRequest := h\<rparr>" b] by (simp add: same_options_def)
  show "header_work p s out = (r, p1, s1, out1) \<Longrightarrow> same_options p1 p"
    by (auto simp: header_work_def Let_def fail_flow_def Parser_Fail_def same_options_def dest: headers
        split: scan.splits if_splits prod.splits dest!: headers)
qed

lemma stage_headers_kept: "stage_headers (p, s, out) = (r, p1, s1, out1) \<Longrightarrow> same_options p1 p"
proof (cases "hp_stage p = Headers")
  case True
  then show "stage_headers (p, s, out) = (r, p1, s1, out1) \<Longrightarrow> same_options p1 p"
    using header_work_kept by (auto simp: stage_headers_work Let_def same_options_def split: if_splits)
qed (simp add: stage_headers_def same_options_def)

lemma stages_kept:
  "stage_continue (p, s, out) = (r, p1, s1, out1) \<Longrightarrow> same_options p1 p"
  "stage_fixed (p, s, out) = (r, p1, s1, out1) \<Longrightarrow> same_options p1 p"
  "stage_chunk_size (p, s, out) = (r, p1, s1, out1) \<Longrightarrow> same_options p1 p"
  "stage_chunk_data (p, s, out) = (r, p1, s1, out1) \<Longrightarrow> same_options p1 p"
  "stage_last (p, s, out) = (r, p1, s1, out1) \<Longrightarrow> same_options p1 p"
  by (auto simp: stage_last_def stage_defs same_options_def split: if_splits option.splits prod.splits)

lemma same_options_trans: "same_options p q \<Longrightarrow> same_options q r \<Longrightarrow> same_options p r"
  by (simp add: same_options_def)

abbreviation options_of :: "HttpParser \<Rightarrow> HttpParseResult option \<Rightarrow> parse_state \<Rightarrow> bool" where
  "options_of p0 r st \<equiv> same_options (fst st) p0"

lemma keeps_optionsI:
  assumes "\<And>p s out r p1 s1 out1. f (p, s, out) = (r, p1, s1, out1) \<Longrightarrow> same_options p1 p"
  shows "keeps (options_of p0) f"
  unfolding keeps_def by (auto intro: same_options_trans [OF assms])

lemma keeps_options:
  "keeps (options_of p0) stage_headers" "keeps (options_of p0) stage_continue" "keeps (options_of p0) stage_fixed"
  "keeps (options_of p0) stage_chunk_size" "keeps (options_of p0) stage_chunk_data" "keeps (options_of p0) stage_last"
  by (rule keeps_optionsI, rule stage_headers_kept stages_kept, assumption)+

lemma front_kept: "front (p, s, out) = (r, p1, s1, out1) \<Longrightarrow> same_options p1 p"
  using keepsD [OF keeps_and_then [OF keeps_options(1,2) [of p]], of "(p, s, out)"]
  by (simp add: front_def same_options_def)

lemma keeps_options_turn: "keeps (options_of p0) Advance_turn"
  by (intro keeps_turn keeps_options) simp

lemma front_None:
  assumes "front (p, s, out) = (None, p1, s1, out1)"
  shows "hp_stage p1 \<noteq> Headers \<and> \<not> hp_continue p1 \<and> (hp_stage p = Headers \<longrightarrow> hp_stage p1 \<noteq> Failed) \<and> (hp_stage p \<noteq> Headers \<longrightarrow> p1 = p)"
  using assms stage_headers_None [of p s out]
  by (auto simp: front_def and_then_None stage_continue_def split: if_splits)

lemma back_need_more:
  assumes "back_stages (p, s, out) = (Some r, p2, s2, out2)" "hr_kind r = HK_NeedMore" "\<not> hp_continue p"
  shows "hp_stage p2 \<in> {FixedBody, ChunkSize, ChunkData, ChunkEnd, Trailers} \<and> \<not> hp_continue p2"
proof -
  obtain a p1 s1 o1 where a: "stage_fixed (p, s, out) = (a, p1, s1, o1)" by (cases "stage_fixed (p, s, out)") auto
  show ?thesis
  proof (cases a)
    case (Some x)
    then show ?thesis using a assms need_more_stage(2) [of p s out x p1 s1 o1] by (auto simp: back_stages_def and_then_def)
  next
    case None
    then have id: "(p1, s1, o1) = (p, s, out)" using a stage_fixed_None by blast
    obtain b q1 t1 u1 where b: "stage_chunk_size (p, s, out) = (b, q1, t1, u1)" by (cases "stage_chunk_size (p, s, out)") auto
    show ?thesis
    proof (cases b)
      case (Some x)
      then show ?thesis using a b None id assms need_more_stage(1) [of p s out x q1 t1 u1] by (auto simp: back_stages_def and_then_def)
    next
      case size: None
      have q1: "\<not> hp_continue q1" using stage_None_kept(1) b size assms(3) by auto
      obtain c q2 t2 u2 where c: "stage_chunk_data (q1, t1, u1) = (c, q2, t2, u2)" by (cases "stage_chunk_data (q1, t1, u1)") auto
      show ?thesis
      proof (cases c)
        case (Some x)
        then show ?thesis using a b c None size id q1 assms need_more_stage(3) [of q1 t1 u1 x q2 t2 u2]
          by (auto simp: back_stages_def and_then_def)
      next
        case data: None
        have "stage_last (q2, t2, u2) = (Some r, p2, s2, out2)"
          using assms(1) a b c None size data id by (simp add: back_stages_def and_then_def)
        from need_more_stage(4) [OF this assms(2)] show ?thesis
          using stage_None_kept(2) [of q1 t1 u1 q2 t2 u2] c data q1 by auto
      qed
    qed
  qed
qed

text \<open>The states in which a call may start, for a parser that does not stream the body.\<close>

definition parser_ready :: "HttpParser \<Rightarrow> string \<Rightarrow> bool" where
  "parser_ready p s \<longleftrightarrow> header_ready p s \<and> \<not> hp_streaming p"

lemma parser_ready_append: "parser_ready p s \<Longrightarrow> parser_ready p (s @ m)"
  by (auto simp: parser_ready_def header_ready_def)

lemma norm_stable_turn: "norm_stable Advance_turn"
  unfolding norm_stable_def
proof (intro allI)
  fix p s out
  have "norm_stable (\<lambda>st. and_then (front st) back_stages)"
    unfolding front_def [abs_def] by (intro norm_stable_and_then norm_stable_headers norm_stable_continue norm_stable_back)
  moreover have "hp_stage (norm p) = hp_stage p" by (simp add: norm_def)
  ultimately show "norm_flow (Advance_turn (norm p, s, out)) = norm_flow (Advance_turn (p, s, out))"
  proof (cases "hp_stage p = Failed")
    case True
    then show ?thesis by (simp add: Advance_turn_def norm_flow_def norm_def)
  qed (simp add: Advance_turn_halves norm_stable_def)
qed

lemma header_work_need_more: "header_work p s out = (Some r, p1, s1, out1) \<Longrightarrow> hr_kind r = HK_NeedMore \<Longrightarrow> hp_stage p1 = hp_stage p"
  by (auto simp: header_work_def Let_def fail_flow_def Parser_Fail_def split: scan.splits if_splits prod.splits)

lemma turn_need_more:
  assumes "and_then (front (p, s, out)) back_stages = (Some r, p2, s2, out2)" "hr_kind r = HK_NeedMore"
  shows "hp_stage p2 \<noteq> Failed"
proof -
  obtain a p1 s1 o1 where a: "front (p, s, out) = (a, p1, s1, o1)" by (cases "front (p, s, out)") auto
  show ?thesis
  proof (cases a)
    case None
    then show ?thesis using a assms back_need_more [of p1 s1 o1 r p2 s2 out2] front_None [of p s out p1 s1 o1] by (auto simp: and_then_def)
  next
    case (Some x)
    then have x: "front (p, s, out) = (Some r, p2, s2, out2)" using a assms(1) by (simp add: and_then_def)
    then have "stage_headers (p, s, out) = (Some r, p2, s2, out2)"
      using assms(2) by (cases "stage_headers (p, s, out)") (auto simp: front_def and_then_def stage_continue_def split: option.splits if_splits)
    then show ?thesis
      using assms(2) header_work_need_more by (cases "hp_stage p = Headers") (auto simp: stage_headers_work Let_def stage_skips split: if_splits)
  qed
qed

lemma resumes_turn:
  assumes "parser_ready p s"
  shows "resumes Advance_turn p s out"
proof (cases "hp_stage p = Failed")
  case True
  then show ?thesis by (simp add: resumes_def resume_step_def Advance_turn_def)
next
  case False
  have ready: "header_ready p s" "\<not> hp_streaming p" using assms by (simp_all add: parser_ready_def)
  have front: "resumes front p s out"
    unfolding front_def [abs_def]
    by (rule resumes_and_then [OF resumes_headers [OF ready(1)] norm_stable_continue resumes_continue])
       (auto simp: stage_continue_def split: if_splits)
  have streaming: "\<not> hp_streaming p1" if "front (p, s, out) = (None, p1, s1, out1)" for p1 s1 out1
    using front_kept [OF that] ready(2) by (simp add: same_options_def)
  have skip: "front (p2, s', out2) = (None, p2, s', out2)"
    if "front (p, s, out) = (None, p1, s1, out1)" "back_stages (p1, s1, out1) = (Some r, p2, s2, out2)" "hr_kind r = HK_NeedMore"
    for p1 s1 out1 r p2 s2 out2 s'
    using back_need_more [OF that(2,3)] front_None [OF that(1)] by (auto simp: front_def and_then_def stage_skips)
  have "resumes (\<lambda>st. and_then (front st) back_stages) p s out"
    by (rule resumes_and_then [OF front norm_stable_back resumes_back [OF streaming] skip])
  then show ?thesis
  proof (intro resumesI)
    fix m r p1 s1 out1
    assume "Advance_turn (p, s, out) = (r, p1, s1, out1)"
    then have run: "and_then (front (p, s, out)) back_stages = (r, p1, s1, out1)" using False by (simp add: Advance_turn_halves)
    have "resume_step (\<lambda>st. and_then (front st) back_stages) (p, s @ m, out) m r (p1, s1, out1)"
      by (rule resumesD [OF \<open>resumes (\<lambda>st. and_then (front st) back_stages) p s out\<close> run])
    then show "resume_step Advance_turn (p, s @ m, out) m r (p1, s1, out1)"
      using resume_step_cong [of Advance_turn "(p, s @ m, out)" "\<lambda>st. and_then (front st) back_stages" r p1 s1 m out1]
        turn_need_more [of p s out] run False by (simp add: Advance_turn_halves)
  qed
qed

section \<open>The loop\<close>

lemma Advance_norm: "norm p = norm p' \<Longrightarrow> norm_flow (Advance (p, s, out)) = norm_flow (Advance (p', s, out))"
proof (induction "length s" arbitrary: p p' s out rule: less_induct)
  case less
  obtain r p1 s1 o1 where a: "Advance_turn (p, s, out) = (r, p1, s1, o1)" by (cases "Advance_turn (p, s, out)") auto
  obtain r' p1' s1' o1' where b: "Advance_turn (p', s, out) = (r', p1', s1', o1')" by (cases "Advance_turn (p', s, out)") auto
  have same: "r' = r" "norm p1 = norm p1'" "s1' = s1" "o1' = o1"
    using norm_stable_eq [OF norm_stable_turn less.prems, of s out] a b by (auto simp: norm_flow_iff)
  show ?case
  proof (cases r)
    case None
    then have "length s1 < length s" using a Advance_turn_consumes by blast
    from less.hyps [OF this same(2)] show ?thesis
      using a b None same Advance_again [of "(p, s, out)"] Advance_again [of "(p', s, out)"] by simp
  next
    case (Some x)
    then show ?thesis
      using a b same Advance_result [of "(p, s, out)"] Advance_result [of "(p', s, out)"] by (simp add: norm_flow_iff)
  qed
qed

lemma Advance_turn_norm:
  assumes "norm_flow (Advance_turn st) = norm_flow (Advance_turn st')"
  shows "norm_flow (Advance st) = norm_flow (Advance st')"
proof -
  obtain r p1 s1 o1 where a: "Advance_turn st = (r, p1, s1, o1)" by (cases "Advance_turn st") auto
  obtain r' p1' s1' o1' where b: "Advance_turn st' = (r', p1', s1', o1')" by (cases "Advance_turn st'") auto
  have same: "r' = r" "norm p1 = norm p1'" "s1' = s1" "o1' = o1" using assms a b by (auto simp: norm_flow_iff)
  show ?thesis
    using a b same Advance_again [of st] Advance_again [of st'] Advance_result [of st] Advance_result [of st']
      Advance_norm [OF same(2), of s1 o1]
    by (cases r) (auto simp: norm_flow_iff)
qed

text \<open>Every turn leaves a parser that is ready for the next call on the input that is left.\<close>

definition search_ready :: "HttpParser \<Rightarrow> string \<Rightarrow> bool" where
  "search_ready p s \<longleftrightarrow>
     (hp_stage p = Headers \<longrightarrow> hp_headerSearch p \<le> length s \<and> (hp_headerSearch p = 0 \<longrightarrow> \<not> hp_headRequest p))"

abbreviation ready_state :: "HttpParseResult option \<Rightarrow> parse_state \<Rightarrow> bool" where
  "ready_state r st \<equiv> search_ready (fst st) (fst (snd st))"

lemma keeps_ready_stages:
  "keeps ready_state stage_continue" "keeps ready_state stage_fixed" "keeps ready_state stage_chunk_size"
  "keeps ready_state stage_chunk_data" "keeps ready_state stage_last"
  unfolding keeps_def search_ready_def
  by (auto simp: stage_last_def stage_defs split: if_splits option.splits prod.splits)

lemma header_work_headers:
  assumes run: "header_work p t out = (r, p1, s1, out1)" and stage: "hp_stage p = Headers" "hp_stage p1 = Headers"
  shows "p1 = p\<lparr>hp_headRequest := (take 5 t = ''HEAD ''), hp_headerSearch := length t\<rparr> \<and> s1 = t"
proof (cases "scan_end t (hp_headerSearch p)")
  case (ScanEnd e)
  obtain x q where pq: "ParseHeaders (p\<lparr>hp_headRequest := (take 5 t = ''HEAD '')\<rparr>) (take (e + 2) t) = (x, q)" by fastforce
  have left: "hp_stage q \<noteq> Headers"
    using ParseHeaders_leaves [of "p\<lparr>hp_headRequest := (take 5 t = ''HEAD '')\<rparr>" "take (e + 2) t"] pq stage(1) by simp
  show ?thesis
  proof (cases "e + 4 > hp_maxHeaders p")
    case True
    then show ?thesis using run ScanEnd stage(2) by (auto simp: header_work_def fail_flow_def Parser_Fail_def)
  next
    case False
    then show ?thesis using run header_work_end [OF ScanEnd False pq, of out] left stage(2) by (auto split: if_splits)
  qed
qed (use run stage in \<open>auto simp: header_work_def Let_def fail_flow_def Parser_Fail_def split: if_splits\<close>)

lemma keeps_ready_headers: "keeps ready_state stage_headers"
  unfolding keeps_def
proof (intro allI impI)
  fix st r st1
  assume flow: "stage_headers st = (r, st1)" "ready_state None st"
  obtain p s out p1 s1 out1 where st: "st = (p, s, out)" "st1 = (p1, s1, out1)" by (cases st; cases st1) auto
  have run: "stage_headers (p, s, out) = (r, p1, s1, out1)" and ready: "search_ready p s" using flow st by simp_all
  have work: "search_ready p1 s1" if "header_work p t out = (r, p1, s1, out1)" "hp_stage p = Headers" for t
  proof (cases "hp_stage p1 = Headers")
    case True
    then have "p1 = p\<lparr>hp_headRequest := (take 5 t = ''HEAD ''), hp_headerSearch := length t\<rparr> \<and> s1 = t"
      using header_work_headers [OF that] by blast
    then show ?thesis by (auto simp: search_ready_def)
  qed (simp add: search_ready_def)
  have "search_ready p1 s1"
  proof (cases "hp_stage p = Headers")
    case True
    then show ?thesis using run work ready
      by (auto simp: stage_headers_work Let_def search_ready_def split: if_splits)
  next
    case False
    then show ?thesis using run ready by (simp add: stage_skips)
  qed
  then show "ready_state r st1" using st by simp
qed

lemma turn_ready:
  assumes "Advance_turn (p, s, out) = (r, p1, s1, out1)" and "parser_ready p s"
  shows "parser_ready p1 s1"
proof -
  have keep: "keeps ready_state Advance_turn" by (intro keeps_turn keeps_ready_headers keeps_ready_stages) simp
  have "search_ready p1 s1"
    using keepsD [OF keep assms(1)] assms(2) by (simp add: parser_ready_def header_ready_def search_ready_def)
  moreover have "same_options p1 p"
    using keepsD [OF keeps_options_turn [of p] assms(1)] by (simp add: same_options_def)
  ultimately show ?thesis using assms(2) by (simp add: parser_ready_def header_ready_def search_ready_def same_options_def)
qed

text \<open>What a call on a longer input does, given a call on its beginning.\<close>

definition continues :: "parse_state \<Rightarrow> string \<Rightarrow> HttpParseResult \<Rightarrow> parse_state \<Rightarrow> bool" where
  "continues longer m r st1 = (case st1 of (p1, s1, out1) \<Rightarrow>
     (case hr_kind r of
        HK_NeedMore \<Rightarrow> norm_flow (Advance longer) = norm_flow (Advance (p1, s1 @ m, out1))
      | HK_Error \<Rightarrow> hr_kind (fst (Advance longer)) = HK_Error
      | _ \<Rightarrow> Advance longer = (r, p1, s1 @ m, out1)))"

lemma Advance_resumes:
  assumes "parser_ready p s" and "Advance (p, s, out) = (r, p1, s1, out1)"
  shows "parser_ready p1 s1 \<and> continues (p, s @ m, out) m r (p1, s1, out1)"
  using assms
proof (induction "length s" arbitrary: p s out rule: less_induct)
  case less
  obtain x q t u where turn: "Advance_turn (p, s, out) = (x, q, t, u)" by (cases "Advance_turn (p, s, out)") auto
  have ready: "parser_ready q t" using turn_ready [OF turn less.prems(1)] by simp
  note step = resumesD [OF resumes_turn [OF less.prems(1)] turn, of m]
  show ?case
  proof (cases x)
    case None
    then have "length t < length s" using turn Advance_turn_consumes by blast
    moreover have "Advance (q, t, u) = (r, p1, s1, out1)"
      using less.prems(2) turn None Advance_again [of "(p, s, out)"] by simp
    ultimately have "parser_ready p1 s1 \<and> continues (q, t @ m, u) m r (p1, s1, out1)" using less.hyps ready by blast
    moreover have "Advance (p, s @ m, out) = Advance (q, t @ m, u)"
      using step None Advance_again [of "(p, s @ m, out)"] by (simp add: resume_step_def)
    ultimately show ?thesis by (auto simp: continues_def split: HttpParseKind.splits)
  next
    case (Some y)
    then have y: "y = r" "q = p1" "t = s1" "u = out1" using less.prems(2) turn Advance_result [of "(p, s, out)"] by auto
    have "continues (p, s @ m, out) m r (p1, s1, out1)"
    proof (cases "hr_kind r")
      case HK_NeedMore
      then have "norm_flow (Advance_turn (p, s @ m, out)) = norm_flow (Advance_turn (p1, s1 @ m, out1))"
        using step Some y by (simp add: resume_step_def)
      from Advance_turn_norm [OF this] show ?thesis using HK_NeedMore by (simp add: continues_def)
    next
      case HK_Error
      then obtain r' st' where "Advance_turn (p, s @ m, out) = (Some r', st')" "hr_kind r' = HK_Error"
        using step Some y by (auto simp: resume_step_def)
      then show ?thesis using HK_Error Advance_result [of "(p, s @ m, out)"] by (simp add: continues_def)
    qed (use step Some y Advance_result [of "(p, s @ m, out)"] in \<open>simp_all add: resume_step_def continues_def\<close>)
    then show ?thesis using ready y by simp
  qed
qed

section \<open>Input in pieces\<close>

text \<open>
  A connection that receives the pieces one after the other: it calls the parser, and as long as the
  parser asks for more it appends the next piece to the input that is left. The result comes with the
  input that is left and the pieces that have not been looked at.
\<close>

fun feed :: "parse_state \<Rightarrow> string list \<Rightarrow> HttpParseResult \<times> parse_state" where
  "feed st [] = Advance st"
| "feed st (x # xs) =
     (case Advance st of (r, p, s, out) \<Rightarrow>
        if hr_kind r = HK_NeedMore then feed (p, s @ x, out) xs else (r, p, s @ x @ concat xs, out))"

text \<open>Two outcomes agree: both are failures, or they are equal up to the search position of the body stages.\<close>

definition same_outcome :: "HttpParseResult \<times> parse_state \<Rightarrow> HttpParseResult \<times> parse_state \<Rightarrow> bool" where
  "same_outcome a b \<longleftrightarrow>
     (hr_kind (fst a) = HK_Error \<and> hr_kind (fst b) = HK_Error) \<or> norm_flow a = norm_flow b"

lemma norm_flow_fst: "norm_flow a = norm_flow b \<Longrightarrow> fst a = fst b"
  by (auto simp: norm_flow_def split: prod.splits)

lemma feed_whole:
  "parser_ready p s \<Longrightarrow> same_outcome (feed (p, s, out) xs) (Advance (p, s @ concat xs, out))"
proof (induction xs arbitrary: p s out)
  case Nil
  then show ?case by (simp add: same_outcome_def)
next
  case (Cons x xs)
  obtain r p1 s1 out1 where a: "Advance (p, s, out) = (r, p1, s1, out1)" by (cases "Advance (p, s, out)") auto
  have ready: "parser_ready p1 s1" and more: "continues (p, s @ concat (x # xs), out) (concat (x # xs)) r (p1, s1, out1)"
    using Advance_resumes [OF Cons.prems a] by blast+
  show ?case
  proof (cases "hr_kind r")
    case HK_NeedMore
    have eq: "norm_flow (Advance (p, s @ concat (x # xs), out)) = norm_flow (Advance (p1, (s1 @ x) @ concat xs, out1))"
      using more HK_NeedMore by (simp add: continues_def)
    have "same_outcome (feed (p1, s1 @ x, out1) xs) (Advance (p1, (s1 @ x) @ concat xs, out1))"
      by (rule Cons.IH [OF parser_ready_append [OF ready]])
    then show ?thesis
      using a HK_NeedMore eq norm_flow_fst [OF eq] unfolding same_outcome_def by simp
  qed (use a more in \<open>auto simp: continues_def same_outcome_def\<close>)
qed

text \<open>
  C25. The parser is independent of how the input is cut: for every parser that is ready for a call, and every
  way of cutting the bytes that follow into pieces, the calls made as the pieces arrive end with the same
  outcome as one call on the whole input: the same result, request, remaining input and parser (up to the
  position of the finished header search), or a failure in both cases. A fresh parser is ready, and a
  parser is ready again after every call, so this holds for a sequence of requests on one connection.
  The parser is in the mode that collects the body.
\<close>

theorem HttpParser_cut_independent:
  assumes "parser_ready p s"
  shows "same_outcome (feed (p, s, out) pieces) (Advance (p, s @ concat pieces, out)) \<and>
         (\<forall>r p1 s1 out1. Advance (p, s, out) = (r, p1, s1, out1) \<longrightarrow> parser_ready p1 s1) \<and>
         (\<forall>maxHeaders maxBody separate. 0 < maxHeaders \<longrightarrow> parser_ready (HttpParser_create maxHeaders maxBody separate) [])"
  using feed_whole [OF assms] Advance_resumes [OF assms]
  by (auto simp: parser_ready_def header_ready_def HttpParser_create_def)

theorem HttpParser_cut_independent_witness:
  "same_outcome
     (feed (HttpParser_create 100 10 False, [], HttpRequest_empty) [''GE'', ''T / HTTP/1.0'' @ [CHR 0x0D], CHR 0x0A # CRLF])
     (Advance (HttpParser_create 100 10 False, [] @ concat [''GE'', ''T / HTTP/1.0'' @ [CHR 0x0D], CHR 0x0A # CRLF], HttpRequest_empty))"
proof -
  have "parser_ready (HttpParser_create 100 10 False) []"
    by (simp add: parser_ready_def header_ready_def HttpParser_create_def)
  from HttpParser_cut_independent [OF this] show ?thesis by (rule conjunct1)
qed

end
