(* ===== verification/HttpParserBounds.thy ===== *)
theory HttpParserBounds
  imports HttpParserCut
begin

text \<open>
  The limits of the HTTP parser: its counters stay within the configured limits, so that none of its
  unsigned subtractions wraps around, and no body or part of a body is longer than allowed. A chunked
  body is decoded to the concatenation of its chunks.
\<close>

section \<open>The invariant\<close>

definition fresh_counters :: "HttpParser \<Rightarrow> bool" where
  "fresh_counters p \<longleftrightarrow> hp_chunkOverhead p = 0 \<and> hp_trailerBytes p = 0 \<and> hp_bodyBytes p = 0 \<and>
     rq_body (hp_request p) = [] \<and> hp_remaining p \<le> hp_maxBody p"

definition within_limits :: "HttpParser \<Rightarrow> bool" where
  "within_limits p \<longleftrightarrow> 4 \<le> hp_maxHeaders p \<and> hp_chunkOverhead p \<le> hp_maxHeaders p \<and> hp_trailerBytes p \<le> hp_maxHeaders p \<and>
     hp_bodyBytes p + hp_remaining p \<le> hp_maxBody p \<and>
     (if hp_streaming p then rq_body (hp_request p) = [] else length (rq_body (hp_request p)) = hp_bodyBytes p)"

definition parser_ok :: "HttpParser \<Rightarrow> bool" where
  "parser_ok p \<longleftrightarrow>
     (if hp_stage p = Failed then True
      else if hp_stage p = Headers then fresh_counters p \<and> hp_remaining p = 0
      else within_limits p)"

text \<open>What a returned result says about the output.\<close>

definition output_ok :: "HttpParser \<Rightarrow> HttpParseResult option \<Rightarrow> HttpRequest \<Rightarrow> bool" where
  "output_ok p r out \<longleftrightarrow>
     (\<forall>x. r = Some x \<longrightarrow>
        (hr_kind x = HK_Complete \<and> \<not> hp_streaming p \<longrightarrow> length (rq_body out) \<le> hp_maxBody p) \<and>
        (hr_kind x = HK_Body \<longrightarrow> length (rq_body out) \<le> hp_maxChunk p))"

definition limits :: "string \<Rightarrow> HttpParseResult option \<Rightarrow> parse_state \<Rightarrow> bool" where
  "limits s0 r st = (case st of (p, s, out) \<Rightarrow> parser_ok p \<and> output_ok p r out \<and> (\<exists>n. s = drop n s0))"

section \<open>The header block\<close>

lemma header_field_fresh: "fresh_counters p \<Longrightarrow> header_field p fl name field = Inr (q, fl') \<Longrightarrow> fresh_counters q"
  unfolding header_field_def by (simp add: fresh_counters_def split: if_split_asm; force)

lemma header_line_fresh: "fresh_counters p \<Longrightarrow> header_line p fl line = Inr (q, fl') \<Longrightarrow> fresh_counters q"
proof (cases "ParseHeader line")
  case (Some nv)
  then obtain name field where nv: "ParseHeader line = Some (name, field)" by (cases nv) auto
  assume start: "fresh_counters p" "header_line p fl line = Inr (q, fl')"
  show ?thesis
  proof (cases "header_field p fl name field" rule: searched_cases)
    case (ok q' fl1)
    then show ?thesis using start header_field_fresh [OF start(1) ok]
      by (auto simp: header_line_def nv fresh_counters_def split: if_splits)
  qed (use start nv in \<open>auto simp: header_line_def split: if_splits\<close>)
qed (simp add: header_line_def)

lemma header_lines_fresh: "fresh_counters p \<Longrightarrow> header_lines p fl block = Inr (q, fl') \<Longrightarrow> fresh_counters q"
proof (induction p fl block rule: header_lines.induct)
  case (1 p fl block)
  show ?case
  proof (cases "block = [] \<or> cut_crlf block = None")
    case True
    then have "header_lines p fl block = (if block = [] then Inr (p, fl) else header_line p fl block)"
      by (subst header_lines.simps) auto
    then show ?thesis using "1.prems" header_line_fresh [of p fl block q fl'] by (auto split: if_splits)
  next
    case False
    then obtain line rest where cut: "block \<noteq> []" "cut_crlf block = Some (line, rest)" by (cases "cut_crlf block") auto
    have unfold: "header_lines p fl block = (case header_line p fl line of Inl e \<Rightarrow> Inl e | Inr (p1, fl1) \<Rightarrow> header_lines p1 fl1 rest)"
      using cut by (subst header_lines.simps) simp
    show ?thesis
    proof (cases "header_line p fl line" rule: searched_cases)
      case (ok p1 fl1)
      then show ?thesis
        using "1.IH" [OF cut(1) cut(2) refl ok refl] header_line_fresh [OF "1.prems"(1) ok] "1.prems"(2) unfold by simp
    qed (use "1.prems"(2) unfold in simp)
  qed
qed

lemma ParseHeaders_fresh:
  assumes "fresh_counters p" "ParseHeaders p block = (r, q)" "hr_kind r \<noteq> HK_Error"
  shows "fresh_counters q"
proof -
  obtain line rest where cut: "cut_crlf block = Some (line, rest)"
    using assms(2,3) by (cases "cut_crlf block") (auto simp: ParseHeaders_def Parser_Fail_def)
  obtain p1 authority where first: "request_line p line = Inr (p1, authority)"
    using assms(2,3) cut by (cases "request_line p line" rule: searched_cases) (auto simp: ParseHeaders_def Parser_Fail_def)
  obtain p2 fl where lines: "header_lines p1 no_flags rest = Inr (p2, fl)"
    using assms(2,3) cut first by (cases "header_lines p1 no_flags rest" rule: searched_cases) (auto simp: ParseHeaders_def Parser_Fail_def)
  have "fresh_counters p1"
    using assms(1) first
    by (auto simp: request_line_def fresh_counters_def Let_def split: prod.splits option.splits sum.splits if_splits)
  then have "fresh_counters p2" using header_lines_fresh lines by blast
  then show ?thesis using assms(2,3) cut first lines
    by (auto simp: ParseHeaders_def Parser_Fail_def fresh_counters_def Let_def split: if_splits)
qed

section \<open>The stages keep the limits\<close>

lemma drop_self [simp]: "\<exists>n. s = drop n s"
  by (rule exI [of _ 0]) simp

lemma skip_crlf_drop: "\<exists>n. skip_crlf s = drop n s"
proof (induction s rule: skip_crlf.induct)
  case (1 a b s)
  show ?case
  proof (cases "a = CHR 0x0D \<and> b = CHR 0x0A")
    case True
    then obtain n where "skip_crlf s = drop n s" using 1 by blast
    then have "skip_crlf (a # b # s) = drop (Suc (Suc n)) (a # b # s)" using True by simp
    then show ?thesis by blast
  qed (auto)
qed (auto)

lemma cut_crlf_drop: "cut_crlf s = Some (l, r) \<Longrightarrow> r = drop (length l + 2) s"
  by (auto dest!: cut_crlf_some simp: CRLF_def)

lemma keeps_limitsI:
  assumes "\<And>p s out r p1 s1 out1. f (p, s, out) = (r, p1, s1, out1) \<Longrightarrow> parser_ok p \<Longrightarrow>
             parser_ok p1 \<and> output_ok p1 r out1 \<and> (\<exists>n. s1 = drop n s)"
  shows "keeps (limits s0) f"
  unfolding keeps_def limits_def by (clarsimp split: prod.splits) (metis assms drop_drop)

lemma output_ok_simps [simp]:
  "output_ok p None out"
  "hr_kind r \<noteq> HK_Complete \<Longrightarrow> hr_kind r \<noteq> HK_Body \<Longrightarrow> output_ok p (Some r) out"
  by (simp_all add: output_ok_def)

lemma header_work_ok:
  assumes run: "header_work p s out = (r, p1, s1, out1)" and ok: "parser_ok p" and stage: "hp_stage p = Headers"
  shows "parser_ok p1 \<and> output_ok p1 r out1 \<and> (\<exists>n. s1 = drop n s)"
proof (cases "scan_end s (hp_headerSearch p)")
  case (ScanEnd e)
  define p0 where "p0 = p\<lparr>hp_headRequest := (take 5 s = ''HEAD '')\<rparr>"
  obtain x q where pq: "ParseHeaders p0 (take (e + 2) s) = (x, q)" by fastforce
  have fresh: "fresh_counters p0" using ok stage by (simp add: p0_def parser_ok_def fresh_counters_def)
  show ?thesis
  proof (cases "e + 4 > hp_maxHeaders p")
    case True
    then show ?thesis using run ScanEnd
      by (auto simp: header_work_def Let_def fail_flow_def Parser_Fail_def parser_ok_def)
  next
    case False
    note work = header_work_end [OF ScanEnd False pq [unfolded p0_def], of out]
    show ?thesis
    proof (cases "hr_kind x = HK_Error")
      case True
      then have "hp_stage q = Failed"
        using pq by (auto simp: ParseHeaders_def Parser_Fail_def need_more_def Let_def
            split: option.splits sum.splits prod.splits if_splits)
      then show ?thesis using run work True by (auto simp: parser_ok_def)
    next
      case good: False
      have "fresh_counters q" by (rule ParseHeaders_fresh [OF fresh pq good])
      moreover have "hp_maxHeaders q = hp_maxHeaders p"
        using ParseHeaders_kept [of p0 "take (e + 2) s"] pq by (simp add: p0_def same_options_def)
      moreover have "hp_stage q \<noteq> Headers \<and> hp_stage q \<noteq> Failed" using ParseHeaders_stage [OF pq good] by auto
      ultimately show ?thesis using run work good False
        by (auto simp: parser_ok_def within_limits_def fresh_counters_def HttpRequest_empty_def split: if_splits)
    qed
  qed
qed (use run ok stage in \<open>auto simp: header_work_def Let_def fail_flow_def Parser_Fail_def parser_ok_def fresh_counters_def
      need_more_def split: if_splits\<close>)

lemma keeps_limits_headers: "keeps (limits s0) stage_headers"
proof (rule keeps_limitsI)
  fix p s out r p1 s1 out1
  assume run: "stage_headers (p, s, out) = (r, p1, s1, out1)" and ok: "parser_ok p"
  show "parser_ok p1 \<and> output_ok p1 r out1 \<and> (\<exists>n. s1 = drop n s)"
  proof (cases "hp_stage p = Headers")
    case True
    obtain t where t: "t = (if hp_headerSearch p = 0 then skip_crlf s else s)" by simp
    have dropped: "\<exists>n. t = drop n s" using skip_crlf_drop t by (auto)
    show ?thesis
    proof (cases "hp_headerSearch p = 0 \<and> t = [CHR 0x0D]")
      case stop: True
      then have "r = Some need_more \<and> p1 = p \<and> s1 = t" using run True t by (auto simp: stage_headers_work Let_def)
      then show ?thesis using ok dropped by (simp add: need_more_def)
    next
      case False
      then have "header_work p t out = (r, p1, s1, out1)" using run True t by (auto simp: stage_headers_work Let_def)
      from header_work_ok [OF this ok True] show ?thesis using dropped by (metis drop_drop)
    qed
  next
    case False
    then show ?thesis using run ok by (auto simp: stage_skips)
  qed
qed

lemma body_count_bounds: "body_count p s \<le> length s" "body_count p s \<le> hp_remaining p"
  "hp_streaming p \<Longrightarrow> body_count p s \<le> hp_maxChunk p"
  by (simp_all add: body_count_def)

lemma take_body_within: "within_limits p \<Longrightarrow> \<not> hp_streaming p \<or> body_count p s = 0 \<Longrightarrow> within_limits (take_body p s)"
  using body_count_bounds [of p s] by (auto simp: within_limits_def take_body_def)

lemma hand_out_ok:
  assumes "within_limits p" "hp_streaming p" and q: "q = take_body p s \<or> q = (take_body p s)\<lparr>hp_stage := ChunkEnd\<rparr>"
    and "hp_stage p \<noteq> Headers" and run: "hand_out q t out = (r, p1, s1, out1)"
  shows "parser_ok p1 \<and> output_ok p1 r out1 \<and> s1 = t"
  using assms body_count_bounds [of p s]
  by (auto simp: within_limits_def take_body_def hand_out_def parser_ok_def output_ok_def)

lemma complete_ok:
  assumes "within_limits p" and run: "complete_flow p t = (r, p1, s1, out1)"
  shows "parser_ok p1 \<and> output_ok p1 r out1 \<and> s1 = t"
  using assms
  by (auto simp: within_limits_def complete_flow_def Parser_Complete_def parser_ok_def fresh_counters_def output_ok_def HttpRequest_empty_def)

lemma keeps_limits_continue: "keeps (limits s0) stage_continue"
  by (rule keeps_limitsI)
     (auto simp: stage_continue_def parser_ok_def fresh_counters_def within_limits_def split: if_splits)

lemma keeps_limits_fixed: "keeps (limits s0) stage_fixed"
proof (rule keeps_limitsI)
  fix p s out r p1 s1 out1
  assume run: "stage_fixed (p, s, out) = (r, p1, s1, out1)" and ok: "parser_ok p"
  show "parser_ok p1 \<and> output_ok p1 r out1 \<and> (\<exists>n. s1 = drop n s)"
  proof (cases "hp_stage p = FixedBody")
    case True
    then have within: "within_limits p" using ok by (simp add: parser_ok_def)
    show ?thesis
    proof (cases "hp_streaming p \<and> body_count p s \<noteq> 0")
      case handed: True
      then have "hand_out (take_body p s) (drop (body_count p s) s) out = (r, p1, s1, out1)"
        using run True by (simp add: stage_fixed_def Let_def)
      then have "parser_ok p1 \<and> output_ok p1 r out1 \<and> s1 = drop (body_count p s) s"
        using hand_out_ok [OF within _ disjI1 [OF refl]] True handed by simp
      then show ?thesis by blast
    next
      case False
      have taken: "within_limits (take_body p s)" using take_body_within [OF within] False by blast
      then show ?thesis using run True False complete_ok [OF taken, of "drop (body_count p s) s" r p1 s1 out1]
        by (auto simp: stage_fixed_def Let_def need_more_def parser_ok_def split: if_splits)
    qed
  qed (use run ok in \<open>auto simp: stage_skips\<close>)
qed

lemma keeps_limits_chunk_data: "keeps (limits s0) stage_chunk_data"
proof (rule keeps_limitsI)
  fix p s out r p1 s1 out1
  assume run: "stage_chunk_data (p, s, out) = (r, p1, s1, out1)" and ok: "parser_ok p"
  show "parser_ok p1 \<and> output_ok p1 r out1 \<and> (\<exists>n. s1 = drop n s)"
  proof (cases "hp_stage p = ChunkData")
    case True
    then have within: "within_limits p" using ok by (simp add: parser_ok_def)
    show ?thesis
    proof (cases "hp_streaming p \<and> body_count p s \<noteq> 0")
      case handed: True
      define q where "q = (if hp_remaining (take_body p s) = 0 then (take_body p s)\<lparr>hp_stage := ChunkEnd\<rparr> else take_body p s)"
      have "hand_out q (drop (body_count p s) s) out = (r, p1, s1, out1)"
        using run True handed by (simp add: stage_chunk_data_def Let_def q_def)
      moreover have "q = take_body p s \<or> q = (take_body p s)\<lparr>hp_stage := ChunkEnd\<rparr>" by (simp add: q_def)
      ultimately have "parser_ok p1 \<and> output_ok p1 r out1 \<and> s1 = drop (body_count p s) s"
        using hand_out_ok [OF within] True handed by simp
      then show ?thesis by blast
    next
      case False
      have "within_limits (take_body p s)" using take_body_within [OF within] False by blast
      then show ?thesis using run True False
        by (auto simp: stage_chunk_data_def Let_def need_more_def parser_ok_def within_limits_def split: if_splits)
    qed
  qed (use run ok in \<open>auto simp: stage_skips\<close>)
qed

lemma fail_ok:
  assumes "fail_flow p status s out = (r, p1, s1, out1)"
  shows "parser_ok p1 \<and> output_ok p1 r out1 \<and> s1 = s"
  using assms by (auto simp: fail_flow_def Parser_Fail_def parser_ok_def)

lemma keeps_limits_chunk_size: "keeps (limits s0) stage_chunk_size"
proof (rule keeps_limitsI)
  fix p s out r p1 s1 out1
  assume run: "stage_chunk_size (p, s, out) = (r, p1, s1, out1)" and ok: "parser_ok p"
  show "parser_ok p1 \<and> output_ok p1 r out1 \<and> (\<exists>n. s1 = drop n s)"
  proof (cases "hp_stage p = ChunkSize")
    case True
    then have within: "within_limits p" using ok by (simp add: parser_ok_def)
    show ?thesis
    proof (cases "cut_crlf s")
      case None
      then show ?thesis using run True ok fail_ok [of p 431 s out r p1 s1 out1]
        by (auto simp: stage_chunk_size_def need_more_def split: if_splits)
    next
      case (Some lr)
      then obtain line rest where cut: "cut_crlf s = Some (line, rest)" by (cases lr) auto
      consider (fail) q status where "fail_flow q status s out = (r, p1, s1, out1)"
        | (size) "length line + 2 \<le> hp_maxHeaders p - hp_chunkOverhead p"
            "chunk_value (takeWhile ishex line) \<le> hp_maxBody p - hp_bodyBytes p"
            "r = None" "s1 = rest"
            "p1 = p\<lparr>hp_remaining := chunk_value (takeWhile ishex line), hp_chunkOverhead := hp_chunkOverhead p + (length line + 2),
                    hp_stage := (if chunk_value (takeWhile ishex line) = 0 then Trailers else ChunkData)\<rparr>"
        using run True cut unfolding stage_chunk_size_def Let_def by (simp split: if_split_asm)
      then show ?thesis
      proof cases
        case fail
        then show ?thesis using fail_ok [OF fail] by simp
      next
        case size
        then show ?thesis using within cut_crlf_drop [OF cut] True
          by (auto simp: parser_ok_def within_limits_def)
      qed
    qed
  qed (use run ok in \<open>auto simp: stage_skips\<close>)
qed

lemma chunk_end_ok:
  assumes run: "stage_chunk_end (p, s, out) = (r, p1, s1, out1)" and ok: "within_limits p" "hp_stage p = ChunkEnd"
  shows "parser_ok p1 \<and> output_ok p1 r out1 \<and> (\<exists>n. s1 = drop n s)"
  using run ok
  by (auto simp: stage_chunk_end_def fail_flow_def Parser_Fail_def need_more_def parser_ok_def within_limits_def split: if_split_asm)

lemma trailers_ok:
  assumes run: "stage_trailers (p, s, out) = (r, p1, s1, out1)" and ok: "within_limits p" "hp_stage p = Trailers"
  shows "parser_ok p1 \<and> output_ok p1 r out1 \<and> (\<exists>n. s1 = drop n s)"
proof (cases "cut_crlf s")
  case None
  then show ?thesis using run ok
    by (auto simp: stage_trailers_def fail_flow_def Parser_Fail_def need_more_def parser_ok_def split: if_split_asm)
next
  case (Some lr)
  then obtain line rest where cut: "cut_crlf s = Some (line, rest)" by (cases lr) auto
  define q where "q = p\<lparr>hp_trailerBytes := hp_trailerBytes p + (length line + 2)\<rparr>"
  have q: "within_limits q" if "length line + 2 \<le> hp_maxHeaders p - hp_trailerBytes p"
    using that ok by (auto simp: q_def within_limits_def)
  consider (fail) q status where "fail_flow q status s out = (r, p1, s1, out1)"
    | (whole) "length line + 2 \<le> hp_maxHeaders p - hp_trailerBytes p" "complete_flow q rest = (r, p1, s1, out1)"
    | (another) "length line + 2 \<le> hp_maxHeaders p - hp_trailerBytes p" "r = None" "s1 = rest" "p1 = q" "out1 = out"
    using run ok(2) cut unfolding stage_trailers_def Let_def q_def by (simp split: if_split_asm option.split_asm prod.split_asm)
  then show ?thesis
  proof cases
    case fail
    then show ?thesis using fail_ok [OF fail] by simp
  next
    case whole
    then show ?thesis using complete_ok [OF q [OF whole(1)] whole(2)] cut_crlf_drop [OF cut] by auto
  next
    case another
    then show ?thesis using q ok(2) cut_crlf_drop [OF cut] by (auto simp: parser_ok_def q_def)
  qed
qed

lemma keeps_limits_last: "keeps (limits s0) stage_last"
proof (rule keeps_limitsI)
  fix p s out r p1 s1 out1
  assume run: "stage_last (p, s, out) = (r, p1, s1, out1)" and ok: "parser_ok p"
  consider "hp_stage p = ChunkEnd" | "hp_stage p = Trailers" | "hp_stage p \<noteq> ChunkEnd" "hp_stage p \<noteq> Trailers" by blast
  then show "parser_ok p1 \<and> output_ok p1 r out1 \<and> (\<exists>n. s1 = drop n s)"
  proof cases
    case 1
    then show ?thesis using run ok chunk_end_ok [of p s out r p1 s1 out1] by (simp add: stage_last_def parser_ok_def)
  next
    case 2
    then show ?thesis using run ok trailers_ok [of p s out r p1 s1 out1] by (simp add: stage_last_def parser_ok_def)
  next
    case 3
    then show ?thesis using run ok by (auto simp: stage_last_def stage_trailers_def)
  qed
qed

lemma keeps_limits_turn: "keeps (limits s0) Advance_turn"
  by (intro keeps_turn keeps_limits_headers keeps_limits_continue keeps_limits_fixed keeps_limits_chunk_size
      keeps_limits_chunk_data keeps_limits_last) (simp add: limits_def)

lemma ConfigureBody_ok:
  assumes ok: "parser_ok p" and run: "ConfigureBody p streaming maxBody' maxChunk = (True, p1)"
    and start: "hp_bodyBytes p = 0 \<or> (maxBody' = hp_maxBody p \<and> streaming = hp_streaming p)"
  shows "parser_ok p1"
proof -
  have p1: "p1 = p\<lparr>hp_streaming := streaming, hp_maxBody := maxBody', hp_maxChunk := maxChunk\<rparr>"
    and room: "hp_remaining p \<le> maxBody'"
    using run by (auto simp: ConfigureBody_def)
  have within: "within_limits p1" if "within_limits p"
    using that start room unfolding p1 within_limits_def by (cases "hp_streaming p"; cases streaming) auto
  have "fresh_counters p1" if "fresh_counters p"
    using that room unfolding p1 fresh_counters_def by simp
  then show ?thesis using ok within unfolding parser_ok_def p1 by (simp split: if_split_asm)
qed

text \<open>
  C26. The limits hold in every reachable state: a new parser is within its limits, a call keeps a parser
  within them whatever the input, and so does a body configuration that succeeds right after the headers,
  or one that changes only the size of the parts of a streamed body. Within the limits the counters never
  exceed what they are subtracted from (so \<^verbatim>\<open>mMaxHeaders - mChunkOverhead\<close>, \<^verbatim>\<open>mMaxHeaders - 2\<close>,
  \<^verbatim>\<open>mMaxHeaders - mTrailerBytes\<close> and \<^verbatim>\<open>mMaxBody - mBodyBytes\<close> do not wrap around), a complete request has a
  body of at most the configured size, a part of a streamed body is at most one chunk long, and a call
  removes a prefix of the input only.
\<close>

theorem HttpParser_limits:
  "parser_ok (HttpParser_create maxHeaders maxBody separate) \<and>
   (parser_ok p \<longrightarrow>
      (\<forall>s out r p1 s1 out1. Advance (p, s, out) = (r, p1, s1, out1) \<longrightarrow>
         parser_ok p1 \<and> hp_maxBody p1 = hp_maxBody p \<and> (\<exists>n. s1 = drop n s) \<and>
         (hr_kind r = HK_Complete \<and> \<not> hp_streaming p \<longrightarrow> length (rq_body out1) \<le> hp_maxBody p) \<and>
         (hr_kind r = HK_Body \<longrightarrow> length (rq_body out1) \<le> hp_maxChunk p)) \<and>
      (\<forall>streaming maxBody' maxChunk p1. ConfigureBody p streaming maxBody' maxChunk = (True, p1) \<longrightarrow>
         hp_bodyBytes p = 0 \<or> (maxBody' = hp_maxBody p \<and> streaming = hp_streaming p) \<longrightarrow> parser_ok p1) \<and>
      (hp_stage p \<notin> {Headers, Failed} \<longrightarrow>
         hp_chunkOverhead p \<le> hp_maxHeaders p \<and> 2 \<le> hp_maxHeaders p \<and> hp_trailerBytes p \<le> hp_maxHeaders p \<and>
         hp_bodyBytes p \<le> hp_maxBody p))"
proof (intro conjI impI allI)
  show "parser_ok (HttpParser_create maxHeaders maxBody separate)"
    by (simp add: parser_ok_def fresh_counters_def HttpParser_create_def HttpRequest_empty_def)
next
  fix s out r p1 s1 out1
  assume ok: "parser_ok p" and run: "Advance (p, s, out) = (r, p1, s1, out1)"
  have "limits s None (p, s, out)" using ok by (simp add: limits_def)
  then have kept: "limits s (Some r) (p1, s1, out1)" by (rule Advance_keeps [OF keeps_limits_turn _ run])
  have opts: "same_options p1 p"
    using Advance_keeps [OF keeps_options_turn [of p] _ run] by (simp add: same_options_def)
  show "parser_ok p1" "\<exists>n. s1 = drop n s" using kept by (simp_all add: limits_def)
  show "hp_maxBody p1 = hp_maxBody p" using opts by (simp add: same_options_def)
  show "length (rq_body out1) \<le> hp_maxBody p" if "hr_kind r = HK_Complete \<and> \<not> hp_streaming p"
    using kept opts that by (simp add: limits_def output_ok_def same_options_def)
  show "length (rq_body out1) \<le> hp_maxChunk p" if "hr_kind r = HK_Body"
    using kept opts that by (simp add: limits_def output_ok_def same_options_def)
next
  fix streaming maxBody' maxChunk p1
  assume "parser_ok p" "ConfigureBody p streaming maxBody' maxChunk = (True, p1)"
    "hp_bodyBytes p = 0 \<or> (maxBody' = hp_maxBody p \<and> streaming = hp_streaming p)"
  then show "parser_ok p1" by (rule ConfigureBody_ok)
qed (simp_all add: parser_ok_def within_limits_def)

theorem HttpParser_limits_witness:
  "parser_ok (snd (ConfigureBody (HttpParser_create 64 10 True) True 8 4)) \<and>
   parser_ok (fst (snd (Advance (HttpParser_create 64 10 True, ''GET / HTTP/1.0'' @ CRLF @ CRLF, HttpRequest_empty))))"
proof -
  define p where "p = HttpParser_create 64 10 True"
  define s where "s = ''GET / HTTP/1.0'' @ CRLF @ CRLF"
  note limits = HttpParser_limits [of 64 10 True p]
  have ok: "parser_ok p" using limits [THEN conjunct1] unfolding p_def .
  have "ConfigureBody p True 8 4 = (True, snd (ConfigureBody p True 8 4))" "hp_bodyBytes p = 0"
    by (simp_all add: p_def ConfigureBody_def HttpParser_create_def)
  then have "parser_ok (snd (ConfigureBody p True 8 4))"
    using limits [THEN conjunct2, THEN mp, OF ok, THEN conjunct2, THEN conjunct1] by blast
  moreover obtain r p1 s1 out1 where run: "Advance (p, s, HttpRequest_empty) = (r, p1, s1, out1)"
    by (cases "Advance (p, s, HttpRequest_empty)") auto
  then have "parser_ok p1" using limits [THEN conjunct2, THEN mp, OF ok, THEN conjunct1] by blast
  ultimately show ?thesis using run unfolding p_def s_def by simp
qed

end
