(* ===== verification/ChunkedBody.thy ===== *)
theory ChunkedBody
  imports ResponseEncoding HttpParserBounds
begin

text \<open>
  Chunked bodies: what \<open>EncodeChunk\<close> writes, the parser reads.
\<close>

section \<open>Hexadecimal sizes\<close>

lemma size_digit_spec: "d < 16 \<Longrightarrow> ishex (size_digit d) \<and> chunk_digit (size_digit d) = d \<and> size_digit d \<noteq> CHR 0x0D"
proof -
  assume d: "d < 16"
  then have u: "uchar (size_digit d) = (if d < 10 then 48 + d else 87 + d)" unfolding size_digit_def by (intro uchar_char_of) simp
  moreover have "size_digit d \<noteq> CHR 0x0D" using u uchar_eq_iff [of "size_digit d" "CHR 0x0D"] by (auto split: if_splits)
  ultimately show ?thesis using d by (auto simp: ishex_def chunk_digit_def)
qed

lemma chunk_value_snoc: "chunk_value (ds @ [c]) = chunk_value ds * 16 + chunk_digit c"
  by (simp add: chunk_value_def)

lemma to_hex_spec: "chunk_value (to_hex n) = n \<and> to_hex n \<noteq> [] \<and> list_all ishex (to_hex n) \<and> CHR 0x0D \<notin> set (to_hex n)"
proof (induction n rule: less_induct)
  case (less n)
  show ?case
  proof (cases "n < 16")
    case True
    then have "to_hex n = [size_digit n]" by (subst to_hex.simps) simp
    then show ?thesis using size_digit_spec [OF True] by (auto simp: chunk_value_def)
  next
    case False
    have "to_hex n = to_hex (n div 16) @ [size_digit (n mod 16)]" using False by (subst to_hex.simps) simp
    moreover have "n div 16 < n" using False by simp
    ultimately show ?thesis using less [of "n div 16"] size_digit_spec [of "n mod 16"] by (auto simp: chunk_value_snoc)
  qed
qed

lemma takeWhile_hex: "takeWhile ishex (to_hex n) = to_hex n" "dropWhile ishex (to_hex n) = []"
  using to_hex_spec [of n] by (auto simp: list_all_iff takeWhile_eq_all_conv dropWhile_eq_Nil_conv)

section \<open>One chunk\<close>

text \<open>The parser after a chunk, and after the last one.\<close>

definition chunk_cost :: "string \<Rightarrow> nat" where
  "chunk_cost bytes = length (to_hex (length bytes)) + 4"

definition after_chunk :: "HttpParser \<Rightarrow> string \<Rightarrow> HttpParser" where
  "after_chunk p bytes =
     p\<lparr>hp_request := (hp_request p)\<lparr>rq_body := rq_body (hp_request p) @ bytes\<rparr>, hp_remaining := 0,
       hp_bodyBytes := hp_bodyBytes p + length bytes, hp_chunkOverhead := hp_chunkOverhead p + chunk_cost bytes\<rparr>"

definition collecting :: "HttpParser \<Rightarrow> bool" where
  "collecting p \<longleftrightarrow> hp_stage p = ChunkSize \<and> \<not> hp_streaming p \<and> \<not> hp_continue p"

lemma size_line:
  assumes "hp_stage p = ChunkSize" "n \<le> SIZE_MAX" "n \<le> hp_maxBody p - hp_bodyBytes p"
    and "hp_chunkOverhead p + (length (to_hex n) + 2) \<le> hp_maxHeaders p"
  shows "stage_chunk_size (p, to_hex n @ CRLF @ rest, out) =
     (None, p\<lparr>hp_remaining := n, hp_chunkOverhead := hp_chunkOverhead p + (length (to_hex n) + 2),
              hp_stage := (if n = 0 then Trailers else ChunkData)\<rparr>, rest, out)"
proof -
  have cut: "cut_crlf (to_hex n @ CRLF @ rest) = Some (to_hex n, rest)" using cut_crlf_line to_hex_spec by blast
  have "\<not> length (to_hex n) + 2 > hp_maxHeaders p - hp_chunkOverhead p" using assms(4) by simp
  then show ?thesis
    unfolding stage_chunk_size_def
    using assms cut to_hex_spec [of n] by (simp add: takeWhile_hex Let_def)
qed

lemma chunk_data_whole:
  assumes "hp_stage p = ChunkData" "\<not> hp_streaming p" "hp_remaining p = length bytes"
  shows "stage_chunk_data (p, bytes @ rest, out) =
     (None, p\<lparr>hp_request := (hp_request p)\<lparr>rq_body := rq_body (hp_request p) @ bytes\<rparr>, hp_remaining := 0,
              hp_bodyBytes := hp_bodyBytes p + length bytes, hp_stage := ChunkEnd\<rparr>, rest, out)"
proof -
  have "body_count p (bytes @ rest) = length bytes" using assms by (simp add: body_count_def)
  then show ?thesis using assms by (simp add: stage_chunk_data_def take_body_def Let_def)
qed

lemma chunk_turn:
  assumes p: "collecting p" and bytes: "bytes \<noteq> []" "length bytes \<le> SIZE_MAX" "hp_bodyBytes p + length bytes \<le> hp_maxBody p"
    and room: "hp_chunkOverhead p + chunk_cost bytes \<le> hp_maxHeaders p"
  shows "Advance_turn (p, to_hex (length bytes) @ CRLF @ bytes @ CRLF @ rest, out) = (None, after_chunk p bytes, rest, out)"
proof -
  have stage: "hp_stage p = ChunkSize" "\<not> hp_streaming p" "\<not> hp_continue p" using p by (simp_all add: collecting_def)
  define p1 where "p1 = p\<lparr>hp_remaining := length bytes, hp_chunkOverhead := hp_chunkOverhead p + (length (to_hex (length bytes)) + 2),
                          hp_stage := ChunkData\<rparr>"
  define p2 where "p2 = p1\<lparr>hp_request := (hp_request p1)\<lparr>rq_body := rq_body (hp_request p1) @ bytes\<rparr>, hp_remaining := 0,
              hp_bodyBytes := hp_bodyBytes p1 + length bytes, hp_stage := ChunkEnd\<rparr>"
  have a: "stage_chunk_size (p, to_hex (length bytes) @ CRLF @ bytes @ CRLF @ rest, out) = (None, p1, bytes @ CRLF @ rest, out)"
    using size_line [of p "length bytes" "bytes @ CRLF @ rest" out] stage bytes room by (simp add: p1_def chunk_cost_def)
  have b: "stage_chunk_data (p1, bytes @ CRLF @ rest, out) = (None, p2, CRLF @ rest, out)"
    using chunk_data_whole [of p1 bytes "CRLF @ rest" out] stage by (simp add: p2_def p1_def)
  have c: "stage_chunk_end (p2, CRLF @ rest, out) = (None, after_chunk p bytes, rest, out)"
    using stage room by (simp add: stage_chunk_end_def CRLF_def p2_def p1_def after_chunk_def chunk_cost_def)
      (intro impI, rule FalseE, linarith)
  have "hp_stage p2 = ChunkEnd" by (simp add: p2_def)
  then show ?thesis using stage a b c by (simp add: Advance_turn_def stage_skips and_then_def)
qed

lemma last_turn:
  assumes p: "collecting p" and room: "hp_chunkOverhead p + 3 \<le> hp_maxHeaders p" "hp_trailerBytes p + 2 \<le> hp_maxHeaders p"
  shows "Advance_turn (p, FinalChunk @ rest, out) =
           (Some (http_result HK_Complete 200), fst (snd (Parser_Complete p)), rest, hp_request p)"
proof -
  have stage: "hp_stage p = ChunkSize" "\<not> hp_continue p" using p by (simp_all add: collecting_def)
  have zero: "to_hex 0 = ''0''" by (subst to_hex.simps) (simp add: size_digit_def char_of_def bit_0)
  define p1 where "p1 = p\<lparr>hp_remaining := 0, hp_chunkOverhead := hp_chunkOverhead p + 3, hp_stage := Trailers\<rparr>"
  have a: "stage_chunk_size (p, FinalChunk @ rest, out) = (None, p1, CRLF @ rest, out)"
    using size_line [of p 0 "CRLF @ rest" out] stage room by (simp add: p1_def zero FinalChunk_def)
  have cut: "cut_crlf (CRLF @ rest) = Some ([], rest)" using cut_crlf_line [of "[]" rest] by simp
  have "stage_trailers (p1, CRLF @ rest, out) =
     (Some (http_result HK_Complete 200), fst (snd (Parser_Complete p)), rest, hp_request p)"
    unfolding stage_trailers_def using cut room by (simp add: p1_def complete_flow_def Parser_Complete_def)
      (intro impI, rule FalseE, linarith)
  then show ?thesis using stage a by (simp add: Advance_turn_def stage_skips and_then_def p1_def)
qed

section \<open>The round trip\<close>

lemma EncodeChunk_some:
  "EncodeChunk alloc bytes maxChunk = Inr wire \<Longrightarrow>
   bytes \<noteq> [] \<and> length bytes \<le> SIZE_MAX \<and> wire = to_hex (length bytes) @ CRLF @ bytes @ CRLF"
  by (auto simp: EncodeChunk_def Let_def split: if_splits)

lemma chunks_read:
  assumes "list_all2 (\<lambda>bytes wire. EncodeChunk alloc bytes maxChunk = Inr wire) chunks wires"
    and "collecting p" "hp_bodyBytes p + length (concat chunks) \<le> hp_maxBody p"
    and "hp_chunkOverhead p + sum_list (map chunk_cost chunks) + 3 \<le> hp_maxHeaders p" "hp_trailerBytes p + 2 \<le> hp_maxHeaders p"
  shows "\<exists>q. Advance (p, concat wires @ FinalChunk @ rest, out) =
     (http_result HK_Complete 200, fst (snd (Parser_Complete q)), rest,
      (hp_request p)\<lparr>rq_body := rq_body (hp_request p) @ concat chunks\<rparr>) \<and> same_options q p"
  using assms
proof (induction chunks wires arbitrary: p rule: list_all2_induct)
  case Nil
  then have "Advance (p, FinalChunk @ rest, out) =
     (http_result HK_Complete 200, fst (snd (Parser_Complete p)), rest, hp_request p)"
    using last_turn [of p rest out] by (intro Advance_result) simp
  then show ?case by (intro exI [of _ p]) (simp add: same_options_def)
next
  case (Cons bytes chunks wire wires)
  note wire = EncodeChunk_some [OF Cons.hyps(1)]
  have turn: "Advance_turn (p, concat (wire # wires) @ FinalChunk @ rest, out) =
     (None, after_chunk p bytes, concat wires @ FinalChunk @ rest, out)"
    using chunk_turn [of p bytes "concat wires @ FinalChunk @ rest" out] wire Cons.prems by simp
  have "\<exists>q. Advance (after_chunk p bytes, concat wires @ FinalChunk @ rest, out) =
     (http_result HK_Complete 200, fst (snd (Parser_Complete q)), rest,
      (hp_request (after_chunk p bytes))\<lparr>rq_body := rq_body (hp_request (after_chunk p bytes)) @ concat chunks\<rparr>) \<and>
      same_options q (after_chunk p bytes)"
    by (rule Cons.IH) (use Cons.prems in \<open>simp_all add: after_chunk_def collecting_def\<close>)
  then show ?case using Advance_again [OF turn] by (auto simp: after_chunk_def same_options_def)
qed

lemma norm_headers: "norm p = norm q \<Longrightarrow> hp_stage q = Headers \<Longrightarrow> p = q"
  by (auto simp: norm_def split: if_splits dest: arg_cong [where f = hp_stage])

text \<open>
  C27. A chunked body is read back: if a sender writes each part of a body with \<open>EncodeChunk\<close> and then the
  final chunk, a parser that has read the headers of a chunked request and collects the body returns the
  complete request, with the parts appended to the body in their order, leaves the bytes behind the
  message in the input, and is ready for the next request with the same limits. This holds for every
  number of parts, as long as the body stays within the body limit and the chunk lines within the header
  limit; and it holds for every way the bytes are cut into pieces on their way to the parser.
\<close>

theorem ChunkedBody_round_trip:
  assumes "list_all2 (\<lambda>bytes wire. EncodeChunk alloc bytes maxChunk = Inr wire) chunks wires"
    and "hp_stage p = ChunkSize" "\<not> hp_streaming p" "\<not> hp_continue p" "hp_trailerBytes p + 2 \<le> hp_maxHeaders p"
    and "hp_bodyBytes p + length (concat chunks) \<le> hp_maxBody p"
    and "hp_chunkOverhead p + sum_list (map chunk_cost chunks) + 3 \<le> hp_maxHeaders p"
    and "concat pieces = concat wires @ FinalChunk @ rest"
  shows "\<exists>p1. Advance (p, concat wires @ FinalChunk @ rest, out) =
           (http_result HK_Complete 200, p1, rest, (hp_request p)\<lparr>rq_body := rq_body (hp_request p) @ concat chunks\<rparr>) \<and>
         feed (p, [], out) pieces =
           (http_result HK_Complete 200, p1, rest, (hp_request p)\<lparr>rq_body := rq_body (hp_request p) @ concat chunks\<rparr>) \<and>
         hp_stage p1 = Headers \<and> hp_request p1 = HttpRequest_empty \<and> same_options p1 p"
proof -
  have p: "collecting p" using assms(2-4) by (simp add: collecting_def)
  obtain q where run: "Advance (p, concat wires @ FinalChunk @ rest, out) =
     (http_result HK_Complete 200, fst (snd (Parser_Complete q)), rest,
      (hp_request p)\<lparr>rq_body := rq_body (hp_request p) @ concat chunks\<rparr>)" and q: "same_options q p"
    using chunks_read [OF assms(1) p assms(6,7,5)] by blast
  have ready: "parser_ready p []" using assms(2,3,5) by (simp add: parser_ready_def header_ready_def)
  have ended: "hp_stage (fst (snd (Parser_Complete q))) = Headers" by (simp add: Parser_Complete_def)
  have "same_outcome (feed (p, [], out) pieces) (Advance (p, concat wires @ FinalChunk @ rest, out))"
    using feed_whole [OF ready, of out pieces] assms(8) by simp
  then have "feed (p, [], out) pieces = Advance (p, concat wires @ FinalChunk @ rest, out)"
    unfolding run same_outcome_def norm_flow_def using norm_headers [OF _ ended] by (auto split: prod.splits)
  then show ?thesis using run q by (auto simp: Parser_Complete_def same_options_def)
qed

theorem ChunkedBody_round_trip_witness:
  "\<exists>p1. feed ((HttpParser_create 64 10 False)\<lparr>hp_stage := ChunkSize\<rparr>, [], HttpRequest_empty)
      [''2'' @ [CHR 0x0D], [CHR 0x0A] @ ''ab'' @ CRLF @ ''1'' @ CRLF @ ''c'' @ CRLF, FinalChunk @ ''GET''] =
     (http_result HK_Complete 200, p1, ''GET'', HttpRequest_empty\<lparr>rq_body := ''abc''\<rparr>)"
proof -
  let ?p = "(HttpParser_create 64 10 False)\<lparr>hp_stage := ChunkSize\<rparr>"
  let ?pieces = "[''2'' @ [CHR 0x0D], [CHR 0x0A] @ ''ab'' @ CRLF @ ''1'' @ CRLF @ ''c'' @ CRLF, FinalChunk @ ''GET'']"
  have hex: "to_hex 2 = ''2''" "to_hex (Suc 0) = ''1''" "to_hex (Suc (Suc 0)) = ''2''"
    by (subst to_hex.simps, simp add: size_digit_def char_of_def bit_0)+
  have "list_all2 (\<lambda>bytes wire. EncodeChunk True bytes 5 = Inr wire) [''ab'', ''c'']
      [''2'' @ CRLF @ ''ab'' @ CRLF, ''1'' @ CRLF @ ''c'' @ CRLF]"
    by (simp add: EncodeChunk_def SIZE_MAX_def hex)
  from ChunkedBody_round_trip [OF this, of ?p ?pieces "''GET''" HttpRequest_empty]
  show ?thesis by (simp add: HttpParser_create_def HttpRequest_empty_def chunk_cost_def hex CRLF_def FinalChunk_def del: feed.simps) blast
qed

end
