(* ===== verification/RoutePattern.thy ===== *)
theory RoutePattern
  imports TextScan Utf8
begin

text \<open>
  Route patterns and decoded paths (\<^verbatim>\<open>src/Web/RoutePattern.cpp\<close>). A path is split at its slashes before the
  percent escapes are decoded; decoding yields exactly the lists of safe segments.
\<close>

section \<open>Segments\<close>

definition HexDigit :: "char \<Rightarrow> nat option" where
  "HexDigit c =
     (if 48 \<le> uchar c \<and> uchar c \<le> 57 then Some (uchar c - 48)
      else if 97 \<le> uchar c \<and> uchar c \<le> 102 then Some (uchar c - 97 + 10)
      else if 65 \<le> uchar c \<and> uchar c \<le> 70 then Some (uchar c - 65 + 10)
      else None)"

text \<open>A byte that a decoded segment must not contain: controls and the two path separators.\<close>

definition forbidden_byte :: "nat \<Rightarrow> bool" where
  "forbidden_byte v \<longleftrightarrow> v < 32 \<or> v = 127 \<or> v = 47 \<or> v = 92"

text \<open>The loop of \<^verbatim>\<open>DecodeSegment\<close>.\<close>

fun decode_bytes :: "string \<Rightarrow> string option" where
  "decode_bytes [] = Some []"
| "decode_bytes (c # s) =
     (if uchar c < 33 \<or> uchar c \<ge> 127 \<or> c = CHR 0x3F \<or> c = CHR ''#'' then None
      else if c = CHR ''%'' then
        (case s of
           h # l # s' \<Rightarrow>
             (case (HexDigit h, HexDigit l) of
                (Some high, Some low) \<Rightarrow>
                  if forbidden_byte (high * 16 + low) then None
                  else map_option (Cons (char_of (high * 16 + low))) (decode_bytes s')
              | _ \<Rightarrow> None)
         | _ \<Rightarrow> None)
      else if forbidden_byte (uchar c) then None
      else map_option (Cons c) (decode_bytes s))"

definition DecodeSegment :: "string \<Rightarrow> string option" where
  "DecodeSegment raw =
     (case decode_bytes raw of
        None \<Rightarrow> None
      | Some decoded \<Rightarrow>
          if decoded = ''.'' \<or> decoded = ''..'' \<or> \<not> IsValidUtf8 decoded then None else Some decoded)"

text \<open>\<^verbatim>\<open>VisitSegments\<close>: the raw segments in order; a visitor that refuses one ends the visit.\<close>

definition raw_segments :: "string \<Rightarrow> string list option" where
  "raw_segments path = (if path = [] \<or> hd path \<noteq> CHR ''/'' then None else Some (parts_at (CHR ''/'') (tl path)))"

fun visit_segments :: "('s \<Rightarrow> string \<Rightarrow> 's option) \<Rightarrow> 's \<Rightarrow> string list \<Rightarrow> 's option" where
  "visit_segments visit st [] = Some st"
| "visit_segments visit st (raw # raws) =
     (case visit st raw of None \<Rightarrow> None | Some st1 \<Rightarrow> visit_segments visit st1 raws)"

definition VisitSegments :: "string \<Rightarrow> ('s \<Rightarrow> string \<Rightarrow> 's option) \<Rightarrow> 's \<Rightarrow> 's option" where
  "VisitSegments path visit st =
     (case raw_segments path of None \<Rightarrow> None | Some raws \<Rightarrow> visit_segments visit st raws)"

section \<open>Patterns and paths\<close>

record RouteSegment =
  sg_value :: string
  sg_parameter :: bool

type_synonym RoutePattern = "RouteSegment list"
type_synonym RoutePath = "string list"

definition IdentifierStart :: "char \<Rightarrow> bool" where
  "IdentifierStart c \<longleftrightarrow>
     (97 \<le> uchar c \<and> uchar c \<le> 122) \<or> (65 \<le> uchar c \<and> uchar c \<le> 90) \<or> c = CHR ''_''"

definition ValidParameterName :: "string \<Rightarrow> bool" where
  "ValidParameterName name \<longleftrightarrow>
     name \<noteq> [] \<and> IdentifierStart (hd name) \<and>
     list_all (\<lambda>c. IdentifierStart c \<or> \<not> (uchar c < 48 \<or> uchar c > 57)) name"

definition compile_segment :: "RoutePattern \<times> string list \<Rightarrow> string \<Rightarrow> (RoutePattern \<times> string list) option" where
  "compile_segment st raw = (case st of (compiled, names) \<Rightarrow>
     if list_ex (\<lambda>c. c = CHR 0x7B \<or> c = CHR 0x7D) raw then
       if length raw < 3 \<or> hd raw \<noteq> CHR 0x7B \<or> last raw \<noteq> CHR 0x7D then None
       else
         let name = butlast (tl raw)
         in if \<not> ValidParameterName name \<or> name \<in> set names then None
            else Some (compiled @ [\<lparr>sg_value = name, sg_parameter = True\<rparr>], name # names)
     else case DecodeSegment raw of
       None \<Rightarrow> None
     | Some text \<Rightarrow> Some (compiled @ [\<lparr>sg_value = text, sg_parameter = False\<rparr>], names))"

definition CompileRoutePattern :: "string \<Rightarrow> RoutePattern option" where
  "CompileRoutePattern pattern = map_option fst (VisitSegments pattern compile_segment ([], []))"

definition decode_next :: "RoutePath \<Rightarrow> string \<Rightarrow> RoutePath option" where
  "decode_next decoded raw = (case DecodeSegment raw of None \<Rightarrow> None | Some segment \<Rightarrow> Some (decoded @ [segment]))"

definition DecodeRoutePath :: "string \<Rightarrow> RoutePath option" where
  "DecodeRoutePath rawPath = VisitSegments rawPath decode_next []"

definition segment_matches :: "RouteSegment \<Rightarrow> string \<Rightarrow> bool" where
  "segment_matches sg part \<longleftrightarrow> \<not> (if sg_parameter sg then part = [] else sg_value sg \<noteq> part)"

definition MatchesRoutePattern :: "RoutePattern \<Rightarrow> RoutePath \<Rightarrow> bool" where
  "MatchesRoutePattern pattern path \<longleftrightarrow> length pattern = length path \<and> list_all2 segment_matches pattern path"

definition SameRouteShape :: "RoutePattern \<Rightarrow> RoutePattern \<Rightarrow> bool" where
  "SameRouteShape left right \<longleftrightarrow>
     length left = length right \<and>
     list_all2 (\<lambda>l r. \<not> (sg_parameter l \<noteq> sg_parameter r \<or> (\<not> sg_parameter l \<and> sg_value l \<noteq> sg_value r))) left right"

fun more_specific :: "RoutePattern \<Rightarrow> RoutePattern \<Rightarrow> bool" where
  "more_specific (l # ls) (r # rs) =
     (if sg_parameter l \<noteq> sg_parameter r then \<not> sg_parameter l else more_specific ls rs)"
| "more_specific _ _ = False"

definition MoreSpecificRoutePattern :: "RoutePattern \<Rightarrow> RoutePattern \<Rightarrow> bool" where
  "MoreSpecificRoutePattern left right \<longleftrightarrow> length left = length right \<and> more_specific left right"

text \<open>\<open>None\<close> is the failed assertion.\<close>

definition CaptureRouteParameters :: "RoutePattern \<Rightarrow> RoutePath \<Rightarrow> (string \<times> string) list option" where
  "CaptureRouteParameters pattern path =
     (if MatchesRoutePattern pattern path
      then Some (map (\<lambda>(sg, part). (sg_value sg, part)) (filter (\<lambda>(sg, part). sg_parameter sg) (zip pattern path)))
      else None)"

definition PathParameter :: "(string \<times> string) list \<Rightarrow> string \<Rightarrow> string" where
  "PathParameter pathParameters name =
     (case find (\<lambda>(n, v). n = name) pathParameters of None \<Rightarrow> [] | Some (n, v) \<Rightarrow> v)"

section \<open>Decoding\<close>

definition safe_segment :: "string \<Rightarrow> bool" where
  "safe_segment s \<longleftrightarrow> list_all (\<lambda>c. \<not> forbidden_byte (uchar c)) s \<and> s \<noteq> ''.'' \<and> s \<noteq> ''..'' \<and> IsValidUtf8 s"

text \<open>A sender that escapes every byte which is not a letter or a digit.\<close>

definition upper_hex :: "nat \<Rightarrow> char" where
  "upper_hex d = char_of (if d < 10 then 48 + d else 55 + d)"

definition plain_byte :: "nat \<Rightarrow> bool" where
  "plain_byte v \<longleftrightarrow> (48 \<le> v \<and> v \<le> 57) \<or> (97 \<le> v \<and> v \<le> 122) \<or> (65 \<le> v \<and> v \<le> 90)"

definition escape_byte :: "char \<Rightarrow> string" where
  "escape_byte c = (if plain_byte (uchar c) then [c] else [CHR ''%'', upper_hex (uchar c div 16), upper_hex (uchar c mod 16)])"

definition escape_path :: "RoutePath \<Rightarrow> string" where
  "escape_path path = concat (map (\<lambda>s. CHR ''/'' # concat (map escape_byte s)) path)"

lemma HexDigit_less: "HexDigit c = Some d \<Longrightarrow> d < 16"
  by (auto simp: HexDigit_def split: if_splits)

lemma HexDigit_upper_hex: "d < 16 \<Longrightarrow> HexDigit (upper_hex d) = Some d"
proof -
  assume "d < 16"
  then have "uchar (upper_hex d) = (if d < 10 then 48 + d else 55 + d)" unfolding upper_hex_def by (intro uchar_char_of) simp
  then show ?thesis using \<open>d < 16\<close> by (auto simp: HexDigit_def)
qed

lemma decode_bytes_allowed: "decode_bytes raw = Some s \<Longrightarrow> list_all (\<lambda>c. \<not> forbidden_byte (uchar c)) s"
proof (induction raw arbitrary: s rule: length_induct)
  case (1 raw)
  show ?case
  proof (cases raw)
    case (Cons c rest)
    show ?thesis
    proof (cases "c = CHR ''%''")
      case True
      then obtain h l raw' high low s' where parts: "rest = h # l # raw'" "HexDigit h = Some high" "HexDigit l = Some low"
        "\<not> forbidden_byte (high * 16 + low)" "decode_bytes raw' = Some s'" "s = char_of (high * 16 + low) # s'"
        using "1.prems" Cons by (auto split: if_splits list.splits option.splits)
      have "high * 16 + low < 256" using HexDigit_less [OF parts(2)] HexDigit_less [OF parts(3)] by simp
      then have "uchar (char_of (high * 16 + low)) = high * 16 + low" by (rule uchar_char_of)
      moreover have "length raw' < length raw" using parts Cons by simp
      then have "list_all (\<lambda>c. \<not> forbidden_byte (uchar c)) s'" using "1.IH" parts(5) by blast
      ultimately show ?thesis using parts by simp
    next
      case False
      then obtain s' where parts: "decode_bytes rest = Some s'" "s = c # s'" "\<not> forbidden_byte (uchar c)"
        using "1.prems" Cons by (auto split: if_splits)
      have "length rest < length raw" using Cons by simp
      then have "list_all (\<lambda>c. \<not> forbidden_byte (uchar c)) s'" using "1.IH" parts(1) by blast
      then show ?thesis using parts by simp
    qed
  qed (use "1.prems" in simp)
qed

lemma DecodeSegment_safe: "DecodeSegment raw = Some s \<Longrightarrow> safe_segment s"
  using decode_bytes_allowed by (auto simp: DecodeSegment_def safe_segment_def split: option.splits if_splits)

lemma nibbles: "uchar c div 16 < 16" "uchar c mod 16 < 16"
  using uchar_less [of c] by (simp_all add: less_mult_imp_div_less)

lemma decode_escape_byte:
  assumes "\<not> forbidden_byte (uchar c)"
  shows "decode_bytes (escape_byte c @ raw) = map_option (Cons c) (decode_bytes raw)"
proof (cases "plain_byte (uchar c)")
  case True
  then have "\<not> (uchar c < 33 \<or> uchar c \<ge> 127)" "c \<noteq> CHR 0x3F" "c \<noteq> CHR ''#''" "c \<noteq> CHR ''%''"
    by (auto simp: plain_byte_def)
  then show ?thesis using True assms by (simp add: escape_byte_def)
next
  case False
  have "HexDigit (upper_hex (uchar c div 16)) = Some (uchar c div 16)" "HexDigit (upper_hex (uchar c mod 16)) = Some (uchar c mod 16)"
    using HexDigit_upper_hex nibbles by simp_all
  then show ?thesis using False assms by (simp add: escape_byte_def)
qed

lemma decode_escaped: "list_all (\<lambda>c. \<not> forbidden_byte (uchar c)) s \<Longrightarrow> decode_bytes (concat (map escape_byte s)) = Some s"
  by (induction s) (simp_all add: decode_escape_byte)

lemma DecodeSegment_escaped: "safe_segment s \<Longrightarrow> DecodeSegment (concat (map escape_byte s)) = Some s"
  by (simp add: DecodeSegment_def safe_segment_def decode_escaped)

lemma visit_decode:
  "visit_segments decode_next path raws = Some path' \<longleftrightarrow>
   (\<exists>parts. path' = path @ parts \<and> list_all2 (\<lambda>raw part. DecodeSegment raw = Some part) raws parts)"
proof (induction raws arbitrary: path)
  case (Cons raw raws)
  show ?case
  proof (cases "DecodeSegment raw")
    case (Some part)
    then show ?thesis using Cons.IH [of "path @ [part]"] by (auto simp: decode_next_def list_all2_Cons1)
  qed (auto simp: decode_next_def list_all2_Cons1)
qed auto

lemma slash_escape_byte: "CHR ''/'' \<notin> set (escape_byte c)"
proof -
  have "upper_hex d \<noteq> CHR ''/''" if "d < 16" for d
    using HexDigit_upper_hex [OF that] by (auto simp: HexDigit_def)
  from this [OF nibbles(1) [of c]] this [OF nibbles(2) [of c]] show ?thesis
    by (auto simp: escape_byte_def plain_byte_def)
qed

lemma raw_segments_escaped:
  assumes "path \<noteq> []"
  shows "raw_segments (escape_path path) = Some (map (\<lambda>s. concat (map escape_byte s)) path)"
proof -
  have free: "CHR ''/'' \<notin> set (concat (map escape_byte s))" for s
    using slash_escape_byte by auto
  have "parts_at (CHR ''/'') (concat (map escape_byte s) @ escape_path path) =
      concat (map escape_byte s) # map (\<lambda>s. concat (map escape_byte s)) path" for s path
  proof (induction path arbitrary: s)
    case Nil
    show ?case using parts_at_none [OF free, of s] by (simp add: escape_path_def)
  next
    case (Cons t path)
    have "escape_path (t # path) = CHR ''/'' # concat (map escape_byte t) @ escape_path path" by (simp add: escape_path_def)
    then show ?case using parts_at_some [OF free, of s "concat (map escape_byte t) @ escape_path path"] Cons.IH [of t] by simp
  qed
  moreover obtain s path' where "path = s # path'" using assms by (cases path) auto
  moreover from this have "escape_path path = CHR ''/'' # concat (map escape_byte s) @ escape_path path'" by (simp add: escape_path_def)
  ultimately show ?thesis by (simp add: raw_segments_def)
qed


end
