(* ===== verification/RouteTable.thy ===== *)
theory RouteTable
  imports RoutePattern KeyedTable "HOL-Library.List_Lexorder" "HOL-Library.Char_ord" "HOL-Library.Mapping"
begin

text \<open>
  The routing table of the web server (\<^verbatim>\<open>RouteTable\<close> in \<^verbatim>\<open>src/Web/HttpServer.cpp\<close>): exact paths, and groups of
  patterns of the same shape. A request path is routed to the most specific group that matches it,
  whatever the order of the registrations.
\<close>

section \<open>The table\<close>

record 't Entry =
  en_target :: 't
  en_pattern :: RoutePattern

type_synonym 't Methods = "(string, 't Entry) mapping"

record 't PatternGroup =
  pg_shape :: RoutePattern
  pg_methods :: "'t Methods"

record 't RouteTable =
  mExact :: "(string, 't Methods) mapping"
  mPatterns :: "'t PatternGroup list"

record 't RouteMatch =
  ma_methods :: "'t Methods option"
  ma_path :: RoutePath
  ma_invalid :: bool

definition RouteTable_create :: "'t RouteTable" where
  "RouteTable_create = \<lparr>mExact = Mapping.empty, mPatterns = []\<rparr>"

text \<open>\<^verbatim>\<open>std::map::emplace\<close> of a method: the status and the new map.\<close>

definition emplace_method :: "string \<Rightarrow> 't Entry \<Rightarrow> 't Methods \<Rightarrow> status \<times> 't Methods" where
  "emplace_method verb e methods =
     (case Mapping.lookup methods verb of
        None \<Rightarrow> (Ok, Mapping.update verb e methods)
      | Some _ \<Rightarrow> (AlreadyExists, methods))"

definition AddExact :: "'t RouteTable \<Rightarrow> string \<Rightarrow> string \<Rightarrow> 't \<Rightarrow> status \<times> 't RouteTable" where
  "AddExact t verb path target =
     (let e = \<lparr>en_target = target, en_pattern = []\<rparr>
      in case Mapping.lookup (mExact t) path of
           Some methods \<Rightarrow>
             (case emplace_method verb e methods of
                (status, methods1) \<Rightarrow> (status, t\<lparr>mExact := Mapping.update path methods1 (mExact t)\<rparr>))
         | None \<Rightarrow> (Ok, t\<lparr>mExact := Mapping.update path (Mapping.update verb e Mapping.empty) (mExact t)\<rparr>))"

fun add_to_group :: "string \<Rightarrow> 't Entry \<Rightarrow> 't PatternGroup list \<Rightarrow> status \<times> 't PatternGroup list" where
  "add_to_group verb e [] =
     (Ok, [\<lparr>pg_shape = en_pattern e, pg_methods = Mapping.update verb e Mapping.empty\<rparr>])"
| "add_to_group verb e (g # gs) =
     (if \<not> SameRouteShape (pg_shape g) (en_pattern e) then
        (case add_to_group verb e gs of (status, gs1) \<Rightarrow> (status, g # gs1))
      else
        (case emplace_method verb e (pg_methods g) of (status, methods) \<Rightarrow> (status, g\<lparr>pg_methods := methods\<rparr> # gs)))"

definition AddPattern :: "'t RouteTable \<Rightarrow> string \<Rightarrow> RoutePattern \<Rightarrow> 't \<Rightarrow> status \<times> 't RouteTable" where
  "AddPattern t verb pattern target =
     (case add_to_group verb \<lparr>en_target = target, en_pattern = pattern\<rparr> (mPatterns t) of
        (status, groups) \<Rightarrow> (status, t\<lparr>mPatterns := groups\<rparr>))"

text \<open>The loop of \<open>Route_Find\<close> over the groups, with the best one so far.\<close>

definition better_group :: "RoutePath \<Rightarrow> 't PatternGroup option \<Rightarrow> 't PatternGroup \<Rightarrow> 't PatternGroup option" where
  "better_group path best g =
     (if MatchesRoutePattern (pg_shape g) path \<and>
         (case best of None \<Rightarrow> True | Some b \<Rightarrow> MoreSpecificRoutePattern (pg_shape g) (pg_shape b))
      then Some g else best)"

definition Route_Find :: "'t RouteTable \<Rightarrow> string \<Rightarrow> 't RouteMatch" where
  "Route_Find t path =
     (case Mapping.lookup (mExact t) path of
        Some methods \<Rightarrow> \<lparr>ma_methods = Some methods, ma_path = [], ma_invalid = False\<rparr>
      | None \<Rightarrow>
          if mPatterns t = [] \<or> path = ''*'' then \<lparr>ma_methods = None, ma_path = [], ma_invalid = False\<rparr>
          else case DecodeRoutePath path of
            None \<Rightarrow> \<lparr>ma_methods = None, ma_path = [], ma_invalid = True\<rparr>
          | Some parts \<Rightarrow>
              \<lparr>ma_methods = map_option pg_methods (foldl (better_group parts) None (mPatterns t)),
               ma_path = parts, ma_invalid = False\<rparr>)"

text \<open>The entry for a method, where a route for GET also answers HEAD.\<close>

definition find_method :: "'t Methods \<Rightarrow> string \<Rightarrow> 't Entry option" where
  "find_method methods verb =
     (case Mapping.lookup methods verb of
        Some e \<Rightarrow> Some e
      | None \<Rightarrow> if verb = ''HEAD'' then Mapping.lookup methods ''GET'' else None)"

fun join_names :: "string \<Rightarrow> string list \<Rightarrow> string" where
  "join_names out [] = out"
| "join_names out (name # names) = join_names ((if out \<noteq> [] then out @ '', '' else out) @ name) names"

definition AllowedMethods :: "'t Methods \<Rightarrow> string" where
  "AllowedMethods methods =
     (let keys = Mapping.ordered_keys methods
      in join_names [] (sorted_list_of_set (set keys \<union> (if ''GET'' \<in> set keys then {''HEAD''} else {}))))"

section \<open>Shapes\<close>

text \<open>What \<open>SameRouteShape\<close> compares, and what \<open>MoreSpecificRoutePattern\<close> compares.\<close>

definition shape :: "RoutePattern \<Rightarrow> string option list" where
  "shape pattern = map (\<lambda>sg. if sg_parameter sg then None else Some (sg_value sg)) pattern"

definition flags :: "RoutePattern \<Rightarrow> bool list" where
  "flags pattern = map sg_parameter pattern"

lemma SameRouteShape_shape: "SameRouteShape l r \<longleftrightarrow> shape l = shape r"
proof -
  have "length l = length r \<and> list_all2 (\<lambda>a b. \<not> (sg_parameter a \<noteq> sg_parameter b \<or> (\<not> sg_parameter a \<and> sg_value a \<noteq> sg_value b))) l r \<longleftrightarrow>
    shape l = shape r"
    by (induction l r rule: list_induct2') (auto simp: shape_def)
  then show ?thesis by (simp add: SameRouteShape_def)
qed

lemma MoreSpecific_flags: "MoreSpecificRoutePattern l r \<longleftrightarrow> length l = length r \<and> flags l < flags r"
proof -
  have "length l = length r \<Longrightarrow> more_specific l r \<longleftrightarrow> flags l < flags r"
    by (induction l r rule: list_induct2) (auto simp: flags_def)
  then show ?thesis by (auto simp: MoreSpecificRoutePattern_def)
qed

lemma flags_of_shape: "flags pattern = map (\<lambda>x. x = None) (shape pattern)"
  by (induction pattern) (auto simp: flags_def shape_def)

lemma shape_flags: "shape l = shape r \<Longrightarrow> flags l = flags r"
  by (simp add: flags_of_shape)

lemma matches_same_shape: "MatchesRoutePattern l path \<Longrightarrow> shape l = shape r \<Longrightarrow> MatchesRoutePattern r path"
proof -
  assume l: "MatchesRoutePattern l path" and eq: "shape l = shape r"
  have len: "length l = length r" using eq by (metis length_map shape_def)
  have "segment_matches (r ! i) (path ! i)" if "i < length r" for i
  proof -
    have "shape l ! i = shape r ! i" using eq by simp
    moreover have "segment_matches (l ! i) (path ! i)"
      using l that len by (auto simp: MatchesRoutePattern_def list_all2_conv_all_nth)
    ultimately show ?thesis using that len by (auto simp: shape_def segment_matches_def split: if_splits)
  qed
  then show ?thesis using l len by (auto simp: MatchesRoutePattern_def list_all2_conv_all_nth)
qed

text \<open>Patterns that match one path and have the same parameter positions have the same shape.\<close>

lemma flags_shape:
  assumes "MatchesRoutePattern l path" "MatchesRoutePattern r path" "flags l = flags r"
  shows "shape l = shape r"
proof (rule nth_equalityI)
  show len: "length (shape l) = length (shape r)" using assms(1,2) by (simp add: shape_def MatchesRoutePattern_def)
  fix i assume i: "i < length (shape l)"
  then have bound: "i < length l" "i < length r" using len by (simp_all add: shape_def)
  have "sg_parameter (l ! i) = sg_parameter (r ! i)" using assms(3) bound by (metis flags_def nth_map)
  moreover have "segment_matches (l ! i) (path ! i)" "segment_matches (r ! i) (path ! i)"
    using assms(1,2) bound by (auto simp: MatchesRoutePattern_def list_all2_conv_all_nth)
  ultimately show "shape l ! i = shape r ! i" using bound by (auto simp: shape_def segment_matches_def)
qed

section \<open>The best group\<close>

lemma better_group_fold:
  assumes "\<forall>b. best = Some b \<longrightarrow> MatchesRoutePattern (pg_shape b) path"
  shows "case foldl (better_group path) best gs of
      None \<Rightarrow> best = None \<and> (\<forall>g \<in> set gs. \<not> MatchesRoutePattern (pg_shape g) path)
    | Some b \<Rightarrow> (b \<in> set gs \<or> best = Some b) \<and> MatchesRoutePattern (pg_shape b) path \<and>
        (\<forall>g. g \<in> set gs \<or> best = Some g \<longrightarrow> MatchesRoutePattern (pg_shape g) path \<longrightarrow> flags (pg_shape b) \<le> flags (pg_shape g))"
  using assms
proof (induction gs arbitrary: best)
  case Nil
  then show ?case by (auto split: option.splits)
next
  case (Cons g gs)
  have start: "\<forall>b. better_group path best g = Some b \<longrightarrow> MatchesRoutePattern (pg_shape b) path"
    using Cons.prems by (auto simp: better_group_def)
  have len: "length (pg_shape a) = length (pg_shape b)"
    if "MatchesRoutePattern (pg_shape a) path" "MatchesRoutePattern (pg_shape b) path" for a b :: "'a PatternGroup"
    using that by (simp add: MatchesRoutePattern_def)
  have pick: "better_group path best g = None \<longleftrightarrow> best = None \<and> \<not> MatchesRoutePattern (pg_shape g) path"
    by (auto simp: better_group_def)
  have least: "flags (pg_shape b) \<le> flags (pg_shape h)"
    if "better_group path best g = Some b" "h = g \<or> best = Some h" "MatchesRoutePattern (pg_shape h) path" for b h
  proof (cases best)
    case None
    then show ?thesis using that by (auto simp: better_group_def split: if_split_asm)
  next
    case (Some c)
    then have c: "MatchesRoutePattern (pg_shape c) path" using Cons.prems by simp
    show ?thesis
    proof (cases "MatchesRoutePattern (pg_shape g) path \<and> MoreSpecificRoutePattern (pg_shape g) (pg_shape c)")
      case True
      then have "b = g" "flags (pg_shape g) < flags (pg_shape c)" using that(1) Some by (simp_all add: better_group_def MoreSpecific_flags)
      then show ?thesis using that(2) Some by auto
    next
      case False
      then have "b = c" using that(1) Some by (simp add: better_group_def split: if_split_asm)
      moreover have "flags (pg_shape c) \<le> flags (pg_shape g)" if "MatchesRoutePattern (pg_shape g) path"
        using that False len [OF that c] by (auto simp: MoreSpecific_flags)
      ultimately show ?thesis using that(2,3) Some by auto
    qed
  qed
  have origin: "better_group path best g = Some b \<Longrightarrow> b = g \<or> best = Some b" for b
    by (auto simp: better_group_def split: if_splits)
  show ?case
  proof (cases "foldl (better_group path) (better_group path best g) gs")
    case None
    then show ?thesis using Cons.IH [OF start] pick by auto
  next
    case (Some b)
    then have b: "b \<in> set gs \<or> better_group path best g = Some b" "MatchesRoutePattern (pg_shape b) path"
      "\<And>h. h \<in> set gs \<or> better_group path best g = Some h \<Longrightarrow> MatchesRoutePattern (pg_shape h) path \<Longrightarrow>
           flags (pg_shape b) \<le> flags (pg_shape h)"
      using Cons.IH [OF start] by auto
    have "flags (pg_shape b) \<le> flags (pg_shape h)"
      if "h \<in> set (g # gs) \<or> best = Some h" "MatchesRoutePattern (pg_shape h) path" for h
    proof (cases "h \<in> set gs")
      case False
      then have h: "h = g \<or> best = Some h" using that by auto
      have "better_group path best g \<noteq> None" using pick h that(2) by auto
      then obtain c where c: "better_group path best g = Some c" by auto
      have "flags (pg_shape b) \<le> flags (pg_shape c)" using b(3) [of c] c start by simp
      also have "\<dots> \<le> flags (pg_shape h)" by (rule least [OF c h that(2)])
      finally show ?thesis .
    qed (use b(3) that in blast)
    then show ?thesis using Some b origin by auto
  qed
qed

lemma best_group_unique:
  assumes "g \<in> set gs" "MatchesRoutePattern (pg_shape g) path"
    and "\<forall>h \<in> set gs. MatchesRoutePattern (pg_shape h) path \<longrightarrow> h = g \<or> MoreSpecificRoutePattern (pg_shape g) (pg_shape h)"
  shows "foldl (better_group path) None gs = Some g"
proof (cases "foldl (better_group path) None gs")
  case None
  then show ?thesis using better_group_fold [of None path gs] assms(1,2) by auto
next
  case (Some b)
  then have "b \<in> set gs" "MatchesRoutePattern (pg_shape b) path" "flags (pg_shape b) \<le> flags (pg_shape g)"
    using better_group_fold [of None path gs] assms(1,2) by auto
  then have "b = g" using assms(3) by (auto simp: MoreSpecific_flags)
  then show ?thesis using Some by simp
qed

section \<open>Registrations\<close>

datatype 't RouteRequest =
    RequestExact (rr_verb: string) (rr_path: string) (rr_target: 't)
  | RequestPattern (rr_verb: string) (rr_pattern: RoutePattern) (rr_target: 't)

datatype RouteKey = ExactKey string string | ShapeKey "string option list" string

fun route_key :: "'t RouteRequest \<Rightarrow> RouteKey" where
  "route_key (RequestExact verb path target) = ExactKey path verb"
| "route_key (RequestPattern verb pattern target) = ShapeKey (shape pattern) verb"

fun route_entry :: "'t RouteRequest \<Rightarrow> 't Entry" where
  "route_entry (RequestExact verb path target) = \<lparr>en_target = target, en_pattern = []\<rparr>"
| "route_entry (RequestPattern verb pattern target) = \<lparr>en_target = target, en_pattern = pattern\<rparr>"

fun apply_route :: "'t RouteTable \<Rightarrow> 't RouteRequest \<Rightarrow> status \<times> 't RouteTable" where
  "apply_route t (RequestExact verb path target) = AddExact t verb path target"
| "apply_route t (RequestPattern verb pattern target) = AddPattern t verb pattern target"

fun register_all :: "'t RouteTable \<Rightarrow> 't RouteRequest list \<Rightarrow> status list \<times> 't RouteTable" where
  "register_all t [] = ([], t)"
| "register_all t (r # rs) =
     (case apply_route t r of (e, t1) \<Rightarrow> case register_all t1 rs of (es, t2) \<Rightarrow> (e # es, t2))"

definition group_of :: "string option list \<Rightarrow> 't PatternGroup list \<Rightarrow> 't PatternGroup option" where
  "group_of sh gs = find (\<lambda>g. shape (pg_shape g) = sh) gs"

fun route_lookup :: "'t RouteTable \<Rightarrow> RouteKey \<Rightarrow> 't Entry option" where
  "route_lookup t (ExactKey path verb) =
     (case Mapping.lookup (mExact t) path of None \<Rightarrow> None | Some methods \<Rightarrow> Mapping.lookup methods verb)"
| "route_lookup t (ShapeKey sh verb) =
     (case group_of sh (mPatterns t) of None \<Rightarrow> None | Some g \<Rightarrow> Mapping.lookup (pg_methods g) verb)"

definition groups_lookup :: "'t PatternGroup list \<Rightarrow> string option list \<Rightarrow> string \<Rightarrow> 't Entry option" where
  "groups_lookup gs sh verb = (case group_of sh gs of None \<Rightarrow> None | Some g \<Rightarrow> Mapping.lookup (pg_methods g) verb)"

lemma groups_lookup_Cons:
  "groups_lookup (g # gs) sh verb =
     (if shape (pg_shape g) = sh then Mapping.lookup (pg_methods g) verb else groups_lookup gs sh verb)"
  by (simp add: groups_lookup_def group_of_def)

lemma emplace_method_cases:
  "emplace_method verb e methods = (status, methods1) \<Longrightarrow>
   (status = Ok \<and> Mapping.lookup methods verb = None \<and> methods1 = Mapping.update verb e methods) \<or>
   (status = AlreadyExists \<and> methods1 = methods)"
  by (auto simp: emplace_method_def split: option.splits)

lemma add_to_group_lookup:
  "add_to_group verb e gs = (status, gs1) \<Longrightarrow>
   (status = Ok \<and> groups_lookup gs (shape (en_pattern e)) verb = None \<and>
      (\<forall>sh v. groups_lookup gs1 sh v = (if sh = shape (en_pattern e) \<and> v = verb then Some e else groups_lookup gs sh v))) \<or>
   (status \<noteq> Ok \<and> (\<forall>sh v. groups_lookup gs1 sh v = groups_lookup gs sh v))"
proof (induction gs arbitrary: gs1)
  case Nil
  then show ?case by (auto simp: groups_lookup_Cons lookup_update' groups_lookup_def group_of_def)
next
  case (Cons g gs)
  show ?case
  proof (cases "shape (pg_shape g) = shape (en_pattern e)")
    case True
    then obtain methods where m: "emplace_method verb e (pg_methods g) = (status, methods)" "gs1 = g\<lparr>pg_methods := methods\<rparr> # gs"
      using Cons.prems by (auto simp: SameRouteShape_shape split: prod.splits)
    show ?thesis using emplace_method_cases [OF m(1)] m(2) True by (auto simp: groups_lookup_Cons lookup_update')
  next
    case False
    then obtain gs2 where "add_to_group verb e gs = (status, gs2)" "gs1 = g # gs2"
      using Cons.prems by (auto simp: SameRouteShape_shape split: prod.splits)
    then show ?thesis using Cons.IH [of gs2] False by (auto simp: groups_lookup_Cons)
  qed
qed

lemma AddPattern_lookup:
  assumes "AddPattern t verb pattern target = (status, t1)"
  shows "(status = Ok \<and> route_lookup t (ShapeKey (shape pattern) verb) = None \<and>
          route_lookup t1 = (route_lookup t)(ShapeKey (shape pattern) verb \<mapsto> \<lparr>en_target = target, en_pattern = pattern\<rparr>)) \<or>
         (status \<noteq> Ok \<and> route_lookup t1 = route_lookup t)"
proof -
  obtain gs where gs: "add_to_group verb \<lparr>en_target = target, en_pattern = pattern\<rparr> (mPatterns t) = (status, gs)" "t1 = t\<lparr>mPatterns := gs\<rparr>"
    using assms by (auto simp: AddPattern_def split: prod.splits)
  have same: "route_lookup t2 (ShapeKey sh v) = groups_lookup (mPatterns t2) sh v" for t2 :: "'a RouteTable" and sh v
    by (simp add: groups_lookup_def)
  have exact: "route_lookup t1 (ExactKey path v) = route_lookup t (ExactKey path v)" for path v using gs(2) by simp
  have "route_lookup t1 k = route_lookup t k" if "\<forall>sh v. groups_lookup gs sh v = groups_lookup (mPatterns t) sh v" for k
    using that exact gs(2) by (cases k) (simp_all add: same del: route_lookup.simps)
  moreover have "route_lookup t1 k = ((route_lookup t)(ShapeKey (shape pattern) verb \<mapsto> \<lparr>en_target = target, en_pattern = pattern\<rparr>)) k"
    if "\<forall>sh v. groups_lookup gs sh v = (if sh = shape pattern \<and> v = verb then Some \<lparr>en_target = target, en_pattern = pattern\<rparr>
          else groups_lookup (mPatterns t) sh v)" for k
    using that exact gs(2) by (cases k) (simp_all add: same del: route_lookup.simps)
  ultimately show ?thesis using add_to_group_lookup [OF gs(1)] by (auto simp: same simp del: route_lookup.simps)
qed

lemma AddExact_lookup:
  assumes "AddExact t verb path target = (status, t1)"
  shows "(status = Ok \<and> route_lookup t (ExactKey path verb) = None \<and>
          route_lookup t1 = (route_lookup t)(ExactKey path verb \<mapsto> \<lparr>en_target = target, en_pattern = []\<rparr>)) \<or>
         (status \<noteq> Ok \<and> route_lookup t1 = route_lookup t)"
proof -
  let ?e = "\<lparr>en_target = target, en_pattern = []\<rparr>"
  show ?thesis
  proof (cases "Mapping.lookup (mExact t) path")
    case None
    then have t1: "status = Ok" "t1 = t\<lparr>mExact := Mapping.update path (Mapping.update verb ?e Mapping.empty) (mExact t)\<rparr>"
      using assms by (auto simp: AddExact_def)
    have "route_lookup t1 k = ((route_lookup t)(ExactKey path verb \<mapsto> ?e)) k" for k
      using None t1 by (cases k) (auto simp: lookup_update')
    then show ?thesis using None t1 by auto
  next
    case (Some methods)
    then obtain methods1 where m: "emplace_method verb ?e methods = (status, methods1)"
      "t1 = t\<lparr>mExact := Mapping.update path methods1 (mExact t)\<rparr>"
      using assms by (auto simp: AddExact_def split: prod.splits)
    have "route_lookup t1 k = ((route_lookup t)(ExactKey path verb \<mapsto> ?e)) k" if "methods1 = Mapping.update verb ?e methods" for k
      using Some m that by (cases k) (auto simp: lookup_update')
    moreover have "route_lookup t1 k = route_lookup t k" if "methods1 = methods" for k
      using Some m that by (cases k) (auto simp: lookup_update')
    ultimately show ?thesis using emplace_method_cases [OF m(1)] Some by auto
  qed
qed

lemma apply_route_lookup:
  assumes "apply_route t r = (status, t1)"
  shows "(status = Ok \<and> route_lookup t (route_key r) = None \<and> route_lookup t1 = (route_lookup t)(route_key r \<mapsto> route_entry r)) \<or>
         (status \<noteq> Ok \<and> route_lookup t1 = route_lookup t)"
  using assms AddExact_lookup AddPattern_lookup by (cases r) (simp_all del: route_lookup.simps)

interpretation routes: keyed_table route_lookup route_key route_entry "\<lambda>t r. Some (apply_route t r)"
proof
  fix t t' :: "'a RouteTable" and r
  assume "Some (apply_route t r) = Some (Ok, t')"
  then show "route_lookup t (route_key r) = None \<and> route_lookup t' = (route_lookup t)(route_key r \<mapsto> route_entry r)"
    using apply_route_lookup [of t r Ok t'] by simp
next
  fix t t' :: "'a RouteTable" and r e
  assume "Some (apply_route t r) = Some (e, t')" "e \<noteq> Ok"
  then show "route_lookup t' = route_lookup t" using apply_route_lookup [of t r e t'] by simp
qed

lemma register_all_insert_all: "routes.insert_all t rs = Some (register_all t rs)"
  by (induction rs arbitrary: t) (auto split: prod.splits)

section \<open>The invariant of the table\<close>

text \<open>Groups have different shapes, have at least one method, and hold patterns of their own shape.\<close>

definition group_ok :: "'t PatternGroup \<Rightarrow> bool" where
  "group_ok g \<longleftrightarrow> (\<exists>v e. Mapping.lookup (pg_methods g) v = Some e) \<and>
     (\<forall>v e. Mapping.lookup (pg_methods g) v = Some e \<longrightarrow> shape (en_pattern e) = shape (pg_shape g))"

definition table_ok :: "'t RouteTable \<Rightarrow> bool" where
  "table_ok t \<longleftrightarrow> distinct (map (\<lambda>g. shape (pg_shape g)) (mPatterns t)) \<and> (\<forall>g \<in> set (mPatterns t). group_ok g) \<and>
     (\<forall>path methods. Mapping.lookup (mExact t) path = Some methods \<longrightarrow> (\<exists>v e. Mapping.lookup methods v = Some e))"

lemma add_to_group_ok:
  "add_to_group verb e gs = (status, gs1) \<Longrightarrow> \<forall>g \<in> set gs. group_ok g \<Longrightarrow>
   distinct (map (\<lambda>g. shape (pg_shape g)) gs) \<Longrightarrow>
   (\<forall>g \<in> set gs1. group_ok g) \<and> distinct (map (\<lambda>g. shape (pg_shape g)) gs1) \<and>
   set (map (\<lambda>g. shape (pg_shape g)) gs1) \<subseteq> insert (shape (en_pattern e)) (set (map (\<lambda>g. shape (pg_shape g)) gs))"
proof (induction gs arbitrary: gs1)
  case Nil
  then show ?case by (auto simp: group_ok_def lookup_update' split: if_splits)
next
  case (Cons g gs)
  show ?case
  proof (cases "shape (pg_shape g) = shape (en_pattern e)")
    case True
    then obtain methods where m: "emplace_method verb e (pg_methods g) = (status, methods)" "gs1 = g\<lparr>pg_methods := methods\<rparr> # gs"
      using Cons.prems(1) by (auto simp: SameRouteShape_shape split: prod.splits)
    have "group_ok (g\<lparr>pg_methods := methods\<rparr>)"
      using emplace_method_cases [OF m(1)] Cons.prems(2) True by (auto simp: group_ok_def lookup_update' split: if_splits)
    then show ?thesis using m(2) Cons.prems(2,3) True by auto
  next
    case False
    then obtain gs2 where "add_to_group verb e gs = (status, gs2)" "gs1 = g # gs2"
      using Cons.prems(1) by (auto simp: SameRouteShape_shape split: prod.splits)
    then show ?thesis using Cons.IH [of gs2] Cons.prems(2,3) False by auto
  qed
qed

lemma table_ok_apply:
  assumes "table_ok t" "apply_route t r = (status, t1)"
  shows "table_ok t1"
proof (cases r)
  case (RequestExact verb path target)
  then have "mPatterns t1 = mPatterns t"
    using assms(2) by (auto simp: AddExact_def Let_def split: option.splits prod.splits)
  moreover have "\<exists>v e. Mapping.lookup methods v = Some e" if "Mapping.lookup (mExact t1) q = Some methods" for q methods
    using that RequestExact assms unfolding table_ok_def
    by (fastforce simp: AddExact_def Let_def lookup_update' emplace_method_def split: option.splits prod.splits if_splits)
  ultimately show ?thesis using assms(1) by (simp add: table_ok_def)
next
  case (RequestPattern verb pattern target)
  then obtain gs where "add_to_group verb \<lparr>en_target = target, en_pattern = pattern\<rparr> (mPatterns t) = (status, gs)" "t1 = t\<lparr>mPatterns := gs\<rparr>"
    using assms(2) by (auto simp: AddPattern_def split: prod.splits)
  then show ?thesis using add_to_group_ok assms(1) by (fastforce simp: table_ok_def)
qed

lemma table_ok_all: "table_ok t \<Longrightarrow> register_all t rs = (es, t1) \<Longrightarrow> table_ok t1"
proof (induction rs arbitrary: t es)
  case (Cons r rs)
  obtain e t2 es2 where "apply_route t r = (e, t2)" "register_all t2 rs = (es2, t1)"
    using Cons.prems(2) by (auto split: prod.splits)
  then show ?case using Cons.IH table_ok_apply [OF Cons.prems(1)] by blast
qed simp

lemma table_ok_create: "table_ok RouteTable_create"
  by (simp add: table_ok_def RouteTable_create_def)

section \<open>Captured parameters\<close>

definition parameter_names :: "RoutePattern \<Rightarrow> string list" where
  "parameter_names pattern = map sg_value (filter sg_parameter pattern)"

lemma parameter_names_snoc:
  "parameter_names (pattern @ [sg]) = parameter_names pattern @ (if sg_parameter sg then [sg_value sg] else [])"
  by (simp add: parameter_names_def)

lemma compile_visit_distinct:
  "visit_segments compile_segment (compiled, names) raws = Some (compiled1, names1) \<Longrightarrow>
   set (parameter_names compiled) = set names \<Longrightarrow> distinct (parameter_names compiled) \<Longrightarrow> distinct (parameter_names compiled1)"
proof (induction raws arbitrary: compiled names)
  case (Cons raw raws)
  obtain compiled2 names2 where step: "compile_segment (compiled, names) raw = Some (compiled2, names2)"
    "visit_segments compile_segment (compiled2, names2) raws = Some (compiled1, names1)"
    using Cons.prems(1) by (auto split: option.splits)
  have "(\<exists>name. name \<notin> set names \<and> compiled2 = compiled @ [\<lparr>sg_value = name, sg_parameter = True\<rparr>] \<and> names2 = name # names) \<or>
    (\<exists>part. compiled2 = compiled @ [\<lparr>sg_value = part, sg_parameter = False\<rparr>] \<and> names2 = names)"
    using step(1) unfolding compile_segment_def Let_def by (simp split: if_split_asm option.split_asm) blast+
  then have "set (parameter_names compiled2) = set names2 \<and> distinct (parameter_names compiled2)"
    using Cons.prems(2,3) by (elim disjE exE conjE) (simp_all add: parameter_names_snoc)
  then show ?case using Cons.IH [OF step(2)] by blast
qed simp

lemma compiled_distinct: "CompileRoutePattern text = Some pattern \<Longrightarrow> distinct (parameter_names pattern)"
proof -
  assume "CompileRoutePattern text = Some pattern"
  then obtain raws names where "visit_segments compile_segment ([], []) raws = Some (pattern, names)"
    by (auto simp: CompileRoutePattern_def VisitSegments_def split: option.split_asm)
  from compile_visit_distinct [OF this] show ?thesis by (simp add: parameter_names_def)
qed

lemma PathParameter_map_of: "PathParameter ps name = (case map_of ps name of None \<Rightarrow> [] | Some v \<Rightarrow> v)"
  by (induction ps) (auto simp: PathParameter_def)

lemma captured_names:
  "length pattern = length path \<Longrightarrow>
   map fst (map (\<lambda>(sg, part). (sg_value sg, part)) (filter (\<lambda>(sg, part). sg_parameter sg) (zip pattern path))) = parameter_names pattern"
  by (induction pattern path rule: list_induct2) (auto simp: parameter_names_def)

lemma captured_parameter:
  assumes match: "MatchesRoutePattern pattern path" and names: "distinct (parameter_names pattern)"
  obtains captured where "CaptureRouteParameters pattern path = Some captured"
    "\<forall>i < length pattern. sg_parameter (pattern ! i) \<longrightarrow> PathParameter captured (sg_value (pattern ! i)) = path ! i"
proof
  let ?captured = "map (\<lambda>(sg, part). (sg_value sg, part)) (filter (\<lambda>(sg, part). sg_parameter sg) (zip pattern path))"
  show "CaptureRouteParameters pattern path = Some ?captured" using match by (simp add: CaptureRouteParameters_def)
  have len: "length pattern = length path" using match by (simp add: MatchesRoutePattern_def)
  show "\<forall>i < length pattern. sg_parameter (pattern ! i) \<longrightarrow> PathParameter ?captured (sg_value (pattern ! i)) = path ! i"
  proof (intro allI impI)
    fix i assume i: "i < length pattern" "sg_parameter (pattern ! i)"
    then have "(pattern ! i, path ! i) \<in> set (zip pattern path)" using len by (auto simp: set_zip)
    then have "(sg_value (pattern ! i), path ! i) \<in> set ?captured" using i by force
    then have "map_of ?captured (sg_value (pattern ! i)) = Some (path ! i)"
      using names captured_names [OF len] by (intro map_of_is_SomeI) simp_all
    then show "PathParameter ?captured (sg_value (pattern ! i)) = path ! i" by (simp add: PathParameter_map_of)
  qed
qed

section \<open>Routing\<close>

lemma group_of_member:
  "distinct (map (\<lambda>g. shape (pg_shape g)) gs) \<Longrightarrow> g \<in> set gs \<Longrightarrow> group_of (shape (pg_shape g)) gs = Some g"
  by (induction gs) (auto simp: group_of_def)

lemma group_of_Some: "group_of sh gs = Some g \<Longrightarrow> g \<in> set gs \<and> shape (pg_shape g) = sh"
  by (auto simp: group_of_def find_Some_iff)

lemma registered_lookup:
  assumes "register_all RouteTable_create rs = (es, t)" "(r, Ok) \<in> set (zip rs es)"
  shows "route_lookup t (route_key r) = Some (route_entry r)"
proof -
  let ?ok = "filter (\<lambda>(_, e). e = Ok) (zip rs es)"
  have run: "routes.insert_all RouteTable_create rs = Some (es, t)" using register_all_insert_all assms(1) by metis
  have "distinct (map (\<lambda>(r, _). route_key r) ?ok)" using routes.insert_all_keys [OF run] by blast
  then have "distinct (map fst (map (\<lambda>(r, _). (route_key r, route_entry r)) ?ok))" by (simp add: comp_def case_prod_unfold)
  moreover have "(route_key r, route_entry r) \<in> set (map (\<lambda>(r, _). (route_key r, route_entry r)) ?ok)" using assms(2) by force
  ultimately have "map_of (map (\<lambda>(r, _). (route_key r, route_entry r)) ?ok) (route_key r) = Some (route_entry r)"
    by (rule map_of_is_SomeI)
  then show ?thesis using routes.insert_all_lookup [OF run] by (simp add: map_add_def)
qed

lemma lookup_registered:
  assumes "register_all RouteTable_create rs = (es, t)" "route_lookup t k = Some e"
  shows "\<exists>r. (r, Ok) \<in> set (zip rs es) \<and> route_key r = k \<and> route_entry r = e"
proof -
  have run: "routes.insert_all RouteTable_create rs = Some (es, t)" using register_all_insert_all assms(1) by metis
  have "route_lookup (RouteTable_create :: 'a RouteTable) k = None"
    by (cases k) (simp_all add: RouteTable_create_def group_of_def)
  then have "map_of (map (\<lambda>(r, _). (route_key r, route_entry r)) (filter (\<lambda>(_, e). e = Ok) (zip rs es))) k = Some e"
    using routes.insert_all_lookup [OF run] assms(2) by (auto simp: map_add_def split: option.splits)
  then show ?thesis by (auto dest!: map_of_SomeD)
qed

text \<open>Every group goes back to a registration of a pattern with the shape of the group.\<close>

lemma group_registered:
  assumes "register_all RouteTable_create rs = (es, t)" "h \<in> set (mPatterns t)"
  obtains v q target where "(RequestPattern v q target, Ok) \<in> set (zip rs es)" "shape q = shape (pg_shape h)"
proof -
  have ok: "table_ok t" using table_ok_all [OF table_ok_create assms(1)] .
  then obtain v e where e: "Mapping.lookup (pg_methods h) v = Some e" "shape (en_pattern e) = shape (pg_shape h)"
    using assms(2) by (force simp: table_ok_def group_ok_def)
  have "route_lookup t (ShapeKey (shape (pg_shape h)) v) = Some e"
    using group_of_member [OF _ assms(2)] ok e(1) by (simp add: table_ok_def)
  from lookup_registered [OF assms(1) this] obtain r where r: "(r, Ok) \<in> set (zip rs es)"
    "route_key r = ShapeKey (shape (pg_shape h)) v" by blast
  then show thesis using that by (cases r) auto
qed

text \<open>A group is found if every other pattern that matches has its shape or is less specific.\<close>

lemma most_specific_group:
  assumes table: "register_all RouteTable_create rs = (es, t)"
    and g: "group_of (shape pattern) (mPatterns t) = Some g" and match: "MatchesRoutePattern (pg_shape g) parts"
    and others: "\<forall>v q target. (RequestPattern v q target, Ok) \<in> set (zip rs es) \<longrightarrow> MatchesRoutePattern q parts \<longrightarrow>
        SameRouteShape q pattern \<or> MoreSpecificRoutePattern pattern q"
  shows "foldl (better_group parts) None (mPatterns t) = Some g"
proof (rule best_group_unique [OF _ match])
  note member = group_of_Some [OF g]
  have distinct: "distinct (map (\<lambda>g. shape (pg_shape g)) (mPatterns t))"
    using table_ok_all [OF table_ok_create table] by (simp add: table_ok_def)
  show "g \<in> set (mPatterns t)" using member by blast
  show "\<forall>h \<in> set (mPatterns t). MatchesRoutePattern (pg_shape h) parts \<longrightarrow> h = g \<or> MoreSpecificRoutePattern (pg_shape g) (pg_shape h)"
  proof (intro ballI impI)
    fix h assume h: "h \<in> set (mPatterns t)" "MatchesRoutePattern (pg_shape h) parts"
    obtain v q target' where q: "(RequestPattern v q target', Ok) \<in> set (zip rs es)" "shape q = shape (pg_shape h)"
      using group_registered [OF table h(1)] .
    then have "shape q = shape pattern \<or> MoreSpecificRoutePattern pattern q"
      using others matches_same_shape [OF h(2)] by (metis SameRouteShape_shape)
    then show "h = g \<or> MoreSpecificRoutePattern (pg_shape g) (pg_shape h)"
    proof
      assume "shape q = shape pattern"
      then have "group_of (shape pattern) (mPatterns t) = Some h" using group_of_member [OF distinct h(1)] q(2) by simp
      then show ?thesis using g by simp
    next
      assume less: "MoreSpecificRoutePattern pattern q"
      then have "flags (pg_shape g) < flags (pg_shape h)"
        using shape_flags [of "pg_shape g" pattern] shape_flags [OF q(2)] member by (simp add: MoreSpecific_flags)
      then show ?thesis using h(2) match by (simp add: MoreSpecific_flags MatchesRoutePattern_def)
    qed
  qed
qed

text \<open>
  C29. A request reaches the most specific route: after any sequence of registrations, in any order, take a
  pattern that was registered successfully for a method, and a request path that it matches, that is not
  registered as an exact path, and for which every other registered pattern that matches it has the same
  shape or is less specific. Then the table finds, for that path, the target registered with the pattern;
  no handler found for the path can fail the assertion of the parameter capture, and each parameter
  of the pattern is bound to the segment at its position.
\<close>

theorem Route_reaches_most_specific:
  assumes table: "register_all RouteTable_create rs = (es, t)"
    and registered: "(RequestPattern verb pattern target, Ok) \<in> set (zip rs es)"
    and compiled: "CompileRoutePattern text = Some pattern"
    and path: "DecodeRoutePath path = Some parts" "MatchesRoutePattern pattern parts"
    and exact: "\<forall>v target. (RequestExact v path target, Ok) \<notin> set (zip rs es)"
    and others: "\<forall>v q target. (RequestPattern v q target, Ok) \<in> set (zip rs es) \<longrightarrow> MatchesRoutePattern q parts \<longrightarrow>
        SameRouteShape q pattern \<or> MoreSpecificRoutePattern pattern q"
  shows "\<exists>methods captured.
      Route_Find t path = \<lparr>ma_methods = Some methods, ma_path = parts, ma_invalid = False\<rparr> \<and>
      Mapping.lookup methods verb = Some \<lparr>en_target = target, en_pattern = pattern\<rparr> \<and>
      (\<forall>v e. Mapping.lookup methods v = Some e \<longrightarrow> CaptureRouteParameters (en_pattern e) parts \<noteq> None) \<and>
      CaptureRouteParameters pattern parts = Some captured \<and>
      (\<forall>i < length pattern. sg_parameter (pattern ! i) \<longrightarrow> PathParameter captured (sg_value (pattern ! i)) = parts ! i)"
proof -
  have ok: "table_ok t" using table_ok_all [OF table_ok_create table] .
  obtain g where g: "group_of (shape pattern) (mPatterns t) = Some g"
    "Mapping.lookup (pg_methods g) verb = Some \<lparr>en_target = target, en_pattern = pattern\<rparr>"
    using registered_lookup [OF table registered] by (auto split: option.splits)
  note member = group_of_Some [OF g(1)]
  have shape_g: "MatchesRoutePattern (pg_shape g) parts" using matches_same_shape path(2) member by metis
  have best: "foldl (better_group parts) None (mPatterns t) = Some g"
    by (rule most_specific_group [OF table g(1) shape_g others])
  have "Mapping.lookup (mExact t) path = None"
  proof (rule ccontr)
    assume "Mapping.lookup (mExact t) path \<noteq> None"
    then obtain v e where "route_lookup t (ExactKey path v) = Some e" using ok by (fastforce simp: table_ok_def)
    then obtain r where "(r, Ok) \<in> set (zip rs es)" "route_key r = ExactKey path v" using lookup_registered [OF table] by blast
    then show False using exact by (cases r) auto
  qed
  moreover have "path \<noteq> ''*''" using path(1) by (auto simp: DecodeRoutePath_def VisitSegments_def raw_segments_def)
  moreover have "mPatterns t \<noteq> []" using member by auto
  ultimately have found: "Route_Find t path = \<lparr>ma_methods = Some (pg_methods g), ma_path = parts, ma_invalid = False\<rparr>"
    using path(1) best by (simp add: Route_Find_def)
  have "CaptureRouteParameters (en_pattern e) parts \<noteq> None" if "Mapping.lookup (pg_methods g) v = Some e" for v e
  proof -
    have "shape (pg_shape g) = shape (en_pattern e)" using that ok member by (auto simp: table_ok_def group_ok_def)
    then show ?thesis using matches_same_shape [OF shape_g] by (simp add: CaptureRouteParameters_def)
  qed
  moreover obtain captured where "CaptureRouteParameters pattern parts = Some captured"
    "\<forall>i < length pattern. sg_parameter (pattern ! i) \<longrightarrow> PathParameter captured (sg_value (pattern ! i)) = parts ! i"
    using captured_parameter [OF path(2) compiled_distinct [OF compiled]] .
  ultimately show ?thesis using found g(2) by blast
qed

theorem Route_reaches_most_specific_witness:
  "\<exists>methods captured.
      Route_Find (snd (register_all RouteTable_create
             [RequestPattern ''GET'' [\<lparr>sg_value = ''id'', sg_parameter = True\<rparr>] (1::nat),
              RequestPattern ''GET'' [\<lparr>sg_value = ''a'', sg_parameter = False\<rparr>] 2])) ''/b'' =
        \<lparr>ma_methods = Some methods, ma_path = [''b''], ma_invalid = False\<rparr> \<and>
      Mapping.lookup methods ''GET'' = Some \<lparr>en_target = 1, en_pattern = [\<lparr>sg_value = ''id'', sg_parameter = True\<rparr>]\<rparr> \<and>
      CaptureRouteParameters [\<lparr>sg_value = ''id'', sg_parameter = True\<rparr>] [''b''] = Some captured \<and>
      PathParameter captured ''id'' = ''b''"
proof -
  let ?p = "[\<lparr>sg_value = ''id'', sg_parameter = True\<rparr>]"
  let ?rs = "[RequestPattern ''GET'' ?p (1::nat), RequestPattern ''GET'' [\<lparr>sg_value = ''a'', sg_parameter = False\<rparr>] 2]"
  obtain t where table: "register_all RouteTable_create ?rs = ([Ok, Ok], t)"
    by (simp add: RouteTable_create_def AddPattern_def SameRouteShape_def)
  have compiled: "CompileRoutePattern (''/'' @ [CHR 0x7B] @ ''id'' @ [CHR 0x7D]) = Some ?p"
    by code_simp
  have "parts_at (CHR ''/'') ''b'' = [''b'']" by (rule parts_at_none) simp
  moreover have "IsValidUtf8 ''b''" using IsValidUtf8_ascii [of "CHR ''b''" "[]"] by (simp del: IsValidUtf8.simps(2))
  ultimately have path: "DecodeRoutePath ''/b'' = Some [''b'']"
    by (simp add: DecodeRoutePath_def VisitSegments_def raw_segments_def decode_next_def DecodeSegment_def forbidden_byte_def
        del: IsValidUtf8.simps(2))
  have "MatchesRoutePattern ?p [''b'']" "\<not> MatchesRoutePattern [\<lparr>sg_value = ''a'', sg_parameter = False\<rparr>] [''b'']"
    by (simp_all add: MatchesRoutePattern_def segment_matches_def)
  note match = this
  have "(RequestPattern ''GET'' ?p 1, Ok) \<in> set (zip ?rs [Ok, Ok])"
    "\<forall>v target. (RequestExact v ''/b'' target, Ok) \<notin> set (zip ?rs [Ok, Ok])" by simp_all
  moreover have "\<forall>v q target. (RequestPattern v q target, Ok) \<in> set (zip ?rs [Ok, Ok]) \<longrightarrow> MatchesRoutePattern q [''b''] \<longrightarrow>
      SameRouteShape q ?p \<or> MoreSpecificRoutePattern ?p q"
    using match(2) by (simp add: SameRouteShape_def)
  ultimately obtain methods captured where
    "Route_Find t ''/b'' = \<lparr>ma_methods = Some methods, ma_path = [''b''], ma_invalid = False\<rparr>"
    "Mapping.lookup methods ''GET'' = Some \<lparr>en_target = 1, en_pattern = ?p\<rparr>"
    "CaptureRouteParameters ?p [''b''] = Some captured"
    "\<forall>i < length ?p. sg_parameter (?p ! i) \<longrightarrow> PathParameter captured (sg_value (?p ! i)) = [''b''] ! i"
    using Route_reaches_most_specific [OF table _ compiled path match(1)] by blast
  then show ?thesis using table by (intro exI [of _ methods] exI [of _ captured]) simp
qed

end
