(* ===== verification/TrustedProxy.thy ===== *)
theory TrustedProxy
  imports Endpoint HttpText
begin

text \<open>
  The client address behind trusted proxies (\<^verbatim>\<open>src/Web/TrustedProxy.cpp\<close> with \<^verbatim>\<open>src/Web/PolicyInternal.h\<close>). The
  helpers \<^verbatim>\<open>Lower\<close>, \<^verbatim>\<open>Same\<close>, \<^verbatim>\<open>Trim\<close> and \<^verbatim>\<open>Token\<close> of that header compute the same functions as \<open>Lower\<close>,
  \<open>EqualInsensitive\<close>, \<open>Trim\<close> and \<open>IsToken\<close>.

  The client is found by walking the forwarded nodes from the right as long as the node reached is
  trusted. What an untrusted client writes to the left of it cannot change the answer.
\<close>

section \<open>Options and results\<close>

datatype ProxyHeaderMode = PM_Forwarded | PM_XForwarded

record TrustedProxyOptions =
  po_trustedNetworks :: "IpNetwork list"
  po_mode :: ProxyHeaderMode
  po_maxHops :: nat
  po_maxHeaderBytes :: nat
  po_acceptProto :: bool
  po_acceptHost :: bool
  po_normalizeMappedIpv4 :: bool

record ProxyPeer =
  pp_transportPeer :: IpEndpoint
  pp_client :: IpEndpoint
  pp_acceptedHops :: nat
  pp_proto :: string
  pp_host :: string

record Hop =
  ho_node :: string
  ho_proto :: string
  ho_host :: string

definition Policy_Create :: "TrustedProxyOptions \<Rightarrow> TrustedProxyOptions result" where
  "Policy_Create options =
     (if po_maxHops options = 0 \<or> po_maxHops options > 256 \<or> po_maxHeaderBytes options = 0 \<or>
         po_maxHeaderBytes options > 1024 * 1024 \<or> length (po_trustedNetworks options) > 256
      then Inl InvalidArgument
      else Inr options)"

definition Trusted :: "TrustedProxyOptions \<Rightarrow> IpAddress \<Rightarrow> bool" where
  "Trusted options a =
     (let address = (if po_normalizeMappedIpv4 options then Normalized a else a)
      in list_ex (\<lambda>range. Contains range address) (po_trustedNetworks options))"

section \<open>Ports and authorities\<close>

definition Port :: "string \<Rightarrow> 16 word option" where
  "Port s =
     (if s = [] \<or> \<not> list_all isdigit s \<or> decimal_value s > 65535 then None else Some (of_nat (decimal_value s)))"

definition Authority :: "string \<Rightarrow> bool" where
  "Authority s \<longleftrightarrow>
     s \<noteq> [] \<and> length s \<le> 255 \<and>
     list_all (\<lambda>c. \<not> (uchar c \<le> 32 \<or> uchar c \<ge> 127 \<or>
        c \<in> set [CHR ''/'', CHR ''@'', CHR 0x5C, CHR 0x3F, CHR ''#'', CHR '','', CHR 0x3B, CHR 0x22])) s \<and>
     (if hd s = CHR 0x5B then
        (case cut_at (CHR 0x5D) s of
           (front, None) \<Rightarrow> False
         | (front, Some rest) \<Rightarrow>
             length front \<ge> 2 \<and>
             (case IpAddress_Parse (tl front) of
                Inl _ \<Rightarrow> False
              | Inr ip \<Rightarrow>
                  mFamily ip = V6Family \<and> mScopeId ip = 0 \<and>
                  (rest = [] \<or> (hd rest = CHR '':'' \<and> Port (tl rest) \<noteq> None))))
      else
        (case cut_at (CHR '':'') s of
           (host, port) \<Rightarrow>
             (case port of None \<Rightarrow> True | Some digits \<Rightarrow> Port digits \<noteq> None) \<and> host \<noteq> [] \<and>
             list_all (\<lambda>c. c = CHR ''.'' \<or> c = CHR ''-'' \<or> (48 \<le> uchar c \<and> uchar c \<le> 57) \<or>
                (97 \<le> uchar (Lower c) \<and> uchar (Lower c) \<le> 122)) host))"

section \<open>The Forwarded header\<close>

text \<open>A quoted value behind its opening quote: the value and the text behind the closing quote.\<close>

fun quoted_value :: "string \<Rightarrow> (string \<times> string) option" where
  "quoted_value [] = None"
| "quoted_value (c # s) =
     (if uchar c = 34 then Some ([], s)
      else if uchar c = 92 then
        (case s of
           [] \<Rightarrow> None
         | e # s' \<Rightarrow>
             if uchar e < 32 \<or> uchar e \<ge> 127 then None
             else (case quoted_value s' of None \<Rightarrow> None | Some (v, r) \<Rightarrow> Some (e # v, r)))
      else if uchar c < 32 \<or> uchar c \<ge> 127 then None
      else (case quoted_value s of None \<Rightarrow> None | Some (v, r) \<Rightarrow> Some (c # v, r)))"

definition value_end :: "char \<Rightarrow> bool" where
  "value_end c \<longleftrightarrow> c = CHR 0x3B \<or> c = CHR '','' \<or> c = CHR '' '' \<or> c = CHR 0x09"

text \<open>One pair: its name, its value and the text behind it.\<close>

definition forwarded_pair :: "string list \<Rightarrow> string \<Rightarrow> (string \<times> string \<times> string) option" where
  "forwarded_pair names s =
     (case cut_at (CHR ''='') (Trim s) of
        (_, None) \<Rightarrow> None
      | (front, Some after) \<Rightarrow>
          let name = map Lower (Trim front); v = Trim after
          in if \<not> IsToken name \<or> name \<in> set names then None
             else if v \<noteq> [] \<and> uchar (hd v) = 34 then
               (case quoted_value (tl v) of None \<Rightarrow> None | Some (parsed, rest) \<Rightarrow> Some (name, parsed, rest))
             else
               let token = takeWhile (\<lambda>c. \<not> value_end c) v
               in if \<not> IsToken token then None else Some (name, token, drop (length token) v))"

lemma quoted_value_length: "quoted_value s = Some (v, r) \<Longrightarrow> length r < length s"
proof (induction s arbitrary: v r rule: length_induct)
  case (1 s)
  show ?case
  proof (cases s)
    case (Cons c t)
    have IH: "quoted_value u = Some (v', r') \<Longrightarrow> length u < length s \<Longrightarrow> length r' < length u" for u v' r' using "1.IH" by blast
    show ?thesis using "1.prems" Cons IH
      by (fastforce split: if_splits list.splits option.splits)
  qed (use "1.prems" in simp)
qed

lemma forwarded_pair_length: "forwarded_pair names s = Some (name, v, rest) \<Longrightarrow> length rest < length s"
proof -
  assume run: "forwarded_pair names s = Some (name, v, rest)"
  then obtain front after where cut: "cut_at (CHR ''='') (Trim s) = (front, Some after)"
    by (auto simp: forwarded_pair_def split: prod.splits option.splits)
  have "length after < length s" using cut_at_length [OF cut] length_Trim [of s] by linarith
  moreover have "length rest \<le> length (Trim after)"
    using run cut quoted_value_length [of "tl (Trim after)"]
    by (auto simp: forwarded_pair_def Let_def split: if_splits option.splits dest: less_imp_le order_trans)
  ultimately show ?thesis using length_Trim [of after] by linarith
qed

definition set_hop :: "Hop \<Rightarrow> string \<Rightarrow> string \<Rightarrow> Hop" where
  "set_hop hop name parsed =
     (if name = ''for'' then hop\<lparr>ho_node := parsed\<rparr>
      else if name = ''proto'' then hop\<lparr>ho_proto := parsed\<rparr>
      else if name = ''host'' then hop\<lparr>ho_host := parsed\<rparr>
      else hop)"

text \<open>The pairs of one hop; \<open>None\<close> is a format error.\<close>

function forwarded_hop :: "string list \<Rightarrow> Hop \<Rightarrow> string \<Rightarrow> (Hop \<times> string) option" where
  "forwarded_hop names hop s =
     (case forwarded_pair names s of
        None \<Rightarrow> None
      | Some (name, parsed, rest) \<Rightarrow>
          let hop1 = set_hop hop name parsed
          in case Trim rest of
               [] \<Rightarrow> Some (hop1, [])
             | delimiter # s1 \<Rightarrow>
                 if delimiter = CHR '','' then (if Trim s1 = [] then None else Some (hop1, s1))
                 else if delimiter \<noteq> CHR 0x3B \<or> s1 = [] then None
                 else forwarded_hop (name # names) hop1 s1)"
  by pat_completeness auto
termination
proof (relation "measure (\<lambda>(names, hop, s). length s)", goal_cases)
  case (2 names hop s _ name p parsed rest hop1 delimiter s1)
  then show ?case using forwarded_pair_length [of names s name parsed rest] Trim_Cons_length [of rest delimiter s1] by simp
qed simp

declare forwarded_hop.simps [simp del]

lemma forwarded_hop_length: "forwarded_hop names hop s = Some (hop1, rest) \<Longrightarrow> length rest < length s"
proof (induction names hop s rule: forwarded_hop.induct)
  case (1 names hop s)
  obtain name parsed r where pair: "forwarded_pair names s = Some (name, parsed, r)"
    using "1.prems" by (subst (asm) forwarded_hop.simps) (auto split: option.splits)
  note short = forwarded_pair_length [OF pair]
  show ?case
  proof (cases "Trim r")
    case Nil
    then show ?thesis using "1.prems" pair short by (subst (asm) forwarded_hop.simps) (auto simp: Let_def)
  next
    case (Cons d s1)
    have "length s1 < length r" using Trim_Cons_length [OF Cons] .
    moreover have "rest = s1 \<or> forwarded_hop (name # names) (set_hop hop name parsed) s1 = Some (hop1, rest) \<and> d \<noteq> CHR '','' \<and> \<not> (d \<noteq> CHR 0x3B \<or> s1 = [])"
      using "1.prems" pair Cons by (subst (asm) forwarded_hop.simps) (auto simp: Let_def split: if_splits)
    ultimately show ?thesis using "1.IH" [OF pair refl refl refl Cons] short by fastforce
  qed
qed

function ParseForwarded :: "nat \<Rightarrow> Hop list \<Rightarrow> string \<Rightarrow> Hop list result" where
  "ParseForwarded maxHops hops s =
     (if s = [] then Inr hops
      else if length hops \<ge> maxHops then Inl TooLarge
      else case forwarded_hop [] \<lparr>ho_node = [], ho_proto = [], ho_host = []\<rparr> s of
        None \<Rightarrow> Inl InvalidFormat
      | Some (hop, rest) \<Rightarrow> ParseForwarded maxHops (hops @ [hop]) rest)"
  by pat_completeness auto
termination
  by (relation "measure (\<lambda>(maxHops, hops, s). length s)") (auto dest: forwarded_hop_length)

declare ParseForwarded.simps [simp del]

section \<open>The X-Forwarded headers\<close>

fun list_parts :: "nat \<Rightarrow> string list \<Rightarrow> string list \<Rightarrow> string list result" where
  "list_parts limit items [] = Inr items"
| "list_parts limit items (part # parts) =
     (if Trim part = [] then Inl InvalidFormat
      else if length items \<ge> limit then Inl TooLarge
      else list_parts limit (items @ [Trim part]) parts)"

definition List :: "string \<Rightarrow> nat \<Rightarrow> string list result" where
  "List s limit = (if s = [] then Inr [] else list_parts limit [] (comma_parts s))"

definition aligned :: "nat \<Rightarrow> string list \<Rightarrow> nat \<Rightarrow> string" where
  "aligned count items index = (if index + length items < count then [] else items ! (index + length items - count))"

definition Node :: "string \<Rightarrow> bool \<Rightarrow> IpEndpoint option result" where
  "Node s forwarded =
     (if s = [] \<or> EqualInsensitive s ''unknown'' \<or> hd s = CHR ''_'' then Inr None
      else
        let split =
          (if hd s = CHR 0x5B then
             (case cut_at (CHR 0x5D) s of
                (_, None) \<Rightarrow> None
              | (front, Some rest) \<Rightarrow>
                  if rest = [] then Some (tl front, 0)
                  else if hd rest \<noteq> CHR '':'' then None
                  else map_option (Pair (tl front)) (Port (tl rest)))
           else if forwarded then
             (case cut_at (CHR '':'') s of
                (_, None) \<Rightarrow> Some (s, 0)
              | (address, Some digits) \<Rightarrow> map_option (Pair address) (Port digits))
           else Some (s, 0))
        in case split of
             None \<Rightarrow> Inl InvalidFormat
           | Some (address, port) \<Rightarrow>
               (case IpAddress_Parse address of
                  Inl _ \<Rightarrow> Inl InvalidFormat
                | Inr parsed \<Rightarrow>
                    if mScopeId parsed \<noteq> 0 then Inl InvalidFormat
                    else if forwarded \<and> mFamily parsed = V6Family \<and> hd s \<noteq> CHR 0x5B then Inl InvalidFormat
                    else Inr (Some \<lparr>ep_address = parsed, ep_port = port\<rparr>)))"

section \<open>Resolving\<close>

record Collected =
  co_forwarded :: string
  co_xff :: string
  co_proto :: string
  co_host :: string
  co_bytes :: nat

datatype Destination = DestForwarded | DestFor | DestProto | DestHost

definition destination :: "TrustedProxyOptions \<Rightarrow> string \<Rightarrow> Destination option" where
  "destination options name =
     (if po_mode options = PM_XForwarded \<and> po_acceptHost options \<and> EqualInsensitive name ''x-forwarded-host'' then Some DestHost
      else if po_mode options = PM_XForwarded \<and> po_acceptProto options \<and> EqualInsensitive name ''x-forwarded-proto'' then Some DestProto
      else if po_mode options = PM_XForwarded \<and> EqualInsensitive name ''x-forwarded-for'' then Some DestFor
      else if po_mode options = PM_Forwarded \<and> EqualInsensitive name ''forwarded'' then Some DestForwarded
      else None)"

definition append_value :: "string \<Rightarrow> string \<Rightarrow> string" where
  "append_value dest field = (if dest \<noteq> [] then dest @ [CHR '',''] else dest) @ field"

fun put_value :: "Destination \<Rightarrow> string \<Rightarrow> Collected \<Rightarrow> Collected" where
  "put_value DestForwarded field c = c\<lparr>co_forwarded := append_value (co_forwarded c) field\<rparr>"
| "put_value DestFor field c = c\<lparr>co_xff := append_value (co_xff c) field\<rparr>"
| "put_value DestProto field c = c\<lparr>co_proto := append_value (co_proto c) field\<rparr>"
| "put_value DestHost field c = c\<lparr>co_host := append_value (co_host c) field\<rparr>"

fun collect :: "TrustedProxyOptions \<Rightarrow> Collected \<Rightarrow> HttpHeaders \<Rightarrow> Collected result" where
  "collect options c [] = Inr c"
| "collect options c ((name, field) # headers) =
     (case destination options name of
        None \<Rightarrow> collect options c headers
      | Some d \<Rightarrow>
          if length field \<ge> po_maxHeaderBytes options - co_bytes c then Inl TooLarge
          else collect options (put_value d field (c\<lparr>co_bytes := co_bytes c + (length field + 1)\<rparr>)) headers)"

definition x_hops :: "string list \<Rightarrow> string list \<Rightarrow> string list \<Rightarrow> Hop list" where
  "x_hops nodes protocols hosts =
     map (\<lambda>i. \<lparr>ho_node = nodes ! i, ho_proto = aligned (length nodes) protocols i, ho_host = aligned (length nodes) hosts i\<rparr>)
       [0..<length nodes]"

definition collected_hops :: "TrustedProxyOptions \<Rightarrow> Collected \<Rightarrow> Hop list result" where
  "collected_hops options c =
     (if po_mode options = PM_Forwarded then ParseForwarded (po_maxHops options) [] (co_forwarded c)
      else case (List (co_xff c) (po_maxHops options), List (co_proto c) (po_maxHops options), List (co_host c) (po_maxHops options)) of
        (Inl e, _, _) \<Rightarrow> Inl e
      | (Inr _, Inl e, _) \<Rightarrow> Inl e
      | (Inr _, Inr _, Inl e) \<Rightarrow> Inl e
      | (Inr nodes, Inr protocols, Inr hosts) \<Rightarrow> Inr (x_hops nodes protocols hosts))"

text \<open>The walk over the hops, the nearest first.\<close>

fun walk :: "TrustedProxyOptions \<Rightarrow> ProxyPeer \<Rightarrow> Hop list \<Rightarrow> ProxyPeer result" where
  "walk options r [] = Inr r"
| "walk options r (hop # hops) =
     (if \<not> Trusted options (ep_address (pp_client r)) then Inr r
      else case Node (ho_node hop) (po_mode options = PM_Forwarded) of
        Inl _ \<Rightarrow> Inl InvalidFormat
      | Inr None \<Rightarrow> Inr r
      | Inr (Some node) \<Rightarrow>
          if po_acceptProto options \<and> ho_proto hop \<noteq> [] \<and> ho_proto hop \<noteq> ''http'' \<and> ho_proto hop \<noteq> ''https'' then Inl InvalidFormat
          else if po_acceptHost options \<and> ho_host hop \<noteq> [] \<and> \<not> Authority (ho_host hop) then Inl InvalidFormat
          else walk options
                 (r\<lparr>pp_client := node, pp_acceptedHops := pp_acceptedHops r + 1,
                    pp_proto := (if po_acceptProto options then ho_proto hop else []),
                    pp_host := (if po_acceptHost options then ho_host hop else [])\<rparr>) hops)"

definition direct_peer :: "IpEndpoint \<Rightarrow> ProxyPeer" where
  "direct_peer peer = \<lparr>pp_transportPeer = peer, pp_client = peer, pp_acceptedHops = 0, pp_proto = [], pp_host = []\<rparr>"

definition Resolve :: "bool \<Rightarrow> TrustedProxyOptions \<Rightarrow> IpEndpoint \<Rightarrow> HttpHeaders \<Rightarrow> ProxyPeer result" where
  "Resolve alloc options peer headers =
     (if mFamily (ep_address peer) = Unspecified then Inl InvalidArgument
      else if \<not> alloc then Inl PlatformError
      else if \<not> Trusted options (ep_address peer) then Inr (direct_peer peer)
      else case collect options \<lparr>co_forwarded = [], co_xff = [], co_proto = [], co_host = [], co_bytes = 0\<rparr> headers of
        Inl e \<Rightarrow> Inl e
      | Inr c \<Rightarrow>
          (case collected_hops options c of
             Inl e \<Rightarrow> Inl e
           | Inr hops \<Rightarrow> walk options (direct_peer peer) (rev hops)))"

section \<open>Forged entries\<close>

lemma cut_at_append:
  "cut_at c (a @ c # b) = (case cut_at c a of (part, None) \<Rightarrow> (part, Some b) | (part, Some rest) \<Rightarrow> (part, Some (rest @ c # b)))"
proof (cases "c \<in> set a")
  case True
  then obtain x y where "a = x @ c # y" "c \<notin> set x" by (meson split_list_first)
  then show ?thesis using cut_at_some [of c x y] cut_at_some [of c x "y @ c # b"] by simp
next
  case False
  then show ?thesis using cut_at_none [OF False] cut_at_some [OF False, of b] by simp
qed

lemma parts_at_append: "parts_at c (a @ c # b) = parts_at c a @ parts_at c b"
proof (induction c a rule: parts_at.induct)
  case (1 c a)
  obtain part r where cut: "cut_at c a = (part, r)" by (cases "cut_at c a") auto
  show ?case
  proof (cases r)
    case None
    then show ?thesis using cut cut_at_append [of c a b] parts_at.simps [of c a] parts_at.simps [of c "a @ c # b"] by simp
  next
    case (Some rest)
    then show ?thesis
      using cut cut_at_append [of c a b] "1.IH" [OF cut [symmetric] Some] parts_at.simps [of c a] parts_at.simps [of c "a @ c # b"] by simp
  qed
qed

lemma list_parts_some: "list_parts limit items parts = Inr out \<Longrightarrow> out = items @ map Trim parts"
  by (induction limit items parts rule: list_parts.induct) (auto split: if_splits)

lemma List_some: "List s limit = Inr out \<Longrightarrow> out = (if s = [] then [] else map Trim (comma_parts s))"
  by (auto simp: List_def dest: list_parts_some split: if_splits)

text \<open>Values that are collected behind other text: the text alone comes last, behind a comma.\<close>

fun joined :: "string \<Rightarrow> string list \<Rightarrow> string" where
  "joined dest [] = dest"
| "joined dest (v # vs) = joined (append_value dest v) vs"

lemma joined_move: "w \<noteq> [] \<Longrightarrow> joined (front @ CHR '','' # w) vs = front @ CHR '','' # joined w vs"
  by (induction vs arbitrary: w) (auto simp: append_value_def)

lemma joined_behind:
  "dest \<noteq> [] \<Longrightarrow> joined [] vs = [] \<or> (\<exists>front. joined dest vs = front @ CHR '','' # joined [] vs)"
proof (induction vs arbitrary: dest)
  case (Cons v vs)
  show ?case
  proof (cases "v = []")
    case True
    then show ?thesis using Cons.IH [of "dest @ [CHR '','']"] Cons.prems by (auto simp: append_value_def)
  next
    case False
    then show ?thesis using joined_move [OF False, of dest vs] Cons.prems by (auto simp: append_value_def)
  qed
qed simp

text \<open>The collected text of the nodes is the join of the values of that header.\<close>

definition for_values :: "TrustedProxyOptions \<Rightarrow> HttpHeaders \<Rightarrow> string list" where
  "for_values options headers = map snd (filter (\<lambda>(name, field). destination options name = Some DestFor) headers)"

lemma collect_xff: "collect options c headers = Inr c1 \<Longrightarrow> co_xff c1 = joined (co_xff c) (for_values options headers)"
proof (induction options c headers rule: collect.induct)
  case (2 options c name field headers)
  show ?case
  proof (cases "destination options name")
    case None
    then show ?thesis using 2 by (simp add: for_values_def)
  next
    case (Some d)
    then have "collect options (put_value d field (c\<lparr>co_bytes := co_bytes c + (length field + 1)\<rparr>)) headers = Inr c1"
      and small: "\<not> length field \<ge> po_maxHeaderBytes options - co_bytes c"
      using "2.prems" by (auto split: if_splits)
    with "2.IH"(2) [OF Some small] have
      "co_xff c1 = joined (co_xff (put_value d field (c\<lparr>co_bytes := co_bytes c + (length field + 1)\<rparr>))) (for_values options headers)" by blast
    then show ?thesis using Some by (cases d) (simp_all add: for_values_def)
  qed
qed (simp add: for_values_def)

lemma joined_append: "joined dest (vs @ ws) = joined (joined dest vs) ws"
  by (induction vs arbitrary: dest) simp_all

text \<open>A walk that reaches an untrusted client does not look at the hops further away.\<close>

lemma walk_forged:
  assumes "walk options r hops = Inr r1" "\<not> Trusted options (ep_address (pp_client r1))"
    and "map ho_node hops = map ho_node (take (length hops) hops')" "length hops \<le> length hops'"
    and "pp_client r' = pp_client r" "pp_acceptedHops r' = pp_acceptedHops r" "pp_transportPeer r' = pp_transportPeer r"
    and "walk options r' hops' = Inr r2"
  shows "pp_client r2 = pp_client r1 \<and> pp_acceptedHops r2 = pp_acceptedHops r1 \<and> pp_transportPeer r2 = pp_transportPeer r1"
  using assms
proof (induction hops arbitrary: r r' hops')
  case Nil
  then show ?case by (cases hops') auto
next
  case (Cons hop hops)
  obtain hop' rest' where hops': "hops' = hop' # rest'" using Cons.prems(4) by (cases hops') auto
  have node: "ho_node hop' = ho_node hop" "map ho_node hops = map ho_node (take (length hops) rest')" "length hops \<le> length rest'"
    using Cons.prems(3,4) hops' by auto
  show ?case
  proof (cases "Trusted options (ep_address (pp_client r))")
    case False
    then show ?thesis using Cons.prems hops' by auto
  next
    case True
    show ?thesis
    proof (cases "Node (ho_node hop) (po_mode options = PM_Forwarded)")
      case (Inl e)
      then show ?thesis using Cons.prems(1) True by simp
    next
      case (Inr found)
      show ?thesis
      proof (cases found)
        case None
        then show ?thesis using Cons.prems(1,2) True Inr by simp
      next
        case (Some ep)
        let ?next = "\<lambda>r h. r\<lparr>pp_client := ep, pp_acceptedHops := pp_acceptedHops r + 1,
                    pp_proto := (if po_acceptProto options then ho_proto h else []),
                    pp_host := (if po_acceptHost options then ho_host h else [])\<rparr>"
        have "walk options (?next r hop) hops = Inr r1"
          using Cons.prems(1) True Inr Some by (simp split: if_split_asm)
        moreover have "walk options (?next r' hop') rest' = Inr r2"
          using Cons.prems(5,8) True Inr Some hops' node(1) by (simp split: if_split_asm)
        ultimately show ?thesis
          using Cons.IH [of "?next r hop" rest' "?next r' hop'"] Cons.prems(2,5,6,7) node(2,3) by simp
      qed
    qed
  qed
qed

lemma x_hops_nodes: "map ho_node (x_hops nodes protocols hosts) = nodes"
  by (simp add: x_hops_def comp_def map_nth)

lemma collected_hops_nodes:
  assumes "po_mode options = PM_XForwarded" "collected_hops options c = Inr hops"
  shows "map ho_node hops = (if co_xff c = [] then [] else map Trim (comma_parts (co_xff c)))"
proof -
  obtain nodes protocols hosts where "List (co_xff c) (po_maxHops options) = Inr nodes" "hops = x_hops nodes protocols hosts"
    using assms by (auto simp: collected_hops_def split: sum.split_asm)
  then show ?thesis using List_some [of "co_xff c" "po_maxHops options" nodes] by (simp add: x_hops_nodes)
qed

text \<open>Text in front of the collected nodes adds hops that are further away.\<close>

lemma walk_behind:
  assumes mode: "po_mode options = PM_XForwarded"
    and hops: "collected_hops options c = Inr hops" "collected_hops options c' = Inr hops'"
    and behind: "co_xff c' = co_xff c \<or> (\<exists>front. co_xff c' = front @ CHR '','' # co_xff c)"
    and trusted: "Trusted options (ep_address peer)"
    and run: "walk options (direct_peer peer) (rev hops) = Inr r" "\<not> Trusted options (ep_address (pp_client r))"
      "walk options (direct_peer peer) (rev hops') = Inr r2"
  shows "pp_client r2 = pp_client r \<and> pp_acceptedHops r2 = pp_acceptedHops r \<and> pp_transportPeer r2 = pp_transportPeer r"
proof -
  have "hops \<noteq> []" using run(1,2) trusted by (auto simp: direct_peer_def)
  then have nonempty: "co_xff c \<noteq> []" using collected_hops_nodes [OF mode hops(1)] by (auto split: if_splits)
  have "\<exists>further. map ho_node hops' = further @ map ho_node hops"
    using behind collected_hops_nodes [OF mode hops(1)] collected_hops_nodes [OF mode hops(2)] nonempty
    by (auto simp: parts_at_append)
  then obtain further where further: "map ho_node hops' = further @ map ho_node hops" ..
  have len: "length hops' = length further + length hops" using arg_cong [OF further, of length] by simp
  have "map ho_node (rev hops) = map ho_node (take (length (rev hops)) (rev hops'))"
    using further by (simp add: rev_map [symmetric] take_map [symmetric])
  then show ?thesis using walk_forged [OF run(1,2) _ _ refl refl refl run(3)] len by simp
qed

lemma Resolve_trusted:
  assumes "Resolve alloc options peer headers = Inr r" "Trusted options (ep_address peer)"
  obtains c hops where
    "collect options \<lparr>co_forwarded = [], co_xff = [], co_proto = [], co_host = [], co_bytes = 0\<rparr> headers = Inr c"
    "collected_hops options c = Inr hops" "walk options (direct_peer peer) (rev hops) = Inr r"
  using assms by (auto simp: Resolve_def split: if_split_asm sum.split_asm)

lemma for_values_append: "for_values options (a @ b) = for_values options a @ for_values options b"
  by (simp add: for_values_def)


definition example_options :: TrustedProxyOptions where
  "example_options =
     \<lparr>po_trustedNetworks = [\<lparr>net_address = \<lparr>mFamily = V4Family, mBytes = 10 # replicate 15 0, mScopeId = 0\<rparr>, net_prefix = 8\<rparr>],
      po_mode = PM_XForwarded, po_maxHops = 4, po_maxHeaderBytes = 100, po_acceptProto = False, po_acceptHost = False,
      po_normalizeMappedIpv4 = False\<rparr>"

definition example_peer :: IpEndpoint where
  "example_peer = \<lparr>ep_address = \<lparr>mFamily = V4Family, mBytes = [10, 0, 0, 1] @ replicate 12 0, mScopeId = 0\<rparr>, ep_port = 80\<rparr>"


end
