(* ===== verification/WebSocketHandshake.thy ===== *)
theory WebSocketHandshake
  imports HttpText
begin

text \<open>
  The opening handshake of WebSocket (\<^verbatim>\<open>src/Web/WebProtocol.cpp\<close>): Base64, SHA-1, the answer to the key of the
  client, and the choice of the subprotocol. A key is accepted exactly if it is the Base64 text of
  sixteen bytes.
\<close>

section \<open>Base64\<close>

definition Base64Alphabet :: string where
  "Base64Alphabet = ''ABCDEFGHIJKLMNOPQRSTUVWXYZabcdefghijklmnopqrstuvwxyz0123456789+/''"

definition sextet :: "nat \<Rightarrow> char" where
  "sextet v = Base64Alphabet ! v"

fun Base64 :: "byte list \<Rightarrow> string" where
  "Base64 (a # b # c # rest) =
     (let first = unat a; second = unat b; third = unat c
      in [sextet (drop_bit 2 first),
          sextet (push_bit 4 (first AND 3) OR drop_bit 4 second),
          sextet (push_bit 2 (second AND 15) OR drop_bit 6 third),
          sextet (third AND 63)] @ Base64 rest)"
| "Base64 [a, b] =
     (let first = unat a; second = unat b
      in [sextet (drop_bit 2 first),
          sextet (push_bit 4 (first AND 3) OR drop_bit 4 second),
          sextet (push_bit 2 (second AND 15) OR drop_bit 6 0), CHR ''=''])"
| "Base64 [a] =
     (let first = unat a
      in [sextet (drop_bit 2 first), sextet (push_bit 4 (first AND 3) OR drop_bit 4 0), CHR ''='', CHR ''=''])"
| "Base64 [] = []"

section \<open>SHA-1\<close>

function zero_fill :: "byte list \<Rightarrow> byte list" where
  "zero_fill bytes = (if length bytes mod 64 \<noteq> 56 then zero_fill (bytes @ [0]) else bytes)"
  by pat_completeness auto
termination
proof (relation "measure (\<lambda>bytes. let m = length bytes mod 64 in if m \<le> 56 then 56 - m else 120 - m)", goal_cases)
  case (2 bytes)
  define m where "m = length bytes mod 64"
  have "length (bytes @ [0]) mod 64 = (if m = 63 then 0 else Suc m)" "m < 64" "m \<noteq> 56"
    using 2 by (simp_all add: m_def mod_Suc)
  then show ?case unfolding in_measure Let_def m_def [symmetric] by (auto split: if_splits)
qed simp

declare zero_fill.simps [simp del]

definition big_endian_64 :: "64 word \<Rightarrow> byte list" where
  "big_endian_64 bits = map (\<lambda>shift. ucast (drop_bit shift bits AND 255)) [56, 48, 40, 32, 24, 16, 8, 0]"

definition sha1_message :: "string \<Rightarrow> byte list" where
  "sha1_message s =
     zero_fill (map (\<lambda>c. of_nat (uchar c)) s @ [0x80]) @ big_endian_64 (of_nat (length s) * 8)"

definition block_word :: "byte list \<Rightarrow> nat \<Rightarrow> 32 word" where
  "block_word block index = foldl (\<lambda>w b. push_bit 8 w OR ucast b) 0 (take 4 (drop (index * 4) block))"

definition extend_words :: "32 word list \<Rightarrow> 32 word list" where
  "extend_words ws =
     (let n = length ws in ws @ [word_rotl 1 (ws ! (n - 3) XOR ws ! (n - 8) XOR ws ! (n - 14) XOR ws ! (n - 16))])"

definition sha1_words :: "byte list \<Rightarrow> 32 word list" where
  "sha1_words block = (extend_words ^^ 64) (map (block_word block) [0..<16])"

type_synonym sha1_state = "32 word \<times> 32 word \<times> 32 word \<times> 32 word \<times> 32 word"

definition sha1_round :: "32 word list \<Rightarrow> sha1_state \<Rightarrow> nat \<Rightarrow> sha1_state" where
  "sha1_round ws st index = (case st of (a, b, c, d, e) \<Rightarrow>
     let (f, constant) =
       (if index < 20 then ((b AND c) OR (NOT b AND d), 0x5a827999)
        else if index < 40 then (b XOR c XOR d, 0x6ed9eba1)
        else if index < 60 then ((b AND c) OR (b AND d) OR (c AND d), 0x8f1bbcdc)
        else (b XOR c XOR d, 0xca62c1d6));
         a1 = word_rotl 5 a + f + e + constant + ws ! index
     in (a1, a, word_rotl 30 b, c, d))"

definition sha1_block :: "sha1_state \<Rightarrow> byte list \<Rightarrow> sha1_state" where
  "sha1_block hash block =
     (case hash of (h0, h1, h2, h3, h4) \<Rightarrow>
      case foldl (sha1_round (sha1_words block)) hash [0..<80] of (a, b, c, d, e) \<Rightarrow>
        (h0 + a, h1 + b, h2 + c, h3 + d, h4 + e))"

definition sha1_blocks :: "byte list \<Rightarrow> byte list list" where
  "sha1_blocks bytes = map (\<lambda>i. take 64 (drop (i * 64) bytes)) [0..<(length bytes + 63) div 64]"

definition word_bytes :: "32 word \<Rightarrow> byte list" where
  "word_bytes w = map (\<lambda>i. ucast (drop_bit ((3 - i) * 8) w AND 255)) [0..<4]"

definition Sha1 :: "string \<Rightarrow> byte list" where
  "Sha1 s =
     (case foldl sha1_block (0x67452301, 0xefcdab89, 0x98badcfe, 0x10325476, 0xc3d2e1f0) (sha1_blocks (sha1_message s)) of
        (a, b, c, d, e) \<Rightarrow> concat (map word_bytes [a, b, c, d, e]))"

section \<open>The handshake\<close>

definition HandshakeGuid :: string where
  "HandshakeGuid = ''258EAFA5-E914-47DA-95CA-C5AB0DC85B11''"

definition alphabet_position :: "char \<Rightarrow> nat" where
  "alphabet_position c = length (takeWhile (\<lambda>x. x \<noteq> c) Base64Alphabet)"

definition WebSocketAccept :: "string \<Rightarrow> string option" where
  "WebSocketAccept key =
     (if length key \<noteq> 24 \<or> drop 22 key \<noteq> ''=='' then None
      else if \<not> list_all (\<lambda>c. c \<in> set Base64Alphabet) (take 22 key) then None
      else if alphabet_position (key ! 21) AND 15 \<noteq> 0 then None
      else Some (Base64 (Sha1 (key @ HandshakeGuid))))"

text \<open>The tokens that a client offers; \<open>None\<close> is an invalid list.\<close>

fun offer_tokens :: "string list \<Rightarrow> nat \<Rightarrow> string list \<Rightarrow> (string list \<times> nat) option" where
  "offer_tokens offered bytes [] = Some (offered, bytes)"
| "offer_tokens offered bytes (part # parts) =
     (let token = Trim part
      in if \<not> IsToken token \<or> length offered = 64 \<or> length token > 4096 - bytes \<or> token \<in> set offered then None
         else offer_tokens (offered @ [token]) (bytes + length token) parts)"

fun offered_protocols :: "string list \<Rightarrow> nat \<Rightarrow> HttpHeaders \<Rightarrow> string list option" where
  "offered_protocols offered bytes [] = Some offered"
| "offered_protocols offered bytes ((name, field) # headers) =
     (if name \<noteq> ''sec-websocket-protocol'' then offered_protocols offered bytes headers
      else case offer_tokens offered bytes (comma_parts field) of
        None \<Rightarrow> None
      | Some (offered1, bytes1) \<Rightarrow> offered_protocols offered1 bytes1 headers)"

definition SelectWebSocketSubprotocol :: "HttpRequest \<Rightarrow> string list \<Rightarrow> string option" where
  "SelectWebSocketSubprotocol request supported =
     (case offered_protocols [] 0 (rq_headers request) of
        None \<Rightarrow> None
      | Some offered \<Rightarrow> Some (case find (\<lambda>token. token \<in> set offered) supported of None \<Rightarrow> [] | Some token \<Rightarrow> token))"

text \<open>The checks of \<^verbatim>\<open>Upgrade\<close> up to the decision of the policies: the status of the refusal, or the answer.\<close>

definition UpgradeRequest :: "bool \<Rightarrow> HttpRequest \<Rightarrow> string list \<Rightarrow> nat + string \<times> string" where
  "UpgradeRequest http10 request supported =
     (if http10 \<or> rq_method request \<noteq> ''GET'' \<or> rq_body request \<noteq> [] \<or> Header request ''transfer-encoding'' \<noteq> [] \<or>
         \<not> HasToken request ''connection'' ''upgrade'' \<or> HasToken request ''connection'' ''close'' \<or>
         \<not> HasToken request ''upgrade'' ''websocket''
      then Inl 400
      else if length (filter (\<lambda>(name, field). name = ''sec-websocket-key'') (rq_headers request)) \<noteq> 1 \<or>
              length (filter (\<lambda>(name, field). name = ''sec-websocket-version'') (rq_headers request)) \<noteq> 1
      then Inl 400
      else if Header request ''sec-websocket-version'' \<noteq> ''13'' then Inl 426
      else case WebSocketAccept (Header request ''sec-websocket-key'') of
        None \<Rightarrow> Inl 400
      | Some accept \<Rightarrow>
          (case SelectWebSocketSubprotocol request supported of
             None \<Rightarrow> Inl 400
           | Some subprotocol \<Rightarrow> Inr (accept, subprotocol)))"

section \<open>The alphabet\<close>

lemma length_alphabet: "length Base64Alphabet = 64"
  by (simp add: Base64Alphabet_def)

lemma distinct_alphabet: "distinct Base64Alphabet"
  by (simp add: Base64Alphabet_def)

lemma position_sextet: "v < 64 \<Longrightarrow> alphabet_position (sextet v) = v"
proof -
  assume v: "v < 64"
  have "takeWhile (\<lambda>x. x \<noteq> Base64Alphabet ! v) Base64Alphabet = take v Base64Alphabet"
  proof (rule takeWhile_eq_take_P_nth)
    show "Base64Alphabet ! i \<noteq> Base64Alphabet ! v" if "i < v" "i < length Base64Alphabet" for i
      using that v distinct_alphabet length_alphabet by (simp add: nth_eq_iff_index_eq)
  qed simp
  then show ?thesis using v length_alphabet by (simp add: alphabet_position_def sextet_def)
qed

lemma sextet_in: "v < 64 \<Longrightarrow> sextet v \<in> set Base64Alphabet"
  using length_alphabet by (simp add: sextet_def)

lemma in_alphabet: "c \<in> set Base64Alphabet \<longleftrightarrow> (\<exists>v < 64. c = sextet v)"
  using length_alphabet by (auto simp: in_set_conv_nth sextet_def)

section \<open>Groups of three bytes\<close>

lemma sextet_bits:
  "drop_bit 2 f = f div 4" "s < 256 \<Longrightarrow> push_bit 4 (f AND 3) OR drop_bit 4 s = f mod 4 * 16 + s div 16"
  "t < 256 \<Longrightarrow> push_bit 2 (s AND 15) OR drop_bit 6 t = s mod 16 * 4 + t div 64" "t AND 63 = t mod 64"
  for f s t :: nat
  using or_disjoint_nat [of "drop_bit 4 s" 4 "f AND 3"] or_disjoint_nat [of "drop_bit 6 t" 2 "s AND 15"]
  by (simp_all add: bit_nat drop_bit_eq_div less_mult_imp_div_less)

lemma unat_byte: "unat (b :: byte) < 256"
  using unsigned_less [of b, where 'a = nat] by simp

definition group_indices :: "byte \<Rightarrow> byte \<Rightarrow> byte \<Rightarrow> nat list" where
  "group_indices a b c =
     [unat a div 4, unat a mod 4 * 16 + unat b div 16, unat b mod 16 * 4 + unat c div 64, unat c mod 64]"

lemma Base64_group: "Base64 (a # b # c # rest) = map sextet (group_indices a b c) @ Base64 rest"
  using sextet_bits(2) [OF unat_byte [of b], of "unat a"] sextet_bits(3) [OF unat_byte [of c], of "unat b"]
  by (simp add: group_indices_def Let_def sextet_bits(1,4))

lemma Base64_single: "Base64 [a] = [sextet (unat a div 4), sextet (unat a mod 4 * 16), CHR ''='', CHR ''='']"
  using sextet_bits(2) [of 0 "unat a"] by (simp add: Let_def sextet_bits(1))

lemma Base64_empty: "Base64 [] = []"
  by simp

lemmas Base64_arith = Base64_group Base64_single Base64_empty

declare Base64.simps [simp del]

lemma group_indices_less: "list_all (\<lambda>v. v < 64) (group_indices a b c)"
  using unat_byte [of a] unat_byte [of b] unat_byte [of c] by (simp add: group_indices_def less_mult_imp_div_less) linarith

lemma group_exists:
  assumes "i < 64" "j < 64" "k < 64" "l < 64"
  shows "\<exists>a b c. group_indices a b c = [i, j, k, l]"
proof -
  let ?a = "of_nat (i * 4 + j div 16) :: byte" and ?b = "of_nat (j mod 16 * 16 + k div 4) :: byte" and ?c = "of_nat (k mod 4 * 64 + l) :: byte"
  have "i * 4 + j div 16 < 256" "j mod 16 * 16 + k div 4 < 256" "k mod 4 * 64 + l < 256" using assms by linarith+
  then have "unat ?a = i * 4 + j div 16" "unat ?b = j mod 16 * 16 + k div 4" "unat ?c = k mod 4 * 64 + l"
    by (simp_all add: unat_of_nat del: of_nat_add of_nat_mult)
  moreover have "(i * 4 + j div 16) div 4 = i" "(i * 4 + j div 16) mod 4 * 16 + (j mod 16 * 16 + k div 4) div 16 = j"
    "(j mod 16 * 16 + k div 4) mod 16 * 4 + (k mod 4 * 64 + l) div 64 = k" "(k mod 4 * 64 + l) mod 64 = l"
  proof -
    have small: "j div 16 < 4" "k div 4 < 16" using assms by linarith+
    have split: "x < n \<Longrightarrow> (y * n + x) div n = y \<and> (y * n + x) mod n = x" for x y n :: nat by simp
    show "(i * 4 + j div 16) div 4 = i" using split [OF small(1)] by blast
    show "(i * 4 + j div 16) mod 4 * 16 + (j mod 16 * 16 + k div 4) div 16 = j"
      using split [OF small(1), of i] split [OF small(2), of "j mod 16"] by (simp only: div_mult_mod_eq)
    show "(j mod 16 * 16 + k div 4) mod 16 * 4 + (k mod 4 * 64 + l) div 64 = k"
      using split [OF small(2), of "j mod 16"] split [OF assms(4), of "k mod 4"] by (simp only: div_mult_mod_eq)
    show "(k mod 4 * 64 + l) mod 64 = l" using split [OF assms(4)] by blast
  qed
  ultimately have "group_indices ?a ?b ?c = [i, j, k, l]" by (simp add: group_indices_def del: of_nat_add of_nat_mult)
  then show ?thesis by blast
qed

lemma single_exists:
  assumes "i < 64" "j < 64" "j AND 15 = 0"
  shows "\<exists>a :: byte. unat a div 4 = i \<and> unat a mod 4 * 16 = j"
proof -
  have "j mod 16 = 0" using assms(3) by (simp add: bit_nat)
  then have j: "j = j div 16 * 16" by presburger
  have small: "j div 16 < 4" using assms(2) by linarith
  have "unat (of_nat (i * 4 + j div 16) :: byte) = i * 4 + j div 16"
    using assms(1) small by (simp add: unat_of_nat del: of_nat_add of_nat_mult)
  then show ?thesis using small j by (intro exI [of _ "of_nat (i * 4 + j div 16)"]) simp
qed

section \<open>Keys\<close>

text \<open>A text of whole groups is Base64 text of that many bytes.\<close>

lemma groups_exist:
  "list_all (\<lambda>c. c \<in> set Base64Alphabet) letters \<Longrightarrow> length letters = 4 * n \<Longrightarrow>
   \<exists>bytes. length bytes = 3 * n \<and> (\<forall>rest. Base64 (bytes @ rest) = letters @ Base64 rest)"
proof (induction n arbitrary: letters)
  case (Suc n)
  obtain c0 c1 c2 c3 letters' where letters: "letters = c0 # c1 # c2 # c3 # letters'"
    using Suc.prems(2) by (auto simp: length_Suc_conv numeral_eq_Suc)
  then obtain i j k l where idx: "c0 = sextet i" "c1 = sextet j" "c2 = sextet k" "c3 = sextet l" "i < 64" "j < 64" "k < 64" "l < 64"
    using Suc.prems(1) by (auto simp: in_alphabet)
  obtain a b c where abc: "group_indices a b c = [i, j, k, l]" using group_exists idx by blast
  obtain bytes where "length bytes = 3 * n" "\<forall>rest. Base64 (bytes @ rest) = letters' @ Base64 rest"
    using Suc.IH [of letters'] Suc.prems letters by auto
  then show ?case using letters idx abc by (intro exI [of _ "a # b # c # bytes"]) (simp add: Base64_arith)
qed (auto simp: Base64_arith)

lemma Base64_sixteen:
  assumes "length nonce = 16"
  shows "length (Base64 nonce) = 24 \<and> drop 22 (Base64 nonce) = ''=='' \<and>
         list_all (\<lambda>c. c \<in> set Base64Alphabet) (take 22 (Base64 nonce)) \<and> alphabet_position (Base64 nonce ! 21) AND 15 = 0"
proof -
  have groups: "length (Base64 bytes) = 4 * n \<and> list_all (\<lambda>c. c \<in> set Base64Alphabet) (Base64 bytes) \<and>
      Base64 (bytes @ rest) = Base64 bytes @ Base64 rest" if "length bytes = 3 * n" for bytes n rest
    using that
  proof (induction n arbitrary: bytes)
    case (Suc n)
    obtain a b c bytes' where "bytes = a # b # c # bytes'" using Suc.prems by (auto simp: length_Suc_conv numeral_eq_Suc)
    then show ?case using Suc group_indices_less [of a b c] sextet_in
      by (auto simp: Base64_arith group_indices_def)
  qed (simp add: Base64_arith)
  have front: "length (take 15 nonce) = 3 * 5" using assms by simp
  obtain x where x: "drop 15 nonce = [x]" using Cons_nth_drop_Suc [of 15 nonce] assms by (intro that [of "nonce ! 15"]) simp
  have key: "Base64 nonce = Base64 (take 15 nonce) @ [sextet (unat x div 4), sextet (unat x mod 4 * 16), CHR ''='', CHR ''='']"
    using groups [OF front, of "[x]"] x Base64_single [of x] by (metis append_take_drop_id)
  have twenty: "length (Base64 (take 15 nonce)) = 20" "list_all (\<lambda>c. c \<in> set Base64Alphabet) (Base64 (take 15 nonce))"
    using groups [OF front] by auto
  have v: "unat x div 4 < 64" "unat x mod 4 * 16 < 64" using unat_byte [of x] by (simp_all add: less_mult_imp_div_less)
  show ?thesis unfolding key using twenty v position_sextet [OF v(2)] sextet_in
    by (simp add: nth_append bit_nat)
qed

text \<open>
  C31. The WebSocket key check accepts exactly the keys the protocol allows: the Base64 texts of sixteen
  bytes, with their unused bits zero. The answer is the Base64 text of the SHA-1 hash of the key and the
  fixed identifier.
\<close>

theorem WebSocketAccept_iff:
  "(WebSocketAccept key \<noteq> None \<longleftrightarrow> (\<exists>nonce. length nonce = 16 \<and> key = Base64 nonce)) \<and>
   (\<forall>nonce. length nonce = 16 \<longrightarrow> WebSocketAccept (Base64 nonce) = Some (Base64 (Sha1 (Base64 nonce @ HandshakeGuid))))"
proof -
  have answer: "WebSocketAccept (Base64 nonce) = Some (Base64 (Sha1 (Base64 nonce @ HandshakeGuid)))" if "length nonce = 16" for nonce
    using Base64_sixteen [OF that] by (simp add: WebSocketAccept_def)
  have "\<exists>nonce. length nonce = 16 \<and> key = Base64 nonce" if "WebSocketAccept key \<noteq> None"
  proof -
    have key: "length key = 24" "drop 22 key = ''==''" "list_all (\<lambda>c. c \<in> set Base64Alphabet) (take 22 key)"
      "alphabet_position (key ! 21) AND 15 = 0"
      using that by (auto simp: WebSocketAccept_def split: if_split_asm)
    have parts: "take 22 key = take 20 key @ [key ! 20, key ! 21]" using key(1)
      by (simp add: take_Suc_conv_app_nth numeral_eq_Suc)
    obtain bytes where bytes: "length bytes = 15" "\<forall>rest. Base64 (bytes @ rest) = take 20 key @ Base64 rest"
      using groups_exist [of "take 20 key" 5] key parts by auto
    obtain i j where ij: "key ! 20 = sextet i" "key ! 21 = sextet j" "i < 64" "j < 64" using key(3) parts by (auto simp: in_alphabet)
    then obtain a :: byte where a: "unat a div 4 = i" "unat a mod 4 * 16 = j"
      using single_exists [of i j] key(4) position_sextet by auto
    have "key = take 22 key @ drop 22 key" by simp
    then have "key = Base64 (bytes @ [a])" using bytes(2) Base64_single [of a] a ij parts key(2) by simp
    then show ?thesis using bytes(1) by (intro exI [of _ "bytes @ [a]"]) simp
  qed
  then show ?thesis using answer by auto
qed

theorem WebSocketAccept_iff_witness:
  "WebSocketAccept (Base64 (replicate 16 0)) = Some (Base64 (Sha1 (Base64 (replicate 16 0) @ HandshakeGuid)))"
  using WebSocketAccept_iff by simp

end
