(* ===== verification/RequestData.thy ===== *)
theory RequestData
  imports HttpText Utf8
begin

text \<open>
  Query parameters, form fields and cookies (\<^verbatim>\<open>src/Web/RequestData.cpp\<close>). What the percent encoder writes, the
  field parsers read back.
\<close>

section \<open>Percent encoding\<close>

definition Text :: "string \<Rightarrow> bool" where
  "Text s \<longleftrightarrow> CHR 0x00 \<notin> set s \<and> IsValidUtf8 s"

definition Hex :: "char \<Rightarrow> nat option" where
  "Hex c =
     (if 48 \<le> uchar c \<and> uchar c \<le> 57 then Some (uchar c - 48)
      else if 65 \<le> uchar c \<and> uchar c \<le> 70 then Some (uchar c - 65 + 10)
      else if 97 \<le> uchar c \<and> uchar c \<le> 102 then Some (uchar c - 97 + 10)
      else None)"

text \<open>The loop of the decoder, with the bytes decoded so far.\<close>

fun percent_decode :: "bool \<Rightarrow> nat \<Rightarrow> string \<Rightarrow> string \<Rightarrow> string result" where
  "percent_decode plusAsSpace maxBytes out [] = Inr out"
| "percent_decode plusAsSpace maxBytes out (c # s) =
     (if c = CHR ''%'' then
        (case s of
           h # l # s' \<Rightarrow>
             (case (Hex h, Hex l) of
                (Some high, Some low) \<Rightarrow>
                  if length out = maxBytes then Inl TooLarge
                  else percent_decode plusAsSpace maxBytes (out @ [char_of (high * 16 + low)]) s'
              | _ \<Rightarrow> Inl InvalidFormat)
         | _ \<Rightarrow> Inl InvalidFormat)
      else if length out = maxBytes then Inl TooLarge
      else percent_decode plusAsSpace maxBytes (out @ [if c = CHR ''+'' \<and> plusAsSpace then CHR '' '' else c]) s)"

definition PercentDecodeComponent :: "bool \<Rightarrow> string \<Rightarrow> bool \<Rightarrow> nat \<Rightarrow> string result" where
  "PercentDecodeComponent alloc input plusAsSpace maxBytes =
     (if maxBytes = 0 then Inl InvalidArgument
      else if \<not> alloc then Inl PlatformError
      else case percent_decode plusAsSpace maxBytes [] input of
        Inl e \<Rightarrow> Inl e
      | Inr out \<Rightarrow> if \<not> Text out then Inl InvalidFormat else Inr out)"

definition literal_byte :: "bool \<Rightarrow> char \<Rightarrow> bool" where
  "literal_byte formMode c \<longleftrightarrow>
     (97 \<le> uchar c \<and> uchar c \<le> 122) \<or> (65 \<le> uchar c \<and> uchar c \<le> 90) \<or> (48 \<le> uchar c \<and> uchar c \<le> 57) \<or>
     c = CHR ''-'' \<or> c = CHR ''.'' \<or> c = CHR ''_'' \<or> (if formMode then c = CHR ''*'' else c = CHR ''~'')"

definition encode_byte :: "bool \<Rightarrow> char \<Rightarrow> string" where
  "encode_byte formMode c =
     (if literal_byte formMode c then [c]
      else if formMode \<and> c = CHR '' '' then ''+''
      else [CHR ''%'', ''0123456789ABCDEF'' ! (uchar c div 16), ''0123456789ABCDEF'' ! (uchar c mod 16)])"

fun percent_encode :: "bool \<Rightarrow> nat \<Rightarrow> string \<Rightarrow> string \<Rightarrow> string result" where
  "percent_encode formMode maxBytes out [] = Inr out"
| "percent_encode formMode maxBytes out (c # s) =
     (if length (encode_byte formMode c) > maxBytes - length out then Inl TooLarge
      else percent_encode formMode maxBytes (out @ encode_byte formMode c) s)"

definition PercentEncodeComponent :: "bool \<Rightarrow> string \<Rightarrow> bool \<Rightarrow> nat \<Rightarrow> string result" where
  "PercentEncodeComponent alloc input formMode maxBytes =
     (if maxBytes = 0 \<or> \<not> Text input then Inl InvalidArgument
      else if \<not> alloc then Inl PlatformError
      else percent_encode formMode maxBytes [] input)"

section \<open>Fields\<close>

record FieldLimits =
  fl_maxBytes :: nat
  fl_maxFields :: nat
  fl_maxNameBytes :: nat
  fl_maxValueBytes :: nat

type_synonym FormFields = "(string \<times> string) list"

definition Valid_limits :: "FieldLimits \<Rightarrow> bool" where
  "Valid_limits limits \<longleftrightarrow>
     fl_maxBytes limits \<noteq> 0 \<and> fl_maxFields limits \<noteq> 0 \<and> fl_maxNameBytes limits \<noteq> 0 \<and> fl_maxValueBytes limits \<noteq> 0"

text \<open>The text behind a separator, empty if there is none.\<close>

definition behind :: "string option \<Rightarrow> string" where
  "behind r = (case r of None \<Rightarrow> [] | Some rest \<Rightarrow> rest)"

lemma behind_length: "cut_at c s = (part, r) \<Longrightarrow> s \<noteq> [] \<Longrightarrow> length (behind r) < length s"
  using cut_at_length by (cases r) (auto simp: behind_def)

function parse_fields :: "bool \<Rightarrow> bool \<Rightarrow> FieldLimits \<Rightarrow> FormFields \<Rightarrow> string \<Rightarrow> FormFields result" where
  "parse_fields alloc form limits out input =
     (if input = [] then Inr out
      else case cut_at (CHR ''&'') input of (field, rest) \<Rightarrow>
        if field = [] then parse_fields alloc form limits out (behind rest)
        else if length out = fl_maxFields limits then Inl TooLarge
        else case cut_at (CHR ''='') field of (rawName, rawValue) \<Rightarrow>
          (case PercentDecodeComponent alloc rawName form (fl_maxNameBytes limits) of
             Inl e \<Rightarrow> Inl e
           | Inr name \<Rightarrow>
               (case PercentDecodeComponent alloc (behind rawValue) form (fl_maxValueBytes limits) of
                  Inl e \<Rightarrow> Inl e
                | Inr item \<Rightarrow> parse_fields alloc form limits (out @ [(name, item)]) (behind rest))))"
  by pat_completeness auto
termination
  by (relation "measure (\<lambda>(alloc, form, limits, out, input). length input)") (auto dest: behind_length [OF sym])

declare parse_fields.simps [simp del]

definition ParseFields :: "bool \<Rightarrow> string \<Rightarrow> bool \<Rightarrow> FieldLimits \<Rightarrow> FormFields result" where
  "ParseFields alloc input form limits =
     (if \<not> Valid_limits limits then Inl InvalidArgument
      else if length input > fl_maxBytes limits then Inl TooLarge
      else parse_fields alloc form limits [] input)"

definition ParseQueryParameters :: "bool \<Rightarrow> string \<Rightarrow> FieldLimits \<Rightarrow> FormFields result" where
  "ParseQueryParameters alloc target limits =
     (if CHR ''#'' \<in> set target then Inl InvalidFormat
      else ParseFields alloc (behind (snd (cut_at (CHR 0x3F) target))) False limits)"

definition ParseFormUrlEncoded :: "bool \<Rightarrow> string \<Rightarrow> FieldLimits \<Rightarrow> FormFields result" where
  "ParseFormUrlEncoded alloc body limits = ParseFields alloc body True limits"

section \<open>Cookies\<close>

definition CookieValue :: "string \<Rightarrow> bool" where
  "CookieValue s \<longleftrightarrow>
     list_all (\<lambda>c. let ch = uchar c in
        ch = 33 \<or> (35 \<le> ch \<and> ch \<le> 43) \<or> (45 \<le> ch \<and> ch \<le> 58) \<or> (60 \<le> ch \<and> ch \<le> 91) \<or> (93 \<le> ch \<and> ch \<le> 126)) s"

definition unquote :: "string \<Rightarrow> string" where
  "unquote s = (if length s \<ge> 2 \<and> uchar (hd s) = 34 \<and> uchar (last s) = 34 then butlast (tl s) else s)"

function parse_cookies :: "FieldLimits \<Rightarrow> FormFields \<Rightarrow> string \<Rightarrow> FormFields result" where
  "parse_cookies limits out input =
     (if input = [] then Inr out
      else case cut_at (CHR 0x3B) input of (part, rest) \<Rightarrow>
        let field = Trim part
        in if field = [] then parse_cookies limits out (behind rest)
           else case cut_at (CHR ''='') field of
             (_, None) \<Rightarrow> Inl InvalidFormat
           | (name, Some raw) \<Rightarrow>
               let item = unquote raw
               in if \<not> IsToken name \<or> \<not> CookieValue item then Inl InvalidFormat
                  else if length out = fl_maxFields limits \<or> length name > fl_maxNameBytes limits \<or>
                          length item > fl_maxValueBytes limits then Inl TooLarge
                  else parse_cookies limits (out @ [(name, item)]) (behind rest))"
  by pat_completeness auto
termination
  by (relation "measure (\<lambda>(limits, out, input). length input)") (auto dest: behind_length [OF sym])

declare parse_cookies.simps [simp del]

definition ParseCookieHeader :: "bool \<Rightarrow> string \<Rightarrow> FieldLimits \<Rightarrow> FormFields result" where
  "ParseCookieHeader alloc input limits =
     (if \<not> Valid_limits limits then Inl InvalidArgument
      else if length input > fl_maxBytes limits then Inl TooLarge
      else if \<not> alloc then Inl PlatformError
      else parse_cookies limits [] input)"

datatype CookieSameSite = SS_Unspecified | SS_Lax | SS_Strict | SS_None

record CookieOptions =
  ck_domain :: string
  ck_path :: string
  ck_maxAgeSeconds :: "int option"
  ck_sameSite :: CookieSameSite
  ck_secure :: bool
  ck_httpOnly :: bool
  ck_maxBytes :: nat

definition valid_label :: "string \<Rightarrow> bool" where
  "valid_label label \<longleftrightarrow>
     label \<noteq> [] \<and> length label \<le> 63 \<and> hd label \<noteq> CHR ''-'' \<and> last label \<noteq> CHR ''-'' \<and>
     list_all (\<lambda>c. (97 \<le> uchar c \<and> uchar c \<le> 122) \<or> (65 \<le> uchar c \<and> uchar c \<le> 90) \<or> (48 \<le> uchar c \<and> uchar c \<le> 57) \<or>
        c = CHR ''-'') label"

definition Domain :: "string \<Rightarrow> bool" where
  "Domain s \<longleftrightarrow>
     s = [] \<or>
     (let d = (if hd s = CHR ''.'' then tl s else s)
      in d \<noteq> [] \<and> length d \<le> 253 \<and> list_all valid_label (parts_at (CHR ''.'') d))"

fun append_each_within :: "nat \<Rightarrow> string \<Rightarrow> string list \<Rightarrow> string option" where
  "append_each_within limit out [] = Some out"
| "append_each_within limit out (part # parts) =
     (if length part > limit - length out then None else append_each_within limit (out @ part) parts)"

definition cookie_parts :: "string \<Rightarrow> string \<Rightarrow> CookieOptions \<Rightarrow> string list" where
  "cookie_parts name item options =
     [name, ''='', item] @
     (if ck_domain options \<noteq> [] then [CHR 0x3B # '' Domain='', ck_domain options] else []) @
     (if ck_path options \<noteq> [] then [CHR 0x3B # '' Path='', ck_path options] else []) @
     (case ck_maxAgeSeconds options of None \<Rightarrow> [] | Some age \<Rightarrow> [CHR 0x3B # '' Max-Age='', to_chars_nat (nat (max 0 age))]) @
     (if ck_secure options then [CHR 0x3B # '' Secure''] else []) @
     (if ck_httpOnly options then [CHR 0x3B # '' HttpOnly''] else []) @
     [case ck_sameSite options of
        SS_Lax \<Rightarrow> CHR 0x3B # '' SameSite=Lax''
      | SS_Strict \<Rightarrow> CHR 0x3B # '' SameSite=Strict''
      | SS_None \<Rightarrow> CHR 0x3B # '' SameSite=None''
      | SS_Unspecified \<Rightarrow> []]"

definition SerializeSetCookie :: "bool \<Rightarrow> string \<Rightarrow> string \<Rightarrow> CookieOptions \<Rightarrow> string result" where
  "SerializeSetCookie alloc name item options =
     (if ck_maxBytes options = 0 \<or> \<not> IsToken name \<or> \<not> CookieValue item \<or> \<not> Domain (ck_domain options) \<or>
         (ck_path options \<noteq> [] \<and> hd (ck_path options) \<noteq> CHR ''/'') \<or>
         (ck_sameSite options = SS_None \<and> \<not> ck_secure options) \<or>
         (begins name ''__Secure-'' \<and> \<not> ck_secure options) \<or>
         (begins name ''__Host-'' \<and> (\<not> ck_secure options \<or> ck_domain options \<noteq> [] \<or> ck_path options \<noteq> ''/''))
      then Inl InvalidArgument
      else if \<not> list_all (\<lambda>c. \<not> (uchar c < 0x20 \<or> uchar c > 0x7E \<or> c = CHR 0x3B)) (ck_path options) then Inl InvalidArgument
      else if \<not> alloc then Inl PlatformError
      else case append_each_within (ck_maxBytes options) [] (cookie_parts name item options) of
        None \<Rightarrow> Inl TooLarge
      | Some out \<Rightarrow> Inr out)"


section \<open>What the encoder writes is read back\<close>

lemma hex_digit_char:
  assumes "k < 16"
  shows "Hex (''0123456789ABCDEF'' ! k) = Some k \<and> ''0123456789ABCDEF'' ! k \<notin> {CHR ''&'', CHR ''='', CHR 0x3F, CHR ''#''}"
proof -
  have "list_all (\<lambda>k. Hex (''0123456789ABCDEF'' ! k) = Some k \<and>
      ''0123456789ABCDEF'' ! k \<notin> {CHR ''&'', CHR ''='', CHR 0x3F, CHR ''#''}) [0..<16]"
    by code_simp
  then show ?thesis using assms by (simp only: list_all_iff) simp
qed

lemma literal_byte_char:
  "literal_byte form c \<Longrightarrow> c \<noteq> CHR ''%'' \<and> c \<noteq> CHR ''+'' \<and> c \<notin> {CHR ''&'', CHR ''='', CHR 0x3F, CHR ''#''}"
  by (auto simp: literal_byte_def split: if_splits)

lemma encode_byte_separators:
  "CHR ''&'' \<notin> set (encode_byte form c) \<and> CHR ''='' \<notin> set (encode_byte form c) \<and>
   CHR 0x3F \<notin> set (encode_byte form c) \<and> CHR ''#'' \<notin> set (encode_byte form c)"
proof -
  have "uchar c div 16 < 16" "uchar c mod 16 < 16" using uchar_less [of c] by linarith+
  note high = hex_digit_char [OF this(1)] and low = hex_digit_char [OF this(2)]
  show ?thesis
  proof (cases "literal_byte form c")
    case True
    then show ?thesis using literal_byte_char [of form c] by (auto simp: encode_byte_def)
  next
    case False
    then show ?thesis using high low by (simp add: encode_byte_def del: nth_Cons_numeral) metis
  qed
qed

lemma percent_decode_encode_byte:
  assumes "length out < maxBytes"
  shows "percent_decode form maxBytes out (encode_byte form c @ s) = percent_decode form maxBytes (out @ [c]) s"
proof (cases "literal_byte form c")
  case True
  then show ?thesis using literal_byte_char [of form c] assms by (simp add: encode_byte_def)
next
  case False
  have "uchar c div 16 < 16" "uchar c mod 16 < 16" using uchar_less [of c] by linarith+
  then have hex: "Hex (''0123456789ABCDEF'' ! (uchar c div 16)) = Some (uchar c div 16)"
      "Hex (''0123456789ABCDEF'' ! (uchar c mod 16)) = Some (uchar c mod 16)"
    using hex_digit_char by blast+
  have same: "char_of (uchar c div 16 * 16 + uchar c mod 16) = c" by simp
  show ?thesis using False assms hex same by (auto simp: encode_byte_def)
qed

lemma percent_encode_concat:
  "percent_encode form limit out s = Inr wire \<Longrightarrow> wire = out @ concat (map (encode_byte form) s)"
  by (induction form limit out s rule: percent_encode.induct) (auto split: if_splits)

lemma percent_decode_concat:
  "length out + length s \<le> maxBytes \<Longrightarrow>
   percent_decode form maxBytes out (concat (map (encode_byte form) s)) = Inr (out @ s)"
  by (induction s arbitrary: out) (simp_all add: percent_decode_encode_byte)

lemma PercentDecode_encoded:
  assumes "PercentEncodeComponent alloc s form limit = Inr wire" "length s \<le> maxBytes" "maxBytes \<noteq> 0"
  shows "PercentDecodeComponent True wire form maxBytes = Inr s"
    and "CHR ''&'' \<notin> set wire \<and> CHR ''='' \<notin> set wire \<and> CHR 0x3F \<notin> set wire \<and> CHR ''#'' \<notin> set wire"
proof -
  have plain: "Text s" and "percent_encode form limit [] s = Inr wire"
    using assms(1) by (auto simp: PercentEncodeComponent_def split: if_splits)
  then have wire: "wire = concat (map (encode_byte form) s)" using percent_encode_concat by fastforce
  show "PercentDecodeComponent True wire form maxBytes = Inr s"
    using percent_decode_concat [of "[]" s maxBytes form] assms(2,3) plain by (simp add: PercentDecodeComponent_def wire)
  show "CHR ''&'' \<notin> set wire \<and> CHR ''='' \<notin> set wire \<and> CHR 0x3F \<notin> set wire \<and> CHR ''#'' \<notin> set wire"
    using encode_byte_separators [of form] by (auto simp: wire)
qed

text \<open>The text of encoded fields, as a browser sends it, and what encoding makes of fields.\<close>

fun form_text :: "FormFields \<Rightarrow> string" where
  "form_text [] = []"
| "form_text [(name, item)] = name @ CHR ''='' # item"
| "form_text ((name, item) # f # fs) = name @ CHR ''='' # item @ CHR ''&'' # form_text (f # fs)"

definition encoded_as :: "bool \<Rightarrow> nat \<Rightarrow> FormFields \<Rightarrow> FormFields \<Rightarrow> bool" where
  "encoded_as form limit fs wires \<longleftrightarrow>
     list_all2 (\<lambda>(name, item) (name', item').
        PercentEncodeComponent True name form limit = Inr name' \<and> PercentEncodeComponent True item form limit = Inr item') fs wires"

definition fit_limits :: "FieldLimits \<Rightarrow> FormFields \<Rightarrow> bool" where
  "fit_limits limits fs \<longleftrightarrow>
     list_all (\<lambda>(name, item). length name \<le> fl_maxNameBytes limits \<and> length item \<le> fl_maxValueBytes limits) fs"

lemma parse_fields_step:
  assumes enc: "PercentEncodeComponent True name form limit = Inr name'" "PercentEncodeComponent True item form limit = Inr item'"
    and fit: "length name \<le> fl_maxNameBytes limits" "length item \<le> fl_maxValueBytes limits" "Valid_limits limits"
    and room: "length out < fl_maxFields limits"
    and cut: "cut_at (CHR ''&'') input = (name' @ CHR ''='' # item', rest)"
  shows "parse_fields True form limits out input = parse_fields True form limits (out @ [(name, item)]) (behind rest)"
proof -
  have some: "input \<noteq> []" using cut by (auto simp: cut_at_def)
  have decode: "PercentDecodeComponent True name' form (fl_maxNameBytes limits) = Inr name"
      "PercentDecodeComponent True item' form (fl_maxValueBytes limits) = Inr item"
    using PercentDecode_encoded(1) enc fit by (auto simp: Valid_limits_def)
  have "CHR ''='' \<notin> set name'" using PercentDecode_encoded(2) [OF enc(1) fit(1)] fit(3) by (auto simp: Valid_limits_def)
  then have parts: "cut_at (CHR ''='') (name' @ CHR ''='' # item') = (name', Some item')" by (rule cut_at_some)
  show ?thesis using some decode room by (subst parse_fields.simps) (simp add: cut parts behind_def)
qed

lemma encoded_separators:
  assumes "encoded_as form limit fs wires" "(name', item') \<in> set wires"
  shows "c \<in> {CHR ''&'', CHR 0x3F, CHR ''#''} \<Longrightarrow> c \<notin> set (name' @ CHR ''='' # item')"
proof -
  assume c: "c \<in> {CHR ''&'', CHR 0x3F, CHR ''#''}"
  obtain i where i: "i < length wires" "wires ! i = (name', item')" using assms(2) by (auto simp: in_set_conv_nth)
  obtain name item where "fs ! i = (name, item)" by fastforce
  then have enc: "PercentEncodeComponent True name form limit = Inr name'" "PercentEncodeComponent True item form limit = Inr item'"
    using list_all2_nthD2 [OF assms(1) [unfolded encoded_as_def] i(1)] i(2) by auto
  show ?thesis
    using PercentDecode_encoded(2) [OF enc(1), of "Suc (length name)"] PercentDecode_encoded(2) [OF enc(2), of "Suc (length item)"] c by auto
qed

lemma form_text_plain:
  assumes "\<forall>(name', item') \<in> set wires. c \<notin> set (name' @ CHR ''='' # item')" "c \<noteq> CHR ''&''"
  shows "c \<notin> set (form_text wires)"
  using assms by (induction wires rule: form_text.induct) auto

lemma parse_fields_encoded:
  assumes "encoded_as form limit fs wires" "fit_limits limits fs" "Valid_limits limits" "length out + length fs \<le> fl_maxFields limits"
  shows "parse_fields True form limits out (form_text wires) = Inr (out @ fs)"
  using assms
proof (induction wires arbitrary: fs out rule: form_text.induct)
  case 1
  then show ?case by (subst parse_fields.simps) (simp add: encoded_as_def)
next
  case (2 name' item')
  then obtain name item where fs: "fs = [(name, item)]" by (auto simp: encoded_as_def list_all2_Cons2)
  have "cut_at (CHR ''&'') (name' @ CHR ''='' # item') = (name' @ CHR ''='' # item', None)"
    using encoded_separators [OF 2(1), of name' item' "CHR ''&''"] by (intro cut_at_none) simp
  then show ?case
    using 2 parse_fields_step [of name form limit name' item item' limits out "name' @ CHR ''='' # item'" None]
    by (simp add: fs encoded_as_def fit_limits_def behind_def parse_fields.simps [of _ _ _ _ "[]"])
next
  case (3 name' item' f fs')
  then obtain name item rest where fs: "fs = (name, item) # rest" by (auto simp: encoded_as_def list_all2_Cons2)
  have "CHR ''&'' \<notin> set (name' @ CHR ''='' # item')" using encoded_separators [OF 3(2), of name' item' "CHR ''&''"] by simp
  note cut = cut_at_some [OF this, of "form_text (f # fs')"]
  have enc: "encoded_as form limit rest (f # fs')" using 3(2) by (simp add: fs encoded_as_def)
  have "parse_fields True form limits (out @ [(name, item)]) (form_text (f # fs')) = Inr ((out @ [(name, item)]) @ rest)"
    using 3 by (intro 3(1)) (auto simp: fs fit_limits_def intro: enc)
  then show ?case
    using 3 cut parse_fields_step [of name form limit name' item item' limits out "form_text ((name', item') # f # fs')" "Some (form_text (f # fs'))"]
    by (simp add: fs encoded_as_def fit_limits_def behind_def)
qed

text \<open>
  C32. Fields survive the way through a query or a form body: any list of fields, whose names and values may hold separators,
  spaces, percent signs or any other text, is read back unchanged and in order after its names and values went through
  \<^verbatim>\<open>PercentEncodeComponent\<close>, provided it fits the limits; in form mode by \<^verbatim>\<open>ParseFormUrlEncoded\<close>, and in
  query mode behind any path by \<^verbatim>\<open>ParseQueryParameters\<close>.
\<close>

theorem RequestFields_round_trip:
  assumes "Valid_limits limits" "fit_limits limits fs" "length fs \<le> fl_maxFields limits"
    and "encoded_as True limit fs wires" "length (form_text wires) \<le> fl_maxBytes limits"
    and "encoded_as False limit fs queries" "length (form_text queries) \<le> fl_maxBytes limits"
    and "CHR 0x3F \<notin> set path" "CHR ''#'' \<notin> set path"
  shows "ParseFormUrlEncoded True (form_text wires) limits = Inr fs \<and>
         ParseQueryParameters True (path @ CHR 0x3F # form_text queries) limits = Inr fs"
proof -
  have "CHR ''#'' \<notin> set (form_text queries)"
    using encoded_separators [OF assms(6)] by (intro form_text_plain) auto
  then show ?thesis
    using assms parse_fields_encoded [OF assms(4,2,1), of "[]"] parse_fields_encoded [OF assms(6,2,1), of "[]"]
    by (simp add: ParseFormUrlEncoded_def ParseQueryParameters_def ParseFields_def cut_at_some behind_def)
qed

theorem RequestFields_round_trip_witness:
  "ParseFormUrlEncoded True ''a+b=1%262&=%3D'' \<lparr>fl_maxBytes = 64, fl_maxFields = 2, fl_maxNameBytes = 3, fl_maxValueBytes = 3\<rparr> =
     Inr [(''a b'', ''1&2''), ([], ''='')] \<and>
   ParseQueryParameters True (''/x'' @ CHR 0x3F # ''a%20b=1%262&=%3D'')
     \<lparr>fl_maxBytes = 64, fl_maxFields = 2, fl_maxNameBytes = 3, fl_maxValueBytes = 3\<rparr> =
     Inr [(''a b'', ''1&2''), ([], ''='')]"
proof -
  let ?limits = "\<lparr>fl_maxBytes = 64, fl_maxFields = 2, fl_maxNameBytes = 3, fl_maxValueBytes = 3\<rparr>"
  let ?fs = "[(''a b'', ''1&2''), ([], ''='')]"
  have sample: "Text ''a b''" "Text ''1&2''" "Text []" "Text ''=''"
    by (simp_all add: Text_def IsValidUtf8_ascii del: IsValidUtf8.simps(2))
  have "encoded_as True 16 ?fs [(''a+b'', ''1%262''), ([], ''%3D'')]"
    by (simp add: encoded_as_def PercentEncodeComponent_def sample encode_byte_def literal_byte_def)
  moreover have "encoded_as False 16 ?fs [(''a%20b'', ''1%262''), ([], ''%3D'')]"
    by (simp add: encoded_as_def PercentEncodeComponent_def sample encode_byte_def literal_byte_def)
  moreover have "Valid_limits ?limits" "fit_limits ?limits ?fs" by (simp_all add: Valid_limits_def fit_limits_def)
  ultimately show ?thesis
    using RequestFields_round_trip [of ?limits ?fs 16 "[(''a+b'', ''1%262''), ([], ''%3D'')]"
        "[(''a%20b'', ''1%262''), ([], ''%3D'')]" "''/x''"] by simp
qed

end
