(* ===== verification/Multipart.thy ===== *)
theory Multipart
  imports RequestData
begin

text \<open>
  Multipart form bodies (\<^verbatim>\<open>src/Web/Multipart.cpp\<close>): a parser that is fed pieces of a body and read event by event.
  Its helpers \<^verbatim>\<open>Trim\<close> and \<^verbatim>\<open>Lower\<close> compute the functions of the header text. The parser state has the members
  of \<^verbatim>\<open>MultipartParser::State\<close>; the shared credit is the number of bytes in the events that are still held.
  The argument \<open>alloc\<close> of an operation says whether its first memory allocation succeeds.
\<close>

section \<open>Parameters of a header field\<close>

definition Metadata :: "string \<Rightarrow> bool" where
  "Metadata s \<longleftrightarrow> list_all (\<lambda>c. \<not> (uchar c < 32 \<or> uchar c = 127)) s \<and> IsValidUtf8 s"

record Parameterized =
  pz_main :: string
  pz_parameters :: FormFields

text \<open>A quoted string behind its opening quote: its contents and the text behind the closing quote.\<close>

fun quoted_text :: "string \<Rightarrow> (string \<times> string) option" where
  "quoted_text [] = None"
| "quoted_text (c # s) =
     (if uchar c = 34 then Some ([], s)
      else if uchar c = 92 then
        (case s of
           [] \<Rightarrow> None
         | e # s' \<Rightarrow> (case quoted_text s' of None \<Rightarrow> None | Some (v, r) \<Rightarrow> Some (e # v, r)))
      else (case quoted_text s of None \<Rightarrow> None | Some (v, r) \<Rightarrow> Some (c # v, r)))"

text \<open>The text behind a value, which must be empty or go on behind a semicolon.\<close>

definition next_parameter :: "string \<Rightarrow> string option" where
  "next_parameter s =
     (case Trim s of
        [] \<Rightarrow> Some []
      | c # rest \<Rightarrow> if c \<noteq> CHR 0x3B \<or> Trim rest = [] then None else Some rest)"

text \<open>One value: its text and the input behind it.\<close>

definition parameter_value :: "string \<Rightarrow> (string \<times> string) option" where
  "parameter_value v =
     (if v \<noteq> [] \<and> uchar (hd v) = 34 then
        (case quoted_text (tl v) of
           None \<Rightarrow> None
         | Some (item, rest) \<Rightarrow> map_option (Pair item) (next_parameter rest))
      else
        (case cut_at (CHR 0x3B) v of
           (token, None) \<Rightarrow> if \<not> IsToken (Trim token) then None else Some (Trim token, [])
         | (token, Some rest) \<Rightarrow> if \<not> IsToken (Trim token) \<or> Trim rest = [] then None else Some (Trim token, rest)))"

definition one_parameter :: "FormFields \<Rightarrow> string \<Rightarrow> (string \<times> string \<times> string) option" where
  "one_parameter parameters s =
     (case cut_at (CHR ''='') (Trim s) of
        (_, None) \<Rightarrow> None
      | (front, Some after) \<Rightarrow>
          let name = map Lower (Trim front)
          in if \<not> IsToken name \<or> name \<in> set (map fst parameters) then None
             else case parameter_value (Trim after) of
               None \<Rightarrow> None
             | Some (item, rest) \<Rightarrow> if \<not> Metadata item then None else Some (name, item, rest))"

lemma quoted_text_length: "quoted_text s = Some (v, r) \<Longrightarrow> length v + length r < length s"
proof (induction s arbitrary: v r rule: length_induct)
  case (1 s)
  show ?case
  proof (cases s)
    case (Cons c t)
    have IH: "quoted_text u = Some (v', r') \<Longrightarrow> length u < length s \<Longrightarrow> length v' + length r' < length u" for u v' r' using "1.IH" by blast
    show ?thesis using "1.prems" Cons IH by (fastforce split: if_splits list.splits option.splits)
  qed (use "1.prems" in simp)
qed

lemma cut_at_sizes: "cut_at c s = (part, r) \<Longrightarrow> length part + length (behind r) \<le> length s"
proof -
  assume "cut_at c s = (part, r)"
  moreover have "length (takeWhile (\<lambda>x. x \<noteq> c) s) + length (dropWhile (\<lambda>x. x \<noteq> c) s) = length s"
    by (metis length_append takeWhile_dropWhile_id)
  ultimately show ?thesis by (auto simp: cut_at_def behind_def split: list.splits)
qed

lemma parameter_value_length: "parameter_value v = Some (item, rest) \<Longrightarrow> length item + length rest \<le> length v"
proof -
  assume run: "parameter_value v = Some (item, rest)"
  obtain token r where cut: "cut_at (CHR 0x3B) v = (token, r)" by fastforce
  have "length (Trim token) + length (behind r) \<le> length v" using cut_at_sizes [OF cut] length_Trim [of token] by linarith
  moreover have "length item + length rest \<le> length v" if quoted: "v \<noteq> [] \<and> uchar (hd v) = 34"
  proof -
    obtain r' where r': "quoted_text (tl v) = Some (item, r')" "next_parameter r' = Some rest"
      using run quoted by (auto simp: parameter_value_def split: option.splits)
    have "length rest \<le> length r'"
      using r'(2) Trim_Cons_length [of r'] by (fastforce simp: next_parameter_def split: list.splits if_splits)
    then show ?thesis using quoted_text_length [OF r'(1)] by (cases v) auto
  qed
  ultimately show ?thesis using run cut by (auto simp: parameter_value_def behind_def split: if_splits option.splits)
qed

lemma one_parameter_length:
  assumes "one_parameter parameters s = Some (name, item, rest)"
  shows "length item + length rest < length s"
proof -
  obtain front after where cut: "cut_at (CHR ''='') (Trim s) = (front, Some after)"
    using assms by (auto simp: one_parameter_def split: prod.splits option.splits)
  then have "parameter_value (Trim after) = Some (item, rest)"
    using assms by (auto simp: one_parameter_def Let_def split: if_splits option.splits)
  then show ?thesis
    using parameter_value_length [of "Trim after" item rest] cut_at_length [OF cut] length_Trim [of s] length_Trim [of after] by linarith
qed

function parameter_list :: "FormFields \<Rightarrow> string \<Rightarrow> FormFields result" where
  "parameter_list parameters s =
     (if s = [] then Inr parameters
      else case one_parameter parameters s of
        None \<Rightarrow> Inl InvalidFormat
      | Some (name, item, rest) \<Rightarrow> parameter_list (parameters @ [(name, item)]) rest)"
  by pat_completeness auto
termination
  by (relation "measure (\<lambda>(parameters, s). length s)") (auto dest: one_parameter_length)

declare parameter_list.simps [simp del]

definition Parameters :: "string \<Rightarrow> Parameterized result" where
  "Parameters input =
     (case cut_at (CHR 0x3B) input of (front, rest) \<Rightarrow>
        (case parameter_list [] (behind rest) of
           Inl e \<Rightarrow> Inl e
         | Inr parameters \<Rightarrow> Inr \<lparr>pz_main = map Lower (Trim front), pz_parameters = parameters\<rparr>))"

definition boundary_char :: "char \<Rightarrow> bool" where
  "boundary_char c \<longleftrightarrow>
     (97 \<le> uchar c \<and> uchar c \<le> 122) \<or> (65 \<le> uchar c \<and> uchar c \<le> 90) \<or> (48 \<le> uchar c \<and> uchar c \<le> 57) \<or>
     c \<in> set (CHR 0x27 # ''()+_,-./:='' @ [CHR 0x3F, CHR '' ''])"

definition Boundary :: "string \<Rightarrow> bool" where
  "Boundary s \<longleftrightarrow> \<not> (s = [] \<or> length s > 70 \<or> last s = CHR '' '') \<and> list_all boundary_char s"

section \<open>Options, events and state\<close>

record MultipartOptions =
  mo_maxParts :: nat
  mo_maxFiles :: nat
  mo_maxHeaders :: nat
  mo_maxHeaderBytes :: nat
  mo_maxPartBytes :: nat
  mo_maxFileBytes :: nat
  mo_maxTotalBytes :: nat
  mo_maxRetainedBytes :: nat
  mo_maxEventBytes :: nat

datatype MultipartEventKind = PartBegin | Data | PartEnd

record MultipartEvent =
  me_kind :: MultipartEventKind
  me_partIndex :: nat
  me_name :: string
  me_filename :: "string option"
  me_contentType :: string
  me_headers :: FormFields
  me_data :: string

definition MultipartEvent_default :: MultipartEvent where
  "MultipartEvent_default =
     \<lparr>me_kind = PartBegin, me_partIndex = 0, me_name = [], me_filename = None, me_contentType = [], me_headers = [], me_data = []\<rparr>"

datatype Phase = PhInitial | PhHeaders | PhBody | PhEpilogue | PhDone

datatype Suffix = SuffixMore | SuffixInvalid | SuffixNormal | SuffixFinal

record MultipartState =
  ms_options :: MultipartOptions
  ms_marker :: string
  ms_delimiter :: string
  ms_buffer :: string
  ms_credit :: nat
  ms_phase :: Phase
  ms_error :: ErrorCode
  ms_eof :: bool
  ms_initialStart :: bool
  ms_file :: bool
  ms_total :: nat
  ms_partBytes :: nat
  ms_part :: nat
  ms_files :: nat

definition MultipartState_create :: "string \<Rightarrow> MultipartOptions \<Rightarrow> MultipartState" where
  "MultipartState_create boundary limits =
     \<lparr>ms_options = limits, ms_marker = ''--'' @ boundary, ms_delimiter = CRLF @ ''--'' @ boundary, ms_buffer = [], ms_credit = 0,
      ms_phase = PhInitial, ms_error = Ok, ms_eof = False, ms_initialStart = True, ms_file = False,
      ms_total = 0, ms_partBytes = 0, ms_part = 0, ms_files = 0\<rparr>"

definition Retained :: "MultipartState \<Rightarrow> nat" where
  "Retained st = length (ms_buffer st) + ms_credit st"

definition FailWith :: "ErrorCode \<Rightarrow> MultipartState \<Rightarrow> MultipartState" where
  "FailWith code st = st\<lparr>ms_error := code, ms_buffer := []\<rparr>"

text \<open>The text behind a boundary: the verdict and the length of the rest of the line.\<close>

definition line_end :: "bool \<Rightarrow> bool \<Rightarrow> nat \<Rightarrow> string \<Rightarrow> Suffix \<times> nat" where
  "line_end eof final position rest =
     (case rest of
        [] \<Rightarrow> if final \<and> eof then (SuffixFinal, position) else (SuffixMore, 0)
      | c # rest' \<Rightarrow>
          if c \<noteq> CHR 0x0D then (SuffixInvalid, 0)
          else case rest' of
            [] \<Rightarrow> (SuffixMore, 0)
          | d # _ \<Rightarrow>
              if d \<noteq> CHR 0x0A then (SuffixInvalid, 0)
              else (if final then SuffixFinal else SuffixNormal, position + 2))"

definition after_dashes :: "MultipartOptions \<Rightarrow> bool \<Rightarrow> bool \<Rightarrow> string \<Rightarrow> Suffix \<times> nat" where
  "after_dashes options eof final s =
     (let dashes = (if final then 2 else 0); position = dashes + length (takeWhile blank s)
      in if position > mo_maxHeaderBytes options then (SuffixInvalid, 0)
         else line_end eof final position (dropWhile blank s))"

definition DelimiterSuffix :: "MultipartOptions \<Rightarrow> bool \<Rightarrow> string \<Rightarrow> Suffix \<times> nat" where
  "DelimiterSuffix options eof s =
     (if s \<noteq> [] \<and> hd s = CHR ''-'' then
        (case tl s of
           [] \<Rightarrow> (SuffixMore, 0)
         | c # rest \<Rightarrow> if c \<noteq> CHR ''-'' then (SuffixInvalid, 0) else after_dashes options eof True rest)
      else after_dashes options eof False s)"

section \<open>Events\<close>

definition event_bytes :: "MultipartEvent \<Rightarrow> nat" where
  "event_bytes e =
     length (me_data e) + length (me_name e) + length (me_contentType e) +
     (case me_filename e of None \<Rightarrow> 0 | Some filename \<Rightarrow> length filename) +
     sum_list (map (\<lambda>(name, item). length name + length item) (me_headers e))"

type_synonym read_result = "MultipartEvent option result"

definition Event :: "bool \<Rightarrow> MultipartState \<Rightarrow> MultipartEvent \<Rightarrow> nat \<Rightarrow> read_result \<times> MultipartState" where
  "Event alloc st e consumed =
     (if event_bytes e > mo_maxRetainedBytes (ms_options st) then (Inl TooLarge, FailWith TooLarge st)
      else if event_bytes e > mo_maxRetainedBytes (ms_options st) - ms_credit st - (length (ms_buffer st) - consumed)
      then (Inl WouldBlock, st)
      else if \<not> alloc then (Inl PlatformError, FailWith PlatformError st)
      else (Inr (Some e), st\<lparr>ms_credit := ms_credit st + event_bytes e, ms_buffer := drop consumed (ms_buffer st)\<rparr>))"

text \<open>The release of the last owner of an event.\<close>

definition Release_event :: "MultipartEvent \<Rightarrow> MultipartState \<Rightarrow> MultipartState" where
  "Release_event e st = st\<lparr>ms_credit := ms_credit st - event_bytes e\<rparr>"

definition part_limit :: "MultipartState \<Rightarrow> nat" where
  "part_limit st = (if ms_file st then mo_maxFileBytes (ms_options st) else mo_maxPartBytes (ms_options st))"

definition Data_event :: "bool \<Rightarrow> MultipartState \<Rightarrow> nat \<Rightarrow> read_result \<times> MultipartState" where
  "Data_event alloc st available =
     (let count = min available (mo_maxEventBytes (ms_options st))
      in if count > part_limit st - ms_partBytes st then (Inl TooLarge, FailWith TooLarge st)
         else if \<not> alloc then (Inl PlatformError, FailWith PlatformError st)
         else case Event alloc st
             (MultipartEvent_default\<lparr>me_kind := Data, me_partIndex := ms_part st, me_data := take count (ms_buffer st)\<rparr>) count of
           (Inr e, st1) \<Rightarrow> (Inr e, st1\<lparr>ms_partBytes := ms_partBytes st1 + count\<rparr>)
         | (Inl code, st1) \<Rightarrow> (Inl code, st1))"

section \<open>Part headers\<close>

text \<open>The parameters of a content disposition are stored into the event; \<open>None\<close> is a format error.\<close>

fun disposition_fields :: "bool \<Rightarrow> MultipartEvent \<Rightarrow> FormFields \<Rightarrow> (bool \<times> MultipartEvent) option" where
  "disposition_fields named e [] = Some (named, e)"
| "disposition_fields named e ((key, item) # parameters) =
     (if key = ''name'' then disposition_fields True (e\<lparr>me_name := item\<rparr>) parameters
      else if key = ''filename'' then disposition_fields named (e\<lparr>me_filename := Some item\<rparr>) parameters
      else if key = ''filename*'' then None
      else disposition_fields named e parameters)"

definition set_disposition :: "MultipartEvent \<Rightarrow> string \<Rightarrow> MultipartEvent result" where
  "set_disposition e field =
     (case Parameters field of
        Inl code \<Rightarrow> Inl code
      | Inr p \<Rightarrow>
          if pz_main p \<noteq> ''form-data'' then Inl InvalidFormat
          else case disposition_fields False e (pz_parameters p) of
            Some (True, e1) \<Rightarrow> Inr e1
          | _ \<Rightarrow> Inl InvalidFormat)"

text \<open>One header line; the two flags say whether the disposition and the content type have been seen.\<close>

definition part_header ::
  "bool \<Rightarrow> MultipartOptions \<Rightarrow> bool \<Rightarrow> bool \<Rightarrow> MultipartEvent \<Rightarrow> string \<Rightarrow> (bool \<times> bool \<times> MultipartEvent) result" where
  "part_header alloc options disposition contentType e line =
     (case cut_at (CHR '':'') line of
        (_, None) \<Rightarrow> Inl InvalidFormat
      | (rawName, Some rawValue) \<Rightarrow>
          if \<not> IsToken rawName then Inl InvalidFormat
          else if \<not> alloc then Inl PlatformError
          else
            let name = map Lower rawName; field = Trim rawValue; add = (\<lambda>e. e\<lparr>me_headers := me_headers e @ [(name, field)]\<rparr>)
            in if \<not> ValidHeaderValue field then Inl InvalidFormat
               else if length (me_headers e) = mo_maxHeaders options then Inl TooLarge
               else if name = ''content-disposition'' then
                 (if disposition then Inl InvalidFormat
                  else case set_disposition e field of
                    Inl code \<Rightarrow> Inl code
                  | Inr e1 \<Rightarrow> Inr (True, contentType, add e1))
               else if name = ''content-type'' then
                 (if contentType then Inl InvalidFormat
                  else Inr (disposition, True, add (e\<lparr>me_contentType := field\<rparr>)))
               else if name = ''content-transfer-encoding'' then Inl InvalidFormat
               else Inr (disposition, contentType, add e))"

text \<open>The first line of a block and the text behind it.\<close>

definition first_line :: "string \<Rightarrow> string \<times> string" where
  "first_line block = (case cut_crlf block of None \<Rightarrow> (block, []) | Some (line, rest) \<Rightarrow> (line, rest))"

lemma first_line_length: "first_line block = (line, rest) \<Longrightarrow> block \<noteq> [] \<Longrightarrow> length line + length rest \<le> length block \<and> length rest < length block"
  using cut_crlf_length [of block] by (auto simp: first_line_def split: option.splits)

function part_headers :: "bool \<Rightarrow> MultipartOptions \<Rightarrow> bool \<Rightarrow> bool \<Rightarrow> MultipartEvent \<Rightarrow> string \<Rightarrow> (bool \<times> MultipartEvent) result" where
  "part_headers alloc options disposition contentType e block =
     (if block = [] then Inr (disposition, e)
      else case first_line block of (line, rest) \<Rightarrow>
        (case part_header alloc options disposition contentType e line of
           Inl code \<Rightarrow> Inl code
         | Inr (disposition', contentType', e') \<Rightarrow> part_headers alloc options disposition' contentType' e' rest))"
  by pat_completeness auto
termination
  by (relation "measure (\<lambda>(alloc, options, disposition, contentType, e, block). length block)") (auto dest: first_line_length [OF sym])

declare part_headers.simps [simp del]

definition Headers :: "bool \<Rightarrow> MultipartState \<Rightarrow> string \<Rightarrow> MultipartEvent result" where
  "Headers alloc st block =
     (case part_headers alloc (ms_options st) False False (MultipartEvent_default\<lparr>me_partIndex := ms_part st + 1\<rparr>) block of
        Inl code \<Rightarrow> Inl code
      | Inr (disposition, e) \<Rightarrow> if \<not> disposition then Inl InvalidFormat else Inr e)"

section \<open>Reading\<close>

text \<open>
  The inner loop of \<^verbatim>\<open>Read\<close>, which looks for the next boundary. The result is \<open>None\<close> where the loop is left by
  \<^verbatim>\<open>break\<close>.
\<close>

definition next_phase :: "Suffix \<Rightarrow> Phase" where
  "next_phase suffix = (if suffix = SuffixFinal then PhEpilogue else PhHeaders)"

definition no_boundary :: "bool \<Rightarrow> MultipartState \<Rightarrow> read_result option \<times> MultipartState" where
  "no_boundary alloc st =
     (let keep = length (ms_delimiter st) + 2; discard = length (ms_buffer st) - keep
      in if length (ms_buffer st) > keep then
           (if ms_phase st \<noteq> PhInitial then apfst Some (Data_event alloc st discard)
            else (None, st\<lparr>ms_buffer := drop discard (ms_buffer st), ms_initialStart := False\<rparr>))
         else (None, st))"

definition boundary_line :: "bool \<Rightarrow> MultipartState \<Rightarrow> Suffix \<Rightarrow> nat \<Rightarrow> read_result option \<times> MultipartState" where
  "boundary_line alloc st suffix consumed =
     (if suffix = SuffixMore then (None, st)
      else if ms_phase st = PhInitial then
        (None, st\<lparr>ms_buffer := drop consumed (ms_buffer st), ms_initialStart := False, ms_phase := next_phase suffix\<rparr>)
      else case Event alloc st (MultipartEvent_default\<lparr>me_kind := PartEnd, me_partIndex := ms_part st\<rparr>) consumed of
        (Inr e, st1) \<Rightarrow> (Some (Inr e), st1\<lparr>ms_phase := next_phase suffix\<rparr>)
      | (Inl code, st1) \<Rightarrow> (Some (Inl code), st1))"

definition at_start :: "MultipartState \<Rightarrow> bool" where
  "at_start st \<longleftrightarrow> ms_phase st = PhInitial \<and> ms_initialStart st"

definition boundary_at :: "MultipartState \<Rightarrow> nat \<Rightarrow> (nat \<times> nat) option" where
  "boundary_at st search =
     (if at_start st \<and> begins (ms_buffer st) (ms_marker st) then Some (0, length (ms_marker st))
      else map_option (\<lambda>position. (position, length (ms_delimiter st))) (find_at (ms_delimiter st) (ms_buffer st) search))"

lemma boundary_at_some:
  "boundary_at st search = Some (position, n) \<Longrightarrow>
   position + n \<le> length (ms_buffer st) \<and> (at_start st \<and> position = 0 \<or> search \<le> position)"
  using find_at_some(1,2) by (fastforce simp: boundary_at_def split: if_splits dest: arg_cong [of _ _ length])

function scan :: "bool \<Rightarrow> MultipartState \<Rightarrow> nat \<Rightarrow> read_result option \<times> MultipartState" where
  "scan alloc st search =
     (if at_start st \<and> length (ms_buffer st) < length (ms_marker st) \<and> begins (ms_marker st) (ms_buffer st) then (None, st)
      else case boundary_at st search of
        None \<Rightarrow> no_boundary alloc st
      | Some (position, n) \<Rightarrow>
          (case DelimiterSuffix (ms_options st) (ms_eof st) (drop (position + n) (ms_buffer st)) of (suffix, line) \<Rightarrow>
             if suffix = SuffixInvalid then
               scan alloc (if at_start st \<and> position = 0 then st\<lparr>ms_initialStart := False\<rparr> else st) (position + 1)
             else if position \<noteq> 0 then
               (if ms_phase st \<noteq> PhInitial then apfst Some (Data_event alloc st position)
                else scan alloc (st\<lparr>ms_buffer := drop position (ms_buffer st), ms_initialStart := False\<rparr>) search)
             else boundary_line alloc st suffix (position + n + line)))"
  by pat_completeness auto
termination
proof (relation "measures [\<lambda>(alloc, st, search). length (ms_buffer st), \<lambda>(alloc, st, search). if at_start st then 1 else 0,
    \<lambda>(alloc, st, search). Suc (length (ms_buffer st)) - search]", goal_cases)
  case (2 alloc st search p position n)
  then show ?case using boundary_at_some [of st search position n] by (auto simp: at_start_def)
next
  case (3 alloc st search p position n)
  then show ?case using boundary_at_some [of st search position n] by (auto simp: at_start_def)
qed simp

declare scan.simps [simp del]

text \<open>A part begins when its whole header block is in the buffer.\<close>

definition read_headers :: "bool \<Rightarrow> MultipartState \<Rightarrow> read_result option \<times> MultipartState" where
  "read_headers alloc st =
     (let fail = (\<lambda>code. (Some (Inl code), FailWith code st))
      in case find_at (CRLF @ CRLF) (ms_buffer st) 0 of
           None \<Rightarrow> if length (ms_buffer st) > mo_maxHeaderBytes (ms_options st) then fail TooLarge else (None, st)
         | Some block_end \<Rightarrow>
             if block_end + 4 > mo_maxHeaderBytes (ms_options st) then fail TooLarge
             else if ms_part st = mo_maxParts (ms_options st) then fail TooLarge
             else case Headers alloc st (take block_end (ms_buffer st)) of
               Inl code \<Rightarrow> fail code
             | Inr parsed \<Rightarrow>
                 let nextFile = me_filename parsed \<noteq> None
                 in if nextFile \<and> ms_files st = mo_maxFiles (ms_options st) then fail TooLarge
                    else case Event alloc st parsed (block_end + 4) of
                      (Inl code, st1) \<Rightarrow> (Some (Inl code), st1)
                    | (Inr e, st1) \<Rightarrow>
                        (Some (Inr e),
                         st1\<lparr>ms_part := ms_part st1 + 1, ms_file := nextFile,
                             ms_files := (if nextFile then ms_files st1 + 1 else ms_files st1),
                             ms_partBytes := 0, ms_phase := PhBody\<rparr>))"

definition read_phase :: "bool \<Rightarrow> MultipartState \<Rightarrow> read_result option \<times> MultipartState" where
  "read_phase alloc st =
     (case ms_phase st of
        PhDone \<Rightarrow> (Some (Inr None), st)
      | PhEpilogue \<Rightarrow>
          let st1 = st\<lparr>ms_buffer := []\<rparr>
          in if ms_eof st then (Some (Inr None), st1\<lparr>ms_phase := PhDone\<rparr>) else (Some (Inl WouldBlock), st1)
      | PhHeaders \<Rightarrow> read_headers alloc st
      | _ \<Rightarrow> scan alloc st 0)"

text \<open>The outer loop takes a second turn exactly when the first one left the preamble.\<close>

definition read_turns :: "bool \<Rightarrow> MultipartState \<Rightarrow> read_result option \<times> MultipartState" where
  "read_turns alloc st =
     (case read_phase alloc st of
        (None, st1) \<Rightarrow> if ms_phase st = PhInitial \<and> ms_phase st1 \<noteq> PhInitial then read_phase alloc st1 else (None, st1)
      | r \<Rightarrow> r)"

definition Multipart_Read :: "bool \<Rightarrow> MultipartState \<Rightarrow> read_result \<times> MultipartState" where
  "Multipart_Read alloc st =
     (if ms_error st \<noteq> Ok then (Inl (ms_error st), st)
      else case read_turns alloc st of
        (Some r, st1) \<Rightarrow> (r, st1)
      | (None, st1) \<Rightarrow> if ms_eof st1 then (Inl InvalidFormat, FailWith InvalidFormat st1) else (Inl WouldBlock, st1))"

section \<open>The other operations\<close>

definition valid_multipart_options :: "MultipartOptions \<Rightarrow> bool" where
  "valid_multipart_options options \<longleftrightarrow>
     \<not> (mo_maxParts options = 0 \<or> mo_maxFiles options = 0 \<or> mo_maxHeaders options = 0 \<or> mo_maxHeaderBytes options = 0 \<or>
        mo_maxPartBytes options = 0 \<or> mo_maxFileBytes options = 0 \<or> mo_maxTotalBytes options = 0 \<or> mo_maxEventBytes options = 0 \<or>
        mo_maxEventBytes options > mo_maxRetainedBytes options \<or> mo_maxHeaderBytes options > (SIZE_MAX - 80) div 2 \<or>
        mo_maxRetainedBytes options < mo_maxHeaderBytes options * 2 + 80)"

definition boundary_parameter :: "FormFields \<Rightarrow> string" where
  "boundary_parameter parameters = foldl (\<lambda>boundary (name, item). if name = ''boundary'' then item else boundary) [] parameters"

definition Multipart_Create :: "bool \<Rightarrow> string \<Rightarrow> MultipartOptions \<Rightarrow> MultipartState result" where
  "Multipart_Create alloc contentType options =
     (if \<not> valid_multipart_options options then Inl InvalidArgument
      else if length contentType > mo_maxHeaderBytes options then Inl TooLarge
      else if \<not> alloc then Inl PlatformError
      else case Parameters contentType of
        Inl code \<Rightarrow> Inl code
      | Inr parsed \<Rightarrow>
          if pz_main parsed \<noteq> ''multipart/form-data'' then Inl InvalidFormat
          else let boundary = boundary_parameter (pz_parameters parsed)
               in if \<not> Boundary boundary then Inl InvalidFormat else Inr (MultipartState_create boundary options))"

definition Multipart_Feed :: "bool \<Rightarrow> string \<Rightarrow> MultipartState \<Rightarrow> nat result \<times> MultipartState" where
  "Multipart_Feed alloc bytes st =
     (if ms_error st \<noteq> Ok then (Inl (ms_error st), st)
      else if ms_eof st then (Inl Closed, st)
      else if bytes = [] then (Inr 0, st)
      else if length bytes > mo_maxTotalBytes (ms_options st) - ms_total st then (Inl TooLarge, FailWith TooLarge st)
      else
        let inputLimit = mo_maxRetainedBytes (ms_options st) - mo_maxHeaderBytes (ms_options st);
            count = min (length bytes) (min (mo_maxRetainedBytes (ms_options st) - Retained st) (inputLimit - length (ms_buffer st)))
        in if count = 0 then (Inl WouldBlock, st)
           else if \<not> alloc then (Inl PlatformError, FailWith PlatformError st)
           else (Inr count, st\<lparr>ms_buffer := ms_buffer st @ take count bytes, ms_total := ms_total st + count\<rparr>))"

definition Multipart_Finish :: "MultipartState \<Rightarrow> status \<times> MultipartState" where
  "Multipart_Finish st = (if ms_error st \<noteq> Ok then (ms_error st, st) else (Ok, st\<lparr>ms_eof := True\<rparr>))"

definition Multipart_Cancel :: "MultipartState \<Rightarrow> MultipartState" where
  "Multipart_Cancel st = (if ms_phase st \<noteq> PhDone \<and> ms_error st = Ok then FailWith Cancelled st else st)"

end
