(* ===== verification/MultipartSteps.thy ===== *)
theory MultipartSteps
  imports Multipart
begin

text \<open>
  What a call of \<^verbatim>\<open>MultipartParser::Read\<close> does, as a sequence of small steps on the parser: bytes of the preamble are
  skipped, the opening line is taken, a part begins, data is delivered, a part ends, the epilogue is dropped,
  or the parser fails. Every call refines such a sequence with at most one event, the last one; the
  properties of the parser are then proved step by step.
\<close>

section \<open>Lines behind a boundary\<close>

text \<open>
  A position is no boundary, whatever follows: the delimiter does not stand there, or what stands behind it
  cannot end the line.
\<close>

definition rejected :: "MultipartOptions \<Rightarrow> string \<Rightarrow> string \<Rightarrow> bool" where
  "rejected options delimiter s \<longleftrightarrow>
     length delimiter \<le> length s \<and>
     (begins s delimiter \<longrightarrow> fst (DelimiterSuffix options False (drop (length delimiter) s)) = SuffixInvalid)"

text \<open>The rest of a boundary line: two dashes if it is the last one, blanks and a line end.\<close>

definition closing_line :: "bool \<Rightarrow> string \<Rightarrow> bool" where
  "closing_line final s \<longleftrightarrow>
     (final \<longrightarrow> begins s ''--'') \<and>
     (let rest = dropWhile blank (if final then drop 2 s else s) in rest = CRLF \<or> (final \<and> rest = []))"

lemma dropWhile_blanks: "dropWhile blank (takeWhile blank s @ t) = dropWhile blank t"
  by (induction s) auto

lemma takeWhile_blank_append: "dropWhile blank s \<noteq> [] \<Longrightarrow> takeWhile blank (s @ t) = takeWhile blank s"
  by (metis dropWhile_eq_Nil_conv takeWhile_append1)

lemma dropWhile_blank_append: "dropWhile blank s \<noteq> [] \<Longrightarrow> dropWhile blank (s @ t) = dropWhile blank s @ t"
  by (metis dropWhile_append1 dropWhile_eq_Nil_conv)

lemma length_blanks: "length (takeWhile blank s) + length (dropWhile blank s) = length s"
  by (metis length_append takeWhile_dropWhile_id)

lemma line_end_invalid: "fst (line_end eof final p rest) = SuffixInvalid \<Longrightarrow> rest \<noteq> [] \<and> fst (line_end eof' final p' (rest @ t)) = SuffixInvalid"
  by (cases rest; cases "tl rest") (auto simp: line_end_def split: if_splits)

lemma after_dashes_invalid:
  assumes "fst (after_dashes options eof final s) = SuffixInvalid"
  shows "fst (after_dashes options eof' final (s @ t)) = SuffixInvalid"
proof (cases "(if final then 2 else 0) + length (takeWhile blank s) > mo_maxHeaderBytes options")
  case True
  have "length (takeWhile blank s) \<le> length (takeWhile blank (s @ t))" by (induction s) auto
  then show ?thesis using True by (simp add: after_dashes_def Let_def)
next
  case False
  then have "fst (line_end eof final ((if final then 2 else 0) + length (takeWhile blank s)) (dropWhile blank s)) = SuffixInvalid"
    using assms by (simp add: after_dashes_def Let_def)
  note bad = line_end_invalid [OF this]
  then have "dropWhile blank s \<noteq> []" by blast
  then show ?thesis using bad False
    by (simp add: after_dashes_def Let_def takeWhile_blank_append dropWhile_blank_append)
qed

lemma DelimiterSuffix_invalid:
  "fst (DelimiterSuffix options eof s) = SuffixInvalid \<Longrightarrow> fst (DelimiterSuffix options eof' (s @ t)) = SuffixInvalid"
proof (cases "s \<noteq> [] \<and> hd s = CHR ''-''")
  case True
  assume bad: "fst (DelimiterSuffix options eof s) = SuffixInvalid"
  obtain s' where s: "s = CHR ''-'' # s'" using True by (cases s) auto
  show ?thesis using bad by (cases s') (auto simp: s DelimiterSuffix_def after_dashes_invalid split: if_splits)
next
  case False
  assume "fst (DelimiterSuffix options eof s) = SuffixInvalid"
  then have bad: "fst (after_dashes options eof False s) = SuffixInvalid" using False by (auto simp: DelimiterSuffix_def split: if_splits)
  then have "s \<noteq> []" by (auto simp: after_dashes_def line_end_def split: if_splits)
  then show ?thesis using False after_dashes_invalid [OF bad] by (cases s) (auto simp: DelimiterSuffix_def)
qed

lemma rejected_append: "rejected options delimiter s \<Longrightarrow> rejected options delimiter (s @ t)"
  using DelimiterSuffix_invalid [of options False "drop (length delimiter) s" False t]
  by (auto simp: rejected_def)

lemma line_end_closing:
  assumes "line_end eof final p rest = (suffix, n)" "suffix \<noteq> SuffixMore" "suffix \<noteq> SuffixInvalid"
  shows "p \<le> n \<and> n - p \<le> length rest \<and> final = (suffix = SuffixFinal) \<and> (take (n - p) rest = CRLF \<or> final \<and> take (n - p) rest = [])"
  using assms by (cases rest; cases "tl rest") (auto simp: line_end_def CRLF_def split: if_splits)

lemma after_dashes_closing:
  assumes run: "after_dashes options eof final s = (suffix, n)" "suffix \<noteq> SuffixMore" "suffix \<noteq> SuffixInvalid"
  defines "m \<equiv> n - (if final then 2 else 0)"
  shows "(if final then 2 else 0) \<le> n \<and> m \<le> length s \<and> final = (suffix = SuffixFinal) \<and>
    (dropWhile blank (take m s) = CRLF \<or> final \<and> dropWhile blank (take m s) = [])"
proof -
  let ?p = "(if final then 2 else 0) + length (takeWhile blank s)"
  have line: "line_end eof final ?p (dropWhile blank s) = (suffix, n)"
    using run by (auto simp: after_dashes_def Let_def split: if_splits)
  note c = line_end_closing [OF line run(2,3)]
  have "?p \<le> n" using c by blast
  then have m: "m = length (takeWhile blank s) + (n - ?p)" unfolding m_def by linarith
  have "take m (takeWhile blank s @ dropWhile blank s) = takeWhile blank s @ take (n - ?p) (dropWhile blank s)"
    unfolding m by (simp only: take_append) simp
  then have m_s: "take m s = takeWhile blank s @ take (n - ?p) (dropWhile blank s)" by (simp only: takeWhile_dropWhile_id)
  have crlf: "dropWhile blank CRLF = CRLF" by (simp add: CRLF_def)
  have "take (n - ?p) (dropWhile blank s) = CRLF \<or> final \<and> take (n - ?p) (dropWhile blank s) = []" using c by blast
  then have "dropWhile blank (take m s) = CRLF \<or> final \<and> dropWhile blank (take m s) = []"
    unfolding m_s dropWhile_blanks by (elim disjE conjE) (simp_all only: crlf dropWhile.simps simp_thms)
  moreover have "n - ?p \<le> length (dropWhile blank s)" using c by blast
  then have "m \<le> length s" unfolding m using length_blanks [of s] by linarith
  moreover have "(if final then 2 else 0) \<le> n" using \<open>?p \<le> n\<close> by (rule add_leD1)
  ultimately show ?thesis using c by blast
qed

lemma DelimiterSuffix_closing:
  assumes "DelimiterSuffix options eof s = (suffix, n)" "suffix \<noteq> SuffixMore" "suffix \<noteq> SuffixInvalid"
  shows "n \<le> length s \<and> closing_line (suffix = SuffixFinal) (take n s)"
proof (cases "s \<noteq> [] \<and> hd s = CHR ''-''")
  case True
  then obtain rest where s: "s = CHR ''-'' # CHR ''-'' # rest" and run: "after_dashes options eof True rest = (suffix, n)"
    using assms by (cases s; cases "tl s") (auto simp: DelimiterSuffix_def split: if_splits)
  note c = after_dashes_closing [OF run assms(2,3)]
  then obtain k where "n = Suc (Suc k)" by (metis add_2_eq_Suc le_iff_add)
  then show ?thesis using c by (auto simp: s closing_line_def Let_def)
next
  case False
  then have "after_dashes options eof False s = (suffix, n)" using assms by (auto simp: DelimiterSuffix_def split: if_splits)
  from after_dashes_closing [OF this assms(2,3)] show ?thesis by (auto simp: closing_line_def Let_def)
qed

lemma DelimiterSuffix_more:
  assumes "DelimiterSuffix options eof s = (SuffixMore, n)"
  shows "length s \<le> mo_maxHeaderBytes options + 1"
proof -
  have "length t + (if final then 2 else 0) \<le> mo_maxHeaderBytes options + 1"
    if "after_dashes options eof final t = (SuffixMore, n)" for final t
    using that length_blanks [of t]
    by (cases "dropWhile blank t"; cases "tl (dropWhile blank t)") (auto simp: after_dashes_def line_end_def Let_def split: if_splits)
  from this [of True "tl (tl s)"] this [of False s] show ?thesis using assms
    by (cases s; cases "tl s") (auto simp: DelimiterSuffix_def split: if_splits)
qed

section \<open>Steps\<close>

definition data_event :: "MultipartState \<Rightarrow> nat \<Rightarrow> MultipartEvent" where
  "data_event st n = MultipartEvent_default\<lparr>me_kind := Data, me_partIndex := ms_part st, me_data := take n (ms_buffer st)\<rparr>"

definition end_event :: "MultipartState \<Rightarrow> MultipartEvent" where
  "end_event st = MultipartEvent_default\<lparr>me_kind := PartEnd, me_partIndex := ms_part st\<rparr>"

definition begun :: "MultipartState \<Rightarrow> MultipartEvent \<Rightarrow> MultipartState" where
  "begun st e =
     st\<lparr>ms_part := ms_part st + 1, ms_file := me_filename e \<noteq> None,
        ms_files := (if me_filename e \<noteq> None then ms_files st + 1 else ms_files st), ms_partBytes := 0, ms_phase := PhBody\<rparr>"

text \<open>An event of \<open>bytes\<close> bytes fits beside the events that are held and the rest of the buffer.\<close>

definition fits :: "MultipartState \<Rightarrow> nat \<Rightarrow> nat \<Rightarrow> bool" where
  "fits st bytes consumed \<longleftrightarrow>
     bytes \<le> mo_maxRetainedBytes (ms_options st) - ms_credit st - (length (ms_buffer st) - consumed)"

definition taken :: "MultipartState \<Rightarrow> nat \<Rightarrow> nat \<Rightarrow> MultipartState" where
  "taken st bytes consumed = st\<lparr>ms_credit := ms_credit st + bytes, ms_buffer := drop consumed (ms_buffer st)\<rparr>"

inductive mstep :: "MultipartState \<Rightarrow> MultipartEvent option \<Rightarrow> MultipartState \<Rightarrow> bool" where
  skip: "ms_phase st = PhInitial \<Longrightarrow> n \<le> length (ms_buffer st) \<Longrightarrow>
    mstep st None (st\<lparr>ms_buffer := drop n (ms_buffer st), ms_initialStart := False\<rparr>)"
| open_line: "ms_phase st = PhInitial \<Longrightarrow> mark = ms_delimiter st \<or> ms_initialStart st \<and> mark = ms_marker st \<Longrightarrow> begins (ms_buffer st) mark \<Longrightarrow>
    n \<le> length (drop (length mark) (ms_buffer st)) \<Longrightarrow>
    closing_line (suffix = SuffixFinal) (take n (drop (length mark) (ms_buffer st))) \<Longrightarrow>
    mstep st None (st\<lparr>ms_buffer := drop (length mark + n) (ms_buffer st), ms_initialStart := False, ms_phase := next_phase suffix\<rparr>)"
| part_begin: "ms_phase st = PhHeaders \<Longrightarrow> find_at (CRLF @ CRLF) (ms_buffer st) 0 = Some n \<Longrightarrow>
    n + 4 \<le> mo_maxHeaderBytes (ms_options st) \<Longrightarrow> ms_part st \<noteq> mo_maxParts (ms_options st) \<Longrightarrow>
    Headers True st (take n (ms_buffer st)) = Inr e \<Longrightarrow> (me_filename e \<noteq> None \<longrightarrow> ms_files st \<noteq> mo_maxFiles (ms_options st)) \<Longrightarrow>
    fits st (event_bytes e) (n + 4) \<Longrightarrow>
    mstep st (Some e) (begun (taken st (event_bytes e) (n + 4)) e)"
| data: "ms_phase st = PhBody \<Longrightarrow> 0 < n \<Longrightarrow> n \<le> length (ms_buffer st) \<Longrightarrow> n \<le> mo_maxEventBytes (ms_options st) \<Longrightarrow>
    n \<le> part_limit st - ms_partBytes st \<Longrightarrow>
    (\<And>q. q < n \<Longrightarrow> rejected (ms_options st) (ms_delimiter st) (drop q (ms_buffer st))) \<Longrightarrow> fits st n n \<Longrightarrow>
    mstep st (Some (data_event st n)) ((taken st n n)\<lparr>ms_partBytes := ms_partBytes st + n\<rparr>)"
| part_end: "ms_phase st = PhBody \<Longrightarrow> begins (ms_buffer st) (ms_delimiter st) \<Longrightarrow>
    n \<le> length (drop (length (ms_delimiter st)) (ms_buffer st)) \<Longrightarrow>
    closing_line (suffix = SuffixFinal) (take n (drop (length (ms_delimiter st)) (ms_buffer st))) \<Longrightarrow>
    mstep st (Some (end_event st)) ((taken st 0 (length (ms_delimiter st) + n))\<lparr>ms_phase := next_phase suffix\<rparr>)"
| epilogue: "ms_phase st = PhEpilogue \<Longrightarrow> p = PhEpilogue \<or> p = PhDone \<Longrightarrow> mstep st None (st\<lparr>ms_buffer := [], ms_phase := p\<rparr>)"
| failure: "code \<noteq> Ok \<Longrightarrow> mstep st None (FailWith code st)"

text \<open>Steps without an event, and at most one event at the end.\<close>

inductive reads :: "MultipartState \<Rightarrow> MultipartEvent option \<Rightarrow> MultipartState \<Rightarrow> bool" where
  stay: "reads st None st"
| quiet: "mstep st None st1 \<Longrightarrow> reads st1 e st2 \<Longrightarrow> reads st e st2"
| emit: "mstep st (Some e) st1 \<Longrightarrow> reads st (Some e) st1"

lemma reads_step: "mstep st e st1 \<Longrightarrow> reads st e st1"
  by (cases e) (auto intro: reads.intros)

lemma reads_trans: "reads st None st1 \<Longrightarrow> reads st1 e st2 \<Longrightarrow> reads st e st2"
  by (induction st "None :: MultipartEvent option" st1 arbitrary: e st2 rule: reads.induct) (auto intro: reads.intros)

lemma reads_failure: "code \<noteq> Ok \<Longrightarrow> reads st None (FailWith code st)"
  by (intro reads_step mstep.failure)

fun event_of :: "read_result option \<Rightarrow> MultipartEvent option" where
  "event_of (Some (Inr e)) = e"
| "event_of _ = None"

section \<open>The code takes these steps\<close>

lemma Event_cases:
  assumes "Event alloc st e consumed = (r, st1)"
  shows "(\<exists>code. r = Inl code \<and> code \<noteq> Ok \<and> code \<noteq> WouldBlock \<and> st1 = FailWith code st) \<or> (r = Inl WouldBlock \<and> st1 = st \<and> \<not> fits st (event_bytes e) consumed) \<or>
    (r = Inr (Some e) \<and> alloc \<and> fits st (event_bytes e) consumed \<and> st1 = taken st (event_bytes e) consumed)"
  using assms by (auto simp: Event_def fits_def taken_def split: if_splits)

lemma event_bytes_data: "n \<le> length (ms_buffer st) \<Longrightarrow> event_bytes (data_event st n) = n"
  by (simp add: event_bytes_def data_event_def MultipartEvent_default_def)

lemma event_bytes_end: "event_bytes (end_event st) = 0"
  by (simp add: event_bytes_def end_event_def MultipartEvent_default_def)

lemma Data_event_reads:
  assumes run: "Data_event alloc st available = (r, st1)" and body: "ms_phase st = PhBody"
    and here: "0 < available" "available \<le> length (ms_buffer st)" "0 < mo_maxEventBytes (ms_options st)"
    and no_boundary: "\<And>q. q < available \<Longrightarrow> rejected (ms_options st) (ms_delimiter st) (drop q (ms_buffer st))"
  shows "reads st (event_of (Some r)) st1"
proof -
  define n where "n = min available (mo_maxEventBytes (ms_options st))"
  have n: "0 < n" "n \<le> length (ms_buffer st)" "n \<le> mo_maxEventBytes (ms_options st)" using here by (auto simp: n_def)
  have no: "\<And>q. q < n \<Longrightarrow> rejected (ms_options st) (ms_delimiter st) (drop q (ms_buffer st))" using no_boundary by (simp add: n_def)
  show ?thesis
  proof (cases "n > part_limit st - ms_partBytes st \<or> \<not> alloc")
    case True
    then obtain code where "code \<noteq> Ok" "r = Inl code" "st1 = FailWith code st"
      using run by (auto simp: Data_event_def Let_def n_def [symmetric] split: if_splits)
    then show ?thesis by (auto intro: reads_failure)
  next
    case False
    obtain r' st' where e: "Event alloc st (data_event st n) n = (r', st')" by fastforce
    have run': "(r, st1) = (case r' of Inr ev \<Rightarrow> (Inr ev, st'\<lparr>ms_partBytes := ms_partBytes st' + n\<rparr>) | Inl code \<Rightarrow> (Inl code, st'))"
      using run False e by (auto simp: Data_event_def Let_def n_def [symmetric] data_event_def [symmetric] split: sum.splits)
    from Event_cases [OF e] consider code where "r' = Inl code" "code \<noteq> Ok" "st' = FailWith code st" | "r' = Inl WouldBlock" "st' = st"
      | "r' = Inr (Some (data_event st n))" "fits st n n" "st' = taken st n n"
      using event_bytes_data [OF n(2)] by auto
    then show ?thesis
    proof cases
      case 3
      then have "st1 = (taken st n n)\<lparr>ms_partBytes := ms_partBytes st + n\<rparr>" "r = Inr (Some (data_event st n))"
        using run' by (auto simp: taken_def)
      then show ?thesis using mstep.data [OF body n _ no 3(2)] False by (auto intro: reads_step)
    qed (use run' in \<open>auto intro: reads_step reads_failure stay\<close>)
  qed
qed

lemma boundary_line_reads:
  assumes run: "boundary_line alloc st suffix (length mark + n) = (r, st1)" and phase: "ms_phase st \<in> {PhInitial, PhBody}"
    and mark: "begins (ms_buffer st) mark" "mark = ms_delimiter st \<or> at_start st \<and> mark = ms_marker st"
    and suffix: "DelimiterSuffix (ms_options st) (ms_eof st) (drop (length mark) (ms_buffer st)) = (suffix, n)" "suffix \<noteq> SuffixInvalid"
  shows "reads st (event_of r) st1"
proof (cases "suffix = SuffixMore")
  case True
  then show ?thesis using run by (auto simp: boundary_line_def intro: stay)
next
  case False
  note closing = DelimiterSuffix_closing [OF suffix(1) False suffix(2)]
  show ?thesis
  proof (cases "ms_phase st = PhInitial")
    case True
    then show ?thesis using run False mark closing mstep.open_line [OF True, of mark n suffix]
      by (auto simp: boundary_line_def at_start_def intro: reads_step)
  next
    case body: False
    then have b: "ms_phase st = PhBody" "mark = ms_delimiter st" using phase mark by (auto simp: at_start_def)
    obtain r' st' where e: "Event alloc st (end_event st) (length mark + n) = (r', st')" by fastforce
    have run': "(r, st1) = (case r' of Inr ev \<Rightarrow> (Some (Inr ev), st'\<lparr>ms_phase := next_phase suffix\<rparr>) | Inl code \<Rightarrow> (Some (Inl code), st'))"
      using run False body e by (auto simp: boundary_line_def end_event_def [symmetric] split: sum.splits)
    from Event_cases [OF e] consider code where "r' = Inl code" "code \<noteq> Ok" "st' = FailWith code st" | "r' = Inl WouldBlock" "st' = st"
      | "r' = Inr (Some (end_event st))" "st' = taken st 0 (length mark + n)"
      using event_bytes_end by auto
    then show ?thesis
    proof cases
      case 3
      then show ?thesis using run' mstep.part_end [OF b(1), of n suffix] mark(1) closing b(2) by (auto intro: reads_step)
    qed (use run' in \<open>auto intro: reads_step reads_failure stay\<close>)
  qed
qed

lemma no_boundary_reads:
  assumes run: "no_boundary alloc st = (r, st1)" and phase: "ms_phase st \<in> {PhInitial, PhBody}" "0 < mo_maxEventBytes (ms_options st)"
    and none: "\<And>q. ms_phase st = PhBody \<Longrightarrow> q + length (ms_delimiter st) \<le> length (ms_buffer st) \<Longrightarrow>
      rejected (ms_options st) (ms_delimiter st) (drop q (ms_buffer st))"
  shows "reads st (event_of r) st1"
proof -
  define discard where "discard = length (ms_buffer st) - (length (ms_delimiter st) + 2)"
  show ?thesis
  proof (cases "length (ms_buffer st) > length (ms_delimiter st) + 2")
    case big: True
    show ?thesis
    proof (cases "ms_phase st = PhInitial")
      case True
      then show ?thesis
        using run big mstep.skip [OF True, of discard] by (auto simp: no_boundary_def Let_def discard_def intro: reads_step)
    next
      case False
      then obtain r' where "Data_event alloc st discard = (r', st1)" "r = Some r'"
        using run big by (cases "Data_event alloc st discard") (auto simp: no_boundary_def Let_def discard_def)
      then show ?thesis using Data_event_reads [of alloc st discard r' st1] False phase none big by (auto simp: discard_def)
    qed
  qed (use run in \<open>auto simp: no_boundary_def Let_def intro: stay\<close>)
qed

text \<open>Where the loop looks next, every position before is known to be no boundary.\<close>

lemma rejected_up_to:
  assumes "\<forall>q < search. rejected options delimiter (drop q s)" "find_at delimiter s search = Some i"
  shows "\<forall>q<i. rejected options delimiter (drop q s)"
  using assms find_at_some [OF assms(2)] by (auto simp: rejected_def) (metis linorder_not_le)

lemma rejected_everywhere:
  assumes "\<forall>q < search. rejected options delimiter (drop q s)" "find_at delimiter s search = None" "q + length delimiter \<le> length s"
  shows "rejected options delimiter (drop q s)"
  using assms find_at_none [OF assms(2), of q] by (cases "q < search") (auto simp: rejected_def)

lemma rejected_invalid:
  assumes "find_at delimiter s search = Some i" "DelimiterSuffix options eof (drop (i + length delimiter) s) = (SuffixInvalid, n)"
  shows "rejected options delimiter (drop i s)"
  using find_at_some(2) [OF assms(1)] DelimiterSuffix_invalid [of options eof "drop (i + length delimiter) s" False "[]"] assms(2)
  by (auto simp: rejected_def add.commute)

lemma boundary_at_body: "ms_phase st = PhBody \<Longrightarrow> boundary_at st search = map_option (\<lambda>i. (i, length (ms_delimiter st))) (find_at (ms_delimiter st) (ms_buffer st) search)"
  by (simp add: boundary_at_def at_start_def)

lemma boundary_at_mark:
  assumes "boundary_at st search = Some (i, n)"
  obtains mark where "length mark = n" "begins (drop i (ms_buffer st)) mark" "mark = ms_delimiter st \<or> at_start st \<and> mark = ms_marker st"
  using assms find_at_some(3) [of "ms_delimiter st" "ms_buffer st" search i] by (auto simp: boundary_at_def at_start_def split: if_splits)

lemma scan_reads:
  assumes "scan alloc st search = (r, st1)" "ms_phase st \<in> {PhInitial, PhBody}" "0 < mo_maxEventBytes (ms_options st)"
    "ms_phase st = PhBody \<longrightarrow> (\<forall>q < search. rejected (ms_options st) (ms_delimiter st) (drop q (ms_buffer st)))"
  shows "reads st (event_of r) st1"
  using assms
proof (induction alloc st search arbitrary: r st1 rule: scan.induct)
  case (1 alloc st search)
  note phase = "1.prems"(2,3) and clear = "1.prems"(4)
  show ?case
  proof (cases "at_start st \<and> length (ms_buffer st) < length (ms_marker st) \<and> begins (ms_marker st) (ms_buffer st)")
    case True
    then show ?thesis using "1.prems"(1) by (subst (asm) scan.simps) (auto intro: stay)
  next
    case go: False
    show ?thesis
    proof (cases "boundary_at st search")
      case None
      then have run: "no_boundary alloc st = (r, st1)" using "1.prems"(1) go by (subst (asm) scan.simps) auto
      show ?thesis
      proof (rule no_boundary_reads [OF run phase])
        fix q assume "ms_phase st = PhBody" "q + length (ms_delimiter st) \<le> length (ms_buffer st)"
        then show "rejected (ms_options st) (ms_delimiter st) (drop q (ms_buffer st))"
          using rejected_everywhere clear None by (auto simp: boundary_at_body)
      qed
    next
      case (Some found)
      obtain i n where found: "found = (i, n)" by fastforce
      note at = Some [unfolded found]
      obtain mark where mark: "length mark = n" "begins (drop i (ms_buffer st)) mark"
        "mark = ms_delimiter st \<or> at_start st \<and> mark = ms_marker st" using boundary_at_mark [OF at] .
      obtain suffix line where suffix: "DelimiterSuffix (ms_options st) (ms_eof st) (drop (i + n) (ms_buffer st)) = (suffix, line)" by fastforce
      have body: "find_at (ms_delimiter st) (ms_buffer st) search = Some i \<and> n = length (ms_delimiter st)" if "ms_phase st = PhBody"
        using at that by (auto simp: boundary_at_body)
      note unfold = "1.prems"(1) [unfolded scan.simps [of alloc st search]]
      consider "suffix = SuffixInvalid" | "suffix \<noteq> SuffixInvalid" "i \<noteq> 0" "ms_phase st \<noteq> PhInitial"
        | "suffix \<noteq> SuffixInvalid" "i \<noteq> 0" "ms_phase st = PhInitial" | "suffix \<noteq> SuffixInvalid" "i = 0" by blast
      then show ?thesis
      proof cases
        case 1
        let ?st = "if at_start st \<and> i = 0 then st\<lparr>ms_initialStart := False\<rparr> else st"
        have run: "scan alloc ?st (i + 1) = (r, st1)" using unfold go at suffix 1 by simp
        have "\<forall>q<i + 1. rejected (ms_options st) (ms_delimiter st) (drop q (ms_buffer st))" if "ms_phase st = PhBody"
          using rejected_up_to [of search "ms_options st" "ms_delimiter st" "ms_buffer st" i]
            rejected_invalid [of "ms_delimiter st" "ms_buffer st" search i "ms_options st" "ms_eof st" line] body [OF that] that clear suffix 1
          by (auto simp: less_Suc_eq)
        then have rest: "reads ?st (event_of r) st1"
          using "1.IH"(1) [OF go at refl suffix [symmetric] 1 run] phase by auto
        have "reads st None ?st" using mstep.skip [of st 0] by (auto simp: at_start_def intro: reads_step stay)
        then show ?thesis using rest by (rule reads_trans)
      next
        case 2
        then obtain r' where run: "Data_event alloc st i = (r', st1)" "r = Some r'"
          using unfold go at suffix by (cases "Data_event alloc st i") auto
        have b: "ms_phase st = PhBody" using 2 phase by auto
        show ?thesis using Data_event_reads [OF run(1) b] 2 boundary_at_some [OF at] phase
            rejected_up_to [of search "ms_options st" "ms_delimiter st" "ms_buffer st" i] body [OF b] clear b run(2) by auto
      next
        case 3
        let ?st = "st\<lparr>ms_buffer := drop i (ms_buffer st), ms_initialStart := False\<rparr>"
        have run: "scan alloc ?st search = (r, st1)" using unfold go at suffix 3 by simp
        have "reads ?st (event_of r) st1" using "1.IH"(2) [OF go at refl suffix [symmetric] 3(1,2) _ run] 3 phase by auto
        moreover have "mstep st None ?st" using mstep.skip [OF 3(3)] boundary_at_some [OF at] by auto
        ultimately show ?thesis by (rule quiet [rotated])
      next
        case 4
        have run: "boundary_line alloc st suffix (length mark + line) = (r, st1)" using unfold go at suffix 4 mark(1) by simp
        then show ?thesis using boundary_line_reads [OF run phase(1) _ mark(3)] mark(1,2) suffix 4 by auto
      qed
    qed
  qed
qed

lemma Headers_alloc: "Headers alloc st block = Inr e \<Longrightarrow> Headers True st block = Inr e"
proof -
  have same: "part_header alloc options d c ev line = Inr r \<Longrightarrow> part_header True options d c ev line = Inr r" for options d c ev line r
    by (auto simp: part_header_def split: prod.splits option.splits if_splits)
  have "part_headers alloc options d c ev b = Inr r \<Longrightarrow> part_headers True options d c ev b = Inr r" for options d c ev b r
  proof (induction alloc options d c ev b rule: part_headers.induct)
    case (1 alloc options d c ev b)
    show ?case
    proof (cases "b = []")
      case True
      then show ?thesis using "1.prems" by (simp add: part_headers.simps)
    next
      case False
      obtain line rest where l: "first_line b = (line, rest)" by fastforce
      then obtain d' c' ev' where h: "part_header alloc options d c ev line = Inr (d', c', ev')" "part_headers alloc options d' c' ev' rest = Inr r"
        using "1.prems" False by (subst (asm) part_headers.simps) (auto split: sum.splits)
      have "part_header True options d c ev line = Inr (d', c', ev')"
        using h(1) by (auto simp: part_header_def split: prod.splits option.splits if_splits)
      then show ?thesis using "1.IH" [OF False l [symmetric] h(1) refl refl h(2)] False l by (subst part_headers.simps) simp
    qed
  qed
  then show "Headers alloc st block = Inr e \<Longrightarrow> Headers True st block = Inr e" by (auto simp: Headers_def split: sum.splits)
qed

lemma Headers_code: "Headers alloc st block = Inl code \<Longrightarrow> code \<noteq> Ok \<and> code \<noteq> WouldBlock"
proof -
  have listed: "parameter_list ps s = Inl code \<Longrightarrow> code = InvalidFormat" for ps s
    by (induction ps s rule: parameter_list.induct) (subst (asm) parameter_list.simps, auto split: if_splits option.splits)
  have "set_disposition ev field = Inl code \<Longrightarrow> code = InvalidFormat" for ev field
    using listed by (auto simp: set_disposition_def Parameters_def split: sum.splits prod.splits if_splits option.splits bool.splits)
  then have line: "part_header alloc options d c ev line = Inl code \<Longrightarrow> code \<noteq> Ok \<and> code \<noteq> WouldBlock" for alloc options d c ev line
    by (auto simp: part_header_def Let_def split: prod.splits option.splits if_splits sum.splits)
  have "part_headers alloc options d c ev b = Inl code \<Longrightarrow> code \<noteq> Ok \<and> code \<noteq> WouldBlock" for options d c ev b
  proof (induction alloc options d c ev b rule: part_headers.induct)
    case (1 alloc options d c ev b)
    show ?case
    proof (cases "b = []")
      case True
      then show ?thesis using "1.prems" by (simp add: part_headers.simps)
    next
      case False
      obtain line rest where l: "first_line b = (line, rest)" by fastforce
      show ?thesis
      proof (cases "part_header alloc options d c ev line")
        case (Inl e)
        then show ?thesis using "1.prems" False l line by (subst (asm) part_headers.simps) simp
      next
        case (Inr h)
        obtain d' c' ev' where h: "h = (d', c', ev')" by (cases h) auto
        then have "part_headers alloc options d' c' ev' rest = Inl code" using "1.prems" False l Inr by (subst (asm) part_headers.simps) simp
        then show ?thesis using "1.IH" [OF False l [symmetric] Inr [unfolded h] refl refl] by blast
      qed
    qed
  qed
  then show "Headers alloc st block = Inl code \<Longrightarrow> code \<noteq> Ok \<and> code \<noteq> WouldBlock" by (auto simp: Headers_def split: sum.splits if_splits)
qed

lemma read_headers_cases:
  assumes "read_headers alloc st = (r, st1)"
  shows "(r = None \<and> st1 = st \<and> length (ms_buffer st) \<le> mo_maxHeaderBytes (ms_options st)) \<or>
    (\<exists>code. r = Some (Inl code) \<and> code \<noteq> Ok \<and> code \<noteq> WouldBlock \<and> st1 = FailWith code st) \<or>
    (\<exists>n e r' st'. find_at (CRLF @ CRLF) (ms_buffer st) 0 = Some n \<and> n + 4 \<le> mo_maxHeaderBytes (ms_options st) \<and>
      ms_part st \<noteq> mo_maxParts (ms_options st) \<and> Headers alloc st (take n (ms_buffer st)) = Inr e \<and>
      (me_filename e \<noteq> None \<longrightarrow> ms_files st \<noteq> mo_maxFiles (ms_options st)) \<and> Event alloc st e (n + 4) = (r', st') \<and>
      (r, st1) = (case r' of Inl code \<Rightarrow> (Some (Inl code), st') | Inr ev \<Rightarrow> (Some (Inr ev), begun st' e)))"
proof (cases "find_at (CRLF @ CRLF) (ms_buffer st) 0")
  case None
  then show ?thesis using assms by (auto simp: read_headers_def Let_def split: if_splits)
next
  case (Some n)
  let ?h = "Headers alloc st (take n (ms_buffer st))"
  show ?thesis
  proof (cases "n + 4 > mo_maxHeaderBytes (ms_options st) \<or> ms_part st = mo_maxParts (ms_options st)")
    case True
    then show ?thesis using assms Some by (auto simp: read_headers_def Let_def split: if_splits)
  next
    case ok: False
    show ?thesis
    proof (cases ?h)
      case (Inl code)
      then show ?thesis using assms Some ok Headers_code [OF Inl] by (auto simp: read_headers_def Let_def)
    next
      case (Inr e)
      obtain r' st' where ev: "Event alloc st e (n + 4) = (r', st')" by fastforce
      show ?thesis
      proof (cases "me_filename e \<noteq> None \<and> ms_files st = mo_maxFiles (ms_options st)")
        case True
        then show ?thesis using assms Some ok Inr by (auto simp: read_headers_def Let_def)
      next
        case False
        then have "(r, st1) = (case r' of Inl code \<Rightarrow> (Some (Inl code), st') | Inr ev \<Rightarrow> (Some (Inr ev), begun st' e))"
          using assms Some ok Inr ev by (cases r') (auto simp: read_headers_def Let_def begun_def)
        then show ?thesis using Some ok Inr False ev by auto
      qed
    qed
  qed
qed

lemma read_headers_reads:
  assumes run: "read_headers alloc st = (r, st1)" and phase: "ms_phase st = PhHeaders"
  shows "reads st (event_of r) st1"
  using read_headers_cases [OF run]
proof (elim disjE exE conjE)
  fix n e r' st'
  assume a: "find_at (CRLF @ CRLF) (ms_buffer st) 0 = Some n" "n + 4 \<le> mo_maxHeaderBytes (ms_options st)"
    "ms_part st \<noteq> mo_maxParts (ms_options st)" "Headers alloc st (take n (ms_buffer st)) = Inr e"
    "me_filename e \<noteq> None \<longrightarrow> ms_files st \<noteq> mo_maxFiles (ms_options st)" "Event alloc st e (n + 4) = (r', st')"
    "(r, st1) = (case r' of Inl code \<Rightarrow> (Some (Inl code), st') | Inr ev \<Rightarrow> (Some (Inr ev), begun st' e))"
  from Event_cases [OF a(6)] show ?thesis
    using a(7) mstep.part_begin [OF phase a(1-3) Headers_alloc [OF a(4)] a(5)] by (auto intro: reads_step reads_failure stay)
qed (auto intro: reads_step reads_failure stay)

lemma read_phase_reads:
  assumes "read_phase alloc st = (r, st1)" "0 < mo_maxEventBytes (ms_options st)"
  shows "reads st (event_of r) st1"
proof (cases "ms_phase st")
  case PhEpilogue
  then have "st\<lparr>ms_buffer := [], ms_phase := PhEpilogue\<rparr> = st\<lparr>ms_buffer := []\<rparr>" by (cases st) simp
  then have "reads st None (st\<lparr>ms_buffer := []\<rparr>)" using reads_step [OF mstep.epilogue [OF PhEpilogue, of PhEpilogue]] by simp
  then show ?thesis using PhEpilogue assms reads_step [OF mstep.epilogue [OF PhEpilogue, of PhDone]]
    by (auto simp: read_phase_def Let_def split: if_splits)
qed (use assms read_headers_reads scan_reads [of alloc st 0] in \<open>auto simp: read_phase_def intro: stay\<close>)

lemma reads_options: "reads st e st1 \<Longrightarrow> ms_options st1 = ms_options st \<and> ms_marker st1 = ms_marker st \<and> ms_delimiter st1 = ms_delimiter st"
  by (induction rule: reads.induct) (auto elim!: mstep.cases simp: FailWith_def taken_def begun_def)

theorem Multipart_Read_reads:
  assumes run: "Multipart_Read alloc st = (r, st1)" and options: "0 < mo_maxEventBytes (ms_options st)"
  shows "reads st (event_of (Some r)) st1"
proof (cases "ms_error st = Ok")
  case True
  obtain r1 st2 where first: "read_phase alloc st = (r1, st2)" by fastforce
  note steps = read_phase_reads [OF first options]
  obtain r2 st3 where turns: "read_turns alloc st = (r2, st3)" by fastforce
  have "reads st (event_of r2) st3"
  proof (cases "r1 = None \<and> ms_phase st = PhInitial \<and> ms_phase st2 \<noteq> PhInitial")
    case again: True
    then have "read_phase alloc st2 = (r2, st3)" using turns first by (auto simp: read_turns_def)
    then have "reads st2 (event_of r2) st3" using read_phase_reads options reads_options [OF steps] by metis
    then show ?thesis using steps again by (auto intro: reads_trans)
  next
    case False
    then show ?thesis using turns first steps by (auto simp: read_turns_def split: option.splits if_splits)
  qed
  moreover have "reads st3 None (FailWith InvalidFormat st3)" by (rule reads_failure) simp
  ultimately show ?thesis using run True turns by (auto simp: Multipart_Read_def split: option.splits if_splits intro: reads_trans)
qed (use run in \<open>auto simp: Multipart_Read_def intro: stay\<close>)

end
