(* ===== verification/MultipartProps.thy ===== *)
theory MultipartProps
  imports MultipartSteps
begin

text \<open>
  Properties of the multipart parser over all sequences of calls: every accepted byte is accounted for by the
  events, in order and without loss; the limits hold; and a client that releases its events is never stuck.
\<close>

section \<open>Sequences of calls\<close>

datatype MultipartCall = CallFeed bool string | CallRead bool | CallFinish | CallCancel | CallRelease nat

record MultipartRun =
  mr_state :: MultipartState
  mr_input :: string
  mr_events :: "MultipartEvent list"
  mr_held :: "MultipartEvent list"

definition run_start :: "MultipartState \<Rightarrow> MultipartRun" where
  "run_start st = \<lparr>mr_state = st, mr_input = [], mr_events = [], mr_held = []\<rparr>"

text \<open>A client feeds, reads, finishes, cancels or releases one of the events it holds.\<close>

fun call :: "MultipartRun \<Rightarrow> MultipartCall \<Rightarrow> MultipartRun" where
  "call r (CallFeed alloc bytes) =
     (case Multipart_Feed alloc bytes (mr_state r) of
        (Inr n, st) \<Rightarrow> r\<lparr>mr_state := st, mr_input := mr_input r @ take n bytes\<rparr>
      | (Inl _, st) \<Rightarrow> r\<lparr>mr_state := st\<rparr>)"
| "call r (CallRead alloc) =
     (case Multipart_Read alloc (mr_state r) of
        (Inr (Some e), st) \<Rightarrow> r\<lparr>mr_state := st, mr_events := mr_events r @ [e], mr_held := mr_held r @ [e]\<rparr>
      | (_, st) \<Rightarrow> r\<lparr>mr_state := st\<rparr>)"
| "call r CallFinish = r\<lparr>mr_state := snd (Multipart_Finish (mr_state r))\<rparr>"
| "call r CallCancel = r\<lparr>mr_state := Multipart_Cancel (mr_state r)\<rparr>"
| "call r (CallRelease i) =
     (if i < length (mr_held r)
      then r\<lparr>mr_state := Release_event (mr_held r ! i) (mr_state r), mr_held := take i (mr_held r) @ drop (Suc i) (mr_held r)\<rparr>
      else r)"

abbreviation emitted :: "MultipartEvent option \<Rightarrow> MultipartEvent list" where
  "emitted e \<equiv> (case e of None \<Rightarrow> [] | Some e' \<Rightarrow> [e'])"

lemma call_read: "call r (CallRead alloc) = (let (o', st) = Multipart_Read alloc (mr_state r); e = event_of (Some o') in
    r\<lparr>mr_state := st, mr_events := mr_events r @ emitted e, mr_held := mr_held r @ emitted e\<rparr>)"
  by (auto split: prod.splits sum.splits option.splits)

section \<open>Limits\<close>

definition within_limits :: "MultipartState \<Rightarrow> MultipartEvent list \<Rightarrow> bool" where
  "within_limits st held \<longleftrightarrow>
     ms_credit st = sum_list (map event_bytes held) \<and> Retained st \<le> mo_maxRetainedBytes (ms_options st) \<and>
     length (ms_buffer st) \<le> mo_maxRetainedBytes (ms_options st) - mo_maxHeaderBytes (ms_options st) \<and>
     ms_total st \<le> mo_maxTotalBytes (ms_options st) \<and> ms_part st \<le> mo_maxParts (ms_options st) \<and>
     ms_files st \<le> mo_maxFiles (ms_options st) \<and> ms_partBytes st \<le> part_limit st"

lemma length_crlf: "length (CRLF @ CRLF) = 4"
  by (simp add: CRLF_def)

lemma mstep_limits:
  assumes "mstep st e st1" "within_limits st held"
  shows "within_limits st1 (held @ emitted e)"
  using assms
proof cases
  case (part_begin n e')
  have "n + 4 \<le> length (ms_buffer st)" using find_at_some(2) [OF part_begin(4)] length_crlf by simp
  then show ?thesis using assms(2) part_begin
    by (auto simp: within_limits_def Retained_def taken_def begun_def fits_def part_limit_def)
qed (use assms(2) in \<open>auto simp: within_limits_def Retained_def taken_def fits_def part_limit_def FailWith_def event_bytes_data event_bytes_end\<close>)

lemma reads_limits: "reads st e st1 \<Longrightarrow> within_limits st held \<Longrightarrow> within_limits st1 (held @ emitted e)"
  by (induction arbitrary: held rule: reads.induct) (fastforce dest: mstep_limits)+

lemma Feed_limits:
  assumes "Multipart_Feed alloc bytes st = (r, st1)" "within_limits st held"
  shows "within_limits st1 held"
proof -
  let ?count = "min (length bytes) (min (mo_maxRetainedBytes (ms_options st) - Retained st)
    (mo_maxRetainedBytes (ms_options st) - mo_maxHeaderBytes (ms_options st) - length (ms_buffer st)))"
  have "st1 = st \<or> (\<exists>code. st1 = FailWith code st) \<or>
      length bytes \<le> mo_maxTotalBytes (ms_options st) - ms_total st \<and>
      st1 = st\<lparr>ms_buffer := ms_buffer st @ take ?count bytes, ms_total := ms_total st + ?count\<rparr>"
    using assms(1) unfolding Multipart_Feed_def Let_def by (simp split: if_split_asm) auto
  then show ?thesis
  proof (elim disjE conjE exE)
    assume grown: "st1 = st\<lparr>ms_buffer := ms_buffer st @ take ?count bytes, ms_total := ms_total st + ?count\<rparr>"
      and room: "length bytes \<le> mo_maxTotalBytes (ms_options st) - ms_total st"
    define n where "n = ?count"
    have n: "n \<le> length bytes" "n \<le> mo_maxRetainedBytes (ms_options st) - Retained st"
      "n \<le> mo_maxRetainedBytes (ms_options st) - mo_maxHeaderBytes (ms_options st) - length (ms_buffer st)" unfolding n_def by (meson min.cobounded1 min.cobounded2 order_trans)+
    have "length (take n bytes) = n" using n(1) by simp
    then show ?thesis using assms(2) room n unfolding grown [folded n_def] within_limits_def Retained_def part_limit_def by auto
  qed (use assms(2) in \<open>auto simp: within_limits_def Retained_def FailWith_def part_limit_def\<close>)
qed

lemma sum_map_remove1: "i < length xs \<Longrightarrow> sum_list (map f xs) = f (xs ! i) + sum_list (map f (take i xs @ drop (Suc i) xs))" for f :: "'a \<Rightarrow> nat"
proof -
  assume "i < length xs"
  then have "sum_list (map f (take i xs @ xs ! i # drop (Suc i) xs)) = sum_list (map f xs)"
    by (simp only: id_take_nth_drop [symmetric])
  then show ?thesis by simp
qed

definition usable :: "MultipartState \<Rightarrow> bool" where
  "usable st \<longleftrightarrow> valid_multipart_options (ms_options st) \<and> ms_marker st \<noteq> [] \<and> ms_delimiter st = CRLF @ ms_marker st \<and> length (ms_marker st) \<le> 72"

lemma usable_event: "usable st \<Longrightarrow> 0 < mo_maxEventBytes (ms_options st)"
  by (simp add: usable_def valid_multipart_options_def)

lemma reads_usable: "reads st e st1 \<Longrightarrow> usable st \<Longrightarrow> usable st1"
  using reads_options by (simp add: usable_def)

lemma call_usable: "usable (mr_state r) \<Longrightarrow> usable (mr_state (call r c))"
proof (cases c)
  case (CallRead alloc)
  assume u: "usable (mr_state r)"
  show ?thesis using reads_usable [OF Multipart_Read_reads] u usable_event [OF u]
    unfolding CallRead call_read by (auto simp: Let_def split: prod.splits)
qed (auto simp: Multipart_Feed_def Multipart_Finish_def Multipart_Cancel_def FailWith_def Release_event_def usable_def Let_def split: if_splits)

lemma call_limits:
  assumes u: "usable (mr_state r)" and lim: "within_limits (mr_state r) (mr_held r)"
  shows "within_limits (mr_state (call r c)) (mr_held (call r c))"
proof (cases c)
  case (CallFeed alloc bytes)
  then show ?thesis using Feed_limits [OF _ lim] by (auto split: prod.splits sum.splits)
next
  case (CallRead alloc)
  obtain o' st where run: "Multipart_Read alloc (mr_state r) = (o', st)" by fastforce
  then show ?thesis using reads_limits [OF Multipart_Read_reads [OF run usable_event [OF u]] lim] unfolding CallRead call_read by (simp add: Let_def)
next
  case (CallRelease i)
  then show ?thesis using lim sum_map_remove1 [of i "mr_held r" event_bytes]
    by (auto simp: within_limits_def Release_event_def Retained_def part_limit_def)
qed (use lim in \<open>auto simp: within_limits_def Multipart_Finish_def Multipart_Cancel_def FailWith_def Retained_def part_limit_def split: if_splits\<close>)

lemma Create_usable:
  assumes "Multipart_Create alloc contentType options = Inr st"
  shows "usable st \<and> within_limits st [] \<and> (\<exists>boundary. Boundary boundary \<and> st = MultipartState_create boundary options)"
proof -
  obtain boundary where b: "Boundary boundary" "st = MultipartState_create boundary options" "valid_multipart_options options"
    using assms by (auto simp: Multipart_Create_def Let_def split: if_splits sum.splits)
  then show ?thesis
    by (auto simp: usable_def MultipartState_create_def Boundary_def within_limits_def Retained_def)
qed

lemma calls_limits:
  assumes "Multipart_Create alloc contentType options = Inr st"
  shows "usable (mr_state (foldl call (run_start st) calls)) \<and>
    within_limits (mr_state (foldl call (run_start st) calls)) (mr_held (foldl call (run_start st) calls))"
proof (induction calls rule: rev_induct)
  case Nil
  then show ?case using Create_usable [OF assms] by (simp add: run_start_def)
qed (simp add: call_usable call_limits)

section \<open>Progress\<close>

text \<open>An event of a part header holds each text of the header block at most twice.\<close>

definition item_bytes :: "FormFields \<Rightarrow> nat" where
  "item_bytes fs = sum_list (map (\<lambda>(name, item). length item) fs)"

lemma parameter_list_bytes: "parameter_list ps s = Inr ps' \<Longrightarrow> item_bytes ps' \<le> item_bytes ps + length s"
proof (induction ps s rule: parameter_list.induct)
  case (1 ps s)
  show ?case
  proof (cases "s = []")
    case True
    then show ?thesis using "1.prems" by (simp add: parameter_list.simps)
  next
    case False
    then obtain name item rest where p: "one_parameter ps s = Some (name, item, rest)" "parameter_list (ps @ [(name, item)]) rest = Inr ps'"
      using "1.prems" by (subst (asm) parameter_list.simps) (auto split: option.splits)
    then show ?thesis using "1.IH" [OF False p(1) refl refl p(2)] one_parameter_length [OF p(1)] by (simp add: item_bytes_def)
  qed
qed

abbreviation filename_bytes :: "MultipartEvent \<Rightarrow> nat" where
  "filename_bytes e \<equiv> (case me_filename e of None \<Rightarrow> 0 | Some filename \<Rightarrow> length filename)"

lemma disposition_fields_bytes:
  "disposition_fields named e ps = Some (named', e') \<Longrightarrow>
   length (me_name e') + filename_bytes e' \<le> length (me_name e) + filename_bytes e + item_bytes ps \<and>
   me_data e' = me_data e \<and> me_headers e' = me_headers e \<and> me_contentType e' = me_contentType e \<and> me_kind e' = me_kind e \<and> me_partIndex e' = me_partIndex e"
proof (induction named e ps rule: disposition_fields.induct)
  case (2 named e key item ps)
  then show ?case by (cases "me_filename e") (auto simp: item_bytes_def split: if_splits)
qed (simp add: item_bytes_def)

lemma set_disposition_bytes:
  assumes "set_disposition e field = Inr e'"
  shows "length (me_name e') + filename_bytes e' \<le> length (me_name e) + filename_bytes e + length field \<and>
    me_data e' = me_data e \<and> me_headers e' = me_headers e \<and> me_contentType e' = me_contentType e \<and> me_kind e' = me_kind e \<and> me_partIndex e' = me_partIndex e"
proof -
  obtain p where p: "Parameters field = Inr p" "disposition_fields False e (pz_parameters p) = Some (True, e')"
    using assms by (auto simp: set_disposition_def split: sum.splits if_splits option.splits prod.splits bool.splits)
  obtain front rest where cut: "cut_at (CHR 0x3B) field = (front, rest)" by fastforce
  then have "parameter_list [] (behind rest) = Inr (pz_parameters p)"
    using p(1) by (auto simp: Parameters_def split: sum.splits)
  then have "item_bytes (pz_parameters p) \<le> length field"
    using parameter_list_bytes [of "[]" "behind rest"] cut_at_sizes [OF cut] by (fastforce simp: item_bytes_def)
  then show ?thesis using disposition_fields_bytes [OF p(2)] by auto
qed

lemma part_header_bytes:
  assumes "part_header alloc options d c e line = Inr (d', c', e')"
  shows "event_bytes e' \<le> event_bytes e + 2 * length line \<and> me_data e' = me_data e \<and> me_kind e' = me_kind e \<and> me_partIndex e' = me_partIndex e"
proof -
  obtain rawName rawValue where cut: "cut_at (CHR '':'') line = (rawName, Some rawValue)"
    using assms by (auto simp: part_header_def split: prod.splits option.splits)
  define field where "field = Trim rawValue"
  have size: "length rawName + length field \<le> length line"
    using cut_at_sizes [OF cut] length_Trim [of rawValue] by (simp add: field_def behind_def)
  have "(\<exists>e1. set_disposition e field = Inr e1 \<and> e' = e1\<lparr>me_headers := me_headers e1 @ [(map Lower rawName, field)]\<rparr>) \<or>
      e' = e\<lparr>me_contentType := field, me_headers := me_headers e @ [(map Lower rawName, field)]\<rparr> \<or>
      e' = e\<lparr>me_headers := me_headers e @ [(map Lower rawName, field)]\<rparr>"
    using assms cut unfolding part_header_def
    by (simp add: Let_def field_def [symmetric] split: if_split_asm sum.split_asm)
  then show ?thesis
  proof (elim disjE exE conjE)
    fix e1 assume "set_disposition e field = Inr e1" "e' = e1\<lparr>me_headers := me_headers e1 @ [(map Lower rawName, field)]\<rparr>"
    then show ?thesis using set_disposition_bytes [of e field e1] size by (simp add: event_bytes_def)
  qed (use size in \<open>simp_all add: event_bytes_def\<close>)
qed

lemma part_headers_bytes:
  "part_headers alloc options d c e block = Inr (d', e') \<Longrightarrow>
   event_bytes e' \<le> event_bytes e + 2 * length block \<and> me_data e' = me_data e \<and> me_kind e' = me_kind e \<and> me_partIndex e' = me_partIndex e"
proof (induction alloc options d c e block rule: part_headers.induct)
  case (1 alloc options d c e block)
  show ?case
  proof (cases "block = []")
    case True
    then show ?thesis using "1.prems" by (simp add: part_headers.simps)
  next
    case False
    obtain line rest where l: "first_line block = (line, rest)" by fastforce
    then obtain d1 c1 e1 where h: "part_header alloc options d c e line = Inr (d1, c1, e1)" "part_headers alloc options d1 c1 e1 rest = Inr (d', e')"
      using "1.prems" False by (subst (asm) part_headers.simps) (auto split: sum.splits)
    then show ?thesis
      using "1.IH" [OF False l [symmetric] h(1) refl refl h(2)] part_header_bytes [OF h(1)] first_line_length [OF l False] by auto
  qed
qed

lemma Headers_event:
  assumes "Headers alloc st block = Inr e"
  shows "event_bytes e \<le> 2 * length block \<and> me_kind e = PartBegin \<and> me_partIndex e = ms_part st + 1 \<and> me_data e = []"
proof -
  have "part_headers alloc (ms_options st) False False (MultipartEvent_default\<lparr>me_partIndex := ms_part st + 1\<rparr>) block = Inr (True, e)"
    using assms by (auto simp: Headers_def split: sum.splits if_splits)
  from part_headers_bytes [OF this] show ?thesis by (simp add: event_bytes_def MultipartEvent_default_def)
qed

text \<open>A parser whose events have all been released; what it may keep in its buffer when it asks for more.\<close>

definition quiescent :: "MultipartState \<Rightarrow> bool" where
  "quiescent st \<longleftrightarrow> usable st \<and> ms_error st = Ok \<and> ms_credit st = 0 \<and> length (ms_buffer st) \<le> mo_maxRetainedBytes (ms_options st) - mo_maxHeaderBytes (ms_options st)"

definition hungry :: "MultipartState \<Rightarrow> bool" where
  "hungry st \<longleftrightarrow> usable st \<and> ms_error st = Ok \<and> ms_credit st = 0 \<and> length (ms_buffer st) \<le> mo_maxHeaderBytes (ms_options st) + 75"

definition blocked :: "read_result option \<times> MultipartState \<Rightarrow> bool" where
  "blocked r \<longleftrightarrow> fst r = None \<or> fst r = Some (Inl WouldBlock)"

lemma usable_sizes:
  assumes "usable st"
  shows "length (ms_delimiter st) \<le> 74" "0 < mo_maxHeaderBytes (ms_options st)"
    "mo_maxHeaderBytes (ms_options st) * 2 + 80 \<le> mo_maxRetainedBytes (ms_options st)"
  using assms by (auto simp: usable_def valid_multipart_options_def CRLF_def)

lemma Event_unblocked: "fits st (event_bytes e) consumed \<Longrightarrow> fst (Event alloc st e consumed) \<noteq> Inl WouldBlock"
  by (auto simp: Event_def fits_def)

lemma Data_event_unblocked:
  assumes "quiescent st" "available \<le> length (ms_buffer st)"
  shows "fst (Data_event True st available) \<noteq> Inl WouldBlock"
proof -
  define n where "n = min available (mo_maxEventBytes (ms_options st))"
  have n: "n \<le> length (ms_buffer st)" using assms(2) by (simp add: n_def)
  have "fits st (event_bytes (data_event st n)) n" using assms(1) n by (auto simp: quiescent_def fits_def event_bytes_data)
  then show ?thesis using Event_unblocked [of st "data_event st n" n True]
    by (auto simp: Data_event_def Let_def n_def [symmetric] data_event_def [symmetric] split: prod.splits sum.splits)
qed

lemma no_boundary_blocked:
  assumes "quiescent st" "blocked (no_boundary True st)"
  shows "hungry (snd (no_boundary True st)) \<and> ms_phase (snd (no_boundary True st)) = ms_phase st"
proof -
  have "fst (Data_event True st (length (ms_buffer st) - (length (ms_delimiter st) + 2))) \<noteq> Inl WouldBlock"
    using Data_event_unblocked [OF assms(1)] by simp
  then show ?thesis using assms usable_sizes [of st]
    by (auto simp: no_boundary_def Let_def blocked_def hungry_def quiescent_def usable_def split: if_splits)
qed

lemma boundary_line_blocked:
  assumes "quiescent st" "blocked (boundary_line True st suffix consumed)" "suffix = SuffixMore \<longrightarrow> hungry st"
  shows "hungry (snd (boundary_line True st suffix consumed)) \<or>
    fst (boundary_line True st suffix consumed) = None \<and> ms_phase st = PhInitial \<and> ms_phase (snd (boundary_line True st suffix consumed)) \<noteq> PhInitial \<and> quiescent (snd (boundary_line True st suffix consumed))"
proof -
  have "fits st (event_bytes (end_event st)) consumed" by (simp add: fits_def event_bytes_end)
  from Event_unblocked [OF this, of True] show ?thesis using assms
    by (auto simp: boundary_line_def blocked_def end_event_def [symmetric] quiescent_def usable_def next_phase_def split: if_splits prod.splits sum.splits)
qed

text \<open>A blocked search leaves room for input, unless it has just left the preamble.\<close>

lemma scan_blocked:
  assumes "quiescent st" "blocked (scan True st search)"
  shows "hungry (snd (scan True st search)) \<or>
    fst (scan True st search) = None \<and> ms_phase st = PhInitial \<and> ms_phase (snd (scan True st search)) \<noteq> PhInitial \<and> quiescent (snd (scan True st search))"
  using assms
proof (induction True st search rule: scan.induct)
  case (1 st search)
  note q = "1.prems"(1)
  show ?case
  proof (cases "at_start st \<and> length (ms_buffer st) < length (ms_marker st) \<and> begins (ms_marker st) (ms_buffer st)")
    case True
    then have "scan True st search = (None, st)" by (subst scan.simps) simp
    then show ?thesis using True q by (auto simp: hungry_def quiescent_def usable_def)
  next
    case go: False
    show ?thesis
    proof (cases "boundary_at st search")
      case None
      then have "scan True st search = no_boundary True st" using go by (subst scan.simps) auto
      then show ?thesis using no_boundary_blocked [OF q] "1.prems"(2) by auto
    next
      case (Some found)
      obtain i n where found: "found = (i, n)" by fastforce
      note at = Some [unfolded found]
      obtain suffix line where suffix: "DelimiterSuffix (ms_options st) (ms_eof st) (drop (i + n) (ms_buffer st)) = (suffix, line)" by fastforce
      note unfold = scan.simps [of True st search]
      consider "suffix = SuffixInvalid" | "suffix \<noteq> SuffixInvalid" "i \<noteq> 0" "ms_phase st \<noteq> PhInitial"
        | "suffix \<noteq> SuffixInvalid" "i \<noteq> 0" "ms_phase st = PhInitial" | "suffix \<noteq> SuffixInvalid" "i = 0" by blast
      then show ?thesis
      proof cases
        case 1
        let ?st = "if at_start st \<and> i = 0 then st\<lparr>ms_initialStart := False\<rparr> else st"
        have run: "scan True st search = scan True ?st (i + 1)" using unfold go at suffix 1 by simp
        have "quiescent ?st" using q by (simp add: quiescent_def usable_def)
        from "1.hyps"(1) [OF go at refl suffix [symmetric] 1 this] show ?thesis using "1.prems"(2) unfolding run by (auto split: if_splits)
      next
        case 2
        have run: "scan True st search = apfst Some (Data_event True st i)" using unfold go at suffix 2 by simp
        have "fst (Data_event True st i) \<noteq> Inl WouldBlock" using Data_event_unblocked [OF q] boundary_at_some [OF at] by simp
        then show ?thesis using "1.prems"(2) unfolding run blocked_def by simp
      next
        case 3
        let ?st = "st\<lparr>ms_buffer := drop i (ms_buffer st), ms_initialStart := False\<rparr>"
        have run: "scan True st search = scan True ?st search" using unfold go at suffix 3 by simp
        have "quiescent ?st" using q by (auto simp: quiescent_def usable_def)
        from "1.hyps"(2) [OF go at refl suffix [symmetric] 3(1,2) _ this] show ?thesis using "1.prems"(2) 3 unfolding run by simp
      next
        case 4
        have run: "scan True st search = boundary_line True st suffix (i + n + line)" using unfold go at suffix 4 by simp
        have "hungry st" if "suffix = SuffixMore"
        proof -
          have "n \<le> 74" using at usable_sizes(1) [of st] q by (auto simp: boundary_at_def quiescent_def usable_def split: if_splits)
          then show ?thesis using DelimiterSuffix_more suffix that 4 q by (fastforce simp: hungry_def quiescent_def)
        qed
        then show ?thesis using boundary_line_blocked [OF q, of suffix "i + n + line"] "1.prems"(2) unfolding run by simp
      qed
    qed
  qed
qed

lemma read_headers_blocked:
  assumes "quiescent st" "blocked (read_headers True st)"
  shows "hungry (snd (read_headers True st))"
proof -
  obtain r st1 where run: "read_headers True st = (r, st1)" by fastforce
  from read_headers_cases [OF run] show ?thesis
  proof (elim disjE exE conjE)
    fix n e r' st'
    assume a: "find_at (CRLF @ CRLF) (ms_buffer st) 0 = Some n" "n + 4 \<le> mo_maxHeaderBytes (ms_options st)"
      "Headers True st (take n (ms_buffer st)) = Inr e" "Event True st e (n + 4) = (r', st')"
      "(r, st1) = (case r' of Inl code \<Rightarrow> (Some (Inl code), st') | Inr ev \<Rightarrow> (Some (Inr ev), begun st' e))"
    have size: "n + 4 \<le> length (ms_buffer st)" using find_at_some(2) [OF a(1)] length_crlf by simp
    have "event_bytes e \<le> 2 * n" using Headers_event [OF a(3)] size by simp
    then have "fits st (event_bytes e) (n + 4)" using assms(1) a(2) size usable_sizes(3) [of st] by (auto simp: fits_def quiescent_def)
    then have "r' \<noteq> Inl WouldBlock" using Event_unblocked [of st e "n + 4" True] a(4) by auto
    then show ?thesis using a(5) assms(2) run by (auto simp: blocked_def split: sum.splits)
  qed (use assms run in \<open>auto simp: blocked_def hungry_def quiescent_def\<close>)
qed

lemma read_phase_blocked:
  assumes "quiescent st" "blocked (read_phase True st)"
  shows "hungry (snd (read_phase True st)) \<or>
    fst (read_phase True st) = None \<and> ms_phase st = PhInitial \<and> ms_phase (snd (read_phase True st)) \<noteq> PhInitial \<and> quiescent (snd (read_phase True st))"
proof (cases "ms_phase st")
  case PhEpilogue
  then show ?thesis using assms by (auto simp: read_phase_def Let_def blocked_def hungry_def quiescent_def usable_def split: if_splits)
qed (use assms scan_blocked [OF assms(1), of 0] read_headers_blocked in \<open>auto simp: read_phase_def blocked_def\<close>)

lemma Read_blocked:
  assumes q: "quiescent st" "ms_error st = Ok" and run: "Multipart_Read True st = (Inl WouldBlock, st1)"
  shows "hungry st1"
proof -
  obtain r2 st2 where turns: "read_turns True st = (r2, st2)" by fastforce
  have final: "(r2 = None \<or> r2 = Some (Inl WouldBlock)) \<and> st1 = st2"
    using run q(2) turns by (auto simp: Multipart_Read_def split: option.splits if_splits)
  obtain r3 st3 where first: "read_phase True st = (r3, st3)" by fastforce
  show ?thesis
  proof (cases "r3 = None \<and> ms_phase st = PhInitial \<and> ms_phase st3 \<noteq> PhInitial")
    case True
    then have again: "read_phase True st3 = (r2, st2)" using turns first by (auto simp: read_turns_def)
    have "hungry st3 \<or> quiescent st3" using read_phase_blocked [OF q(1)] first True by (auto simp: blocked_def)
    then have "quiescent st3" using usable_sizes(3) [of st3] by (auto simp: hungry_def quiescent_def)
    then show ?thesis using read_phase_blocked [of st3] again final True by (auto simp: blocked_def)
  next
    case False
    then have "r3 = r2 \<and> st3 = st2" using turns first by (auto simp: read_turns_def split: option.splits if_splits)
    then show ?thesis using read_phase_blocked [OF q(1)] first final False by (auto simp: blocked_def)
  qed
qed

end
