(* ===== verification/MultipartAccount.thy ===== *)
theory MultipartAccount
  imports MultipartProps
begin

text \<open>
  The account of a multipart body: which bytes of the input each event stands for. The events are, in order,
  exactly what the accepted input says, however it was cut into pieces.
\<close>

section \<open>What an event stands for\<close>

definition whole_line :: "string \<Rightarrow> bool \<Rightarrow> string \<Rightarrow> bool" where
  "whole_line mark final line \<longleftrightarrow> begins line mark \<and> closing_line final (drop (length mark) line)"

text \<open>The bytes \<open>w\<close> of an event, with the input \<open>rest\<close> behind them.\<close>

definition stands_for :: "MultipartOptions \<Rightarrow> string \<Rightarrow> MultipartEvent \<Rightarrow> string \<Rightarrow> string \<Rightarrow> bool" where
  "stands_for options delimiter e w rest =
     (case me_kind e of
        PartBegin \<Rightarrow>
          find_at (CRLF @ CRLF) w 0 = Some (length w - 4) \<and>
          part_headers True options False False (MultipartEvent_default\<lparr>me_partIndex := me_partIndex e\<rparr>) (take (length w - 4) w) = Inr (True, e)
      | Data \<Rightarrow> w \<noteq> [] \<and> me_data e = w \<and> (\<forall>q < length w. rejected options delimiter (drop q (w @ rest)))
      | PartEnd \<Rightarrow> whole_line delimiter False w \<or> whole_line delimiter True w)"

fun explains :: "MultipartOptions \<Rightarrow> string \<Rightarrow> MultipartEvent list \<Rightarrow> string list \<Rightarrow> string \<Rightarrow> bool" where
  "explains options delimiter [] [] rest \<longleftrightarrow> True"
| "explains options delimiter (e # es) (w # ws) rest \<longleftrightarrow>
     stands_for options delimiter e w (concat ws @ rest) \<and> explains options delimiter es ws rest"
| "explains options delimiter _ _ rest \<longleftrightarrow> False"

text \<open>Parts are numbered from one; a part begins, delivers its data and ends before the next one begins.\<close>

fun event_order :: "nat \<Rightarrow> bool \<Rightarrow> MultipartEvent list \<Rightarrow> (nat \<times> bool) option" where
  "event_order n inside [] = Some (n, inside)"
| "event_order n inside (e # es) =
     (case me_kind e of
        PartBegin \<Rightarrow> if \<not> inside \<and> me_partIndex e = n + 1 then event_order (n + 1) True es else None
      | Data \<Rightarrow> if inside \<and> me_partIndex e = n then event_order n True es else None
      | PartEnd \<Rightarrow> if inside \<and> me_partIndex e = n then event_order n False es else None)"

lemma stands_for_more: "stands_for options delimiter e w rest \<Longrightarrow> stands_for options delimiter e w (rest @ t)"
proof (cases "me_kind e")
  case Data
  assume a: "stands_for options delimiter e w rest"
  have "rejected options delimiter (drop q (w @ rest @ t))" if "q < length w" for q
  proof -
    have "rejected options delimiter (drop q (w @ rest))" using a Data that by (auto simp: stands_for_def)
    from rejected_append [OF this, of t] show ?thesis using that by simp
  qed
  then show ?thesis using a Data by (simp add: stands_for_def)
qed (auto simp: stands_for_def)

lemma explains_more: "explains options delimiter es ws rest \<Longrightarrow> explains options delimiter es ws (rest @ t)"
  using stands_for_more by (induction options delimiter es ws rest rule: explains.induct) fastforce+

lemma explains_snoc:
  "explains options delimiter es ws (w @ rest) \<Longrightarrow> stands_for options delimiter e w rest \<Longrightarrow> explains options delimiter (es @ [e]) (ws @ [w]) rest"
  by (induction options delimiter es ws "w @ rest" rule: explains.induct) auto

lemma event_order_snoc: "event_order n inside es = Some (m, j) \<Longrightarrow> event_order n inside (es @ [e]) = event_order m j [e]"
  by (induction n inside es rule: event_order.induct) (auto split: MultipartEventKind.splits if_splits)

section \<open>The account of a run\<close>

text \<open>
  The input is a preamble with its opening boundary line, the bytes of the events and the rest, which is still
  in the buffer unless the parser has failed or drops an epilogue.
\<close>

definition opened :: "MultipartState \<Rightarrow> bool \<Rightarrow> string \<Rightarrow> bool" where
  "opened st final lead \<longleftrightarrow>
     whole_line (ms_marker st) final lead \<or> (\<exists>n \<le> length lead. whole_line (ms_delimiter st) final (drop n lead))"

definition closed_phase :: "MultipartState \<Rightarrow> bool" where
  "closed_phase st \<longleftrightarrow> ms_phase st = PhEpilogue \<or> ms_phase st = PhDone"

definition accounts :: "MultipartState \<Rightarrow> string \<Rightarrow> MultipartEvent list \<Rightarrow> string \<Rightarrow> string list \<Rightarrow> string \<Rightarrow> bool" where
  "accounts st input events lead wires rest \<longleftrightarrow>
     input = lead @ concat wires @ rest \<and>
     explains (ms_options st) (ms_delimiter st) events wires rest \<and>
     event_order 0 False events = Some (ms_part st, ms_phase st = PhBody) \<and>
     (ms_phase st = PhInitial \<longrightarrow> wires = [] \<and> (ms_initialStart st \<longrightarrow> lead = [])) \<and>
     (ms_phase st \<noteq> PhInitial \<longrightarrow> opened st (closed_phase st \<and> wires = []) lead) \<and>
     (closed_phase st \<and> wires \<noteq> [] \<longrightarrow> whole_line (ms_delimiter st) True (last wires))"

definition in_buffer :: "MultipartState \<Rightarrow> string \<Rightarrow> bool" where
  "in_buffer st rest \<longleftrightarrow> (if ms_error st \<noteq> Ok then ms_buffer st = [] else closed_phase st \<or> rest = ms_buffer st)"

lemma explains_nil: "explains options delimiter es [] rest \<Longrightarrow> es = []"
  by (cases es) auto

lemma explains_lengths: "explains options delimiter es ws rest \<Longrightarrow> length es = length ws"
  by (induction options delimiter es ws rest rule: explains.induct) auto

lemma whole_line_take:
  assumes "begins s mark" "n \<le> length (drop (length mark) s)" "closing_line final (take n (drop (length mark) s))"
  shows "whole_line mark final (take (length mark + n) s)"
  using assms by (auto simp: whole_line_def drop_take min_def)

lemma find_at_take:
  assumes "find_at pattern s 0 = Some n"
  shows "find_at pattern (take (n + length pattern) s) 0 = Some n"
proof -
  note f = find_at_some [OF assms]
  have same: "take (length pattern) (drop i (take (n + length pattern) s)) = take (length pattern) (drop i s)" if "i \<le> n" for i
    using that by (simp add: drop_take min_def)
  have "find (\<lambda>i. take (length pattern) (drop i (take (n + length pattern) s)) = pattern) [0..<Suc n] = Some n"
    using f(3,4) same by (auto simp: find_Some_iff drop_take simp del: upt_Suc intro!: exI [of _ n])
  moreover have "Suc (length (take (n + length pattern) s)) - length pattern = Suc n" using f(2) by simp
  ultimately show ?thesis unfolding find_at_def by (simp only:)
qed

text \<open>Taking bytes of an event off the buffer.\<close>

lemma accounts_emit:
  assumes acc: "accounts st input events lead wires rest" and rest: "rest = w @ rest1" and phase: "ms_phase st \<noteq> PhInitial" "\<not> closed_phase st"
    and same: "ms_options st1 = ms_options st" "ms_delimiter st1 = ms_delimiter st" "ms_marker st1 = ms_marker st"
    and e: "stands_for (ms_options st) (ms_delimiter st) e w rest1"
    and order: "event_order (ms_part st) (ms_phase st = PhBody) [e] = Some (ms_part st1, ms_phase st1 = PhBody)"
    and later: "ms_phase st1 \<noteq> PhInitial" "closed_phase st1 \<longrightarrow> whole_line (ms_delimiter st) True w"
  shows "accounts st1 input (events @ [e]) lead (wires @ [w]) rest1"
  using assms event_order_snoc [of 0 False events "ms_part st" "ms_phase st = PhBody" e]
  by (auto simp: accounts_def opened_def intro: explains_snoc)

lemma data_event_fields: "me_kind (data_event st n) = Data" "me_data (data_event st n) = take n (ms_buffer st)" "me_partIndex (data_event st n) = ms_part st"
  by (simp_all add: data_event_def)

lemma end_event_fields: "me_kind (end_event st) = PartEnd" "me_partIndex (end_event st) = ms_part st"
  by (simp_all add: end_event_def)

lemma Headers_stands_for:
  assumes "find_at (CRLF @ CRLF) s 0 = Some n" "Headers True st (take n s) = Inr e"
  shows "stands_for (ms_options st) delimiter e (take (n + 4) s) rest"
proof -
  have "part_headers True (ms_options st) False False (MultipartEvent_default\<lparr>me_partIndex := ms_part st + 1\<rparr>) (take n s) = Inr (True, e)"
    using assms(2) by (auto simp: Headers_def split: sum.splits if_splits)
  moreover have "n + 4 \<le> length s" using find_at_some(2) [OF assms(1)] length_crlf by simp
  ultimately show ?thesis
    using Headers_event [OF assms(2)] find_at_take [OF assms(1)] length_crlf by (simp add: stands_for_def min_def)
qed

lemma mstep_accounts:
  assumes step: "mstep st e st1" and acc: "accounts st input events lead wires rest" and buffer: "in_buffer st rest" and u: "usable st"
  shows "\<exists>lead1 wires1 rest1. accounts st1 input (events @ emitted e) lead1 wires1 rest1 \<and> in_buffer st1 rest1"
  using step
proof cases
  case (skip n)
  have none: "wires = []" "events = []" using acc skip(3) explains_nil by (auto simp: accounts_def)
  show ?thesis
  proof (cases "ms_error st = Ok")
    case True
    then have "rest = ms_buffer st" using buffer skip(3) by (simp add: in_buffer_def closed_phase_def)
    then show ?thesis using acc skip none True
      by (intro exI [of _ "lead @ take n (ms_buffer st)"] exI [of _ "[]"] exI [of _ "drop n (ms_buffer st)"]) (auto simp: accounts_def in_buffer_def closed_phase_def)
  next
    case False
    then show ?thesis using acc skip none buffer
      by (intro exI [of _ lead] exI [of _ "[]"] exI [of _ rest]) (auto simp: accounts_def in_buffer_def closed_phase_def)
  qed
next
  case (open_line mark n suffix)
  have none: "wires = []" "events = []" using acc open_line(3) explains_nil by (auto simp: accounts_def)
  have "mark \<noteq> []" using open_line(4) u by (auto simp: usable_def CRLF_def)
  then have ok: "ms_error st = Ok" using buffer open_line(5) by (auto simp: in_buffer_def split: if_splits)
  then have rest: "rest = ms_buffer st" using buffer open_line(3) by (simp add: in_buffer_def closed_phase_def)
  let ?line = "take (length mark + n) (ms_buffer st)"
  note line = whole_line_take [OF open_line(5,6,7)]
  have "opened st (suffix = SuffixFinal) (lead @ ?line)"
    using line open_line(3,4) acc unfolding opened_def by (auto simp: accounts_def intro!: exI [of _ "length lead"])
  moreover have "opened st1 = opened st" "closed_phase st1 = (suffix = SuffixFinal)"
    by (auto simp: opened_def [abs_def] closed_phase_def next_phase_def open_line(2))
  moreover have "input = lead @ ms_buffer st" "ms_part st = 0" using acc none rest open_line(3) by (simp_all add: accounts_def)
  moreover have "ms_phase st1 \<noteq> PhInitial" "ms_phase st1 \<noteq> PhBody" "ms_part st1 = ms_part st" by (simp_all add: next_phase_def open_line(2))
  ultimately have "accounts st1 input [] (lead @ ?line) [] (drop (length mark + n) (ms_buffer st))" by (simp add: accounts_def)
  moreover have "in_buffer st1 (drop (length mark + n) (ms_buffer st))" using ok by (simp add: in_buffer_def open_line(2))
  ultimately show ?thesis using none open_line(1) by auto
next
  case (part_begin n e')
  have "ms_buffer st \<noteq> []" using find_at_some(2) [OF part_begin(4)] length_crlf by auto
  then have ok: "ms_error st = Ok" and rest: "rest = ms_buffer st" using buffer part_begin(3) by (auto simp: in_buffer_def closed_phase_def split: if_splits)
  have "accounts st1 input (events @ [e']) lead (wires @ [take (n + 4) (ms_buffer st)]) (drop (n + 4) (ms_buffer st))"
    using part_begin Headers_stands_for [OF part_begin(4,7)] Headers_event [OF part_begin(7)] rest
    by (intro accounts_emit [OF acc]) (auto simp: closed_phase_def begun_def taken_def)
  moreover have "in_buffer st1 (drop (n + 4) (ms_buffer st))" using ok by (simp add: in_buffer_def begun_def taken_def part_begin(2))
  ultimately show ?thesis using part_begin(1) by auto
next
  case (data n)
  have "ms_buffer st \<noteq> []" using data by auto
  then have ok: "ms_error st = Ok" and rest: "rest = ms_buffer st" using buffer data(3) by (auto simp: in_buffer_def closed_phase_def split: if_splits)
  have "stands_for (ms_options st) (ms_delimiter st) (data_event st n) (take n (ms_buffer st)) (drop n (ms_buffer st))"
    using data by (auto simp: stands_for_def data_event_fields)
  then have "accounts st1 input (events @ [data_event st n]) lead (wires @ [take n (ms_buffer st)]) (drop n (ms_buffer st))"
    using data rest by (intro accounts_emit [OF acc]) (auto simp: closed_phase_def taken_def data_event_fields)
  moreover have "in_buffer st1 (drop (n) (ms_buffer st))" using ok by (simp add: in_buffer_def taken_def data(2))
  ultimately show ?thesis using data(1) by auto
next
  case (part_end n suffix)
  have "ms_delimiter st \<noteq> []" using u by (auto simp: usable_def CRLF_def)
  then have "ms_buffer st \<noteq> []" using part_end by auto
  then have ok: "ms_error st = Ok" and rest: "rest = ms_buffer st" using buffer part_end(3) by (auto simp: in_buffer_def closed_phase_def split: if_splits)
  let ?line = "take (length (ms_delimiter st) + n) (ms_buffer st)"
  note line = whole_line_take [OF part_end(4,5,6)]
  have "stands_for (ms_options st) (ms_delimiter st) (end_event st) ?line (drop (length (ms_delimiter st) + n) (ms_buffer st))"
    using line by (cases "suffix = SuffixFinal") (auto simp: stands_for_def end_event_fields)
  then have "accounts st1 input (events @ [end_event st]) lead (wires @ [?line]) (drop (length (ms_delimiter st) + n) (ms_buffer st))"
    using part_end rest line by (intro accounts_emit [OF acc]) (auto simp: closed_phase_def taken_def end_event_fields next_phase_def)
  moreover have "in_buffer st1 (drop (length (ms_delimiter st) + n) (ms_buffer st))" using ok by (simp add: in_buffer_def taken_def part_end(2))
  ultimately show ?thesis using part_end(1) by auto
next
  case (epilogue p)
  then show ?thesis using acc buffer
    by (intro exI [of _ lead] exI [of _ wires] exI [of _ rest]) (auto simp: accounts_def in_buffer_def closed_phase_def opened_def)
next
  case (failure code)
  then show ?thesis using acc
    by (intro exI [of _ lead] exI [of _ wires] exI [of _ rest]) (auto simp: accounts_def in_buffer_def closed_phase_def opened_def FailWith_def)
qed

section \<open>Runs\<close>

definition accounted :: "MultipartRun \<Rightarrow> bool" where
  "accounted r \<longleftrightarrow> (\<exists>lead wires rest. accounts (mr_state r) (mr_input r) (mr_events r) lead wires rest \<and> in_buffer (mr_state r) rest)"

lemma reads_accounts:
  "reads st e st1 \<Longrightarrow> usable st \<Longrightarrow> accounts st input events lead wires rest \<Longrightarrow> in_buffer st rest \<Longrightarrow>
   \<exists>lead1 wires1 rest1. accounts st1 input (events @ emitted e) lead1 wires1 rest1 \<and> in_buffer st1 rest1"
proof (induction arbitrary: lead wires rest rule: reads.induct)
  case (quiet st st1 e st2)
  obtain lead1 wires1 rest1 where "accounts st1 input events lead1 wires1 rest1" "in_buffer st1 rest1"
    using mstep_accounts [OF quiet(1,5,6,4)] by auto
  then show ?case using quiet.IH reads_usable [OF reads_step [OF quiet(1)] quiet(4)] by blast
next
  case (emit st e st1)
  then show ?case using mstep_accounts [OF emit(1,3,4,2)] by simp
qed auto

lemma accounts_more: "accounts st input events lead wires rest \<Longrightarrow> accounts st (input @ t) events lead wires (rest @ t)"
  using explains_more by (auto simp: accounts_def)

lemma accounts_cong:
  "accounts st input events lead wires rest \<Longrightarrow> ms_options st1 = ms_options st \<Longrightarrow> ms_marker st1 = ms_marker st \<Longrightarrow>
   ms_delimiter st1 = ms_delimiter st \<Longrightarrow> ms_part st1 = ms_part st \<Longrightarrow> ms_phase st1 = ms_phase st \<Longrightarrow> ms_initialStart st1 = ms_initialStart st \<Longrightarrow>
   accounts st1 input events lead wires rest"
  by (simp add: accounts_def opened_def closed_phase_def)

lemma accounted_same:
  assumes "accounted r" "mr_input r1 = mr_input r" "mr_events r1 = mr_events r"
    and "ms_options (mr_state r1) = ms_options (mr_state r)" "ms_marker (mr_state r1) = ms_marker (mr_state r)"
      "ms_delimiter (mr_state r1) = ms_delimiter (mr_state r)" "ms_part (mr_state r1) = ms_part (mr_state r)"
      "ms_phase (mr_state r1) = ms_phase (mr_state r)" "ms_initialStart (mr_state r1) = ms_initialStart (mr_state r)"
    and "\<And>rest. in_buffer (mr_state r) rest \<Longrightarrow> in_buffer (mr_state r1) rest"
  shows "accounted r1"
  using assms accounts_cong [of "mr_state r" _ _ _ _ _ "mr_state r1"] unfolding accounted_def by metis

lemma accounted_FailWith:
  "accounted r \<Longrightarrow> code \<noteq> Ok \<Longrightarrow> accounted (r\<lparr>mr_state := FailWith code (mr_state r)\<rparr>)"
  by (erule accounted_same) (simp_all add: in_buffer_def FailWith_def)

lemma Feed_cases:
  assumes "Multipart_Feed alloc bytes st = (r, st1)"
  shows "(\<exists>code. r = Inl code \<and> st1 = st) \<or> (\<exists>code. r = Inl code \<and> code \<noteq> Ok \<and> st1 = FailWith code st) \<or> r = Inr 0 \<and> st1 = st \<or>
    (\<exists>n. r = Inr n \<and> n \<le> length bytes \<and> ms_error st = Ok \<and> st1 = st\<lparr>ms_buffer := ms_buffer st @ take n bytes, ms_total := ms_total st + n\<rparr>)"
proof -
  define n where "n = min (length bytes) (min (mo_maxRetainedBytes (ms_options st) - Retained st)
    (mo_maxRetainedBytes (ms_options st) - mo_maxHeaderBytes (ms_options st) - length (ms_buffer st)))"
  have "n \<le> length bytes" unfolding n_def by (rule min.cobounded1)
  have run: "Multipart_Feed alloc bytes st =
      (if ms_error st \<noteq> Ok then (Inl (ms_error st), st) else if ms_eof st then (Inl Closed, st) else if bytes = [] then (Inr 0, st)
       else if length bytes > mo_maxTotalBytes (ms_options st) - ms_total st then (Inl TooLarge, FailWith TooLarge st)
       else if n = 0 then (Inl WouldBlock, st) else if \<not> alloc then (Inl PlatformError, FailWith PlatformError st)
       else (Inr n, st\<lparr>ms_buffer := ms_buffer st @ take n bytes, ms_total := ms_total st + n\<rparr>))"
    unfolding Multipart_Feed_def Let_def n_def by (rule refl)
  show ?thesis
  proof (cases "ms_error st = Ok \<and> \<not> ms_eof st \<and> bytes \<noteq> [] \<and> length bytes \<le> mo_maxTotalBytes (ms_options st) - ms_total st \<and> n \<noteq> 0 \<and> alloc")
    case True
    then have "r = Inr n" "st1 = st\<lparr>ms_buffer := ms_buffer st @ take n bytes, ms_total := ms_total st + n\<rparr>" using assms run by simp_all
    then show ?thesis using True \<open>n \<le> length bytes\<close> by blast
  next
    case False
    then have "r = Inl (ms_error st) \<and> st1 = st \<or> r = Inl Closed \<and> st1 = st \<or> r = Inr 0 \<and> st1 = st \<or> r = Inl TooLarge \<and> st1 = FailWith TooLarge st \<or>
        r = Inl WouldBlock \<and> st1 = st \<or> r = Inl PlatformError \<and> st1 = FailWith PlatformError st"
      using assms unfolding run by (auto split: if_split_asm)
    then show ?thesis by (elim disjE) simp_all
  qed
qed

lemma accounted_grow:
  assumes acc: "accounted r" and ok: "ms_error (mr_state r) = Ok"
  shows "accounted (r\<lparr>mr_state := (mr_state r)\<lparr>ms_buffer := ms_buffer (mr_state r) @ t, ms_total := m\<rparr>, mr_input := mr_input r @ t\<rparr>)"
proof -
  obtain lead wires rest where a: "accounts (mr_state r) (mr_input r) (mr_events r) lead wires rest" "in_buffer (mr_state r) rest"
    using acc by (auto simp: accounted_def)
  let ?st = "(mr_state r)\<lparr>ms_buffer := ms_buffer (mr_state r) @ t, ms_total := m\<rparr>"
  have "accounts ?st (mr_input r @ t) (mr_events r) lead wires (rest @ t)" using accounts_more [OF a(1)] by (rule accounts_cong) simp_all
  moreover have "in_buffer ?st (rest @ t)" using a(2) ok by (auto simp: in_buffer_def closed_phase_def)
  ultimately show ?thesis unfolding accounted_def by auto
qed

lemma call_accounted:
  assumes u: "usable (mr_state r)" and acc: "accounted r"
  shows "accounted (call r c)"
proof (cases c)
  case (CallFeed alloc bytes)
  obtain o' st where run: "Multipart_Feed alloc bytes (mr_state r) = (o', st)" by fastforce
  from Feed_cases [OF run] show ?thesis
    using acc accounted_FailWith [OF acc] accounted_grow [OF acc] by (elim disjE exE conjE) (simp_all add: CallFeed run)
next
  case (CallRead alloc)
  obtain o' st where run: "Multipart_Read alloc (mr_state r) = (o', st)" by fastforce
  note reads = Multipart_Read_reads [OF run usable_event [OF u]]
  show ?thesis using reads_accounts [OF reads u] acc unfolding CallRead call_read by (auto simp: accounted_def run Let_def)
next
  case CallFinish
  show ?thesis using acc by (rule accounted_same) (simp_all add: CallFinish Multipart_Finish_def in_buffer_def closed_phase_def split: if_split_asm)
next
  case CallCancel
  then show ?thesis using acc accounted_FailWith [OF acc] by (auto simp: Multipart_Cancel_def)
next
  case (CallRelease i)
  show ?thesis using acc by (rule accounted_same) (simp_all add: CallRelease Release_event_def in_buffer_def closed_phase_def split: if_split_asm)
qed

lemma calls_accounted:
  assumes "Multipart_Create alloc contentType options = Inr st"
  shows "accounted (foldl call (run_start st) calls)"
proof (induction calls rule: rev_induct)
  case Nil
  obtain boundary where "st = MultipartState_create boundary options" using Create_usable [OF assms] by blast
  then have "accounts st [] [] [] [] [] \<and> in_buffer st []"
    by (simp add: accounts_def MultipartState_create_def in_buffer_def closed_phase_def)
  then show ?case by (auto simp: accounted_def run_start_def)
next
  case (snoc c calls)
  then show ?case using call_accounted calls_limits [OF assms] by simp
qed

section \<open>Counts\<close>

definition tallied :: "MultipartRun \<Rightarrow> bool" where
  "tallied r \<longleftrightarrow>
     ms_total (mr_state r) = length (mr_input r) \<and>
     ms_part (mr_state r) = length (filter (\<lambda>e. me_kind e = PartBegin) (mr_events r)) \<and>
     ms_files (mr_state r) = length (filter (\<lambda>e. me_kind e = PartBegin \<and> me_filename e \<noteq> None) (mr_events r)) \<and>
     (\<forall>e \<in> set (mr_events r). length (me_data e) \<le> mo_maxEventBytes (ms_options (mr_state r)))"

lemma mstep_tallied:
  assumes "mstep (mr_state r) e st1" "tallied r"
  shows "tallied (r\<lparr>mr_state := st1, mr_events := mr_events r @ emitted e, mr_held := held\<rparr>)"
  using assms
proof cases
  case (part_begin n e')
  then show ?thesis using Headers_event [OF part_begin(7)] assms(2) by (auto simp: tallied_def begun_def taken_def)
next
  case (data n)
  then show ?thesis using assms(2) by (auto simp: tallied_def taken_def data_event_fields)
next
  case (part_end n suffix)
  then show ?thesis using assms(2) by (auto simp: tallied_def taken_def end_event_fields, simp add: end_event_def MultipartEvent_default_def)
qed (use assms(2) in \<open>auto simp: tallied_def FailWith_def\<close>)

lemma reads_tallied:
  "reads st e st1 \<Longrightarrow> st = mr_state r \<Longrightarrow> tallied r \<Longrightarrow> tallied (r\<lparr>mr_state := st1, mr_events := mr_events r @ emitted e, mr_held := held\<rparr>)"
proof (induction arbitrary: r rule: reads.induct)
  case (stay st)
  then show ?case by (simp add: tallied_def)
next
  case (quiet st st1 e st2)
  have "tallied (r\<lparr>mr_state := st1\<rparr>)" using mstep_tallied [of r None st1 "mr_held r"] quiet by (simp add: tallied_def)
  then show ?case using quiet.IH [of "r\<lparr>mr_state := st1\<rparr>"] by (simp add: tallied_def)
next
  case (emit st e st1)
  then show ?case using mstep_tallied [of r "Some e" st1 held] by simp
qed

lemma call_tallied:
  assumes u: "usable (mr_state r)" and t: "tallied r"
  shows "tallied (call r c)"
proof (cases c)
  case (CallFeed alloc bytes)
  obtain o' st where run: "Multipart_Feed alloc bytes (mr_state r) = (o', st)" by fastforce
  from Feed_cases [OF run] show ?thesis using t by (elim disjE exE conjE) (simp_all add: CallFeed run tallied_def FailWith_def)
next
  case (CallRead alloc)
  obtain o' st where run: "Multipart_Read alloc (mr_state r) = (o', st)" by fastforce
  note reads = Multipart_Read_reads [OF run usable_event [OF u]]
  show ?thesis using reads_tallied [OF reads refl t] unfolding CallRead call_read by (simp add: run Let_def)
qed (use t in \<open>auto simp: tallied_def Multipart_Finish_def Multipart_Cancel_def Release_event_def FailWith_def\<close>)

lemma calls_tallied:
  assumes "Multipart_Create alloc contentType options = Inr st"
  shows "tallied (foldl call (run_start st) calls) \<and> ms_options (mr_state (foldl call (run_start st) calls)) = options"
proof (induction calls rule: rev_induct)
  case Nil
  then show ?case using Create_usable [OF assms] by (auto simp: run_start_def tallied_def MultipartState_create_def)
next
  case (snoc c calls)
  let ?r = "foldl call (run_start st) calls"
  have u: "usable (mr_state ?r)" using calls_limits [OF assms] by blast
  have "ms_options (mr_state (call ?r c)) = ms_options (mr_state ?r)"
  proof (cases c)
    case (CallFeed alloc bytes)
    obtain o' st where run: "Multipart_Feed alloc bytes (mr_state ?r) = (o', st)" by fastforce
    from Feed_cases [OF run] show ?thesis by (elim disjE exE conjE) (simp_all add: CallFeed run FailWith_def)
  next
    case (CallRead alloc)
    obtain o' st where run: "Multipart_Read alloc (mr_state ?r) = (o', st)" by fastforce
    show ?thesis using reads_options [OF Multipart_Read_reads [OF run usable_event [OF u]]] unfolding CallRead call_read by (simp add: run Let_def)
  qed (simp_all add: Multipart_Finish_def Multipart_Cancel_def Release_event_def FailWith_def)
  then show ?case using snoc call_tallied [OF u] by simp
qed

lemma reads_unfed: "reads st e st1 \<Longrightarrow> ms_eof st1 = ms_eof st \<and> ms_total st1 = ms_total st"
  by (induction rule: reads.induct) (auto elim!: mstep.cases simp: FailWith_def taken_def begun_def)

section \<open>A sample parser\<close>

definition sample_options :: MultipartOptions where
  "sample_options =
     \<lparr>mo_maxParts = 4, mo_maxFiles = 4, mo_maxHeaders = 4, mo_maxHeaderBytes = 64, mo_maxPartBytes = 100, mo_maxFileBytes = 100,
      mo_maxTotalBytes = 1000, mo_maxRetainedBytes = 400, mo_maxEventBytes = 50\<rparr>"

definition sample_type :: string where
  "sample_type = ''multipart/form-data'' @ CHR 0x3B # ''boundary=b''"

definition sample_state :: MultipartState where
  "sample_state = MultipartState_create ''b'' sample_options"

definition sample_calls :: "MultipartCall list" where
  "sample_calls = [CallFeed True ''--b'', CallRead True]"

lemma sample_created: "Multipart_Create True sample_type sample_options = Inr sample_state"
proof -
  have m: "Metadata ''b''" by (simp add: Metadata_def IsValidUtf8_ascii del: IsValidUtf8.simps(2))
  have c: "cut_at (CHR 0x3B) sample_type = (''multipart/form-data'', Some ''boundary=b'')"
    by (simp add: sample_type_def cut_at_def)
  have o: "one_parameter [] ''boundary=b'' = Some (''boundary'', ''b'', [])"
    by (simp add: one_parameter_def cut_at_def parameter_value_def Trim_def Lower_def IsToken_def token_char_def m)
  have "Parameters sample_type = Inr \<lparr>pz_main = ''multipart/form-data'', pz_parameters = [(''boundary'', ''b'')]\<rparr>"
    by (simp add: Parameters_def c behind_def parameter_list.simps o Trim_def Lower_def)
  moreover have "valid_multipart_options sample_options" "length sample_type \<le> mo_maxHeaderBytes sample_options"
    by (simp_all add: valid_multipart_options_def sample_options_def sample_type_def SIZE_MAX_eval)
  ultimately show ?thesis
    by (simp add: Multipart_Create_def boundary_parameter_def Boundary_def boundary_char_def sample_state_def)
qed

text \<open>
  Leaving the preamble, the code moves the found boundary to the front of the buffer but goes on searching from where it
  was. If the preamble holds text that only looks like the beginning of a boundary line, the boundary behind
  it is overlooked when both are in the buffer at once: the same bytes are refused in one piece and
  accepted, as a body without parts, in two.
\<close>

definition preamble_body :: string where
  "preamble_body = CRLF @ ''--bX'' @ CRLF @ ''--b--'' @ CRLF"

definition read_pieces :: "MultipartState \<Rightarrow> string list \<Rightarrow> MultipartState" where
  "read_pieces st pieces = foldl (\<lambda>st piece. snd (Multipart_Read True (snd (Multipart_Feed True piece st)))) st pieces"

lemma Multipart_preamble_cut:
  "fst (Multipart_Read True (snd (Multipart_Finish (snd (Multipart_Feed True preamble_body sample_state))))) = Inl InvalidFormat \<and>
   fst (Multipart_Read True (snd (Multipart_Finish (read_pieces sample_state [take 8 preamble_body, drop 8 preamble_body])))) = Inr None"
  by code_simp

section \<open>The properties\<close>





text \<open>
  C35. A client that releases its events is never stuck: if no event is held and a call of \<^verbatim>\<open>Read\<close> asks for more
  input, then a following \<^verbatim>\<open>Feed\<close> of any bytes within the limit of the body accepts at least one of them. The
  reserve of 80 bytes and a second header size that \<^verbatim>\<open>Create\<close> demands is what makes this true.
\<close>

theorem Multipart_never_stuck:
  assumes "Multipart_Create alloc contentType options = Inr st" "r = foldl call (run_start st) calls"
    and "mr_held r = []" "ms_error (mr_state r) = Ok" "\<not> ms_eof (mr_state r)" "Multipart_Read True (mr_state r) = (Inl WouldBlock, st1)"
    and "bytes \<noteq> []" "length (mr_input r) + length bytes \<le> mo_maxTotalBytes options"
  shows "\<exists>n > 0. fst (Multipart_Feed True bytes st1) = Inr n"
proof -
  have u: "usable (mr_state r)" and l: "within_limits (mr_state r) (mr_held r)" using calls_limits [OF assms(1), of calls] assms(2) by auto
  have q: "quiescent (mr_state r)" using u l assms(3,4) by (auto simp: quiescent_def within_limits_def)
  note h = Read_blocked [OF q assms(4,6)]
  note reads = Multipart_Read_reads [OF assms(6) usable_event [OF u]]
  have room: "\<not> ms_eof st1" "length bytes \<le> mo_maxTotalBytes (ms_options st1) - ms_total st1"
    using reads_unfed [OF reads] reads_options [OF reads] calls_tallied [OF assms(1), of calls] assms(2,5,8) by (auto simp: tallied_def)
  have "length (ms_buffer st1) < mo_maxRetainedBytes (ms_options st1) - mo_maxHeaderBytes (ms_options st1)"
      "Retained st1 < mo_maxRetainedBytes (ms_options st1)"
    using h usable_sizes(3) [of st1] by (auto simp: hungry_def Retained_def)
  then have "0 < min (length bytes) (min (mo_maxRetainedBytes (ms_options st1) - Retained st1)
      (mo_maxRetainedBytes (ms_options st1) - mo_maxHeaderBytes (ms_options st1) - length (ms_buffer st1)))"
    using assms(7) by simp
  then show ?thesis using h room assms(7) by (auto simp: Multipart_Feed_def Let_def hungry_def simp del: min_less_iff_conj)
qed

theorem Multipart_never_stuck_witness:
  "\<exists>n > 0. fst (Multipart_Feed True ''x'' (mr_state (foldl call (run_start sample_state) sample_calls))) = Inr n"
proof -
  let ?r = "foldl call (run_start sample_state) sample_calls"
  have "mr_held ?r = []" by code_simp
  moreover have "ms_error (mr_state ?r) = Ok" by code_simp
  moreover have "\<not> ms_eof (mr_state ?r)" by code_simp
  moreover have "Multipart_Read True (mr_state ?r) = (Inl WouldBlock, mr_state ?r)" by code_simp
  moreover have "length (mr_input ?r) + length ''x'' \<le> mo_maxTotalBytes sample_options" by code_simp
  ultimately show ?thesis using Multipart_never_stuck [OF sample_created refl, of sample_calls] by blast
qed

end
