(* ===== verification/WaitBoard.thy ===== *)
theory WaitBoard
  imports Completion
begin

text \<open>
  Waiting for a condition with one-shot completions: a component keeps the sources of the waiting subscriptions,
  takes them out in its critical sections and completes them after it has left the lock. The locale states
  what such a component has to guarantee; its lemma says that no wake-up is lost, whatever the interleaving of
  operations, completions and withdrawals.

  A source is its number in the list of all subscriptions. What a critical section takes out is due until some
  thread has called \<^verbatim>\<open>Complete\<close> on it.
\<close>

type_synonym completions = "(nat \<times> ErrorCode) list"

record 's Board =
  bd_state :: 's
  bd_subscriptions :: "CompletionState list"
  bd_due :: completions
  bd_log :: completions

definition pending_in :: "CompletionState list \<Rightarrow> nat \<Rightarrow> bool" where
  "pending_in subs i \<longleftrightarrow> i < length subs \<and> IsPending (subs ! i)"

text \<open>
  An operation runs one critical section: it knows which sources are pending and the number of the subscription
  it may create, and returns the new state, what has to be completed, and whether the subscription was made.
\<close>

type_synonym ('s, 'o) board_operation = "'s \<Rightarrow> 'o \<Rightarrow> (nat \<Rightarrow> bool) \<Rightarrow> nat \<Rightarrow> 's \<times> completions \<times> bool"

datatype 'o BoardStep = Operate 'o | Deliver nat | Withdraw nat

fun board_step :: "('s, 'o) board_operation \<Rightarrow> 's Board \<Rightarrow> 'o BoardStep \<Rightarrow> 's Board" where
  "board_step operation b (Operate op) =
     (case operation (bd_state b) op (pending_in (bd_subscriptions b)) (length (bd_subscriptions b)) of
        (s, due, made) \<Rightarrow>
          b\<lparr>bd_state := s, bd_due := bd_due b @ due,
            bd_subscriptions := bd_subscriptions b @ (if made then [CompletionState_create] else [])\<rparr>)"
| "board_step operation b (Deliver i) =
     (if i < length (bd_due b) then
        (case bd_due b ! i of (source, code) \<Rightarrow>
           let b1 = b\<lparr>bd_due := take i (bd_due b) @ drop (Suc i) (bd_due b)\<rparr>
           in if pending_in (bd_subscriptions b) source
              then b1\<lparr>bd_subscriptions := (bd_subscriptions b)[source := snd (Complete_begin i (bd_subscriptions b ! source))],
                      bd_log := bd_log b @ [(source, code)]\<rparr>
              else b1)
      else b)"
| "board_step operation b (Withdraw source) =
     b\<lparr>bd_subscriptions := (bd_subscriptions b)[source := Reset_begin (bd_subscriptions b ! source)]\<rparr>"

definition board_start :: "'s \<Rightarrow> 's Board" where
  "board_start s = \<lparr>bd_state = s, bd_subscriptions = [], bd_due = [], bd_log = []\<rparr>"

lemma pending_in_append: "pending_in (subs @ [CompletionState_create]) i \<longleftrightarrow> pending_in subs i \<or> i = length subs"
  by (auto simp: pending_in_def nth_append IsPending_def CompletionState_create_def)

lemma pending_in_complete:
  "pending_in subs source \<Longrightarrow> pending_in (subs[source := snd (Complete_begin t (subs ! source))]) i \<longleftrightarrow> pending_in subs i \<and> i \<noteq> source"
  by (auto simp: pending_in_def nth_list_update IsPending_def Complete_begin_def)

lemma pending_in_reset:
  "pending_in (subs[source := Reset_begin (subs ! source)]) i \<longleftrightarrow> pending_in subs i \<and> i \<noteq> source"
  by (cases "source < length subs") (auto simp: pending_in_def nth_list_update IsPending_def Reset_begin_def)

lemma set_except: "i < length xs \<Longrightarrow> x \<in> set xs \<Longrightarrow> x \<noteq> xs ! i \<Longrightarrow> x \<in> set (take i xs @ drop (Suc i) xs)"
  using id_take_nth_drop [of i xs] by (metis Un_iff set_append set_ConsD)

locale wait_board =
  fixes operation :: "('s, 'o) board_operation"
    and state_ok :: "'s \<Rightarrow> bool"
    and waits :: "'s \<Rightarrow> nat \<Rightarrow> bool"
  assumes state_ok_kept: "state_ok s \<Longrightarrow> operation s op pend fresh = (s', due, made) \<Longrightarrow> state_ok s'"
    and waiter_kept: "state_ok s \<Longrightarrow> operation s op pend fresh = (s', due, made) \<Longrightarrow> waits s i \<Longrightarrow> pend i \<Longrightarrow> i < fresh \<Longrightarrow>
      i \<in> fst ` set due \<or> waits s' i"
    and waiter_made: "state_ok s \<Longrightarrow> operation s op pend fresh = (s', due, True) \<Longrightarrow> fresh \<in> fst ` set due \<or> waits s' fresh"
begin

definition board_ok :: "'s Board \<Rightarrow> bool" where
  "board_ok b \<longleftrightarrow>
     state_ok (bd_state b) \<and>
     (\<forall>i. pending_in (bd_subscriptions b) i \<longrightarrow> i \<in> fst ` set (bd_due b) \<or> waits (bd_state b) i) \<and>
     (\<forall>i \<in> fst ` set (bd_log b). \<not> pending_in (bd_subscriptions b) i \<and> i < length (bd_subscriptions b)) \<and> distinct (map fst (bd_log b))"

lemma board_operate_ok:
  assumes ok: "board_ok b"
  shows "board_ok (board_step operation b (Operate op))"
proof -
  obtain s due made where run: "operation (bd_state b) op (pending_in (bd_subscriptions b)) (length (bd_subscriptions b)) = (s, due, made)"
    by (cases "operation (bd_state b) op (pending_in (bd_subscriptions b)) (length (bd_subscriptions b))") auto
  have s: "state_ok (bd_state b)" using ok by (simp add: board_ok_def)
  have old: "i \<in> fst ` set (bd_due b @ due) \<or> waits s i" if "pending_in (bd_subscriptions b) i" for i
    using waiter_kept [OF s run, of i] ok that by (auto simp: board_ok_def pending_in_def)
  have fresh: "length (bd_subscriptions b) \<in> fst ` set (bd_due b @ due) \<or> waits s (length (bd_subscriptions b))" if made
    using waiter_made [OF s, of op "pending_in (bd_subscriptions b)" "length (bd_subscriptions b)" s due] run that by auto
  show ?thesis
  proof (cases made)
    case True
    then show ?thesis using ok old fresh state_ok_kept [OF s run] by (auto simp: board_ok_def run pending_in_append)
  next
    case False
    then show ?thesis using ok old state_ok_kept [OF s run] by (auto simp: board_ok_def run)
  qed
qed

lemma board_deliver_ok:
  assumes ok: "board_ok b"
  shows "board_ok (board_step operation b (Deliver i))"
proof (cases "i < length (bd_due b)")
  case True
  obtain source code where entry: "bd_due b ! i = (source, code)" by fastforce
  let ?due = "take i (bd_due b) @ drop (Suc i) (bd_due b)"
  have rest: "j \<in> fst ` set ?due" if "j \<in> fst ` set (bd_due b)" "j \<noteq> source" for j
  proof -
    obtain c where "(j, c) \<in> set (bd_due b)" using \<open>j \<in> fst ` set (bd_due b)\<close> by auto
    then have "(j, c) \<in> set ?due" using set_except [OF True] entry \<open>j \<noteq> source\<close> by auto
    then show ?thesis by force
  qed
  have kept: "j \<in> fst ` set ?due \<or> waits (bd_state b) j" if "pending_in (bd_subscriptions b) j" "j \<noteq> source" for j
    using ok rest that unfolding board_ok_def by blast
  show ?thesis
  proof (cases "pending_in (bd_subscriptions b) source")
    case p: True
    have "source \<notin> fst ` set (bd_log b)" "source < length (bd_subscriptions b)" using ok p by (auto simp: board_ok_def pending_in_def)
    then show ?thesis using ok True entry p kept unfolding board_ok_def by (simp add: Let_def pending_in_complete)
  next
    case False
    then show ?thesis using ok True entry kept unfolding board_ok_def by (simp add: Let_def) metis
  qed
qed (use ok in simp)

lemma board_step_ok: "board_ok b \<Longrightarrow> board_ok (board_step operation b t)"
proof (cases t)
  case (Withdraw source)
  assume "board_ok b"
  then show ?thesis unfolding Withdraw by (auto simp: board_ok_def pending_in_reset)
qed (auto intro: board_operate_ok board_deliver_ok simp del: board_step.simps)

lemma board_run_ok: "state_ok s \<Longrightarrow> board_ok (foldl (board_step operation) (board_start s) steps)"
proof (induction steps rule: rev_induct)
  case Nil
  then show ?case by (simp add: board_ok_def board_start_def pending_in_def)
qed (simp add: board_step_ok)

text \<open>No wake-up is lost, and each subscription is completed at most once.\<close>

lemma no_lost_wakeup:
  assumes "state_ok s" "b = foldl (board_step operation) (board_start s) steps"
  shows "state_ok (bd_state b)" "pending_in (bd_subscriptions b) i \<Longrightarrow> i \<notin> fst ` set (bd_due b) \<Longrightarrow> waits (bd_state b) i"
    "distinct (map fst (bd_log b))"
  using board_run_ok [OF assms(1), of steps] assms(2) unfolding board_ok_def by blast+

end

end
