(* ===== verification/Channel.thy ===== *)
theory Channel
  imports WaitBoard
begin

text \<open>
  Channels between threads (\<^verbatim>\<open>include/ServerCore/Runtime/Channel.h\<close>): the bounded queue \<^verbatim>\<open>BoundedChannel\<close> and the
  versioned \<^verbatim>\<open>LatestValue\<close>. Each operation is its critical section, with what it completes after leaving the
  lock. A handle without state is \<open>None\<close>; a value without object is \<open>None\<close>. The part of a blocking receive behind
  its wait is modelled; a wait that ends while its condition is false was stopped or ran into its deadline.
\<close>

section \<open>The bounded channel\<close>

record ChannelOptions =
  co_maxMessages :: nat
  co_maxRetainedBytes :: nat

record 'a ChannelState =
  ch_options :: ChannelOptions
  ch_queue :: "('a \<times> nat) list"
  ch_bytes :: nat
  ch_writeBytes :: nat
  ch_closed :: bool
  ch_read :: "nat option"
  ch_write :: "nat option"

definition ChannelState_create :: "ChannelOptions \<Rightarrow> 'a ChannelState" where
  "ChannelState_create limits =
     \<lparr>ch_options = limits, ch_queue = [], ch_bytes = 0, ch_writeBytes = 0, ch_closed = False, ch_read = None, ch_write = None\<rparr>"

definition Channel_CanSend :: "'a ChannelState \<Rightarrow> nat \<Rightarrow> bool" where
  "Channel_CanSend st amount \<longleftrightarrow>
     length (ch_queue st) < co_maxMessages (ch_options st) \<and> amount \<le> co_maxRetainedBytes (ch_options st) - ch_bytes st"

definition Channel_Create :: "bool \<Rightarrow> ChannelOptions \<Rightarrow> 'a ChannelState result" where
  "Channel_Create alloc options =
     (if co_maxMessages options = 0 \<or> co_maxRetainedBytes options = 0 then Inl InvalidArgument
      else if \<not> alloc then Inl PlatformError
      else Inr (ChannelState_create options))"

text \<open>The completion of a source that may be empty.\<close>

definition complete_source :: "nat option \<Rightarrow> ErrorCode \<Rightarrow> completions" where
  "complete_source source code = (case source of None \<Rightarrow> [] | Some i \<Rightarrow> [(i, code)])"

definition TrySend :: "bool \<Rightarrow> 'a option \<Rightarrow> nat \<Rightarrow> 'a ChannelState option \<Rightarrow> status \<times> 'a ChannelState option \<times> completions" where
  "TrySend alloc item retainedBytes handle =
     (case (handle, item) of
        (Some st, Some x) \<Rightarrow>
          if retainedBytes > co_maxRetainedBytes (ch_options st) then (TooLarge, handle, [])
          else if \<not> alloc then (PlatformError, handle, [])
          else if ch_closed st then (Closed, handle, [])
          else if \<not> Channel_CanSend st retainedBytes then (WouldBlock, handle, [])
          else (Ok, Some (st\<lparr>ch_queue := ch_queue st @ [(x, retainedBytes)], ch_bytes := ch_bytes st + retainedBytes, ch_read := None\<rparr>),
                complete_source (ch_read st) Ok)
      | _ \<Rightarrow> (InvalidArgument, handle, []))"

text \<open>\<open>wait\<close>: the call waits; \<open>stopped\<close>: its stop token has been triggered when the lock is held again.\<close>

definition ReceiveImpl :: "bool \<Rightarrow> bool \<Rightarrow> 'a ChannelState option \<Rightarrow> 'a result \<times> 'a ChannelState option \<times> completions" where
  "ReceiveImpl wait stopped handle =
     (case handle of
        None \<Rightarrow> (Inl InvalidArgument, handle, [])
      | Some st \<Rightarrow>
          if wait \<and> \<not> (ch_closed st \<or> ch_queue st \<noteq> []) then (Inl (if stopped then Cancelled else Timeout), handle, [])
          else if stopped then (Inl Cancelled, handle, [])
          else case ch_queue st of
            [] \<Rightarrow> (Inl (if ch_closed st then Closed else WouldBlock), handle, [])
          | (x, bytes) # rest \<Rightarrow>
              let st1 = st\<lparr>ch_bytes := ch_bytes st - bytes, ch_queue := rest\<rparr>
              in if Channel_CanSend st1 (ch_writeBytes st1)
                 then (Inr x, Some (st1\<lparr>ch_write := None\<rparr>), complete_source (ch_write st1) Ok)
                 else (Inr x, Some st1, []))"

text \<open>
  \<open>created\<close> is the outcome of \<^verbatim>\<open>CompletionSubscription::Create\<close>: its error, or the number of the source.
\<close>

definition Channel_Subscribe ::
  "bool \<Rightarrow> nat \<Rightarrow> nat result \<Rightarrow> (nat \<Rightarrow> bool) \<Rightarrow> 'a ChannelState option \<Rightarrow> nat result \<times> 'a ChannelState option \<times> completions" where
  "Channel_Subscribe writing bytes created pend handle =
     (case handle of
        None \<Rightarrow> (Inl InvalidArgument, handle, [])
      | Some st \<Rightarrow>
          if writing \<and> bytes > co_maxRetainedBytes (ch_options st) then (Inl TooLarge, handle, [])
          else case created of
            Inl code \<Rightarrow> (Inl code, handle, [])
          | Inr source \<Rightarrow>
              if (case (if writing then ch_write st else ch_read st) of None \<Rightarrow> False | Some i \<Rightarrow> pend i)
              then (Inl AlreadyExists, handle, [])
              else
                let code =
                      (if writing then
                         (if ch_closed st then Closed else if Channel_CanSend st bytes then Ok else WouldBlock)
                       else if ch_queue st \<noteq> [] then Ok
                       else if ch_closed st then Closed
                       else WouldBlock);
                    st1 = (if writing then st\<lparr>ch_writeBytes := bytes\<rparr> else st)
                in if code = WouldBlock
                   then (Inr source, Some (if writing then st1\<lparr>ch_write := Some source\<rparr> else st1\<lparr>ch_read := Some source\<rparr>), [])
                   else (Inr source, Some st1, [(source, code)]))"

definition Channel_Close :: "'a ChannelState option \<Rightarrow> 'a ChannelState option \<times> completions" where
  "Channel_Close handle =
     (case handle of
        None \<Rightarrow> (None, [])
      | Some st \<Rightarrow>
          (Some (st\<lparr>ch_closed := True, ch_read := None, ch_write := None\<rparr>),
           complete_source (ch_read st) (if ch_queue st = [] then Closed else Ok) @ complete_source (ch_write st) Closed))"

definition Channel_Size :: "'a ChannelState option \<Rightarrow> nat" where
  "Channel_Size handle = (case handle of None \<Rightarrow> 0 | Some st \<Rightarrow> length (ch_queue st))"

definition Channel_RetainedBytes :: "'a ChannelState option \<Rightarrow> nat" where
  "Channel_RetainedBytes handle = (case handle of None \<Rightarrow> 0 | Some st \<Rightarrow> ch_bytes st)"

text \<open>The destructor of the state, when the last handle is dropped.\<close>

definition ChannelState_destroy :: "'a ChannelState \<Rightarrow> completions" where
  "ChannelState_destroy st = complete_source (ch_read st) Closed @ complete_source (ch_write st) Closed"

section \<open>The channel and its clients\<close>

datatype 'a ChannelCall =
    SendCall bool "'a option" nat | ReceiveCall bool bool | SubscribeCall bool bool nat | CloseCall

text \<open>The history: what was sent and received, and the bytes each waiting writer asked for.\<close>

record 'a ChannelSystem =
  cy_handle :: "'a ChannelState option"
  cy_sent :: "'a list"
  cy_received :: "'a list"
  cy_wants :: "nat \<Rightarrow> nat"

fun channel_operation :: "('a ChannelSystem, 'a ChannelCall) board_operation" where
  "channel_operation y (SendCall alloc item bytes) pend fresh =
     (case TrySend alloc item bytes (cy_handle y) of (code, handle, due) \<Rightarrow>
        (y\<lparr>cy_handle := handle, cy_sent := (if code = Ok then cy_sent y @ [the item] else cy_sent y)\<rparr>, due, False))"
| "channel_operation y (ReceiveCall wait stopped) pend fresh =
     (case ReceiveImpl wait stopped (cy_handle y) of (r, handle, due) \<Rightarrow>
        (y\<lparr>cy_handle := handle, cy_received := (case r of Inr x \<Rightarrow> cy_received y @ [x] | Inl _ \<Rightarrow> cy_received y)\<rparr>, due, False))"
| "channel_operation y (SubscribeCall alloc writing bytes) pend fresh =
     (case Channel_Subscribe writing bytes (if alloc then Inr fresh else Inl PlatformError) pend (cy_handle y) of (r, handle, due) \<Rightarrow>
        (y\<lparr>cy_handle := handle, cy_wants := (cy_wants y)(fresh := bytes)\<rparr>, due, r = Inr fresh))"
| "channel_operation y CloseCall pend fresh =
     (case Channel_Close (cy_handle y) of (handle, due) \<Rightarrow> (y\<lparr>cy_handle := handle\<rparr>, due, False))"

definition channel_start :: "'a ChannelState \<Rightarrow> 'a ChannelSystem" where
  "channel_start st = \<lparr>cy_handle = Some st, cy_sent = [], cy_received = [], cy_wants = (\<lambda>i. 0)\<rparr>"

definition channel_ok :: "ChannelOptions \<Rightarrow> 'a ChannelSystem \<Rightarrow> bool" where
  "channel_ok options y \<longleftrightarrow>
     (case cy_handle y of
        None \<Rightarrow> False
      | Some st \<Rightarrow>
          ch_options st = options \<and> cy_sent y = cy_received y @ map fst (ch_queue st) \<and> ch_bytes st = sum_list (map snd (ch_queue st)) \<and>
          length (ch_queue st) \<le> co_maxMessages options \<and> ch_bytes st \<le> co_maxRetainedBytes options)"

text \<open>A subscription waits: as reader of an empty channel or as writer of a full one, and the channel is open.\<close>

definition channel_waits :: "'a ChannelSystem \<Rightarrow> nat \<Rightarrow> bool" where
  "channel_waits y i \<longleftrightarrow>
     (case cy_handle y of
        None \<Rightarrow> False
      | Some st \<Rightarrow>
          \<not> ch_closed st \<and>
          (ch_read st = Some i \<and> ch_queue st = [] \<or>
           ch_write st = Some i \<and> ch_writeBytes st = cy_wants y i \<and> \<not> Channel_CanSend st (cy_wants y i)))"

lemma channel_ok_kept:
  assumes "channel_ok options y" "channel_operation y op pend fresh = (y', due, made)"
  shows "channel_ok options y'"
proof -
  obtain st where st: "cy_handle y = Some st" using assms(1) by (auto simp: channel_ok_def split: option.splits)
  show ?thesis
  proof (cases op)
    case (SendCall alloc item bytes)
    then show ?thesis using assms st
      by (cases item) (auto simp: channel_ok_def TrySend_def Channel_CanSend_def split: if_split_asm)
  next
    case (ReceiveCall wait stopped)
    then show ?thesis using assms st
      by (cases "ch_queue st") (auto simp: channel_ok_def ReceiveImpl_def Let_def split: if_split_asm)
  next
    case (SubscribeCall alloc writing bytes)
    then show ?thesis using assms st
      by (auto simp: channel_ok_def Channel_Subscribe_def Let_def split: if_split_asm)
  next
    case CloseCall
    then show ?thesis using assms st by (auto simp: channel_ok_def Channel_Close_def)
  qed
qed

lemma channel_waiter_kept:
  assumes ok: "channel_ok options y" and run: "channel_operation y op pend fresh = (y', due, made)"
    and waits: "channel_waits y i" "pend i" "i < fresh"
  shows "i \<in> fst ` set due \<or> channel_waits y' i"
proof -
  obtain st where st: "cy_handle y = Some st" using ok by (auto simp: channel_ok_def split: option.splits)
  have w: "\<not> ch_closed st" "ch_read st = Some i \<and> ch_queue st = [] \<or> ch_write st = Some i \<and> ch_writeBytes st = cy_wants y i \<and> \<not> Channel_CanSend st (cy_wants y i)"
    using waits st by (auto simp: channel_waits_def)
  show ?thesis
  proof (cases op)
    case (SendCall alloc item bytes)
    then show ?thesis using run st w
      by (cases item) (auto simp: channel_waits_def TrySend_def complete_source_def Channel_CanSend_def split: if_split_asm)
  next
    case (ReceiveCall wait stopped)
    then show ?thesis using run st w
      by (cases "ch_queue st") (auto simp: channel_waits_def ReceiveImpl_def complete_source_def Let_def split: if_split_asm)
  next
    case (SubscribeCall alloc writing bytes)
    then show ?thesis using run st w waits(2,3)
      by (auto simp: channel_waits_def Channel_Subscribe_def Channel_CanSend_def Let_def split: if_split_asm)
  next
    case CloseCall
    then show ?thesis using run st w by (auto simp: channel_waits_def Channel_Close_def complete_source_def)
  qed
qed

lemma channel_waiter_made:
  assumes ok: "channel_ok options y" and run: "channel_operation y op pend fresh = (y', due, True)"
  shows "fresh \<in> fst ` set due \<or> channel_waits y' fresh"
proof -
  obtain st where st: "cy_handle y = Some st" using ok by (auto simp: channel_ok_def split: option.splits)
  obtain alloc writing bytes where op: "op = SubscribeCall alloc writing bytes" using run by (cases op) (auto split: prod.splits)
  show ?thesis using run st unfolding op
    by (auto simp: channel_waits_def Channel_Subscribe_def Channel_CanSend_def Let_def split: if_split_asm)
qed

interpretation channel: wait_board channel_operation "channel_ok options" channel_waits for options
  by unfold_locales (fact channel_ok_kept channel_waiter_kept channel_waiter_made)+

section \<open>The latest value\<close>

record LatestValueOptions =
  lo_maxRetainedBytes :: nat
  lo_maxSubscriptions :: nat

text \<open>\<open>lv_watchers\<close> is \<open>None\<close> when the list has been moved out of its pointer.\<close>

record 'a LatestValueState =
  lv_options :: LatestValueOptions
  lv_bytes :: nat
  lv_value :: "'a option"
  lv_version :: nat
  lv_closed :: bool
  lv_watchers :: "nat list option"

definition LatestValueState_create :: "LatestValueOptions \<Rightarrow> 'a LatestValueState" where
  "LatestValueState_create limits =
     \<lparr>lv_options = limits, lv_bytes = 0, lv_value = None, lv_version = 0, lv_closed = False, lv_watchers = Some []\<rparr>"

definition LatestValue_Create :: "bool \<Rightarrow> LatestValueOptions \<Rightarrow> 'a LatestValueState result" where
  "LatestValue_Create alloc options =
     (if lo_maxRetainedBytes options = 0 \<or> lo_maxSubscriptions options = 0 then Inl InvalidArgument
      else if \<not> alloc then Inl PlatformError
      else Inr (LatestValueState_create options))"

definition complete_all :: "nat list option \<Rightarrow> ErrorCode \<Rightarrow> completions" where
  "complete_all sources code = (case sources of None \<Rightarrow> [] | Some ids \<Rightarrow> map (\<lambda>i. (i, code)) ids)"

definition Publish :: "bool \<Rightarrow> 'a option \<Rightarrow> nat \<Rightarrow> 'a LatestValueState option \<Rightarrow> status \<times> 'a LatestValueState option \<times> completions" where
  "Publish alloc item retainedBytes handle =
     (case (handle, item) of
        (Some st, Some x) \<Rightarrow>
          if retainedBytes > lo_maxRetainedBytes (lv_options st) then (TooLarge, handle, [])
          else if \<not> alloc then (PlatformError, handle, [])
          else if lv_closed st then (Closed, handle, [])
          else if lv_version st = 2 ^ 64 - 1 then (TooLarge, handle, [])
          else (Ok, Some (st\<lparr>lv_value := Some x, lv_bytes := retainedBytes, lv_version := lv_version st + 1, lv_watchers := Some []\<rparr>),
                complete_all (lv_watchers st) Ok)
      | _ \<Rightarrow> (InvalidArgument, handle, []))"

definition LatestValue_ReadImpl :: "nat \<Rightarrow> bool \<Rightarrow> bool \<Rightarrow> 'a LatestValueState option \<Rightarrow> (nat \<times> 'a option) result" where
  "LatestValue_ReadImpl version wait stopped handle =
     (case handle of
        None \<Rightarrow> Inl InvalidArgument
      | Some st \<Rightarrow>
          if version > lv_version st then Inl InvalidArgument
          else if wait \<and> \<not> (lv_closed st \<or> lv_version st \<noteq> version) then Inl (if stopped then Cancelled else Timeout)
          else if stopped then Inl Cancelled
          else if lv_version st = version then Inl (if lv_closed st then Closed else WouldBlock)
          else Inr (lv_version st, lv_value st))"

text \<open>The outcome is \<open>None\<close> where the code would use the list behind an empty pointer.\<close>

definition WaitForChange ::
  "bool \<Rightarrow> nat \<Rightarrow> nat result \<Rightarrow> (nat \<Rightarrow> bool) \<Rightarrow> 'a LatestValueState option \<Rightarrow> (nat result \<times> 'a LatestValueState option \<times> completions) option" where
  "WaitForChange alloc version created pend handle =
     (case (handle, created) of
        (None, _) \<Rightarrow> Some (Inl InvalidArgument, handle, [])
      | (Some st, Inl code) \<Rightarrow> Some (Inl code, handle, [])
      | (Some st, Inr source) \<Rightarrow>
          if \<not> alloc then Some (Inl PlatformError, handle, [])
          else if version > lv_version st then Some (Inl InvalidArgument, handle, [])
          else if lv_version st \<noteq> version then Some (Inr source, handle, [(source, Ok)])
          else if lv_closed st then Some (Inr source, handle, [(source, Closed)])
          else case lv_watchers st of
            None \<Rightarrow> None
          | Some watchers \<Rightarrow>
              let remaining = filter pend watchers
              in if length remaining \<ge> lo_maxSubscriptions (lv_options st)
                 then Some (Inl WouldBlock, Some (st\<lparr>lv_watchers := Some remaining\<rparr>), [])
                 else Some (Inr source, Some (st\<lparr>lv_watchers := Some (remaining @ [source])\<rparr>), []))"

definition LatestValue_Close :: "'a LatestValueState option \<Rightarrow> 'a LatestValueState option \<times> completions" where
  "LatestValue_Close handle =
     (case handle of
        None \<Rightarrow> (None, [])
      | Some st \<Rightarrow> (Some (st\<lparr>lv_closed := True, lv_watchers := None\<rparr>), complete_all (lv_watchers st) Closed))"

definition LatestValue_RetainedBytes :: "'a LatestValueState option \<Rightarrow> nat" where
  "LatestValue_RetainedBytes handle = (case handle of None \<Rightarrow> 0 | Some st \<Rightarrow> lv_bytes st)"

definition LatestValueState_destroy :: "'a LatestValueState \<Rightarrow> completions" where
  "LatestValueState_destroy st = complete_all (lv_watchers st) Closed"

section \<open>The latest value and its clients\<close>

datatype 'a LatestCall = PublishCall bool "'a option" nat | WatchCall bool bool nat | LatestCloseCall

text \<open>The history: what was published, the version each watcher has seen, and whether an empty pointer was used.\<close>

record 'a LatestSystem =
  ly_handle :: "'a LatestValueState option"
  ly_published :: "'a list"
  ly_seen :: "nat \<Rightarrow> nat"
  ly_crashed :: bool

fun latest_operation :: "('a LatestSystem, 'a LatestCall) board_operation" where
  "latest_operation y (PublishCall alloc item bytes) pend fresh =
     (case Publish alloc item bytes (ly_handle y) of (code, handle, due) \<Rightarrow>
        (y\<lparr>ly_handle := handle, ly_published := (if code = Ok then ly_published y @ [the item] else ly_published y)\<rparr>, due, False))"
| "latest_operation y (WatchCall alloc prepared version) pend fresh =
     (case WaitForChange prepared version (if alloc then Inr fresh else Inl PlatformError) pend (ly_handle y) of
        None \<Rightarrow> (y\<lparr>ly_crashed := True\<rparr>, [], False)
      | Some (r, handle, due) \<Rightarrow> (y\<lparr>ly_handle := handle, ly_seen := (ly_seen y)(fresh := version)\<rparr>, due, r = Inr fresh))"
| "latest_operation y LatestCloseCall pend fresh =
     (case LatestValue_Close (ly_handle y) of (handle, due) \<Rightarrow> (y\<lparr>ly_handle := handle\<rparr>, due, False))"

definition latest_start :: "'a LatestValueState \<Rightarrow> 'a LatestSystem" where
  "latest_start st = \<lparr>ly_handle = Some st, ly_published = [], ly_seen = (\<lambda>i. 0), ly_crashed = False\<rparr>"

definition latest_ok :: "LatestValueOptions \<Rightarrow> 'a LatestSystem \<Rightarrow> bool" where
  "latest_ok options y \<longleftrightarrow>
     \<not> ly_crashed y \<and>
     (case ly_handle y of
        None \<Rightarrow> False
      | Some st \<Rightarrow>
          lv_options st = options \<and> lv_version st = length (ly_published y) \<and> lv_version st < 2 ^ 64 \<and>
          lv_value st = (if ly_published y = [] then None else Some (last (ly_published y))) \<and> lv_bytes st \<le> lo_maxRetainedBytes options \<and>
          (case lv_watchers st of None \<Rightarrow> lv_closed st | Some watchers \<Rightarrow> length watchers \<le> lo_maxSubscriptions options))"

definition latest_waits :: "'a LatestSystem \<Rightarrow> nat \<Rightarrow> bool" where
  "latest_waits y i \<longleftrightarrow>
     (case ly_handle y of
        None \<Rightarrow> False
      | Some st \<Rightarrow> \<not> lv_closed st \<and> lv_version st = ly_seen y i \<and> (case lv_watchers st of None \<Rightarrow> False | Some watchers \<Rightarrow> i \<in> set watchers))"

lemma latest_state: "latest_ok options y \<Longrightarrow> \<exists>st. ly_handle y = Some st"
  by (auto simp: latest_ok_def split: option.splits)

lemma latest_ok_kept:
  assumes ok: "latest_ok options y" and run: "latest_operation y op pend fresh = (y', due, made)"
  shows "latest_ok options y'"
proof -
  obtain st where st: "ly_handle y = Some st" using latest_state [OF ok] by blast
  show ?thesis
  proof (cases op)
    case (PublishCall alloc item bytes)
    then show ?thesis using ok run st
      by (cases item) (auto simp: latest_ok_def Publish_def split: if_split_asm)
  next
    case (WatchCall alloc prepared version)
    then show ?thesis using ok run st
      by (cases "lv_watchers st") (auto simp: latest_ok_def WaitForChange_def Let_def intro: antisym [OF order_trans [OF length_filter_le]] split: if_split_asm)
  next
    case LatestCloseCall
    then show ?thesis using ok run st by (auto simp: latest_ok_def LatestValue_Close_def)
  qed
qed

lemma latest_waiter_kept:
  assumes ok: "latest_ok options y" and run: "latest_operation y op pend fresh = (y', due, made)"
    and waits: "latest_waits y i" "pend i" "i < fresh"
  shows "i \<in> fst ` set due \<or> latest_waits y' i"
proof -
  obtain st where st: "ly_handle y = Some st" using latest_state [OF ok] by blast
  obtain watchers where w: "lv_watchers st = Some watchers" "i \<in> set watchers" "\<not> lv_closed st" "lv_version st = ly_seen y i"
    using waits(1) st by (auto simp: latest_waits_def split: option.splits)
  show ?thesis
  proof (cases op)
    case (PublishCall alloc item bytes)
    then show ?thesis using run st w
      by (cases item) (auto simp: latest_waits_def Publish_def complete_all_def image_image split: if_split_asm)
  next
    case (WatchCall alloc prepared version)
    then show ?thesis using run st w waits(2,3)
      by (auto simp: latest_waits_def WaitForChange_def Let_def split: if_split_asm)
  next
    case LatestCloseCall
    then show ?thesis using run st w by (auto simp: latest_waits_def LatestValue_Close_def complete_all_def image_image)
  qed
qed

lemma latest_waiter_made:
  assumes ok: "latest_ok options y" and run: "latest_operation y op pend fresh = (y', due, True)"
  shows "fresh \<in> fst ` set due \<or> latest_waits y' fresh"
proof -
  obtain st where st: "ly_handle y = Some st" using latest_state [OF ok] by blast
  obtain alloc prepared version where op: "op = WatchCall alloc prepared version" using run by (cases op) (auto split: prod.splits)
  show ?thesis using run st unfolding op
    by (cases "lv_watchers st") (auto simp: latest_waits_def WaitForChange_def Let_def split: if_split_asm)
qed

interpretation latest: wait_board latest_operation "latest_ok options" latest_waits for options
  by unfold_locales (fact latest_ok_kept latest_waiter_kept latest_waiter_made)+

section \<open>Properties\<close>

text \<open>
  C36. A bounded channel neither loses, duplicates nor reorders values, and no waiting client is forgotten: over
  all interleavings of sends, receives, subscriptions, withdrawals, closing and completions, the values sent
  are the values received followed by those in the queue, the queue stays within both limits, every
  subscription is completed at most once, and a subscription that is pending and not about to be completed
  waits for something that does not hold: a reader of an open, empty channel, or a writer of an open channel
  that has no room for the bytes this writer asked for.
\<close>

theorem Channel_lossless_no_lost_wakeup:
  assumes "Channel_Create alloc options = Inr created"
    and "b = foldl (board_step channel_operation) (board_start (channel_start created)) steps"
  shows "distinct (map fst (bd_log b)) \<and>
    (\<exists>st. cy_handle (bd_state b) = Some st \<and> cy_sent (bd_state b) = cy_received (bd_state b) @ map fst (ch_queue st) \<and>
      length (ch_queue st) \<le> co_maxMessages options \<and> ch_bytes st = sum_list (map snd (ch_queue st)) \<and> ch_bytes st \<le> co_maxRetainedBytes options \<and>
      (\<forall>i. pending_in (bd_subscriptions b) i \<and> i \<notin> fst ` set (bd_due b) \<longrightarrow>
         \<not> ch_closed st \<and>
         (ch_read st = Some i \<and> ch_queue st = [] \<or> ch_write st = Some i \<and> \<not> Channel_CanSend st (cy_wants (bd_state b) i))))"
proof -
  have start: "channel_ok options (channel_start created)"
    using assms(1) by (auto simp: channel_ok_def channel_start_def ChannelState_create_def Channel_Create_def split: if_split_asm)
  note run = channel.no_lost_wakeup [OF start assms(2)]
  obtain st where st: "cy_handle (bd_state b) = Some st" using run(1) by (auto simp: channel_ok_def split: option.splits)
  have "\<not> ch_closed st \<and> (ch_read st = Some i \<and> ch_queue st = [] \<or> ch_write st = Some i \<and> \<not> Channel_CanSend st (cy_wants (bd_state b) i))"
    if "pending_in (bd_subscriptions b) i" "i \<notin> fst ` set (bd_due b)" for i
    using run(2) [OF that] st by (auto simp: channel_waits_def)
  then show ?thesis using run(1,3) st by (auto simp: channel_ok_def)
qed

theorem Channel_lossless_no_lost_wakeup_witness:
  "\<exists>st. cy_handle (bd_state (foldl (board_step channel_operation)
        (board_start (channel_start (ChannelState_create \<lparr>co_maxMessages = 1, co_maxRetainedBytes = 8\<rparr> :: nat ChannelState)))
        [Operate (SendCall True (Some 7) 5), Operate (SubscribeCall True True 4), Operate (ReceiveCall False False), Deliver 0])) = Some st \<and>
      length (ch_queue st) \<le> 1"
proof -
  have "Channel_Create True \<lparr>co_maxMessages = 1, co_maxRetainedBytes = 8\<rparr> = Inr (ChannelState_create \<lparr>co_maxMessages = 1, co_maxRetainedBytes = 8\<rparr> :: nat ChannelState)"
    by (simp add: Channel_Create_def)
  from Channel_lossless_no_lost_wakeup [OF this refl,
      of "[Operate (SendCall True (Some 7) 5), Operate (SubscribeCall True True 4), Operate (ReceiveCall False False), Deliver 0]"]
  show ?thesis by (auto simp del: foldl_Cons board_step.simps)
qed

text \<open>
  C37. Observers of a latest value miss no change: over all interleavings the version counts the published
  values and never wraps, the stored value is the last one published, the list of watchers is never used
  through an empty pointer, every subscription is completed at most once, and a pending subscription that is
  not about to be completed has seen the current version of a value that is not closed. A read behind an older
  version returns the newest value.
\<close>

theorem LatestValue_no_missed_change:
  assumes "LatestValue_Create alloc options = Inr created"
    and "b = foldl (board_step latest_operation) (board_start (latest_start created)) steps"
  shows "\<not> ly_crashed (bd_state b) \<and> distinct (map fst (bd_log b)) \<and> length (ly_published (bd_state b)) < 2 ^ 64 \<and>
      (\<forall>i. pending_in (bd_subscriptions b) i \<and> i \<notin> fst ` set (bd_due b) \<longrightarrow>
         ly_seen (bd_state b) i = length (ly_published (bd_state b)) \<and> \<not> lv_closed (the (ly_handle (bd_state b)))) \<and>
      (\<forall>version < length (ly_published (bd_state b)).
         LatestValue_ReadImpl version wait False (ly_handle (bd_state b)) =
           Inr (length (ly_published (bd_state b)), Some (last (ly_published (bd_state b)))))"
proof -
  have start: "latest_ok options (latest_start created)"
    using assms(1) by (auto simp: latest_ok_def latest_start_def LatestValueState_create_def LatestValue_Create_def split: if_split_asm)
  note run = latest.no_lost_wakeup [OF start assms(2)]
  obtain st where st: "ly_handle (bd_state b) = Some st" using latest_state [OF run(1)] by blast
  have facts: "\<not> ly_crashed (bd_state b)" "lv_version st = length (ly_published (bd_state b))" "lv_version st < 2 ^ 64"
      "lv_value st = (if ly_published (bd_state b) = [] then None else Some (last (ly_published (bd_state b))))"
    using run(1) st by (auto simp: latest_ok_def)
  have "ly_seen (bd_state b) i = length (ly_published (bd_state b)) \<and> \<not> lv_closed (the (ly_handle (bd_state b)))"
    if "pending_in (bd_subscriptions b) i" "i \<notin> fst ` set (bd_due b)" for i
    using run(2) [OF that] st facts(2) by (auto simp: latest_waits_def)
  moreover have "LatestValue_ReadImpl version wait False (ly_handle (bd_state b)) = Inr (length (ly_published (bd_state b)), Some (last (ly_published (bd_state b))))"
    if "version < length (ly_published (bd_state b))" for version
    using that st facts(2,4) by (auto simp: LatestValue_ReadImpl_def)
  ultimately show ?thesis using facts run(3) by auto
qed

theorem LatestValue_no_missed_change_witness:
  "LatestValue_ReadImpl 0 False False (ly_handle (bd_state (foldl (board_step latest_operation)
       (board_start (latest_start (LatestValueState_create \<lparr>lo_maxRetainedBytes = 8, lo_maxSubscriptions = 1\<rparr> :: nat LatestValueState)))
       [Operate (WatchCall True True 0), Operate (PublishCall True (Some 5) 3)]))) = Inr (1, Some 5)"
proof -
  let ?st = "LatestValueState_create \<lparr>lo_maxRetainedBytes = 8, lo_maxSubscriptions = 1\<rparr> :: nat LatestValueState"
  let ?steps = "[Operate (WatchCall True True 0), Operate (PublishCall True (Some 5) 3)]"
  have "LatestValue_Create True \<lparr>lo_maxRetainedBytes = 8, lo_maxSubscriptions = 1\<rparr> = Inr ?st" by (simp add: LatestValue_Create_def)
  note run = LatestValue_no_missed_change [OF this refl, of ?steps False]
  have "ly_published (bd_state (foldl (board_step latest_operation) (board_start (latest_start ?st)) ?steps)) = [5]"
    by (simp add: board_start_def latest_start_def LatestValueState_create_def WaitForChange_def Publish_def)
  then show ?thesis using run by (simp del: foldl_Cons board_step.simps)
qed

end
