(* ===== verification/HttpPolicy.thy ===== *)
theory HttpPolicy
  imports RequestData TrustedProxy ResponseEncoding
begin

text \<open>
  Request policies (\<^verbatim>\<open>src/Web/HttpPolicy.cpp\<close>): the pipeline of rules on path prefixes, and the steps for common
  headers, request identifiers, cross-origin requests and proxy metadata. A step is a function from the
  request to its result; a rule without a step is \<open>None\<close>. The helpers of \<^verbatim>\<open>PolicyInternal.h\<close> are those of the header text.
\<close>

section \<open>Canonical paths\<close>

definition unsafe_part :: "string \<Rightarrow> bool" where
  "unsafe_part part \<longleftrightarrow>
     part = ''.'' \<or> part = ''..'' \<or> list_ex (\<lambda>c. uchar c < 32 \<or> uchar c = 127 \<or> c = CHR ''/'' \<or> c = CHR 0x5C) part"

fun canonical_parts :: "bool \<Rightarrow> string \<Rightarrow> string list \<Rightarrow> string result" where
  "canonical_parts alloc path [] = Inr path"
| "canonical_parts alloc path (raw # rest) =
     (case PercentDecodeComponent alloc raw False 16384 of
        Inl code \<Rightarrow> Inl code
      | Inr part \<Rightarrow>
          if unsafe_part part then Inl InvalidFormat
          else if rest = [] then Inr (path @ part)
          else canonical_parts alloc (path @ part @ ''/'') rest)"

definition CanonicalPath :: "bool \<Rightarrow> string \<Rightarrow> string result" where
  "CanonicalPath alloc raw =
     (if raw = [] \<or> hd raw \<noteq> CHR ''/'' \<or> length raw > 16384 \<or> CHR 0x3F \<in> set raw \<or> CHR ''#'' \<in> set raw then Inl InvalidFormat
      else canonical_parts alloc ''/'' (parts_at (CHR ''/'') (tl raw)))"

definition Prefix :: "string \<Rightarrow> string \<Rightarrow> bool" where
  "Prefix path prefix \<longleftrightarrow>
     prefix = ''/'' \<or> begins path prefix \<and> (length path = length prefix \<or> path ! length prefix = CHR ''/'')"

section \<open>Header fields of policies\<close>

definition PolicyHeader :: "string \<Rightarrow> string \<Rightarrow> bool" where
  "PolicyHeader name field \<longleftrightarrow>
     IsToken name \<and> ValidHeaderValue field \<and> \<not> EqualInsensitive name ''content-length'' \<and> \<not> EqualInsensitive name ''transfer-encoding'' \<and>
     \<not> EqualInsensitive name ''connection'' \<and> \<not> EqualInsensitive name ''trailer'' \<and> \<not> EqualInsensitive name ''upgrade''"

text \<open>The bytes counted so far with the fields added; \<open>None\<close> is a refusal.\<close>

fun account_fields :: "bool \<Rightarrow> nat \<Rightarrow> nat \<Rightarrow> HttpHeaders \<Rightarrow> nat option" where
  "account_fields headers limit bytes [] = Some bytes"
| "account_fields headers limit bytes ((name, field) # rest) =
     (if headers \<and> \<not> PolicyHeader name field then None
      else if length name > limit - bytes then None
      else if length field > limit - (bytes + length name) then None
      else account_fields headers limit (bytes + length name + length field) rest)"

definition Account :: "HttpHeaders \<Rightarrow> nat \<Rightarrow> nat \<Rightarrow> bool \<Rightarrow> nat option" where
  "Account entries bytes limit headers = (if length entries > 256 then None else account_fields headers limit bytes entries)"

definition SetHeader :: "HttpHeaders \<Rightarrow> string \<Rightarrow> string \<Rightarrow> HttpHeaders" where
  "SetHeader headers name field =
     (if EqualInsensitive name ''set-cookie'' then headers else filter (\<lambda>(n, _). \<not> EqualInsensitive n name) headers) @ [(name, field)]"

definition combine_vary :: "HttpHeaders \<Rightarrow> string \<Rightarrow> string" where
  "combine_vary target field = foldl (\<lambda>v (n, previous). if EqualInsensitive n ''vary'' then previous @ '', '' @ v else v) field target"

definition merge_field :: "bool \<Rightarrow> HttpHeaders \<Rightarrow> string \<times> string \<Rightarrow> HttpHeaders" where
  "merge_field headers target entry =
     (case entry of (name, field) \<Rightarrow>
        if headers then SetHeader target name (if EqualInsensitive name ''vary'' then combine_vary target field else field)
        else filter (\<lambda>(n, _). n \<noteq> name) target @ [(name, field)])"

definition Merge :: "HttpHeaders \<Rightarrow> HttpHeaders \<Rightarrow> bool \<Rightarrow> HttpHeaders" where
  "Merge target source headers = foldl (merge_field headers) target source"

definition Single :: "HttpHeaders \<Rightarrow> string \<Rightarrow> string option result" where
  "Single entries name =
     (case filter (\<lambda>(n, _). EqualInsensitive n name) entries of
        [] \<Rightarrow> Inr None
      | [(_, field)] \<Rightarrow> Inr (Some (Trim field))
      | _ \<Rightarrow> Inl InvalidFormat)"

definition Origin :: "string \<Rightarrow> bool" where
  "Origin s \<longleftrightarrow>
     s = ''null'' \<or>
     (case find_at ''://'' s 0 of
        None \<Rightarrow> False
      | Some split \<Rightarrow> (take split s = ''http'' \<or> take split s = ''https'') \<and> Authority (drop (split + 3) s))"

fun join_from :: "string \<Rightarrow> string list \<Rightarrow> string" where
  "join_from out [] = out"
| "join_from out (item # items) = join_from ((if out \<noteq> [] then out @ '', '' else out) @ item) items"

definition Join :: "string list \<Rightarrow> string" where
  "Join items = join_from [] items"

section \<open>The pipeline\<close>

record HttpPolicyResult =
  pr_responseHeaders :: HttpHeaders
  pr_attributes :: HttpHeaders
  pr_response :: "HttpResponse option"

definition HttpPolicyResult_empty :: HttpPolicyResult where
  "HttpPolicyResult_empty = \<lparr>pr_responseHeaders = [], pr_attributes = [], pr_response = None\<rparr>"

type_synonym HttpPolicyStep = "HttpRequest \<Rightarrow> bool \<Rightarrow> HttpPolicyResult result"

record HttpPolicyRule =
  pu_pathPrefix :: string
  pu_step :: "HttpPolicyStep option"

record HttpPolicyLimits =
  pl_maxRules :: nat
  pl_maxMetadataBytes :: nat
  pl_maxResponseBodyBytes :: nat

record HttpPolicyPipeline =
  pp_rules :: "HttpPolicyRule list"
  pp_limits :: HttpPolicyLimits

definition Rejected :: "nat \<Rightarrow> HttpPolicyResult" where
  "Rejected status =
     HttpPolicyResult_empty\<lparr>pr_responseHeaders := [(''vary'', ''Origin'')],
       pr_response := Some \<lparr>rs_status = status, rs_headers = [], rs_body = [], rs_close = False\<rparr>\<rparr>"

text \<open>The prefix of a rule in canonical form, without a slash at its end.\<close>

definition rule_prefix :: "bool \<Rightarrow> string \<Rightarrow> string result" where
  "rule_prefix alloc raw =
     (case CanonicalPath alloc raw of
        Inl _ \<Rightarrow> Inl InvalidArgument
      | Inr path \<Rightarrow> Inr (if length path > 1 \<and> last path = CHR ''/'' then butlast path else path))"

fun prepare_rules :: "bool \<Rightarrow> nat \<Rightarrow> nat \<Rightarrow> HttpPolicyRule list \<Rightarrow> HttpPolicyRule list result" where
  "prepare_rules alloc limit bytes [] = Inr []"
| "prepare_rules alloc limit bytes (rule # rules) =
     (if pu_step rule = None then Inl InvalidArgument
      else case rule_prefix alloc (pu_pathPrefix rule) of
        Inl code \<Rightarrow> Inl code
      | Inr path \<Rightarrow>
          if length path > limit - bytes then Inl TooLarge
          else case prepare_rules alloc limit (bytes + length path) rules of
            Inl code \<Rightarrow> Inl code
          | Inr prepared \<Rightarrow> Inr (rule\<lparr>pu_pathPrefix := path\<rparr> # prepared))"

definition Pipeline_Create :: "bool \<Rightarrow> HttpPolicyRule list \<Rightarrow> HttpPolicyLimits \<Rightarrow> HttpPolicyPipeline result" where
  "Pipeline_Create alloc rules limits =
     (if pl_maxRules limits = 0 \<or> pl_maxRules limits > 256 \<or> length rules > pl_maxRules limits \<or>
         pl_maxMetadataBytes limits = 0 \<or> pl_maxMetadataBytes limits > 1024 * 1024 \<or>
         pl_maxResponseBodyBytes limits = 0 \<or> pl_maxResponseBodyBytes limits > 16 * 1024 * 1024
      then Inl InvalidArgument
      else case prepare_rules alloc (pl_maxMetadataBytes limits) 0 rules of
        Inl code \<Rightarrow> Inl code
      | Inr prepared \<Rightarrow> if \<not> alloc then Inl PlatformError else Inr \<lparr>pp_rules = prepared, pp_limits = limits\<rparr>)"

text \<open>Both lists of a result within the metadata limit: the bytes they take.\<close>

definition account_both :: "HttpPolicyLimits \<Rightarrow> HttpHeaders \<Rightarrow> HttpHeaders \<Rightarrow> nat option" where
  "account_both limits responseHeaders attributes =
     (case Account responseHeaders 0 (pl_maxMetadataBytes limits) True of
        None \<Rightarrow> None
      | Some bytes \<Rightarrow> Account attributes bytes (pl_maxMetadataBytes limits) False)"

text \<open>The result of one step is added; the flag says that it is a complete response.\<close>

definition add_result :: "HttpPolicyLimits \<Rightarrow> HttpPolicyResult \<Rightarrow> HttpPolicyResult \<Rightarrow> (bool \<times> HttpPolicyResult) result" where
  "add_result limits result item =
     (if account_both limits (pr_responseHeaders item) (pr_attributes item) = None then Inl TooLarge
      else
        let responseHeaders = Merge (pr_responseHeaders result) (pr_responseHeaders item) True;
            attributes = Merge (pr_attributes result) (pr_attributes item) False
        in case account_both limits responseHeaders attributes of
             None \<Rightarrow> Inl TooLarge
           | Some bytes \<Rightarrow>
               (case pr_response item of
                  None \<Rightarrow> Inr (False, result\<lparr>pr_responseHeaders := responseHeaders, pr_attributes := attributes\<rparr>)
                | Some response \<Rightarrow>
                    if length (rs_body response) > pl_maxResponseBodyBytes limits \<or>
                       Account (rs_headers response) bytes (pl_maxMetadataBytes limits) True = None
                    then Inl TooLarge
                    else Inr (True,
                      result\<lparr>pr_responseHeaders := [], pr_attributes := attributes,
                        pr_response := Some (response\<lparr>rs_headers := Merge responseHeaders (rs_headers response) True\<rparr>)\<rparr>)))"

fun evaluate_rules :: "HttpPolicyLimits \<Rightarrow> string \<Rightarrow> HttpRequest \<Rightarrow> bool \<Rightarrow> HttpPolicyResult \<Rightarrow> HttpPolicyRule list \<Rightarrow> HttpPolicyResult result" where
  "evaluate_rules limits path request upgrade result [] = Inr result"
| "evaluate_rules limits path request upgrade result (rule # rules) =
     (if \<not> Prefix path (pu_pathPrefix rule) then evaluate_rules limits path request upgrade result rules
      else case the (pu_step rule) request upgrade of
        Inl code \<Rightarrow> Inl code
      | Inr item \<Rightarrow>
          (case add_result limits result item of
             Inl code \<Rightarrow> Inl code
           | Inr (True, final) \<Rightarrow> Inr final
           | Inr (False, next_result) \<Rightarrow> evaluate_rules limits path request upgrade next_result rules))"

definition Evaluate :: "bool \<Rightarrow> HttpPolicyPipeline \<Rightarrow> HttpRequest \<Rightarrow> bool \<Rightarrow> HttpPolicyResult result" where
  "Evaluate alloc pipeline request upgrade =
     (case CanonicalPath alloc (Path request) of
        Inl code \<Rightarrow> Inl code
      | Inr path \<Rightarrow> evaluate_rules (pp_limits pipeline) path request upgrade HttpPolicyResult_empty (pp_rules pipeline))"

section \<open>Steps\<close>

definition CommonHeadersPolicy :: "bool \<Rightarrow> HttpHeaders \<Rightarrow> HttpPolicyStep result" where
  "CommonHeadersPolicy alloc headers =
     (if Account headers 0 16384 True = None then Inl InvalidArgument
      else if \<not> alloc then Inl PlatformError
      else Inr (\<lambda>request upgrade. Inr (HttpPolicyResult_empty\<lparr>pr_responseHeaders := headers\<rparr>)))"

record RequestIdOptions =
  ri_headerName :: string
  ri_acceptIncoming :: bool
  ri_maxBytes :: nat

definition RequestIdPolicy :: "bool \<Rightarrow> RequestIdOptions \<Rightarrow> RequestIdOptions result" where
  "RequestIdPolicy alloc options =
     (if \<not> IsToken (ri_headerName options) \<or> \<not> PolicyHeader (ri_headerName options) ''id'' \<or> length (ri_headerName options) > 128 \<or>
         ri_maxBytes options < 24 \<or> ri_maxBytes options > 1024
      then Inl InvalidArgument
      else if \<not> alloc then Inl PlatformError else Inr options)"

text \<open>The step with the process-wide counter, which is advanced by one compare-and-swap.\<close>

definition request_id_step :: "RequestIdOptions \<Rightarrow> HttpRequest \<Rightarrow> nat \<Rightarrow> HttpPolicyResult result \<times> nat" where
  "request_id_step options request counter =
     (let tag = (\<lambda>i. HttpPolicyResult_empty\<lparr>pr_responseHeaders := [(ri_headerName options, i)], pr_attributes := [(''request_id'', i)]\<rparr>);
          generated = (if counter = 2 ^ 64 - 1 then (Inl TooLarge, counter) else (Inr (tag (''sc-'' @ to_chars_nat counter)), counter + 1))
      in if \<not> ri_acceptIncoming options then generated
         else case Single (rq_headers request) (ri_headerName options) of
           Inl _ \<Rightarrow> (Inl InvalidFormat, counter)
         | Inr None \<Rightarrow> generated
         | Inr (Some incoming) \<Rightarrow>
             if length incoming > ri_maxBytes options \<or> \<not> IsToken incoming then (Inl InvalidFormat, counter)
             else (Inr (tag incoming), counter))"

record CorsOptions =
  cr_allowedOrigins :: "string list"
  cr_allowedMethods :: "string list"
  cr_allowedHeaders :: "string list"
  cr_exposedHeaders :: "string list"
  cr_allowCredentials :: bool
  cr_maxAge :: int

text \<open>The header names a preflight asks for: an error, a refusal (\<open>None\<close>), or the names without repetitions.\<close>

fun requested_headers :: "string list \<Rightarrow> string list \<Rightarrow> string list \<Rightarrow> string list option result" where
  "requested_headers allowedHeaders allowed [] = Inr (Some allowed)"
| "requested_headers allowedHeaders allowed (part # parts) =
     (let name = map Lower (Trim part)
      in if \<not> IsToken name \<or> length allowed \<ge> 128 then Inl InvalidFormat
         else if name \<notin> set allowedHeaders then Inr None
         else requested_headers allowedHeaders (if name \<in> set allowed then allowed else allowed @ [name]) parts)"

definition preflight :: "CorsOptions \<Rightarrow> HttpRequest \<Rightarrow> string \<Rightarrow> HttpPolicyResult \<Rightarrow> HttpPolicyResult result" where
  "preflight options request verb result =
     (if \<not> IsToken verb then Inl InvalidFormat
      else if verb \<notin> set (cr_allowedMethods options) then Inr (Rejected 403)
      else case Single (rq_headers request) ''access-control-request-headers'' of
        Inl _ \<Rightarrow> Inl InvalidFormat
      | Inr requested \<Rightarrow>
          if (case requested of None \<Rightarrow> False | Some names \<Rightarrow> length names > 8192) then Inl TooLarge
          else case (case requested of None \<Rightarrow> Inr (Some []) | Some names \<Rightarrow> requested_headers (cr_allowedHeaders options) [] (comma_parts names)) of
            Inl code \<Rightarrow> Inl code
          | Inr None \<Rightarrow> Inr (Rejected 403)
          | Inr (Some allowed) \<Rightarrow>
              Inr (result\<lparr>
                pr_responseHeaders := pr_responseHeaders result @ [(''access-control-allow-methods'', Join (cr_allowedMethods options))] @
                  (if allowed \<noteq> [] then [(''access-control-allow-headers'', Join allowed)] else []) @
                  [(''access-control-max-age'', to_chars_nat (nat (cr_maxAge options))),
                   (''vary'', ''Access-Control-Request-Method, Access-Control-Request-Headers'')],
                pr_response := Some \<lparr>rs_status = 204, rs_headers = [], rs_body = [], rs_close = False\<rparr>\<rparr>))"

definition cors_step :: "CorsOptions \<Rightarrow> bool \<Rightarrow> HttpPolicyStep" where
  "cors_step options wildcard request upgrade =
     (if upgrade then Inr HttpPolicyResult_empty
      else case Single (rq_headers request) ''origin'' of
        Inl _ \<Rightarrow> Inl InvalidFormat
      | Inr None \<Rightarrow> Inr (HttpPolicyResult_empty\<lparr>pr_responseHeaders := [(''vary'', ''Origin'')]\<rparr>)
      | Inr (Some origin) \<Rightarrow>
          if \<not> Origin origin then Inl InvalidFormat
          else if \<not> wildcard \<and> origin \<notin> set (cr_allowedOrigins options) then Inr (Rejected 403)
          else
            let result = HttpPolicyResult_empty\<lparr>pr_responseHeaders :=
                  [(''vary'', ''Origin''), (''access-control-allow-origin'', if wildcard then ''*'' else origin)] @
                  (if cr_allowCredentials options then [(''access-control-allow-credentials'', ''true'')] else [])\<rparr>
            in case Single (rq_headers request) ''access-control-request-method'' of
                 Inl _ \<Rightarrow> Inl InvalidFormat
               | Inr verb \<Rightarrow>
                   if rq_method request = ''OPTIONS'' \<and> verb \<noteq> None then preflight options request (the verb) result
                   else Inr (if cr_exposedHeaders options \<noteq> []
                             then result\<lparr>pr_responseHeaders := pr_responseHeaders result @ [(''access-control-expose-headers'', Join (cr_exposedHeaders options))]\<rparr>
                             else result))"

definition valid_name :: "string \<Rightarrow> bool" where
  "valid_name name \<longleftrightarrow> IsToken name \<and> name \<noteq> ''*''"

definition CorsPolicy :: "bool \<Rightarrow> CorsOptions \<Rightarrow> HttpPolicyStep result" where
  "CorsPolicy alloc options =
     (let origins = cr_allowedOrigins options; names = cr_allowedMethods options @ cr_allowedHeaders options @ cr_exposedHeaders options;
          wildcard = (''*'' \<in> set origins)
      in if origins = [] \<or> length origins > 128 \<or> cr_allowedMethods options = [] \<or> length (cr_allowedMethods options) > 64 \<or>
            length (cr_allowedHeaders options) > 128 \<or> length (cr_exposedHeaders options) > 128 \<or>
            cr_maxAge options < 0 \<or> cr_maxAge options > 24 * 3600
         then Inl InvalidArgument
         else if \<not> list_all (\<lambda>origin. origin = ''*'' \<or> Origin origin) origins then Inl InvalidArgument
         else if wildcard \<and> (cr_allowCredentials options \<or> length origins \<noteq> 1) then Inl InvalidArgument
         else if \<not> list_all valid_name names then Inl InvalidArgument
         else if sum_list (map length (origins @ names)) > 16384 then Inl TooLarge
         else if \<not> alloc then Inl PlatformError
         else Inr (cors_step (options\<lparr>cr_allowedHeaders := map (map Lower) (cr_allowedHeaders options)\<rparr>) wildcard))"

text \<open>The transport peer is a member of the request, given separately; printing an address always returns a text.\<close>

definition proxy_metadata_step :: "bool \<Rightarrow> TrustedProxyOptions \<Rightarrow> IpEndpoint \<Rightarrow> HttpPolicyStep" where
  "proxy_metadata_step alloc policy remote request upgrade =
     (case Resolve alloc policy remote (rq_headers request) of
        Inl code \<Rightarrow> Inl code
      | Inr peer \<Rightarrow>
          (case IpAddress_ToString (ep_address (pp_client peer)) of
             None \<Rightarrow> Inl PlatformError
           | Some address \<Rightarrow>
               Inr (HttpPolicyResult_empty\<lparr>pr_attributes :=
                 [(''client_ip'', address), (''client_port'', to_chars_nat (unat (ep_port (pp_client peer))))] @
                 (if pp_proto peer \<noteq> [] then [(''forwarded_proto'', pp_proto peer)] else []) @
                 (if pp_host peer \<noteq> [] then [(''forwarded_host'', pp_host peer)] else [])\<rparr>)))"

section \<open>Paths as segments\<close>

fun slash_join :: "string list \<Rightarrow> string" where
  "slash_join [] = []"
| "slash_join [d] = d"
| "slash_join (d # e # ds) = d @ CHR ''/'' # slash_join (e # ds)"

text \<open>The segments between the slashes of a path, each decoded once.\<close>

definition decodes_to :: "string \<Rightarrow> string list \<Rightarrow> bool" where
  "decodes_to raw ds \<longleftrightarrow> list_all2 (\<lambda>part d. PercentDecodeComponent True part False 16384 = Inr d) (parts_at (CHR ''/'') (tl raw)) ds"

definition without_last_empty :: "string list \<Rightarrow> string list" where
  "without_last_empty ds = (if last ds = [] then butlast ds else ds)"

lemma slash_join_append: "ds \<noteq> [] \<Longrightarrow> es \<noteq> [] \<Longrightarrow> slash_join (ds @ es) = slash_join ds @ CHR ''/'' # slash_join es"
  by (induction ds rule: slash_join.induct) (auto simp: neq_Nil_conv)

lemma PercentDecode_alloc: "PercentDecodeComponent alloc part form limit = Inr d \<Longrightarrow> PercentDecodeComponent True part form limit = Inr d"
  by (auto simp: PercentDecodeComponent_def split: if_split_asm)

lemma canonical_parts_decoded:
  "canonical_parts alloc path parts = Inr p \<Longrightarrow>
   \<exists>ds. list_all2 (\<lambda>part d. PercentDecodeComponent True part False 16384 = Inr d \<and> CHR ''/'' \<notin> set d) parts ds \<and> p = path @ slash_join ds"
proof (induction alloc path parts rule: canonical_parts.induct)
  case (2 alloc path raw rest)
  obtain part where part: "PercentDecodeComponent alloc raw False 16384 = Inr part" "\<not> unsafe_part part"
    using "2.prems" by (auto split: sum.splits if_split_asm)
  then have here: "PercentDecodeComponent True raw False 16384 = Inr part \<and> CHR ''/'' \<notin> set part"
    using PercentDecode_alloc by (auto simp: unsafe_part_def list_ex_iff)
  show ?case
  proof (cases rest)
    case Nil
    then show ?thesis using "2.prems" part here by (intro exI [of _ "[part]"]) simp
  next
    case (Cons r rs)
    then obtain ds where ds: "list_all2 (\<lambda>part d. PercentDecodeComponent True part False 16384 = Inr d \<and> CHR ''/'' \<notin> set d) rest ds"
        "p = (path @ part @ ''/'') @ slash_join ds"
      using "2.IH" [OF part] "2.prems" part by auto
    then obtain e es where "ds = e # es" using Cons by (cases ds) auto
    then show ?thesis using ds here by (intro exI [of _ "part # ds"]) simp
  qed
qed auto

lemma CanonicalPath_decoded:
  assumes "CanonicalPath alloc raw = Inr path" "decodes_to raw ds"
  shows "path = CHR ''/'' # slash_join ds \<and> ds \<noteq> [] \<and> (\<forall>d \<in> set ds. CHR ''/'' \<notin> set d)"
proof -
  obtain es where es: "list_all2 (\<lambda>part d. PercentDecodeComponent True part False 16384 = Inr d \<and> CHR ''/'' \<notin> set d) (parts_at (CHR ''/'') (tl raw)) es"
      "path = ''/'' @ slash_join es"
    using canonical_parts_decoded [of alloc "''/''" "parts_at (CHR ''/'') (tl raw)" path] assms(1)
    by (auto simp: CanonicalPath_def split: if_split_asm)
  have "es = ds"
    using es(1) assms(2) unfolding decodes_to_def by (auto simp: list_all2_conv_all_nth intro!: nth_equalityI)
  moreover have "es \<noteq> []" using es(1) parts_at_nonempty [of "CHR ''/''" "tl raw"] by auto
  moreover have "\<forall>d \<in> set es. CHR ''/'' \<notin> set d" using es(1) by (auto simp: list_all2_conv_all_nth in_set_conv_nth)
  ultimately show ?thesis using es(2) by simp
qed

lemma slash_join_last: "ds \<noteq> [] \<Longrightarrow> last ds \<noteq> [] \<Longrightarrow> slash_join ds \<noteq> [] \<and> last (slash_join ds) = last (last ds)"
  by (induction ds rule: slash_join.induct) auto

lemma rule_prefix_decoded:
  assumes "rule_prefix alloc raw = Inr prefix" "decodes_to raw ds"
  shows "prefix = CHR ''/'' # slash_join (without_last_empty ds)"
proof -
  obtain path where path: "CanonicalPath alloc raw = Inr path" "prefix = (if length path > 1 \<and> last path = CHR ''/'' then butlast path else path)"
    using assms(1) by (auto simp: rule_prefix_def split: sum.splits)
  note d = CanonicalPath_decoded [OF path(1) assms(2)]
  show ?thesis
  proof (cases "last ds = []")
    case False
    then have "last (last ds) \<noteq> CHR ''/''" using d by (metis last_in_set)
    then show ?thesis using path(2) d False slash_join_last [of ds] by (auto simp: without_last_empty_def)
  next
    case True
    then have ds: "ds = butlast ds @ [[]]" using d by (metis append_butlast_last_id)
    show ?thesis
    proof (cases "butlast ds = []")
      case True
      then have "ds = [[]]" using ds by simp
      then show ?thesis using path(2) d by (simp add: without_last_empty_def)
    next
      case False
      have "slash_join ds = slash_join (butlast ds) @ ''/''" by (subst ds) (simp add: slash_join_append [OF False])
      then show ?thesis using path(2) d True by (auto simp: without_last_empty_def butlast_append)
    qed
  qed
qed

lemma Prefix_segments: "Prefix (CHR ''/'' # slash_join (ds @ others)) (CHR ''/'' # slash_join ds)"
  by (cases "ds = []"; cases "others = []") (auto simp: Prefix_def slash_join_append nth_append)

section \<open>No rule is bypassed\<close>

lemma add_result_response: "add_result limits result item = Inr (final, r) \<Longrightarrow> final = (pr_response item \<noteq> None) \<and> (final \<longrightarrow> pr_response r \<noteq> None)"
  by (auto simp: add_result_def Let_def split: if_split_asm option.split_asm)

lemma evaluate_rules_allow:
  "evaluate_rules limits path request upgrade result rules = Inr final \<Longrightarrow> pr_response final = None \<Longrightarrow> rule \<in> set rules \<Longrightarrow>
   Prefix path (pu_pathPrefix rule) \<Longrightarrow> \<exists>item. the (pu_step rule) request upgrade = Inr item \<and> pr_response item = None"
proof (induction limits path request upgrade result rules rule: evaluate_rules.induct)
  case (2 limits path request upgrade result first rules)
  show ?case
  proof (cases "Prefix path (pu_pathPrefix first)")
    case True
    then obtain item final' r where item: "the (pu_step first) request upgrade = Inr item" "add_result limits result item = Inr (final', r)"
      using "2.prems"(1) by (auto split: sum.splits prod.splits)
    then have "\<not> final'" using "2.prems"(1,2) True add_result_response [OF item(2)] by (auto split: bool.splits)
    then show ?thesis using "2.IH"(2) [OF _ item(1)] "2.prems" True item add_result_response [OF item(2)] by auto
  qed (use 2 in auto)
qed simp

lemma prepare_rules_member:
  "prepare_rules alloc limit bytes rules = Inr prepared \<Longrightarrow> rule \<in> set rules \<Longrightarrow>
   \<exists>prefix. rule_prefix alloc (pu_pathPrefix rule) = Inr prefix \<and> rule\<lparr>pu_pathPrefix := prefix\<rparr> \<in> set prepared"
proof (induction alloc limit bytes rules arbitrary: prepared rule: prepare_rules.induct)
  case (2 alloc limit bytes first rules)
  then obtain path rest where first: "rule_prefix alloc (pu_pathPrefix first) = Inr path" "\<not> length path > limit - bytes" "pu_step first \<noteq> None"
      "prepare_rules alloc limit (bytes + length path) rules = Inr rest" "prepared = first\<lparr>pu_pathPrefix := path\<rparr> # rest"
    by (auto split: if_split_asm sum.split_asm)
  then show ?case using "2.IH" [OF first(3,1,2,4)] "2.prems"(2) by auto
qed simp

lemma Evaluate_asks_rules:
  assumes "Pipeline_Create alloc rules limits = Inr pipeline" "rule \<in> set rules" "pu_step rule = Some step"
    and "Evaluate alloc' pipeline request upgrade = Inr result" "pr_response result = None"
    and "decodes_to (pu_pathPrefix rule) ps" "decodes_to (Path request) (without_last_empty ps @ others)"
  shows "\<exists>item. step request upgrade = Inr item \<and> pr_response item = None"
proof -
  obtain prepared where prepared: "prepare_rules alloc (pl_maxMetadataBytes limits) 0 rules = Inr prepared" "pp_rules pipeline = prepared"
    using assms(1) by (auto simp: Pipeline_Create_def split: if_split_asm sum.split_asm)
  then obtain prefix where prefix: "rule_prefix alloc (pu_pathPrefix rule) = Inr prefix" "rule\<lparr>pu_pathPrefix := prefix\<rparr> \<in> set (pp_rules pipeline)"
    using prepare_rules_member [OF prepared(1) assms(2)] by auto
  obtain path where path: "CanonicalPath alloc' (Path request) = Inr path"
      "evaluate_rules (pp_limits pipeline) path request upgrade HttpPolicyResult_empty (pp_rules pipeline) = Inr result"
    using assms(4) by (auto simp: Evaluate_def split: sum.split_asm)
  have "Prefix path prefix"
    using rule_prefix_decoded [OF prefix(1) assms(6)] CanonicalPath_decoded [OF path(1) assms(7)] Prefix_segments by auto
  then show ?thesis using evaluate_rules_allow [OF path(2) assms(5) prefix(2)] assms(3) by simp
qed

section \<open>Cross-origin requests\<close>

lemma requested_headers_allowed:
  "requested_headers allowedHeaders allowed parts = Inr (Some names) \<Longrightarrow> part \<in> set parts \<Longrightarrow> map Lower (Trim part) \<in> set allowedHeaders"
  by (induction allowedHeaders allowed parts rule: requested_headers.induct) (auto simp: Let_def split: if_split_asm)

lemma CorsPolicy_step:
  assumes "CorsPolicy alloc options = Inr step"
  shows "step = cors_step (options\<lparr>cr_allowedHeaders := map (map Lower) (cr_allowedHeaders options)\<rparr>) (''*'' \<in> set (cr_allowedOrigins options))"
    "''*'' \<in> set (cr_allowedOrigins options) \<Longrightarrow> cr_allowedOrigins options = [''*''] \<and> \<not> cr_allowCredentials options"
  using assms by (auto simp: CorsPolicy_def Let_def length_Suc_conv split: if_split_asm)

lemma preflight_cases:
  assumes "preflight options request verb result = Inr final"
  shows "final = Rejected 403 \<or>
    (verb \<in> set (cr_allowedMethods options) \<and> pr_response final \<noteq> None \<and>
     set (pr_responseHeaders final) \<subseteq> set (pr_responseHeaders result) \<union>
       {entry. fst entry \<in> {''access-control-allow-methods'', ''access-control-allow-headers'', ''access-control-max-age'', ''vary''}} \<and>
     set (pr_responseHeaders result) \<subseteq> set (pr_responseHeaders final) \<and>
     (\<forall>names. Single (rq_headers request) ''access-control-request-headers'' = Inr (Some names) \<longrightarrow>
        (\<forall>part \<in> set (comma_parts names). map Lower (Trim part) \<in> set (cr_allowedHeaders options))))"
proof -
  show ?thesis
  proof (cases "final = Rejected 403")
    case False
    then obtain requested where req: "Single (rq_headers request) ''access-control-request-headers'' = Inr requested"
      using assms by (auto simp: preflight_def split: if_split_asm sum.split_asm)
    let ?list = "case requested of None \<Rightarrow> Inr (Some []) | Some names \<Rightarrow> requested_headers (cr_allowedHeaders options) [] (comma_parts names)"
    obtain allowed where allowed: "?list = Inr (Some allowed)" "verb \<in> set (cr_allowedMethods options)"
      using assms req False by (auto simp: preflight_def split: if_split_asm sum.split_asm option.split_asm)
    then have "\<forall>names. requested = Some names \<longrightarrow> (\<forall>part \<in> set (comma_parts names). map Lower (Trim part) \<in> set (cr_allowedHeaders options))"
      using requested_headers_allowed by auto
    moreover have "final = result\<lparr>
          pr_responseHeaders := pr_responseHeaders result @ [(''access-control-allow-methods'', Join (cr_allowedMethods options))] @
            (if allowed \<noteq> [] then [(''access-control-allow-headers'', Join allowed)] else []) @
            [(''access-control-max-age'', to_chars_nat (nat (cr_maxAge options))),
             (''vary'', ''Access-Control-Request-Method, Access-Control-Request-Headers'')],
          pr_response := Some \<lparr>rs_status = 204, rs_headers = [], rs_body = [], rs_close = False\<rparr>\<rparr>"
      using assms req allowed False unfolding preflight_def by (simp split: if_split_asm)
    ultimately show ?thesis using allowed(2) req by auto
  qed simp
qed

definition granted :: "CorsOptions \<Rightarrow> bool \<Rightarrow> string \<Rightarrow> HttpHeaders" where
  "granted options wildcard origin =
     [(''vary'', ''Origin''), (''access-control-allow-origin'', if wildcard then ''*'' else origin)] @
     (if cr_allowCredentials options then [(''access-control-allow-credentials'', ''true'')] else [])"

definition other_cors_names :: "string set" where
  "other_cors_names = {''access-control-allow-methods'', ''access-control-allow-headers'', ''access-control-max-age'', ''vary'', ''access-control-expose-headers''}"

lemma cors_step_cases:
  assumes "cors_step options wildcard request False = Inr result"
  shows "Single (rq_headers request) ''origin'' = Inr None \<and> pr_responseHeaders result = [(''vary'', ''Origin'')] \<and> pr_response result = None \<or>
    result = Rejected 403 \<or>
    (\<exists>origin. Single (rq_headers request) ''origin'' = Inr (Some origin) \<and> (wildcard \<or> origin \<in> set (cr_allowedOrigins options)) \<and>
       set (granted options wildcard origin) \<subseteq> set (pr_responseHeaders result) \<and>
       set (pr_responseHeaders result) \<subseteq> set (granted options wildcard origin) \<union> {entry. fst entry \<in> other_cors_names} \<and>
       (pr_response result \<noteq> None \<longrightarrow>
          (\<exists>verb \<in> set (cr_allowedMethods options). Single (rq_headers request) ''access-control-request-method'' = Inr (Some verb)) \<and>
          (\<forall>names. Single (rq_headers request) ''access-control-request-headers'' = Inr (Some names) \<longrightarrow>
             (\<forall>part \<in> set (comma_parts names). map Lower (Trim part) \<in> set (cr_allowedHeaders options)))))"
proof (cases "Single (rq_headers request) ''origin'' = Inr None \<or> result = Rejected 403")
  case True
  then show ?thesis using assms by (auto simp: cors_step_def HttpPolicyResult_empty_def)
next
  case False
  then obtain origin where origin: "Single (rq_headers request) ''origin'' = Inr (Some origin)" "wildcard \<or> origin \<in> set (cr_allowedOrigins options)" "Origin origin"
    using assms by (auto simp: cors_step_def split: sum.split_asm option.split_asm if_split_asm)
  let ?base = "HttpPolicyResult_empty\<lparr>pr_responseHeaders := granted options wildcard origin\<rparr>"
  obtain verb where verb: "Single (rq_headers request) ''access-control-request-method'' = Inr verb"
    using assms origin by (auto simp: cors_step_def Let_def split: sum.split_asm if_split_asm)
  have run: "cors_step options wildcard request False =
      (if rq_method request = ''OPTIONS'' \<and> verb \<noteq> None then preflight options request (the verb) ?base
       else Inr (if cr_exposedHeaders options \<noteq> []
                 then ?base\<lparr>pr_responseHeaders := pr_responseHeaders ?base @ [(''access-control-expose-headers'', Join (cr_exposedHeaders options))]\<rparr>
                 else ?base))"
    using origin verb unfolding cors_step_def granted_def Let_def by auto
  show ?thesis
  proof (cases "rq_method request = ''OPTIONS'' \<and> verb \<noteq> None")
    case True
    then have "preflight options request (the verb) ?base = Inr result" using assms run by simp
    from preflight_cases [OF this] have "set (granted options wildcard origin) \<subseteq> set (pr_responseHeaders result) \<and>
       set (pr_responseHeaders result) \<subseteq> set (granted options wildcard origin) \<union> {entry. fst entry \<in> other_cors_names} \<and>
       the verb \<in> set (cr_allowedMethods options) \<and>
       (\<forall>names. Single (rq_headers request) ''access-control-request-headers'' = Inr (Some names) \<longrightarrow>
             (\<forall>part \<in> set (comma_parts names). map Lower (Trim part) \<in> set (cr_allowedHeaders options)))"
      using False by (auto simp: other_cors_names_def)
    moreover have "verb = Some (the verb)" using True by simp
    ultimately show ?thesis using origin verb by (metis (no_types, lifting))
  next
    case no: False
    then have "result = (if cr_exposedHeaders options \<noteq> []
                 then ?base\<lparr>pr_responseHeaders := pr_responseHeaders ?base @ [(''access-control-expose-headers'', Join (cr_exposedHeaders options))]\<rparr>
                 else ?base)" using assms run by auto
    then have "set (granted options wildcard origin) \<subseteq> set (pr_responseHeaders result)"
        "set (pr_responseHeaders result) \<subseteq> set (granted options wildcard origin) \<union> {entry. fst entry \<in> other_cors_names}" "pr_response result = None"
      by (auto simp: other_cors_names_def HttpPolicyResult_empty_def)
    then show ?thesis using origin by blast
  qed
qed

lemma granted_fields:
  assumes "set (granted options wildcard origin) \<subseteq> hs" "hs \<subseteq> set (granted options wildcard origin) \<union> {entry. fst entry \<in> other_cors_names}"
  shows "(''access-control-allow-origin'', v) \<in> hs \<Longrightarrow> v = (if wildcard then ''*'' else origin)"
    "(''access-control-allow-credentials'', v) \<in> hs \<Longrightarrow> cr_allowCredentials options"
    "(''access-control-allow-origin'', if wildcard then ''*'' else origin) \<in> hs"
  using assms by (auto simp: granted_def other_cors_names_def split: if_split_asm)


definition cors_sample :: CorsOptions where
  "cors_sample = \<lparr>cr_allowedOrigins = [''null'', ''https://a.b''], cr_allowedMethods = [''PUT''], cr_allowedHeaders = [''X-A''],
     cr_exposedHeaders = [], cr_allowCredentials = True, cr_maxAge = 60\<rparr>"

definition cors_request :: HttpRequest where
  "cors_request = \<lparr>rq_method = ''OPTIONS'', rq_target = ''/'', rq_headers = [(''origin'', ''https://a.b''),
     (''access-control-request-method'', ''PUT''), (''access-control-request-headers'', ''x-a'')], rq_body = []\<rparr>"


end
