(* ===== verification/JsonBody.thy ===== *)
theory JsonBody
  imports HttpPolicy JsonProps EndpointProps
begin

text \<open>
  JSON bodies and error reports of the web server, and the request policy that a pipeline becomes
  (\<^verbatim>\<open>src/Web/HttpPolicy.cpp\<close>). The decision object of a request belongs to the server; the policy is the
  sequence of calls it makes of that object, given which of them succeed.
\<close>

section \<open>JSON requests and responses\<close>

definition json_charset :: "string \<Rightarrow> bool" where
  "json_charset parameter \<longleftrightarrow>
     EqualInsensitive parameter ''charset=utf-8'' \<or> EqualInsensitive parameter (''charset='' @ [CHR 0x22] @ ''utf-8'' @ [CHR 0x22])"

definition ParseJsonBody :: "'d FloatLib \<Rightarrow> HttpRequest \<Rightarrow> nat \<Rightarrow> 'd JsonValue result option" where
  "ParseJsonBody fl request maxBytes =
     (if maxBytes = 0 \<or> length (rq_body request) > maxBytes then Some (Inl TooLarge)
      else case Single (rq_headers request) ''content-type'' of
        Inl _ \<Rightarrow> Some (Inl InvalidFormat)
      | Inr None \<Rightarrow> Some (Inl InvalidFormat)
      | Inr (Some field) \<Rightarrow>
          (case cut_at (CHR 0x3B) field of (kind, rest) \<Rightarrow>
             if \<not> EqualInsensitive (Trim kind) ''application/json'' then Some (Inl InvalidFormat)
             else if (case rest of None \<Rightarrow> False | Some parameter \<Rightarrow> \<not> json_charset (Trim parameter)) then Some (Inl InvalidFormat)
             else JsonValue_Parse fl (rq_body request) SIZE_MAX))"

definition JsonResponse :: "bool \<Rightarrow> 'd FloatLib \<Rightarrow> 'd JsonValue \<Rightarrow> nat \<Rightarrow> nat \<Rightarrow> HttpResponse result" where
  "JsonResponse alloc fl value status maxBytes =
     (if status < 200 \<or> status > 599 \<or> maxBytes = 0 then Inl InvalidArgument
      else case JsonValue_Dump fl value of
        Inl code \<Rightarrow> Inl code
      | Inr encoded \<Rightarrow>
          if length encoded > maxBytes then Inl TooLarge
          else if \<not> alloc then Inl PlatformError
          else Inr \<lparr>rs_status = status, rs_headers = [(''content-type'', ''application/json'')], rs_body = encoded, rs_close = False\<rparr>)"

section \<open>Error reports\<close>

definition default_status :: "ErrorCode \<Rightarrow> nat" where
  "default_status error =
     (case error of
        InvalidArgument \<Rightarrow> 400 | InvalidFormat \<Rightarrow> 400 | TooLarge \<Rightarrow> 413 | NotFound \<Rightarrow> 404 | AlreadyExists \<Rightarrow> 409 | Closed \<Rightarrow> 503
      | WouldBlock \<Rightarrow> 429 | Timeout \<Rightarrow> 504 | Cancelled \<Rightarrow> 408 | Unimplemented \<Rightarrow> 501 | _ \<Rightarrow> 500)"

definition problem_title :: "nat \<Rightarrow> string" where
  "problem_title status =
     (if status = 409 then ''Conflict'' else if status = 429 then ''Too Many Requests'' else if status = 504 then ''Gateway Timeout''
      else ReasonPhrase status)"

text \<open>The numbers of the error codes (\<^verbatim>\<open>include/ServerCore/Core/Error.h\<close>).\<close>

definition code_number :: "ErrorCode \<Rightarrow> 64 word" where
  "code_number error =
     (case error of
        Ok \<Rightarrow> 0 | InvalidArgument \<Rightarrow> 1 | InvalidFormat \<Rightarrow> 2 | TooLarge \<Rightarrow> 3 | NotFound \<Rightarrow> 4 | AlreadyExists \<Rightarrow> 5 | Closed \<Rightarrow> 6
      | WouldBlock \<Rightarrow> 7 | PlatformError \<Rightarrow> 8 | Unimplemented \<Rightarrow> 9 | UnknownType \<Rightarrow> 10 | Timeout \<Rightarrow> 11 | Cancelled \<Rightarrow> 12)"

definition problem_body :: "ErrorCode \<Rightarrow> string \<Rightarrow> nat \<Rightarrow> 'd JsonValue" where
  "problem_body error requestId status =
     JObject (foldl (\<lambda>body (key, value). fst (emplace key value body)) []
       ([(''type'', JString ''about:blank''), (''title'', JString (problem_title status)),
         (''status'', JNumber (NUInt64 (of_nat status))), (''code'', JNumber (NUInt64 (code_number error)))] @
        (if requestId \<noteq> [] then [(''request_id'', JString requestId)] else [])))"

definition ErrorResponse :: "bool \<Rightarrow> 'd FloatLib \<Rightarrow> ErrorCode \<Rightarrow> string \<Rightarrow> nat \<Rightarrow> HttpResponse result" where
  "ErrorResponse alloc fl error requestId status0 =
     (if error = Ok \<or> length requestId > 1024 then Inl InvalidArgument
      else
        let status = (if status0 = 0 then default_status error else status0)
        in if status < 400 \<or> status > 599 then Inl InvalidArgument
           else if \<not> alloc then Inl PlatformError
           else case JsonResponse alloc fl (problem_body error requestId status) status 16384 of
             Inl code \<Rightarrow> Inl code
           | Inr response \<Rightarrow>
               Inr (response\<lparr>rs_headers := (fst (hd (rs_headers response)), ''application/problem+json'') # tl (rs_headers response)\<rparr>))"

section \<open>The request policy of a pipeline\<close>

datatype DecisionCall = Allow HttpHeaders HttpHeaders | Reject HttpResponse | Abort

definition then_abort :: "(DecisionCall \<Rightarrow> bool) \<Rightarrow> DecisionCall \<Rightarrow> DecisionCall list" where
  "then_abort accepts c = (if accepts c then [c] else [c, Abort])"

definition AsRequestPolicy ::
    "bool \<Rightarrow> 'd FloatLib \<Rightarrow> (DecisionCall \<Rightarrow> bool) \<Rightarrow> HttpPolicyPipeline \<Rightarrow> HttpRequest \<Rightarrow> bool \<Rightarrow> DecisionCall list" where
  "AsRequestPolicy alloc fl accepts pipeline request upgrade =
     (case Evaluate alloc pipeline request upgrade of
        Inl code \<Rightarrow>
          (case ErrorResponse alloc fl code [] 0 of
             Inl _ \<Rightarrow> [Abort]
           | Inr response \<Rightarrow> then_abort accepts (Reject response))
      | Inr result \<Rightarrow>
          then_abort accepts
            (case pr_response result of
               Some response \<Rightarrow> Reject response
             | None \<Rightarrow> Allow (pr_responseHeaders result) (pr_attributes result)))"

section \<open>Bodies survive the wire\<close>

text \<open>
  A JSON response is read back by the code that reads JSON requests: if a value is encoded as a response,
  then a request that carries the content type and the body of that response is parsed to the same value, up
  to the sign of the type a non-negative integer has, under any size limit that admits the body.
\<close>

theorem JsonBody_round_trip:
  assumes "FloatLib_ok fl" "keys_sorted v" "value_count v \<le> SIZE_MAX"
    and "JsonResponse alloc fl v status maxBytes = Inr response"
    and "rq_headers request = rs_headers response" "rq_body request = rs_body response"
    and "length (rs_body response) \<le> limit" "0 < limit"
  shows "ParseJsonBody fl request limit = Some (Inr (canon v))"
proof -
  have out: "JsonValue_Dump fl v = Inr (rs_body response)" "rs_headers response = [(''content-type'', ''application/json'')]"
    using assms(4) by (auto simp: JsonResponse_def split: if_split_asm sum.split_asm)
  have "Single (rq_headers request) ''content-type'' = Inr (Some ''application/json'')"
    using assms(5) out(2) by (simp add: Single_def EqualInsensitive_def Trim_def)
  moreover have "cut_at (CHR 0x3B) ''application/json'' = (''application/json'', None)" by (simp add: cut_at_def)
  ultimately have "ParseJsonBody fl request limit = JsonValue_Parse fl (rs_body response) SIZE_MAX"
    using assms(6-8) by (simp add: ParseJsonBody_def EqualInsensitive_def Trim_def)
  then show ?thesis using Parse_Dump [OF assms(1,2) out(1) assms(3)] by simp
qed

theorem JsonBody_round_trip_witness:
  "\<exists>response. JsonResponse True int_lib (JArray [JNull, JBool True]) 200 64 = Inr response \<and>
     ParseJsonBody int_lib (HttpRequest_empty\<lparr>rq_headers := rs_headers response, rq_body := rs_body response\<rparr>) 64 =
       Some (Inr (JArray [JNull, JBool True]))"
proof -
  let ?v = "JArray [JNull, JBool True] :: int JsonValue"
  have dump: "JsonValue_Dump int_lib ?v = Inr ''[null, true]''"
    by (simp add: JsonValue_Dump_def DumpJsonAtDepth_def DumpValue.simps MaximumJsonNestingDepth_def)
  then obtain response where r: "JsonResponse True int_lib ?v 200 64 = Inr response" "rs_body response = ''[null, true]''"
    by (simp add: JsonResponse_def)
  have "ParseJsonBody int_lib (HttpRequest_empty\<lparr>rq_headers := rs_headers response, rq_body := rs_body response\<rparr>) 64 = Some (Inr (canon ?v))"
    by (rule JsonBody_round_trip [OF int_lib_ok _ _ r(1)]) (simp_all add: SIZE_MAX_def r(2))
  then show ?thesis using r(1) by simp
qed

section \<open>Every error is reported\<close>

lemma length_escape_char: "length (escape_char c) \<le> 6"
  by (simp add: escape_char_def Let_def)

lemma length_DumpEscapedString: "length (DumpEscapedString s) \<le> 6 * length s + 2"
proof -
  have "length (concat (map escape_char s)) \<le> 6 * length s"
    by (induction s) (use length_escape_char in \<open>fastforce simp: add_mono\<close>)+
  then show ?thesis by (simp add: DumpEscapedString_def)
qed

lemma default_status_range: "400 \<le> default_status error \<and> default_status error \<le> 599"
  by (simp add: default_status_def split: ErrorCode.split)

lemma problem_body_members:
  "problem_body error requestId status = JObject (
     (''code'', JNumber (NUInt64 (code_number error))) #
     (if requestId \<noteq> [] then [(''request_id'', JString requestId)] else []) @
     [(''status'', JNumber (NUInt64 (of_nat status))), (''title'', JString (problem_title status)), (''type'', JString ''about:blank'')])"
  unfolding problem_body_def by (simp add: less_char_def)

lemma problem_title_text: "IsValidUtf8 (problem_title status) \<and> length (problem_title status) \<le> 40"
proof -
  have "list_all (\<lambda>c. uchar c < 128) (problem_title status) \<and> length (problem_title status) \<le> 40"
    unfolding problem_title_def ReasonPhrase_def by (simp split: option.split)
  then show ?thesis using ascii_valid by blast
qed

lemma code_number_small: "unat (code_number error) < 10 ^ 3"
  by (cases error) (simp_all add: code_number_def)

lemma Dump_problem:
  assumes "IsValidUtf8 requestId" "length requestId \<le> 1024" "status \<le> 599"
  shows "\<exists>out. JsonValue_Dump fl (problem_body error requestId status) = Inr out \<and> length out \<le> 16384"
proof -
  have keys: "IsValidUtf8 ''code''" "IsValidUtf8 ''request_id''" "IsValidUtf8 ''status''" "IsValidUtf8 ''title''" "IsValidUtf8 ''type''"
      "IsValidUtf8 ''about:blank''"
    by (rule ascii_valid, simp)+
  have n: "uint (word_of_nat status :: 64 word) = int status" using assms(3) by (simp add: unsigned_of_nat take_bit_nat_eq_self_iff)
  have number: "length (to_chars_int (uint (code_number error))) \<le> 3" "length (to_chars_int (int status)) \<le> 3"
    using length_to_chars_nat [of "unat (code_number error)" 3] length_to_chars_nat [of status 3] code_number_small assms(3)
    by (simp_all add: to_chars_int_def)
  have literal: "length (DumpEscapedString ''code'') = 6" "length (DumpEscapedString ''request_id'') = 12" "length (DumpEscapedString ''status'') = 8"
      "length (DumpEscapedString ''title'') = 7" "length (DumpEscapedString ''type'') = 6" "length (DumpEscapedString ''about:blank'') = 13"
    by (simp_all add: DumpEscapedString_def escape_char_def)
  show ?thesis
    using number problem_title_text [of status] length_DumpEscapedString [of "problem_title status"] length_DumpEscapedString [of requestId] assms
    by (simp add: problem_body_members JsonValue_Dump_def DumpJsonAtDepth_def DumpValue.simps MaximumJsonNestingDepth_def
       keys DumpNumber_def n literal less_eq_char_def less_char_def del: IsValidUtf8.simps(2))
qed

text \<open>
  C40. Every error can be reported and the report can be read: for every error code, every request identifier in
  UTF-8 of at most 1024 bytes and every admitted status the error response exists, within its size limit
  whatever has to be escaped, and its body is parsed to an object with that status, the number of the code,
  the title of the status, and the identifier if there is one.
\<close>

theorem ErrorResponse_reports:
  assumes "FloatLib_ok fl" "error \<noteq> Ok" "IsValidUtf8 requestId" "length requestId \<le> 1024"
    and "status = (if status0 = 0 then default_status error else status0)" "400 \<le> status" "status \<le> 599"
  shows "\<exists>response members. ErrorResponse True fl error requestId status0 = Inr response \<and> rs_status response = status \<and>
     rs_headers response = [(''content-type'', ''application/problem+json'')] \<and>
     JsonValue_Parse fl (rs_body response) SIZE_MAX = Some (Inr (JObject members)) \<and>
     map_of members ''status'' = Some (JNumber (NUInt64 (of_nat status))) \<and>
     map_of members ''code'' = Some (JNumber (NUInt64 (code_number error))) \<and>
     map_of members ''title'' = Some (JString (problem_title status)) \<and>
     map_of members ''request_id'' = (if requestId = [] then None else Some (JString requestId))"
proof -
  let ?body = "problem_body error requestId status"
  obtain out where out: "JsonValue_Dump fl ?body = Inr out" "length out \<le> 16384"
    using Dump_problem [OF assms(3,4,7)] by blast
  have "keys_sorted ?body" "value_count ?body \<le> SIZE_MAX"
    by (simp_all add: problem_body_members SIZE_MAX_def less_char_def)
  from Parse_Dump [OF assms(1) this(1) out(1) this(2)] have again: "JsonValue_Parse fl out SIZE_MAX = Some (Inr (canon ?body))" .
  have made: "ErrorResponse True fl error requestId status0 =
      Inr \<lparr>rs_status = status, rs_headers = [(''content-type'', ''application/problem+json'')], rs_body = out, rs_close = False\<rparr>"
    using assms out by (simp add: ErrorResponse_def JsonResponse_def Let_def assms(5) [symmetric] del: if_split)
  obtain members where "JsonValue_Parse fl out SIZE_MAX = Some (Inr (JObject members))" "members = (''code'', JNumber (NUInt64 (code_number error))) #
     (if requestId \<noteq> [] then [(''request_id'', JString requestId)] else []) @
     [(''status'', JNumber (NUInt64 (of_nat status))), (''title'', JString (problem_title status)), (''type'', JString ''about:blank'')]"
    using again by (simp add: problem_body_members)
  with made show ?thesis by (cases "requestId = []") simp_all
qed

theorem ErrorResponse_reports_witness:
  "\<exists>response members. ErrorResponse True int_lib NotFound ''r1'' 0 = Inr response \<and> rs_status response = 404 \<and>
     JsonValue_Parse int_lib (rs_body response) SIZE_MAX = Some (Inr (JObject members)) \<and>
     map_of members ''title'' = Some (JString ''Not Found'') \<and> map_of members ''request_id'' = Some (JString ''r1'')"
proof -
  have "IsValidUtf8 ''r1''" by (rule ascii_valid) simp
  from ErrorResponse_reports [OF int_lib_ok _ this, of NotFound 404 0] show ?thesis
    by (fastforce simp: default_status_def problem_title_def ReasonPhrase_def)
qed

section \<open>What a policy allows\<close>

lemma AsRequestPolicy_Allow:
  "Allow headers attributes \<in> set (AsRequestPolicy alloc fl accepts pipeline request upgrade) \<Longrightarrow>
   \<exists>result. Evaluate alloc pipeline request upgrade = Inr result \<and> pr_response result = None"
  by (auto simp: AsRequestPolicy_def then_abort_def split: sum.split_asm option.split_asm if_split_asm)

text \<open>
  C38. No rule of a policy pipeline can be bypassed by the spelling of a path: if the request policy of a
  pipeline allows a request, then every rule whose prefix, decoded into segments, begins the decoded segments of the request path has been
  asked, and has neither failed nor answered. How the two paths are escaped makes no difference, nor does a
  slash at the end of the prefix, and the prefix \<^verbatim>\<open>/\<close> reaches every request.
\<close>

theorem Policy_not_bypassed:
  assumes "Pipeline_Create alloc rules limits = Inr pipeline" "rule \<in> set rules" "pu_step rule = Some step"
    and "Allow headers attributes \<in> set (AsRequestPolicy alloc' fl accepts pipeline request upgrade)"
    and "decodes_to (pu_pathPrefix rule) ps" "decodes_to (Path request) (without_last_empty ps @ others)"
  shows "\<exists>item. step request upgrade = Inr item \<and> pr_response item = None"
proof -
  obtain result where "Evaluate alloc' pipeline request upgrade = Inr result" "pr_response result = None"
    using AsRequestPolicy_Allow [OF assms(4)] by blast
  then show ?thesis by (rule Evaluate_asks_rules [OF assms(1-3) _ _ assms(5,6)])
qed

theorem Policy_not_bypassed_witness:
  "let step = (\<lambda>request upgrade. Inr HttpPolicyResult_empty); request = HttpRequest_empty\<lparr>rq_target := ''/%61/b''\<rparr>;
       pipeline = Pipeline_Create True [\<lparr>pu_pathPrefix = ''/a/'', pu_step = Some step\<rparr>]
         \<lparr>pl_maxRules = 1, pl_maxMetadataBytes = 64, pl_maxResponseBodyBytes = 64\<rparr>
   in (\<exists>p. pipeline = Inr p \<and> Allow [] [] \<in> set (AsRequestPolicy True int_lib (\<lambda>_. True) p request False)) \<and>
      (\<exists>item. step request False = (Inr item :: HttpPolicyResult result) \<and> pr_response item = None)"
proof -
  let ?step = "\<lambda>request upgrade. Inr HttpPolicyResult_empty :: HttpPolicyResult result"
  let ?rule = "\<lparr>pu_pathPrefix = ''/a/'', pu_step = Some ?step\<rparr>"
  let ?limits = "\<lparr>pl_maxRules = 1, pl_maxMetadataBytes = 64, pl_maxResponseBodyBytes = 64\<rparr>"
  let ?request = "HttpRequest_empty\<lparr>rq_target := ''/%61/b''\<rparr>"
  have texts: "Text ''a''" "Text ''b''" "Text []" by (simp_all add: Text_def IsValidUtf8_ascii del: IsValidUtf8.simps(2))
  have letter: "char_of (97 :: nat) = CHR ''a''" by code_simp
  have decode: "PercentDecodeComponent True ''a'' False 16384 = Inr ''a''" "PercentDecodeComponent True ''%61'' False 16384 = Inr ''a''"
      "PercentDecodeComponent True ''b'' False 16384 = Inr ''b''" "PercentDecodeComponent True [] False 16384 = Inr []"
    by (simp_all add: PercentDecodeComponent_def texts Hex_def letter)
  have parts: "parts_at (CHR ''/'') ''a/'' = [''a'', []]" "parts_at (CHR ''/'') ''%61/b'' = [''%61'', ''b'']" by code_simp+
  have paths: "CanonicalPath True ''/a/'' = Inr ''/a/''" "CanonicalPath True ''/%61/b'' = Inr ''/a/b''"
    by (simp_all add: CanonicalPath_def parts decode unsafe_part_def)
  have path: "Path ?request = ''/%61/b''" by (simp add: Path_def cut_at_def HttpRequest_empty_def)
  have made: "Pipeline_Create True [?rule] ?limits = Inr \<lparr>pp_rules = [\<lparr>pu_pathPrefix = ''/a'', pu_step = Some ?step\<rparr>], pp_limits = ?limits\<rparr>"
    by (simp add: Pipeline_Create_def rule_prefix_def paths)
  have run: "Evaluate True \<lparr>pp_rules = [\<lparr>pu_pathPrefix = ''/a'', pu_step = Some ?step\<rparr>], pp_limits = ?limits\<rparr> ?request False = Inr HttpPolicyResult_empty"
    by (simp add: Evaluate_def path paths Prefix_def add_result_def HttpPolicyResult_empty_def account_both_def Account_def Merge_def)
  have allowed: "Allow [] [] \<in> set (AsRequestPolicy True int_lib (\<lambda>_. True) \<lparr>pp_rules = [\<lparr>pu_pathPrefix = ''/a'', pu_step = Some ?step\<rparr>], pp_limits = ?limits\<rparr> ?request False)"
    unfolding AsRequestPolicy_def run by (simp add: HttpPolicyResult_empty_def then_abort_def)
  have "\<exists>item. ?step ?request False = Inr item \<and> pr_response item = None"
    by (rule Policy_not_bypassed [OF made _ _ allowed, where rule = ?rule and ps = "[''a'', []]" and others = "[''b'']"])
       (simp_all add: decodes_to_def path parts decode without_last_empty_def)
  then show ?thesis unfolding Let_def using made allowed by blast
qed

end
