(* ===== verification/Spec2Isabelle.thy ===== *)
theory Spec2Isabelle
  imports ByteBuffer Dispatcher SessionRegistry ReceivePath SendNotify EndpointProps Utf8Fragments WebSocketFrame ChunkedBody
    RouteTable TrustedProxy WebSocketHandshake RequestData MultipartAccount Channel HttpPolicy JsonBody
begin

text \<open>
  ServerCore: a verification development.

  \<^bold>\<open>The program.\<close> ServerCore is a C++ library for message servers. Bytes received on a connection are
  cut into frames (\<^verbatim>\<open>src/Protocol/Framing.cpp\<close>, \<^verbatim>\<open>include/ServerCore/Protocol/FrameCodec.h\<close>), a frame body
  is a JSON envelope (\<^verbatim>\<open>src/Protocol/Message.cpp\<close>, \<^verbatim>\<open>src/Protocol/Json.cpp\<close>) or a binary one
  (\<^verbatim>\<open>src/Protocol/BinaryMessage.cpp\<close>), the envelope is handed to the handler registered for its type
  (\<^verbatim>\<open>src/Dispatch/Dispatcher.cpp\<close>) on behalf of a numbered session (\<^verbatim>\<open>src/Session/SessionRegistry.cpp\<close>).
  What is received and not yet handled is charged to budgets of the session and the host
  (\<^verbatim>\<open>src/Runtime/ServerHostNetworkSession.h\<close>, \<^verbatim>\<open>src/Core/AtomicBudgetInternal.h\<close>); what is to be sent waits in
  a queue under a budget of the connection and the host (\<^verbatim>\<open>src/Net/SendQueueInternal.cpp\<close>,
  \<^verbatim>\<open>src/Net/SendBudgetInternal.cpp\<close>), and producers that found no room are called back when there is
  (\<^verbatim>\<open>src/Net/ConnectionFlowControl.cpp\<close>, \<^verbatim>\<open>src/Core/CompletionSubscription.cpp\<close>). A web server shares the lower
  layers (\<^verbatim>\<open>src/Web\<close>).

  \<^bold>\<open>How the program is modelled.\<close> A class is a record with the members of the class, an operation is a
  function from the old to the new record. A \<^verbatim>\<open>Status\<close> or \<^verbatim>\<open>Result<T>\<close> is an \<open>ErrorCode\<close> or a sum with the
  error on the left; a call that would run into an assertion or leave the contract of the class has the
  result \<open>None\<close>. Memory allocation is an argument of the operations that allocate: each proof covers the
  failing allocation as well. Spans are byte lists with explicit offsets where the code moves offsets;
  machine integers are words where the code relies on wrap-around and naturals where the bounds are
  proved. Concurrent code is a relation or a run of atomic steps, one per critical section or atomic
  access, over all interleavings.

  \<^bold>\<open>The theories.\<close>
  \<^item> \<open>Prelude\<close>: error codes, bytes, storage regions, bit fields as arithmetic (collection \<open>bit_nat\<close>).
  \<^item> \<open>ByteBuffer\<close>: \<^verbatim>\<open>src/Core/ByteBuffer.cpp\<close>, with the invariant of the two positions; writing stores the
    longest prefix that fits and a buffer relays any sequence of pieces without loss.
  \<^item> \<open>Utf8\<close>, \<open>Utf8Fragments\<close>: the validator of \<^verbatim>\<open>src/Core/Utf8.cpp\<close> accepts exactly the encodings of Unicode
    scalar values, and the incremental validator of WebSocket text agrees with it for every cut.
  \<^item> \<open>StreamDecoder\<close>, \<open>FrameCodec\<close>, \<open>Framing\<close>: the locale of an incremental decoder with its cut-independence,
    and its interpretations for the non-owning reader and the owning \<^verbatim>\<open>FrameReader\<close>; refinement of the
    one-shot splitting of a stream, round trips with the encoders, the byte counter, and admission control.
  \<^item> \<open>WireCodec\<close>, \<open>BinaryIO\<close>: the locale of a field codec, interpreted for the fields of
    \<^verbatim>\<open>src/Protocol/BinaryIO.cpp\<close>; round trip of any sequence of fields, atomic failure, protocol negotiation
    and the binary envelope.
  \<^item> \<open>Decimals\<close>, \<open>Json\<close>, \<open>JsonProps\<close>, \<open>JsonSound\<close>, \<open>Message\<close>: the JSON parser and printer with their limits
    (the recursion takes fuel; \<open>JsonProps\<close> shows that the fuel of the entry points always suffices), their
    round trip, stability of parsed values, and the message envelope.
  \<^item> \<open>KeyedTable\<close>, \<open>Dispatcher\<close>, \<open>SessionRegistry\<close>: the locale of a lookup table and its providers
    (\<open>RouteTable\<close> is the third); routing, freezing, unknown types, and issuing of session numbers by many threads.
  \<^item> \<open>Budget\<close>, \<open>ReceivePath\<close>: the locale of a lease budget with its interpretations for the receive and parse
    budgets; every frame is charged once and released once, whatever the order of events.
  \<^item> \<open>SendQueue\<close>, \<open>Completion\<close>, \<open>SendNotify\<close>: the send path: lossless and within budget, completions at most
    once, no lost wake-up in the notification handshake, and fairness of a visit of the waiters.
  \<^item> \<open>Endpoint\<close>, \<open>EndpointProps\<close>: numeric addresses and CIDR networks of \<^verbatim>\<open>src/Core/Endpoint.cpp\<close>.
  \<^item> \<open>WebSocketFrame\<close>: frames of \<^verbatim>\<open>src/Web/WebProtocol.cpp\<close>: round trip, and only canonical frames are accepted.
  \<^item> \<open>TextScan\<close>, \<open>HttpText\<close>, \<open>HttpParser\<close>, \<open>HttpParserCut\<close>, \<open>HttpParserBounds\<close>: the HTTP/1 request parser of
    \<^verbatim>\<open>src/Web/WebProtocol.cpp\<close> with the lexical rules of headers; the outcome does not depend on how the input is
    cut, and the counters stay within the limits.
  \<^item> \<open>ResponseEncoding\<close>, \<open>ChunkedBody\<close>: response heads and chunks (\<^verbatim>\<open>src/Web/ResponseEncoding.cpp\<close>): an
    accepted head reads back as exactly its fields with one framing, and the parser reads what the chunk
    encoder wrote.
  \<^item> \<open>RoutePattern\<close>, \<open>RouteTable\<close>: decoding of paths and the routing table of \<^verbatim>\<open>src/Web/RoutePattern.cpp\<close> and
    \<^verbatim>\<open>src/Web/HttpServer.cpp\<close>: decoded segments are safe, and the most specific pattern wins.
  \<^item> \<open>TrustedProxy\<close>: the client address behind proxies (\<^verbatim>\<open>src/Web/TrustedProxy.cpp\<close>), which no text to the left
    of the entries of the trusted proxies can change.
  \<^item> \<open>WebSocketHandshake\<close>: the accept key with SHA-1 and Base64, subprotocols and the checks of an upgrade.
  \<^item> \<open>RequestData\<close>: percent encoding, query and form fields and cookies (\<^verbatim>\<open>src/Web/RequestData.cpp\<close>), with the
    round trip of fields.
  \<^item> \<open>Multipart\<close>, \<open>MultipartSteps\<close>, \<open>MultipartProps\<close>, \<open>MultipartAccount\<close>: the multipart parser of
    \<^verbatim>\<open>src/Web/Multipart.cpp\<close>, the step relation its loop follows, and the account of every byte over all sequences
    of calls: nothing is lost, the limits hold, and a client that releases its events is never stuck. The lemma
    \<open>Multipart_preamble_cut\<close> records that a look-alike of the boundary in the preamble hides the first delimiter
    if both arrive in one piece, and not if they arrive in two.
  \<^item> \<open>WaitBoard\<close>, \<open>Channel\<close>: the locale of operations with subscribers to be completed, and its interpretations
    for the bounded channel and the latest value of \<^verbatim>\<open>include/ServerCore/Runtime/Channel.h\<close>: no value and no
    wake-up is lost.
  \<^item> \<open>HttpPolicy\<close>, \<open>JsonBody\<close>: \<^verbatim>\<open>src/Web/HttpPolicy.cpp\<close>: the pipeline of rules, which the spelling of a path
    cannot bypass; cross-origin requests, which are granted only what is configured; request identifiers,
    common headers and proxy metadata; JSON bodies and error reports with their round trips.

  \<^bold>\<open>Fuel.\<close> \<open>print_words\<close> gets nine turns for eight groups; the JSON parser gets a number of turns that
  depends on the length of the text; both are proved sufficient. All other loops are recursive functions
  with a termination proof.

  \<^bold>\<open>Not modelled.\<close> Sockets, completion ports and epoll, threads and timers of the operating system, files
  and logging, and the C interface: they are input and output, or bindings around the classes above. The
  asynchronous parts of the web server and the life cycle of the host are not modelled, nor is
  \<^verbatim>\<open>RegisterCorsPreflight\<close>, which registers a fixed handler on the server.
\<close>

end
